(* ===== verification/Prelude.thy ===== *)
theory Prelude
  imports Complex_Main "HOL-Library.AList" "HOL-Library.Char_ord"
    "HOL-Library.List_Lexorder" "HOL-Library.Sublist"
begin

text \<open>
  The parts of Go's standard library the source uses, and the lemmas every component shares.

  A Go string is a sequence of bytes: here a \<^typ>\<open>string\<close>, one \<^typ>\<open>char\<close> per byte.
  Go's \<open>sort.Strings\<close> orders by bytes, which is the lexicographic order the library
  instantiates for \<^typ>\<open>string\<close>. A Go map is an association list with distinct keys
  (\<open>AList\<close>); its order is never observed, because the source sorts the keys wherever the
  order could show.

  \<open>ToLower\<close> and \<open>EqualFold\<close> are exact on ASCII and leave every other byte as it is; Go
  also folds letters beyond ASCII. \<open>TrimSpace\<close> is exact: it strips every rune that
  \<open>unicode.IsSpace\<close> accepts, in its UTF-8 encoding.
\<close>

named_theorems go_simps \<open>evaluation of the string operations\<close>
named_theorems frame_simps \<open>fields an operation leaves as they are\<close>

section \<open>Strings\<close>

definition has_prefix :: "string \<Rightarrow> string \<Rightarrow> bool" where
  "has_prefix s p \<longleftrightarrow> take (length p) s = p"

definition has_suffix :: "string \<Rightarrow> string \<Rightarrow> bool" where
  "has_suffix s p \<longleftrightarrow> has_prefix (rev s) (rev p)"

lemma has_prefix_conv: "has_prefix s p \<longleftrightarrow> (\<exists>t. s = p @ t)"
  unfolding has_prefix_def by (metis append_eq_conv_conj append_take_drop_id)

lemma has_prefix_Nil [simp]: "has_prefix s []"
  by (simp add: has_prefix_def)

lemma has_prefix_append [simp]: "has_prefix (p @ s) p"
  by (simp add: has_prefix_def)

fun index_of :: "string \<Rightarrow> string \<Rightarrow> nat option" where
  "index_of [] p = (if p = [] then Some 0 else None)"
| "index_of (c # s) p =
     (if has_prefix (c # s) p then Some 0 else map_option Suc (index_of s p))"

definition contains :: "string \<Rightarrow> string \<Rightarrow> bool" where
  "contains s p \<longleftrightarrow> index_of s p \<noteq> None"

definition last_index_of :: "string \<Rightarrow> string \<Rightarrow> nat option" where
  "last_index_of s p =
     (case index_of (rev s) (rev p) of None \<Rightarrow> None
      | Some i \<Rightarrow> Some (length s - i - length p))"

lemma index_of_Some:
  "index_of s p = Some i \<Longrightarrow> i + length p \<le> length s \<and> take (length p) (drop i s) = p"
proof (induction s p arbitrary: i rule: index_of.induct)
  case (1 p)
  then show ?case by (simp split: if_splits)
next
  case (2 c s p)
  show ?case
  proof (cases "has_prefix (c # s) p")
    case True
    then have "take (length p) (c # s) = p" by (simp add: has_prefix_def)
    moreover from this have "length p \<le> length (c # s)"
      by (metis length_take min.cobounded1)
    ultimately show ?thesis using True "2.prems" by auto
  next
    case False
    with "2.prems" obtain j where "index_of s p = Some j" "i = Suc j" by auto
    with False "2.IH" show ?thesis by auto
  qed
qed

lemma index_of_prefix: "has_prefix s p \<Longrightarrow> index_of s p = Some 0"
  by (cases s) (auto simp: has_prefix_def)

lemma index_of_append: "index_of (a @ p @ b) p \<noteq> None"
proof (induction a)
  case Nil
  then show ?case by (simp add: index_of_prefix)
next
  case (Cons c a)
  then show ?case by auto
qed

lemma contains_conv: "contains s p \<longleftrightarrow> (\<exists>a b. s = a @ p @ b)"
proof
  assume "contains s p"
  then obtain i where i: "index_of s p = Some i" by (auto simp: contains_def)
  from index_of_Some [OF i] have "s = take i s @ p @ drop (i + length p) s"
    by (metis add.commute append_take_drop_id drop_drop)
  then show "\<exists>a b. s = a @ p @ b" by blast
next
  assume "\<exists>a b. s = a @ p @ b"
  then show "contains s p" unfolding contains_def using index_of_append by blast
qed

text \<open>\<open>strings.ReplaceAll\<close> for a non-empty pattern, which is how the source uses it.\<close>

function replace_all :: "string \<Rightarrow> string \<Rightarrow> string \<Rightarrow> string" where
  "replace_all s old new =
     (if old = [] then s
      else case index_of s old of
        None \<Rightarrow> s
      | Some i \<Rightarrow> take i s @ new @ replace_all (drop (i + length old) s) old new)"
  by pat_completeness auto
termination
proof (relation "measure (\<lambda>(s, _, _). length s)")
  show "wf (measure (\<lambda>(s :: string, _ :: string, _ :: string). length s))" by simp
next
  fix s old new :: string and i
  assume "old \<noteq> []" "index_of s old = Some i"
  then show "((drop (i + length old) s, old, new), (s, old, new))
      \<in> measure (\<lambda>(s, _, _). length s)"
    using index_of_Some [of s old i] by (auto simp: less_diff_conv2)
qed

declare replace_all.simps [simp del]

lemma replace_all_absent: "\<not> contains s old \<Longrightarrow> replace_all s old new = s"
  by (subst replace_all.simps) (simp add: contains_def)

subsection \<open>Trimming\<close>

definition ascii_spaces :: "string list" where
  "ascii_spaces = [[CHR 0x20], [CHR 0x0A], [CHR 0x09], [CHR 0x0B], [CHR 0x0C], [CHR 0x0D]]"

definition space_runes :: "string list" where
  "space_runes = ascii_spaces
    @ [[CHR 0xC2, CHR 0x85], [CHR 0xC2, CHR 0xA0], [CHR 0xE1, CHR 0x9A, CHR 0x80],
       [CHR 0xE2, CHR 0x80, CHR 0x80], [CHR 0xE2, CHR 0x80, CHR 0x81],
       [CHR 0xE2, CHR 0x80, CHR 0x82], [CHR 0xE2, CHR 0x80, CHR 0x83],
       [CHR 0xE2, CHR 0x80, CHR 0x84], [CHR 0xE2, CHR 0x80, CHR 0x85],
       [CHR 0xE2, CHR 0x80, CHR 0x86], [CHR 0xE2, CHR 0x80, CHR 0x87],
       [CHR 0xE2, CHR 0x80, CHR 0x88], [CHR 0xE2, CHR 0x80, CHR 0x89],
       [CHR 0xE2, CHR 0x80, CHR 0x8A], [CHR 0xE2, CHR 0x80, CHR 0xA8],
       [CHR 0xE2, CHR 0x80, CHR 0xA9], [CHR 0xE2, CHR 0x80, CHR 0xAF],
       [CHR 0xE2, CHR 0x81, CHR 0x9F], [CHR 0xE3, CHR 0x80, CHR 0x80]]"

text \<open>
  \<open>strip rs s\<close> drops leading runes of \<open>rs\<close>; a trailing trim strips the reversed runes of
  the reversed string. A rune's bytes at the front (or the end) of a byte string decode to
  that rune, so working on bytes is exact.
\<close>

function strip :: "string list \<Rightarrow> string \<Rightarrow> string" where
  "strip rs s =
     (case find (\<lambda>r. r \<noteq> [] \<and> has_prefix s r) rs of
        None \<Rightarrow> s
      | Some r \<Rightarrow> strip rs (drop (length r) s))"
  by pat_completeness auto
termination
proof (relation "measure (\<lambda>(_, s). length s)")
  show "wf (measure (\<lambda>(_ :: string list, s :: string). length s))" by simp
next
  fix rs and s :: string and r
  assume "find (\<lambda>r. r \<noteq> [] \<and> has_prefix s r) rs = Some r"
  then have "r \<noteq> []" "has_prefix s r" by (auto simp: find_Some_iff)
  then show "((rs, drop (length r) s), (rs, s)) \<in> measure (\<lambda>(_, s). length s)"
    by (cases s) (auto simp: has_prefix_def)
qed

declare strip.simps [simp del]

definition trim_left :: "string list \<Rightarrow> string \<Rightarrow> string" where
  "trim_left rs s = strip rs s"

definition trim_right :: "string list \<Rightarrow> string \<Rightarrow> string" where
  "trim_right rs s = rev (strip (map rev rs) (rev s))"

definition trim_runes :: "string list \<Rightarrow> string \<Rightarrow> string" where
  "trim_runes rs s = trim_right rs (trim_left rs s)"

definition trim_space :: "string \<Rightarrow> string" where
  "trim_space s = trim_runes space_runes s"

definition starts_in :: "string list \<Rightarrow> string \<Rightarrow> bool" where
  "starts_in rs s \<longleftrightarrow> (\<exists>r \<in> set rs. r \<noteq> [] \<and> has_prefix s r)"

lemma strip_id: "\<not> starts_in rs s \<Longrightarrow> strip rs s = s"
proof -
  assume "\<not> starts_in rs s"
  then have "find (\<lambda>r. r \<noteq> [] \<and> has_prefix s r) rs = None"
    by (auto simp: find_None_iff starts_in_def)
  then show ?thesis by (subst strip.simps) simp
qed

lemma strip_stripped: "\<not> starts_in rs (strip rs s)"
proof (induction rs s rule: strip.induct)
  case (1 rs s)
  show ?case
  proof (cases "find (\<lambda>r. r \<noteq> [] \<and> has_prefix s r) rs")
    case None
    then have "strip rs s = s" by (subst strip.simps) simp
    with None show ?thesis by (auto simp: find_None_iff starts_in_def)
  next
    case (Some r)
    then have "strip rs s = strip rs (drop (length r) s)" by (subst strip.simps) simp
    with 1 Some show ?thesis by simp
  qed
qed

lemma strip_idem [simp]: "strip rs (strip rs s) = strip rs s"
  by (rule strip_id) (rule strip_stripped)

lemma strip_suffix: "\<exists>t. s = t @ strip rs s"
proof (induction rs s rule: strip.induct)
  case (1 rs s)
  show ?case
  proof (cases "find (\<lambda>r. r \<noteq> [] \<and> has_prefix s r) rs")
    case None
    then show ?thesis by (subst strip.simps) simp
  next
    case (Some r)
    then have e: "strip rs s = strip rs (drop (length r) s)" by (subst strip.simps) simp
    from 1 Some obtain t where "drop (length r) s = t @ strip rs (drop (length r) s)" by blast
    then have "s = (take (length r) s @ t) @ strip rs s"
      by (metis e append.assoc append_take_drop_id)
    then show ?thesis by blast
  qed
qed

lemma trim_right_prefix: "\<exists>t. s = trim_right rs s @ t"
proof -
  obtain t where "rev s = t @ strip (map rev rs) (rev s)" using strip_suffix by blast
  then have "s = trim_right rs s @ rev t"
    unfolding trim_right_def by (metis rev_append rev_rev_ident)
  then show ?thesis by blast
qed

lemma starts_in_append: "starts_in rs s \<Longrightarrow> starts_in rs (s @ t)"
  by (auto simp: starts_in_def has_prefix_conv)

lemma trim_runes_idem [simp]: "trim_runes rs (trim_runes rs s) = trim_runes rs s"
proof -
  let ?t = "trim_runes rs s"
  obtain u where "strip rs s = ?t @ u"
    using trim_right_prefix [of "strip rs s" rs] by (auto simp: trim_runes_def trim_left_def)
  then have "\<not> starts_in rs ?t"
    using strip_stripped [of rs s] starts_in_append [of rs ?t u] by auto
  then have "trim_left rs ?t = ?t" by (simp add: trim_left_def strip_id)
  moreover have "trim_right rs ?t = ?t" by (simp add: trim_runes_def trim_right_def)
  ultimately show ?thesis by (simp add: trim_runes_def)
qed

lemma trim_space_idem [simp]: "trim_space (trim_space s) = trim_space s"
  by (simp add: trim_space_def)

lemma trim_space_Nil [simp]: "trim_space [] = []"
proof -
  have "strip rs [] = []" for rs
    by (rule strip_id) (auto simp: starts_in_def has_prefix_def)
  then show ?thesis by (simp add: trim_space_def trim_runes_def trim_right_def trim_left_def)
qed

lemma trim_space_nonempty: "trim_space s \<noteq> [] \<Longrightarrow> s \<noteq> []"
  by auto

lemma trim_space_length: "length (trim_space s) \<le> length s"
proof -
  have "length (strip rs t) \<le> length t" for rs t
    using strip_suffix [of t rs] by (metis le_add2 length_append)
  then show ?thesis unfolding trim_space_def trim_runes_def trim_left_def trim_right_def
    by (metis le_trans length_rev)
qed

text \<open>A name that needs no trimming is its own trimmed form.\<close>

definition trimmed :: "string \<Rightarrow> bool" where
  "trimmed s \<longleftrightarrow> trim_space s = s"

lemma trimmed_trim [simp]: "trimmed (trim_space s)"
  by (simp add: trimmed_def)

lemma trimmedD: "trimmed s \<Longrightarrow> trim_space s = s"
  by (simp add: trimmed_def)

subsection \<open>Case, splitting, joining, numbers\<close>

definition lower_char :: "char \<Rightarrow> char" where
  "lower_char c = (let n = (of_char c :: nat) in if 65 \<le> n \<and> n \<le> 90 then char_of (n + 32) else c)"

definition upper_char :: "char \<Rightarrow> char" where
  "upper_char c = (let n = (of_char c :: nat) in if 97 \<le> n \<and> n \<le> 122 then char_of (n - 32) else c)"

definition to_lower :: "string \<Rightarrow> string" where
  "to_lower s = map lower_char s"

definition equal_fold :: "string \<Rightarrow> string \<Rightarrow> bool" where
  "equal_fold a b \<longleftrightarrow> to_lower a = to_lower b"

lemma lower_char_idem [simp]: "lower_char (lower_char c) = lower_char c"
proof (cases "65 \<le> (of_char c :: nat) \<and> (of_char c :: nat) \<le> 90")
  case True
  then have "(of_char (lower_char c) :: nat) = of_char c + 32"
    by (simp add: lower_char_def)
  with True show ?thesis by (simp add: lower_char_def)
next
  case False
  then show ?thesis by (auto simp: lower_char_def)
qed

lemma to_lower_idem [simp]: "to_lower (to_lower s) = to_lower s"
  by (simp add: to_lower_def)

lemma to_lower_Nil [simp]: "to_lower [] = []"
  by (simp add: to_lower_def)

lemma to_lower_eq_Nil [simp]: "to_lower s = [] \<longleftrightarrow> s = []"
  by (simp add: to_lower_def)

lemma equal_fold_refl [simp]: "equal_fold s s"
  by (simp add: equal_fold_def)

definition newline :: string where
  "newline = [CHR 0x0A]"

fun join :: "string \<Rightarrow> string list \<Rightarrow> string" where
  "join sep [] = []"
| "join sep [x] = x"
| "join sep (x # y # ys) = x @ sep @ join sep (y # ys)"

fun split_lines :: "string \<Rightarrow> string list" where
  "split_lines [] = [[]]"
| "split_lines (c # s) =
     (if c = CHR 0x0A then [] # split_lines s
      else case split_lines s of [] \<Rightarrow> [[c]] | l # ls \<Rightarrow> (c # l) # ls)"

lemma split_lines_nonempty [simp]: "split_lines s \<noteq> []"
  by (cases s) (auto split: list.splits)

lemma join_Cons: "ys \<noteq> [] \<Longrightarrow> join sep (x # ys) = x @ sep @ join sep ys"
  by (cases ys) auto

text \<open>Splitting at line ends and joining again gives the string back.\<close>

lemma join_split_lines: "join newline (split_lines s) = s"
proof (induction s)
  case (Cons c s)
  obtain l ls where ls: "split_lines s = l # ls"
    using split_lines_nonempty [of s] by (cases "split_lines s") auto
  with Cons show ?case by (cases ls) (auto simp: newline_def)
qed simp

fun digit :: "nat \<Rightarrow> char" where
  "digit d = char_of (48 + d)"

fun itoa :: "nat \<Rightarrow> string" where
  "itoa n = (if n < 10 then [digit n] else itoa (n div 10) @ [digit (n mod 10)])"

declare itoa.simps [simp del] digit.simps [simp del]

definition trim_prefix :: "string \<Rightarrow> string \<Rightarrow> string" where
  "trim_prefix s p = (if has_prefix s p then drop (length p) s else s)"

definition trim_suffix :: "string \<Rightarrow> string \<Rightarrow> string" where
  "trim_suffix s p = (if has_suffix s p then take (length s - length p) s else s)"

text \<open>\<open>chooseStr\<close>: the first string when it has content, else the second.\<close>

definition chooseStr :: "string \<Rightarrow> string \<Rightarrow> string" where
  "chooseStr a b = (if trim_space a \<noteq> [] then a else b)"

section \<open>Association lists\<close>

text \<open>A Go map: \<open>m[k] = v\<close> is \<open>AList.update\<close>, \<open>delete(m, k)\<close> is \<open>AList.delete\<close>.\<close>

abbreviation keys :: "('k \<times> 'v) list \<Rightarrow> 'k list" where
  "keys m \<equiv> map fst m"

lemma map_of_delete_eq: "map_of (AList.delete k m) = (map_of m)(k := None)"
  by (simp add: AList.delete_conv')

lemma map_of_update_eq: "map_of (AList.update k v m) = (map_of m)(k \<mapsto> v)"
  by (simp add: AList.update_conv')

lemma map_of_filter_keys:
  "map_of (filter (\<lambda>p. P (fst p)) m) k = (if P k then map_of m k else None)"
  by (induction m) auto

lemma distinct_keys_filter: "distinct (keys m) \<Longrightarrow> distinct (keys (filter Q m))"
  by (induction m) auto

lemma map_of_in_keys: "map_of m k = Some v \<Longrightarrow> k \<in> set (keys m)"
  by (metis domI dom_map_of_conv_image_fst set_map)

lemma map_of_neq_None: "map_of m k \<noteq> None \<longleftrightarrow> k \<in> set (keys m)"
  by (metis map_of_eq_None_iff set_map)

section \<open>Searching lists\<close>

lemma find_SomeD: "find P xs = Some x \<Longrightarrow> x \<in> set xs \<and> P x"
  by (induction xs) (auto split: if_splits)

lemma find_exists: "x \<in> set xs \<Longrightarrow> P x \<Longrightarrow> \<exists>y. find P xs = Some y"
  by (induction xs) auto

text \<open>An update that does not touch what is searched for commutes with the search.\<close>

lemma find_map_same:
  "(\<And>x. x \<in> set xs \<Longrightarrow> Q (f x) = P x) \<Longrightarrow> find Q (map f xs) = map_option f (find P xs)"
  by (induction xs) auto

lemma length_filter_mono:
  "(\<And>x. x \<in> set xs \<Longrightarrow> P x \<Longrightarrow> Q x) \<Longrightarrow> length (filter P xs) \<le> length (filter Q xs)"
proof (induction xs)
  case (Cons x xs)
  then have "length (filter P xs) \<le> length (filter Q xs)" by simp
  with Cons.prems [of x] show ?case by auto
qed simp

lemma length_filter_strict:
  assumes "\<And>x. x \<in> set xs \<Longrightarrow> P x \<Longrightarrow> Q x" and "y \<in> set xs" "Q y" "\<not> P y"
  shows "length (filter P xs) < length (filter Q xs)"
proof -
  obtain us vs where xs: "xs = us @ y # vs" using \<open>y \<in> set xs\<close> by (meson split_list)
  have "length (filter P us) \<le> length (filter Q us)" "length (filter P vs) \<le> length (filter Q vs)"
    using assms(1) by (auto simp: xs intro!: length_filter_mono)
  then show ?thesis using assms(3,4) by (simp add: xs)
qed

lemma subseq_set: "subseq xs ys \<Longrightarrow> set xs \<subseteq> set ys"
  unfolding subseq_conv_nths using set_nths_subset by fast

lemma subseq_distinct: "subseq xs ys \<Longrightarrow> distinct ys \<Longrightarrow> distinct xs"
  unfolding subseq_conv_nths using distinct_nthsI by fast

text \<open>Keep the first occurrence of each element, in order, dropping those already seen.\<close>

fun first_seen :: "'a list \<Rightarrow> 'a list \<Rightarrow> 'a list" where
  "first_seen seen [] = []"
| "first_seen seen (x # xs) =
     (if x \<in> set seen then first_seen seen xs else x # first_seen (x # seen) xs)"

lemma set_first_seen: "set (first_seen seen xs) = set xs - set seen"
  by (induction xs arbitrary: seen) auto

lemma distinct_first_seen: "distinct (first_seen seen xs)"
  by (induction xs arbitrary: seen) (auto simp: set_first_seen)

end
