(* ===== verification/GoValue.thy ===== *)
theory GoValue
  imports Prelude
begin

text \<open>
  The dynamically typed values (\<open>any\<close>) that structured replies and the blackboard carry, and
  how they are rendered into text (\<open>renderFieldValue\<close>, \<open>readableFieldValue\<close> and
  \<open>displayFromSnake\<close> of core/pipeline_interp.go).

  A \<open>float64\<close> is a rational number or one of the values that are not numbers. What the code
  calls from \<open>encoding/json\<close>, \<open>strconv\<close> and \<open>fmt\<close> is a parameter, the record
  \<open>golib\<close>: a definition that uses one of these functions takes the record as its first
  argument.
\<close>

datatype float64 = Fin rat | PosInf | NegInf | NaN

datatype val =
    VNil
  | VStr string
  | VBool bool
  | VNum float64
  | VInt int
  | VList "val list"
  | VObj "(string \<times> val) list"

record golib =
  json_marshal :: "val \<Rightarrow> string option"
  json_indent :: "val \<Rightarrow> string option"
  json_object :: "string \<Rightarrow> (string \<times> val) list option"
  json_array :: "string \<Rightarrow> val list option"
  fmt_sprint :: "val \<Rightarrow> string"
  format_float :: "float64 \<Rightarrow> string"
  parse_float :: "string \<Rightarrow> float64 option"
  quote :: "string \<Rightarrow> string"

definition itoa_int :: "int \<Rightarrow> string" where
  "itoa_int i = (if i < 0 then ''-'' @ itoa (nat (- i)) else itoa (nat i))"

text \<open>A value that is a whole number below \<open>10^15\<close> in size prints as an integer.\<close>

definition small_integer :: "float64 \<Rightarrow> int option" where
  "small_integer x =
     (case x of
        Fin r \<Rightarrow> if of_int \<lfloor>r\<rfloor> = r \<and> \<bar>r\<bar> < 10 ^ 15 then Some \<lfloor>r\<rfloor> else None
      | _ \<Rightarrow> None)"

fun renderFieldValue :: "golib \<Rightarrow> val \<Rightarrow> string" where
  "renderFieldValue L VNil = []"
| "renderFieldValue L (VStr s) = s"
| "renderFieldValue L (VBool b) = (if b then ''true'' else ''false'')"
| "renderFieldValue L (VNum x) =
     (case small_integer x of Some i \<Rightarrow> itoa_int i | None \<Rightarrow> format_float L x)"
| "renderFieldValue L v =
     (case json_marshal L v of Some b \<Rightarrow> b | None \<Rightarrow> fmt_sprint L v)"

definition bullet :: "string \<Rightarrow> string" where
  "bullet s = (if contains s newline then ''- '' @ replace_all s newline (newline @ ''  '')
               else ''- '' @ s)"

fun readableFieldValue :: "golib \<Rightarrow> val \<Rightarrow> string" where
  "readableFieldValue L VNil = []"
| "readableFieldValue L (VStr s) = trim_space s"
| "readableFieldValue L (VBool b) = (if b then ''yes'' else ''no'')"
| "readableFieldValue L (VNum x) = format_float L x"
| "readableFieldValue L (VList items) =
     join newline (map bullet (filter (\<lambda>s. s \<noteq> []) (map (readableFieldValue L) items)))"
| "readableFieldValue L v =
     (case json_indent L v of Some b \<Rightarrow> b | None \<Rightarrow> fmt_sprint L v)"

definition displayFromSnake :: "string \<Rightarrow> string" where
  "displayFromSnake name =
     (let s = trim_space (replace_all name ''_'' '' '') in
      case s of [] \<Rightarrow> name | c # cs \<Rightarrow> upper_char c # cs)"

text \<open>A whole number renders to its digits whatever \<open>strconv.FormatFloat\<close> does.\<close>

lemma render_small_integer:
  "\<bar>i\<bar> < 10 ^ 15 \<Longrightarrow> renderFieldValue L (VNum (Fin (of_int i))) = itoa_int i"
proof -
  assume b: "\<bar>i\<bar> < 10 ^ 15"
  have "\<bar>of_int i :: rat\<bar> < 10 ^ 15"
  proof -
    have "(of_int \<bar>i\<bar> :: rat) < of_int (10 ^ 15)" using b by (simp only: of_int_less_iff)
    then show ?thesis by simp
  qed
  then show ?thesis by (simp add: small_integer_def)
qed

text \<open>\<open>strconv.Atoi\<close> on a 64-bit platform.\<close>

definition is_digit :: "char \<Rightarrow> bool" where
  "is_digit c = (let n = (of_char c :: nat) in 48 \<le> n \<and> n \<le> 57)"

fun digits_value :: "string \<Rightarrow> nat \<Rightarrow> nat option" where
  "digits_value [] n = Some n"
| "digits_value (c # cs) n =
     (let v = (of_char c :: nat) in
      if 48 \<le> v \<and> v \<le> 57 then digits_value cs (10 * n + (v - 48)) else None)"

lemma digits_value_append:
  "digits_value (s @ t) m = (case digits_value s m of None \<Rightarrow> None | Some k \<Rightarrow> digits_value t k)"
  by (induction s arbitrary: m) (auto simp: Let_def)

lemma digit_value: "d < 10 \<Longrightarrow> (of_char (digit d) :: nat) = 48 + d"
  by (simp add: digit.simps)

definition Atoi :: "string \<Rightarrow> int option" where
  "Atoi s =
     (let neg = has_prefix s ''-'';
          body = (if has_prefix s ''-'' \<or> has_prefix s ''+'' then drop 1 s else s)
      in if body = [] then None
         else case digits_value body 0 of
             None \<Rightarrow> None
           | Some n \<Rightarrow>
               (let i = (if neg then - int n else int n) in
                if - (2 ^ 63) \<le> i \<and> i < 2 ^ 63 then Some i else None))"

end
