(* ===== verification/OutputFields.thy ===== *)
theory OutputFields
  imports GoValue
begin

text \<open>
  Declared output fields: the shape a machine step (or a pipeline stage) promises, the contract
  text that asks a model for it, and the decoding that holds the reply to it. Models
  \<open>PipelineField\<close> (core/pipeline_def.go), \<open>validateOutputFields\<close>
  (core/pipeline_validate_refs.go), \<open>DecodeJSON\<close>'s extraction (core/search.go) and
  \<open>renderOutputContract\<close>, \<open>decodeStageOutput\<close>, \<open>coerceField\<close>, \<open>runDeclaredOutput\<close>
  (core/pipeline_interp.go). \<open>json.Unmarshal\<close> is a parameter (\<^const>\<open>json_object\<close>,
  \<^const>\<open>json_array\<close>); what is done to the text before it is modelled.
\<close>

section \<open>Field declarations\<close>

definition FieldString :: string where "FieldString = ''string''"
definition FieldNumber :: string where "FieldNumber = ''number''"
definition FieldBool :: string where "FieldBool = ''bool''"
definition FieldList :: string where "FieldList = ''list''"
definition FieldObject :: string where "FieldObject = ''object''"

lemmas field_type_defs = FieldString_def FieldNumber_def FieldBool_def FieldList_def FieldObject_def

datatype PipelineField =
  PipelineField (f_name: string) (f_type: string) (f_desc: string)
    (f_fields: "PipelineField list") (f_required: bool) (f_enum: "string list") (f_from: string)

definition set_f_type :: "string \<Rightarrow> PipelineField \<Rightarrow> PipelineField" where
  "set_f_type t f = PipelineField (f_name f) t (f_desc f) (f_fields f) (f_required f) (f_enum f) (f_from f)"

definition set_f_enum :: "string list \<Rightarrow> PipelineField \<Rightarrow> PipelineField" where
  "set_f_enum e f = PipelineField (f_name f) (f_type f) (f_desc f) (f_fields f) (f_required f) e (f_from f)"

definition set_f_from :: "string \<Rightarrow> PipelineField \<Rightarrow> PipelineField" where
  "set_f_from r f = PipelineField (f_name f) (f_type f) (f_desc f) (f_fields f) (f_required f) (f_enum f) r"

lemma set_f_sel [simp]:
  "f_name (set_f_type t f) = f_name f" "f_type (set_f_type t f) = t"
  "f_from (set_f_type t f) = f_from f" "f_enum (set_f_type t f) = f_enum f"
  "f_required (set_f_type t f) = f_required f" "f_fields (set_f_type t f) = f_fields f"
  "f_desc (set_f_type t f) = f_desc f"
  "f_name (set_f_enum e f) = f_name f" "f_enum (set_f_enum e f) = e"
  "f_from (set_f_enum e f) = f_from f" "f_type (set_f_enum e f) = f_type f"
  "f_desc (set_f_enum e f) = f_desc f" "f_fields (set_f_enum e f) = f_fields f"
  "f_required (set_f_enum e f) = f_required f"
  "f_name (set_f_from r f) = f_name f" "f_from (set_f_from r f) = r"
  "f_type (set_f_from r f) = f_type f" "f_enum (set_f_from r f) = f_enum f"
  "f_desc (set_f_from r f) = f_desc f" "f_fields (set_f_from r f) = f_fields f"
  "f_required (set_f_from r f) = f_required f"
  by (simp_all add: set_f_type_def set_f_enum_def set_f_from_def)

definition resolved :: "PipelineField \<Rightarrow> string" where
  "resolved f = (if f_type f = [] then FieldString else f_type f)"

definition field_char :: "char \<Rightarrow> bool" where
  "field_char c =
     (let n = (of_char c :: nat) in (97 \<le> n \<and> n \<le> 122) \<or> (48 \<le> n \<and> n \<le> 57) \<or> n = 95)"

definition isFieldName :: "string \<Rightarrow> bool" where
  "isFieldName s \<longleftrightarrow> list_all field_char s \<and> s \<noteq> []"

datatype field_err =
    FieldNoName string nat
  | FieldBadName string string
  | FieldDuplicate string string
  | FieldUnknownType string string string
  | FieldTooDeep string string
  | FieldCannotNest string string string

definition known_types :: "string list" where
  "known_types = [FieldString, FieldNumber, FieldBool, FieldList, FieldObject]"

text \<open>
  \<open>validateOutputFields\<close>: the loop over the fields, \<open>i\<close> the index of the next one and
  \<open>out\<close> the names seen with their types. \<open>nested\<close> is the one-level depth limit.
\<close>

function validateOutputFieldsFrom ::
    "string \<Rightarrow> PipelineField list \<Rightarrow> bool \<Rightarrow> nat \<Rightarrow> (string \<times> string) list
      \<Rightarrow> field_err + (string \<times> string) list" where
  "validateOutputFieldsFrom stage [] nested i out = Inr out"
| "validateOutputFieldsFrom stage (f # fs) nested i out =
     (if f_name f = [] then Inl (FieldNoName stage (i + 1))
      else if \<not> isFieldName (f_name f) then Inl (FieldBadName stage (f_name f))
      else if map_of out (f_name f) \<noteq> None then Inl (FieldDuplicate stage (f_name f))
      else if resolved f \<notin> set known_types
        then Inl (FieldUnknownType stage (f_name f) (f_type f))
      else if f_fields f \<noteq> [] \<and> nested then Inl (FieldTooDeep stage (f_name f))
      else if f_fields f \<noteq> [] \<and> resolved f \<noteq> FieldList \<and> resolved f \<noteq> FieldObject
        then Inl (FieldCannotNest stage (f_name f) (resolved f))
      else case (if f_fields f = [] then Inr []
                 else validateOutputFieldsFrom stage (f_fields f) True 0 []) of
             Inl e \<Rightarrow> Inl e
           | Inr _ \<Rightarrow> validateOutputFieldsFrom stage fs nested (i + 1)
                        (AList.update (f_name f) (resolved f) out))"
  by pat_completeness auto
termination
proof (relation "measure (\<lambda>(_, fs, _). size_list size fs)")
  fix stage f fs nested i
  show "((stage, f_fields f, True, 0, []), (stage, f # fs, nested, i, out))
      \<in> measure (\<lambda>(_, fs, _). size_list size fs)" for out
    by (cases f) simp
qed auto

definition validateOutputFields ::
    "string \<Rightarrow> PipelineField list \<Rightarrow> bool \<Rightarrow> field_err + (string \<times> string) list" where
  "validateOutputFields stage flds nested = validateOutputFieldsFrom stage flds nested 0 []"

lemma validateFrom_sound:
  "validateOutputFieldsFrom stage fs nested i out = Inr m \<Longrightarrow>
     (\<forall>f \<in> set fs. isFieldName (f_name f) \<and> resolved f \<in> set known_types
        \<and> map_of m (f_name f) = Some (resolved f))
     \<and> (\<forall>k v. map_of out k = Some v \<longrightarrow> map_of m k = Some v)
     \<and> distinct (map f_name fs)
     \<and> (\<forall>f \<in> set fs. map_of out (f_name f) = None)"
proof (induction fs arbitrary: i out)
  case Nil
  then show ?case by simp
next
  case (Cons f fs)
  let ?out = "AList.update (f_name f) (resolved f) out"
  from Cons.prems have name: "isFieldName (f_name f)" and new: "map_of out (f_name f) = None"
      and ty: "resolved f \<in> set known_types"
      and rest: "validateOutputFieldsFrom stage fs nested (i + 1) ?out = Inr m"
    by (auto split: if_splits sum.splits)
  note IH = Cons.IH [OF rest]
  have up: "map_of ?out = (map_of out)(f_name f \<mapsto> resolved f)" by (rule map_of_update_eq)
  from IH up have "map_of m (f_name f) = Some (resolved f)" by simp
  moreover have "f_name f \<notin> set (map f_name fs)"
  proof
    assume "f_name f \<in> set (map f_name fs)"
    then obtain g where "g \<in> set fs" "f_name g = f_name f" by auto
    with IH up show False by (metis fun_upd_same option.distinct(1))
  qed
  moreover have "\<forall>g \<in> set fs. map_of out (f_name g) = None"
    using IH up by (metis fun_upd_apply option.distinct(1))
  moreover have "\<forall>k v. map_of out k = Some v \<longrightarrow> map_of m k = Some v"
    using IH up new by (metis fun_upd_apply option.distinct(1))
  ultimately show ?case using IH name ty new by simp
qed

section \<open>The contract a model is shown\<close>

definition outputContractLead :: string where
  "outputContractLead = newline @ newline
     @ ''Reply with a single JSON object and nothing else, using these keys:'' @ newline"

definition contract_desc :: "string \<Rightarrow> string \<Rightarrow> string" where
  "contract_desc indent desc =
     (let d = trim_space desc in
      if d = [] then []
      else if contains d newline then
        newline
        @ concat (map (\<lambda>line. indent @ ''  '' @ line @ newline)
            (filter (\<lambda>l. l \<noteq> []) (map trim_space (split_lines d))))
        @ (if has_suffix indent '' '' then butlast indent else indent)
      else '': '' @ d)"

function writeContractFields :: "PipelineField list \<Rightarrow> string \<Rightarrow> string" where
  "writeContractFields [] indent = []"
| \<open>writeContractFields (f # fs) indent =
     indent @ ''- "'' @ f_name f @ ''" ('' @ resolved f
     @ (if f_required f then '', required'' else '', optional'')
     @ '')''
     @ contract_desc indent (f_desc f)
     @ (if f_enum f \<noteq> [] then '', exactly one of: '' @ join '', '' (f_enum f) else [])
     @ newline
     @ (if f_fields f \<noteq> [] then
          (if resolved f = FieldList
           then indent @ ''  each element is an object with:'' @ newline
           else indent @ ''  an object with:'' @ newline)
          @ writeContractFields (f_fields f) (indent @ ''    '')
        else [])
     @ writeContractFields fs indent\<close>
  by pat_completeness auto
termination
proof (relation "measure (\<lambda>(fs, _). size_list size fs)")
  fix f fs and indent :: string
  show "((f_fields f, indent @ ''    ''), (f # fs, indent)) \<in> measure (\<lambda>(fs, _). size_list size fs)"
    by (cases f) simp
qed auto

definition renderOutputContract :: "PipelineField list \<Rightarrow> string" where
  "renderOutputContract flds =
     outputContractLead @ writeContractFields flds []
     @ newline @ ''No prose, no markdown, no code fences: the JSON object only.''"

section \<open>From a reply to the text \<open>json.Unmarshal\<close> reads\<close>

definition fence :: string where
  "fence = ''```''"

definition StripCodeFence :: "string \<Rightarrow> string" where
  "StripCodeFence s =
     (if \<not> has_prefix s fence then s
      else
        let raw = (case index_of (drop 3 s) newline of
                     None \<Rightarrow> s | Some idx \<Rightarrow> drop (3 + idx + 1) s);
            cut = (case last_index_of raw fence of None \<Rightarrow> raw | Some idx \<Rightarrow> take idx raw)
        in trim_space cut)"

text \<open>Block comments: removed until none is left that closes.\<close>

function strip_block_comments :: "string \<Rightarrow> string" where
  "strip_block_comments raw =
     (case index_of raw ''/*'' of
        None \<Rightarrow> raw
      | Some i \<Rightarrow>
          (case index_of (drop i raw) ''*/'' of
             None \<Rightarrow> raw
           | Some j \<Rightarrow> strip_block_comments (take i raw @ drop (i + j + 2) raw)))"
  by pat_completeness auto
termination
proof (relation "measure length")
  fix raw :: string and i j
  assume "index_of raw ''/*'' = Some i"
  from index_of_Some [OF this] have "i + 2 \<le> length raw" by simp
  then show "(take i raw @ drop (i + j + 2) raw, raw) \<in> measure length" by simp
qed simp

declare strip_block_comments.simps [simp del]

definition comment_line :: "string \<Rightarrow> bool" where
  "comment_line line =
     (let t = trim_space line in has_prefix t ''#'' \<or> has_prefix t ''//'')"

definition strip_comment_lines :: "string \<Rightarrow> string" where
  "strip_comment_lines raw =
     concat (map (\<lambda>l. l @ newline) (filter (\<lambda>l. \<not> comment_line l) (split_lines raw)))"

text \<open>\<open>fix(s, pattern)\<close>: each occurrence of \<open>pattern\<close> collapses to its last byte.\<close>

function collapse :: "string \<Rightarrow> string \<Rightarrow> string" where
  "collapse s p =
     (if length p < 2 then s
      else case index_of s p of
        None \<Rightarrow> s
      | Some i \<Rightarrow> collapse (take i s @ drop (i + length p - 1) s) p)"
  by pat_completeness auto
termination
proof (relation "measure (\<lambda>(s, _). length s)")
  fix s p :: string and i
  assume "\<not> length p < 2" "index_of s p = Some i"
  then show "((take i s @ drop (i + length p - 1) s, p), (s, p)) \<in> measure (\<lambda>(s, _). length s)"
    using index_of_Some [of s p i] by auto
qed simp

declare collapse.simps [simp del]

definition trailing_comma_patterns :: "string list" where
  "trailing_comma_patterns =
     concat (map (\<lambda>suffix. map (\<lambda>ws. '','' @ ws @ suffix)
        [[], '' '', newline, [CHR 0x09], '' '' @ newline, newline @ '' '']) ['']'', ''}''])"

definition sanitizeLLMJSON :: "string \<Rightarrow> string" where
  "sanitizeLLMJSON raw =
     fold (\<lambda>p s. collapse s p) trailing_comma_patterns
       (strip_comment_lines (strip_block_comments raw))"

definition after_last :: "string \<Rightarrow> string \<Rightarrow> nat" where
  "after_last raw p = (case last_index_of raw p of None \<Rightarrow> 0 | Some i \<Rightarrow> i + 1)"

text \<open>The text \<open>DecodeJSON\<close> hands to \<open>json.Unmarshal\<close>.\<close>

definition decode_json_text :: "string \<Rightarrow> string" where
  "decode_json_text text =
     (let raw = StripCodeFence (trim_space text);
          obj = index_of raw ''{'';
          arr = index_of raw ''['';
          span = (case (obj, arr) of
                    (Some o', None) \<Rightarrow> Some (o', after_last raw ''}'')
                  | (Some o', Some a) \<Rightarrow>
                      if o' < a then Some (o', after_last raw ''}'')
                      else Some (a, after_last raw '']'')
                  | (None, Some a) \<Rightarrow> Some (a, after_last raw '']'')
                  | (None, None) \<Rightarrow> None);
          body = (case span of
                    Some (start, end) \<Rightarrow> if end > start then take (end - start) (drop start raw) else raw
                  | None \<Rightarrow> raw)
      in sanitizeLLMJSON body)"

section \<open>Decoding a reply\<close>

datatype coerce_err =
    ExpectedNumberGot string | ExpectedNumber
  | ExpectedBoolGot string | ExpectedBool
  | ExpectedList | ExpectedObject

datatype decode_err =
    NotJSONObject
  | MissingRequired string
  | BadField string coerce_err
  | NotInEnum string string "string list"

definition truthy :: "float64 \<Rightarrow> bool" where
  "truthy x \<longleftrightarrow> x \<noteq> Fin 0"

definition coerceField :: "golib \<Rightarrow> string \<Rightarrow> val \<Rightarrow> coerce_err + val" where
  "coerceField L t v =
     (if t = FieldString then
        (case v of VStr s \<Rightarrow> Inr (VStr s) | _ \<Rightarrow> Inr (VStr (renderFieldValue L v)))
      else if t = FieldNumber then
        (case v of
           VNum n \<Rightarrow> Inr (VNum n)
         | VStr s \<Rightarrow> (case parse_float L (trim_space s) of
                       None \<Rightarrow> Inl (ExpectedNumberGot s) | Some x \<Rightarrow> Inr (VNum x))
         | _ \<Rightarrow> Inl ExpectedNumber)
      else if t = FieldBool then
        (case v of
           VBool b \<Rightarrow> Inr (VBool b)
         | VNum x \<Rightarrow> Inr (VBool (truthy x))
         | VStr s \<Rightarrow>
             (let w = to_lower (trim_space s) in
              if w \<in> set [''true'', ''yes'', ''y'', ''1''] then Inr (VBool True)
              else if w \<in> set [''false'', ''no'', ''n'', ''0''] then Inr (VBool False)
              else Inl (ExpectedBoolGot s))
         | _ \<Rightarrow> Inl ExpectedBool)
      else if t = FieldList then
        (case v of
           VList l \<Rightarrow> Inr (VList l)
         | VStr s \<Rightarrow> (case json_array L (decode_json_text s) of
                       Some inner \<Rightarrow> Inr (VList inner) | None \<Rightarrow> Inr (VList [VStr s]))
         | _ \<Rightarrow> Inl ExpectedList)
      else if t = FieldObject then
        (case v of
           VObj obj \<Rightarrow> Inr (VObj obj)
         | VStr s \<Rightarrow> (case json_object L (decode_json_text s) of
                       Some inner \<Rightarrow> Inr (VObj inner) | None \<Rightarrow> Inl ExpectedObject)
         | _ \<Rightarrow> Inl ExpectedObject)
      else Inr v)"

definition zeroForFieldType :: "string \<Rightarrow> val" where
  "zeroForFieldType t =
     (if t = FieldNumber then VNum (Fin 0)
      else if t = FieldBool then VBool False
      else if t = FieldList then VList []
      else if t = FieldObject then VObj []
      else VStr [])"

definition containsFold :: "string list \<Rightarrow> string \<Rightarrow> bool" where
  "containsFold lst want = (\<exists>v \<in> set lst. equal_fold (trim_space v) (trim_space want))"

definition outside_enum :: "PipelineField \<Rightarrow> val \<Rightarrow> string option" where
  "outside_enum f cv =
     (if f_enum f = [] then None
      else case cv of VStr s \<Rightarrow> (if containsFold (f_enum f) s then None else Some s) | _ \<Rightarrow> None)"

fun decode_fields ::
    "golib \<Rightarrow> (string \<times> val) list \<Rightarrow> PipelineField list \<Rightarrow> (string \<times> val) list
      \<Rightarrow> decode_err + (string \<times> val) list" where
  "decode_fields L raw [] out = Inr out"
| "decode_fields L raw (f # fs) out =
     (let v = (case map_of raw (f_name f) of None \<Rightarrow> VNil | Some v \<Rightarrow> v) in
      if v = VNil then
        (if f_required f then Inl (MissingRequired (f_name f))
         else decode_fields L raw fs
                (AList.update (f_name f) (zeroForFieldType (resolved f)) out))
      else case coerceField L (resolved f) v of
             Inl e \<Rightarrow> Inl (BadField (f_name f) e)
           | Inr cv \<Rightarrow>
               (case outside_enum f cv of
                  Some s \<Rightarrow> Inl (NotInEnum (f_name f) s (f_enum f))
                | None \<Rightarrow> decode_fields L raw fs (AList.update (f_name f) cv out)))"

definition decodeStageOutput ::
    "golib \<Rightarrow> string \<Rightarrow> PipelineField list \<Rightarrow> decode_err + (string \<times> val) list" where
  "decodeStageOutput L text decl =
     (case json_object L (decode_json_text text) of
        None \<Rightarrow> Inl NotJSONObject
      | Some raw \<Rightarrow> decode_fields L raw decl [])"

fun coerce_err_text :: "golib \<Rightarrow> coerce_err \<Rightarrow> string" where
  "coerce_err_text L (ExpectedNumberGot s) = ''expected a number, got '' @ quote L s"
| "coerce_err_text L ExpectedNumber = ''expected a number''"
| "coerce_err_text L (ExpectedBoolGot s) = ''expected true or false, got '' @ quote L s"
| "coerce_err_text L ExpectedBool = ''expected true or false''"
| "coerce_err_text L ExpectedList = ''expected a list''"
| "coerce_err_text L ExpectedObject = ''expected an object''"

fun decode_err_text :: "golib \<Rightarrow> decode_err \<Rightarrow> string" where
  "decode_err_text L NotJSONObject = ''reply was not a JSON object''"
| \<open>decode_err_text L (MissingRequired n) = ''missing required field "'' @ n @ ''"''\<close>
| \<open>decode_err_text L (BadField n e) = ''field "'' @ n @ ''": '' @ coerce_err_text L e\<close>
| \<open>decode_err_text L (NotInEnum n s enum) =
     ''field "'' @ n @ ''": '' @ quote L s @ '' is not one of: '' @ join '', '' enum\<close>

text \<open>The values a declared type admits, and that decoding delivers them.\<close>

definition has_field_type :: "string \<Rightarrow> val \<Rightarrow> bool" where
  "has_field_type t v =
     (if t = FieldString then (case v of VStr _ \<Rightarrow> True | _ \<Rightarrow> False)
      else if t = FieldNumber then (case v of VNum _ \<Rightarrow> True | _ \<Rightarrow> False)
      else if t = FieldBool then (case v of VBool _ \<Rightarrow> True | _ \<Rightarrow> False)
      else if t = FieldList then (case v of VList _ \<Rightarrow> True | _ \<Rightarrow> False)
      else if t = FieldObject then (case v of VObj _ \<Rightarrow> True | _ \<Rightarrow> False)
      else False)"

lemma coerceField_typed:
  assumes "coerceField L t v = Inr cv" and "t \<in> set known_types"
  shows "has_field_type t cv"
  using assms
  by (auto simp: coerceField_def has_field_type_def known_types_def field_type_defs Let_def
      split: if_splits val.splits option.splits)

lemma zero_typed: "t \<in> set known_types \<Longrightarrow> has_field_type t (zeroForFieldType t)"
  by (auto simp: zeroForFieldType_def has_field_type_def known_types_def field_type_defs)

lemma decode_fields_sound:
  "decode_fields L raw fs out = Inr m \<Longrightarrow> distinct (map f_name fs) \<Longrightarrow>
     \<forall>f \<in> set fs. resolved f \<in> set known_types \<Longrightarrow>
     (\<forall>f \<in> set fs. \<exists>v. map_of m (f_name f) = Some v \<and> has_field_type (resolved f) v
        \<and> (outside_enum f v = None \<or> (\<not> f_required f \<and> v = zeroForFieldType (resolved f))))
     \<and> (\<forall>k. k \<notin> set (map f_name fs) \<longrightarrow> map_of m k = map_of out k)"
proof (induction fs arbitrary: out)
  case Nil
  then show ?case by simp
next
  case (Cons f fs)
  obtain cv where cv: "decode_fields L raw fs (AList.update (f_name f) cv out) = Inr m"
    and typed: "has_field_type (resolved f) cv"
    and enum: "outside_enum f cv = None \<or> (\<not> f_required f \<and> cv = zeroForFieldType (resolved f))"
  proof (cases "(case map_of raw (f_name f) of None \<Rightarrow> VNil | Some v \<Rightarrow> v) = VNil")
    case True
    with Cons.prems show thesis
      by (intro that [of "zeroForFieldType (resolved f)"]) (auto simp: Let_def zero_typed split: if_splits)
  next
    case False
    with Cons.prems(1) obtain cv where "coerceField L (resolved f) (case map_of raw (f_name f) of None \<Rightarrow> VNil | Some v \<Rightarrow> v) = Inr cv"
        "outside_enum f cv = None" "decode_fields L raw fs (AList.update (f_name f) cv out) = Inr m"
      by (auto simp: Let_def split: sum.splits option.splits)
    with Cons.prems(3) coerceField_typed show thesis by (intro that [of cv]) auto
  qed
  from Cons.prems have d: "distinct (map f_name fs)" "f_name f \<notin> set (map f_name fs)"
      "\<forall>g \<in> set fs. resolved g \<in> set known_types" by auto
  note IH = Cons.IH [OF cv d(1,3)]
  from IH d(2) have "map_of m (f_name f) = Some cv" by (simp add: map_of_update_eq)
  moreover have "map_of m k = map_of out k" if "k \<notin> set (map f_name (f # fs))" for k
    using IH that by (simp add: map_of_update_eq)
  ultimately show ?case using IH typed enum by auto
qed

text \<open>C28: Once a step's fields validate, a reply that decodes holds exactly the declared fields, each with a
  value of its declared type, and each within its declared values unless it is an optional field the
  reply left out.\<close>

theorem decoded_replies_are_typed:
  assumes "validateOutputFields stage decl nested = Inr types" and "decodeStageOutput L reply decl = Inr m"
  shows "dom (map_of m) = f_name ` set decl
    \<and> (\<forall>f \<in> set decl. map_of types (f_name f) = Some (resolved f)
        \<and> (\<exists>v. map_of m (f_name f) = Some v \<and> has_field_type (resolved f) v
            \<and> (outside_enum f v = None \<or> (\<not> f_required f \<and> v = zeroForFieldType (resolved f)))))"
proof -
  have valid: "distinct (map f_name decl)" "\<forall>f \<in> set decl. resolved f \<in> set known_types"
    "\<forall>f \<in> set decl. map_of types (f_name f) = Some (resolved f)"
    using validateFrom_sound [of stage decl nested 0 "[]" types] assms(1)
    by (simp_all add: validateOutputFields_def)
  obtain raw where "decode_fields L raw decl [] = Inr m"
    using assms(2) by (auto simp: decodeStageOutput_def split: option.splits)
  note dec = decode_fields_sound [OF this valid(1,2)]
  have "k \<in> dom (map_of m) \<longleftrightarrow> k \<in> f_name ` set decl" for k
  proof
    assume "k \<in> dom (map_of m)"
    then show "k \<in> f_name ` set decl" using dec by (cases "k \<in> set (map f_name decl)") auto
  next
    assume "k \<in> f_name ` set decl"
    then show "k \<in> dom (map_of m)" using dec by auto
  qed
  then show ?thesis using dec valid(3) by blast
qed

text \<open>A library for examples: its parser reads nothing but one object.\<close>

definition sample_lib :: golib where
  "sample_lib = \<lparr>json_marshal = \<lambda>_. None, json_indent = \<lambda>_. None,
     json_object = \<lambda>_. Some [(''urgency'', VStr ''HIGH'')], json_array = \<lambda>_. None,
     fmt_sprint = \<lambda>_. [], format_float = \<lambda>_. [], parse_float = \<lambda>_. None, quote = \<lambda>s. s\<rparr>"

definition sample_decl :: "PipelineField list" where
  "sample_decl = [PipelineField ''urgency'' FieldString [] [] True [''low'', ''high''] [],
     PipelineField ''score'' FieldNumber [] [] False [] []]"

theorem decoded_replies_are_typed_witness:
  "dom (map_of [(''urgency'', VStr ''HIGH''), (''score'', VNum (Fin 0))]) = f_name ` set sample_decl"
proof -
  have v: "validateOutputFields ''s'' sample_decl False = Inr [(''urgency'', FieldString), (''score'', FieldNumber)]"
    by code_simp
  have d: "decodeStageOutput sample_lib ''{}'' sample_decl
      = Inr [(''urgency'', VStr ''HIGH''), (''score'', VNum (Fin 0))]"
    by code_simp
  from decoded_replies_are_typed [OF v d] show ?thesis by blast
qed

end
