(* ===== verification/MachineModel.thy ===== *)
theory MachineModel
  imports OutputFields
begin

text \<open>
  The machine recipe: \<open>MachineDef\<close>, \<open>MachinePhase\<close> and \<open>MachineAccumulator\<close>
  (core/machine_def.go, core/machine_accum.go), the lookups every other part uses, and what the
  framework supplies on the author's behalf (core/machine_builtins.go): the built-in variables,
  the routing field, and the normalisation of declared fields.

  The record fields carry a prefix (\<open>md_\<close>, \<open>ph_\<close>, \<open>ac_\<close>) and otherwise the source's
  names. \<open>MachineDef.Previous\<close>, a pointer to an older definition, is in MachineStore.
\<close>

section \<open>Data\<close>

record MachineAccumulator =
  ac_name :: string
  ac_from :: string
  ac_mode :: string
  ac_by :: string

record MachinePhase =
  ph_name :: string
  ph_desc :: string
  ph_prompt :: string
  ph_tool :: string
  ph_args :: "(string \<times> string) list"
  ph_reach :: string
  ph_tools :: "string list"
  ph_deny :: "string list"
  ph_model :: string
  ph_think :: string
  ph_output :: "PipelineField list"
  ph_resident :: bool
  ph_next :: string
  ph_reply_with :: string
  ph_next_from :: string
  ph_choices :: "string list"
  ph_guard :: string
  ph_guard_to :: string
  ph_exits_to :: "string list"
  ph_keep :: "string list"
  ph_agent :: string
  ph_pipeline :: string
  ph_machine :: string
  ph_accumulates :: "MachineAccumulator list"
  ph_required :: bool

record MachineDef =
  md_id :: string
  md_owner :: string
  md_name :: string
  md_description :: string
  md_start :: string
  md_phases :: "MachinePhase list"
  md_unattended :: bool
  md_route_each_message :: bool
  md_deny :: "string list"
  md_allowed_users :: "string list"
  md_editors :: "string list"
  md_published :: bool
  md_created :: nat
  md_updated :: nat

text \<open>\<open>MachinePhase{}\<close> and \<open>MachineDef{}\<close>: Go's zero values.\<close>

definition zero_phase :: MachinePhase where
  "zero_phase = \<lparr>ph_name = [], ph_desc = [], ph_prompt = [], ph_tool = [], ph_args = [],
     ph_reach = [], ph_tools = [], ph_deny = [], ph_model = [], ph_think = [], ph_output = [],
     ph_resident = False, ph_next = [], ph_reply_with = [], ph_next_from = [], ph_choices = [],
     ph_guard = [], ph_guard_to = [], ph_exits_to = [], ph_keep = [], ph_agent = [],
     ph_pipeline = [], ph_machine = [], ph_accumulates = [], ph_required = False\<rparr>"

definition zero_machine :: MachineDef where
  "zero_machine = \<lparr>md_id = [], md_owner = [], md_name = [], md_description = [], md_start = [],
     md_phases = [], md_unattended = False, md_route_each_message = False, md_deny = [],
     md_allowed_users = [], md_editors = [], md_published = False, md_created = 0, md_updated = 0\<rparr>"

definition MaxPhaseTransitions :: nat where "MaxPhaseTransitions = 4"
definition MaxUnattendedTransitions :: nat where "MaxUnattendedTransitions = 100"

section \<open>Lookups\<close>

definition Phase :: "MachineDef \<Rightarrow> string \<Rightarrow> MachinePhase option" where
  "Phase d name = find (\<lambda>p. ph_name p = trim_space name) (md_phases d)"

definition PhaseNames :: "MachineDef \<Rightarrow> string list" where
  "PhaseNames d = map ph_name (md_phases d)"

definition StartPhase :: "MachineDef \<Rightarrow> string" where
  "StartPhase d =
     (let s = trim_space (md_start d) in
      if s \<noteq> [] then s
      else case md_phases d of [] \<Rightarrow> [] | p # _ \<Rightarrow> ph_name p)"

definition MayExitTo :: "MachinePhase \<Rightarrow> string \<Rightarrow> bool" where
  "MayExitTo p name =
     (let n = trim_space name in
      if ph_exits_to p = [] \<or> n = [] then True
      else \<exists>allowed \<in> set (ph_exits_to p @ [ph_next p, ph_guard_to p]). trim_space allowed = n)"

definition ExitOptions :: "MachineDef \<Rightarrow> MachinePhase \<Rightarrow> MachinePhase list" where
  "ExitOptions d p =
     filter (\<lambda>q. ph_name q \<noteq> ph_name p \<and> MayExitTo p (ph_name q)) (md_phases d)"

lemma Phase_Some:
  "Phase d name = Some p \<Longrightarrow> p \<in> set (md_phases d) \<and> ph_name p = trim_space name"
  unfolding Phase_def by (rule find_SomeD)

lemma Phase_None: "Phase d name = None \<longleftrightarrow> trim_space name \<notin> set (PhaseNames d)"
  by (auto simp: Phase_def PhaseNames_def find_None_iff image_iff)

lemma Phase_exists: "trim_space name \<in> set (PhaseNames d) \<Longrightarrow> \<exists>p. Phase d name = Some p"
  using Phase_None by fastforce

lemma Phase_trim [simp]: "Phase d (trim_space name) = Phase d name"
  by (simp add: Phase_def)

lemma Phase_name_trimmed: "Phase d name = Some p \<Longrightarrow> trim_space (ph_name p) = ph_name p"
  by (metis Phase_Some trim_space_idem)

text \<open>A phase found by name is found again by its own name.\<close>

lemma Phase_self: "Phase d name = Some p \<Longrightarrow> Phase d (ph_name p) = Some p"
  by (metis Phase_Some Phase_trim)

section \<open>The built-in variables\<close>

definition BuiltinNextStep :: string where
  "BuiltinNextStep = ''next_step''"

record MachineTurn =
  mt_input :: string
  mt_user :: string
  mt_agent :: string
  mt_now :: string
  mt_tools :: "string list"

record PhaseVars = MachineTurn +
  pv_opening :: string
  pv_prev :: string
  pv_established :: string
  pv_step :: string
  pv_machine :: string

definition zero_turn :: MachineTurn where
  "zero_turn = \<lparr>mt_input = [], mt_user = [], mt_agent = [], mt_now = [], mt_tools = []\<rparr>"

definition zero_vars :: PhaseVars where
  "zero_vars = \<lparr>mt_input = [], mt_user = [], mt_agent = [], mt_now = [], mt_tools = [], pv_opening = [],
     pv_prev = [], pv_established = [], pv_step = [], pv_machine = []\<rparr>"

record MachineVar =
  mv_ref :: string
  mv_means :: string
  mv_auto :: string

definition ellipsis :: string where
  "ellipsis = [CHR 0xE2, CHR 0x80, CHR 0xA6]"

definition MachineVars :: "MachineVar list" where
  "MachineVars =
    [\<lparr>mv_ref = ''{input}'', mv_means = ''the words the person said this turn'',
      mv_auto = ''handed to the step anyway when the prompt never places it''\<rparr>,
     \<lparr>mv_ref = ''{original_input}'',
      mv_means = ''the words that opened the conversation, unchanged on turn nine'', mv_auto = []\<rparr>,
     \<lparr>mv_ref = ''{established}'', mv_means = ''everything earlier steps worked out, with their names'',
      mv_auto = ''handed to the step anyway when the prompt places no {state:'' @ ellipsis
        @ ''} reference of its own''\<rparr>,
     \<lparr>mv_ref = ''{prev}'', mv_means = ''what the step just before this one produced, this turn'',
      mv_auto = []\<rparr>,
     \<lparr>mv_ref = ''{now}'', mv_means = ''the date and time where the person is'', mv_auto = []\<rparr>,
     \<lparr>mv_ref = ''{user}'', mv_means = ''the person, by name'', mv_auto = []\<rparr>,
     \<lparr>mv_ref = ''{agent}'', mv_means = ''the agent running the conversation'', mv_auto = []\<rparr>,
     \<lparr>mv_ref = ''{step}'', mv_means = ''the name of this step'', mv_auto = []\<rparr>,
     \<lparr>mv_ref = ''{machine}'', mv_means = ''the name of this machine'', mv_auto = []\<rparr>]"

definition BuiltinFieldName :: "string \<Rightarrow> string" where
  "BuiltinFieldName ref = trim_suffix (trim_prefix (trim_space ref) ''{'') ''}''"

definition BuiltinRefForFieldName :: "string \<Rightarrow> string option" where
  "BuiltinRefForFieldName name =
     map_option mv_ref (find (\<lambda>v. BuiltinFieldName (mv_ref v) = trim_space name) MachineVars)"

definition isBuiltinVarRef :: "string \<Rightarrow> bool" where
  "isBuiltinVarRef ref = (\<exists>v \<in> set MachineVars. mv_ref v = trim_space ref)"

text \<open>\<open>PhaseVars.resolve\<close>: the longest name first.\<close>

definition pv_resolve :: "PhaseVars \<Rightarrow> string \<Rightarrow> string" where
  "pv_resolve v s =
     (let s = replace_all s ''{original_input}'' (pv_opening v);
          s = replace_all s ''{input}'' (mt_input v);
          s = replace_all s ''{established}'' (trim_space (pv_established v));
          s = replace_all s ''{prev}'' (pv_prev v);
          s = replace_all s ''{now}'' (mt_now v);
          s = replace_all s ''{user}'' (mt_user v);
          s = replace_all s ''{agent}'' (mt_agent v);
          s = replace_all s ''{step}'' (pv_step v);
          s = replace_all s ''{machine}'' (pv_machine v)
      in s)"

definition mentionsEstablished :: "string \<Rightarrow> bool" where
  "mentionsEstablished tmpl \<longleftrightarrow> contains tmpl ''{established}'' \<or> contains tmpl ''{state:''"

definition mentionsInput :: "string \<Rightarrow> bool" where
  "mentionsInput tmpl \<longleftrightarrow> contains tmpl ''{input}'' \<or> contains tmpl ''{original_input}''"

definition pv_establishedBlock :: "PhaseVars \<Rightarrow> string" where
  "pv_establishedBlock v =
     (let body = trim_space (pv_established v) in
      if body = [] then []
      else ''## Established earlier in this conversation'' @ newline
        @ ''Settled. Work from it rather than re-deriving it, and do not re-ask what it already answers.''
        @ newline @ body @ newline @ newline)"

definition pv_inputBlock :: "PhaseVars \<Rightarrow> string" where
  "pv_inputBlock v =
     (let opening = trim_space (pv_opening v); inp = trim_space (mt_input v) in
      if opening = [] \<and> inp = [] then []
      else ''## What the person said'' @ newline
        @ (if opening = [] \<or> opening = inp then chooseStr inp opening
           else ''Opening the conversation:'' @ newline @ opening @ newline @ newline
             @ ''Just now:'' @ newline @ inp)
        @ newline @ newline)"

section \<open>What a step declares, routes on and asks for\<close>

definition RoutesBy :: "MachinePhase \<Rightarrow> string" where
  "RoutesBy p =
     (let from = trim_space (ph_next_from p) in
      if from \<noteq> [] then from
      else if ph_choices p \<noteq> [] \<and> \<not> ph_resident p then BuiltinNextStep
      else [])"

definition RoutingChoices :: "MachinePhase \<Rightarrow> string list" where
  "RoutingChoices p =
     (let from = trim_space (ph_next_from p) in
      if from \<noteq> [] then
        (case find (\<lambda>f. f_name f = from) (ph_output p) of None \<Rightarrow> [] | Some f \<Rightarrow> f_enum f)
      else if ph_resident p then []
      else ph_choices p)"

definition fieldNeedsNormalizing :: "PipelineField \<Rightarrow> bool" where
  "fieldNeedsNormalizing f =
     (if trim_space (f_from f) = [] then BuiltinRefForFieldName (f_name f) \<noteq> None
      else f_type f \<noteq> [] \<and> f_type f \<noteq> FieldString)"

definition normalize_field :: "PipelineField \<Rightarrow> PipelineField" where
  "normalize_field f =
     (let f1 = (if trim_space (f_from f) = [] then
                  (case BuiltinRefForFieldName (f_name f) of Some ref \<Rightarrow> set_f_from ref f | None \<Rightarrow> f)
                else f)
      in if trim_space (f_from f1) \<noteq> [] then set_f_type FieldString f1 else f1)"

definition normalized :: "MachinePhase \<Rightarrow> PipelineField list" where
  "normalized p =
     (if \<exists>f \<in> set (ph_output p). fieldNeedsNormalizing f
      then map normalize_field (ph_output p) else ph_output p)"

definition next_step_field :: "MachinePhase \<Rightarrow> PipelineField" where
  "next_step_field p = PipelineField BuiltinNextStep FieldString
     ''Which step this hands the conversation to. Pick by what the work needs, not by order.''
     [] True (ph_choices p) []"

definition DeclaredOutput :: "MachinePhase \<Rightarrow> PipelineField list" where
  "DeclaredOutput p =
     (if RoutesBy p \<noteq> BuiltinNextStep then normalized p
      else if \<exists>f \<in> set (ph_output p). f_name f = BuiltinNextStep then normalized p
      else normalized p @ [next_step_field p])"

definition ModelOutput :: "MachinePhase \<Rightarrow> PipelineField list" where
  "ModelOutput p = filter (\<lambda>f. trim_space (f_from f) = []) (DeclaredOutput p)"

definition StaticFields :: "MachinePhase \<Rightarrow> PipelineField list" where
  "StaticFields p = filter (\<lambda>f. trim_space (f_from f) \<noteq> []) (DeclaredOutput p)"

lemma normalize_field_name [simp]: "f_name (normalize_field f) = f_name f"
  by (auto simp: normalize_field_def Let_def split: option.splits)

lemma normalized_names: "map f_name (normalized p) = map f_name (ph_output p)"
  by (simp add: normalized_def)

lemma normalize_field_filled:
  "trim_space (f_from (normalize_field f)) \<noteq> [] \<Longrightarrow> resolved (normalize_field f) = FieldString"
  by (auto simp: normalize_field_def Let_def resolved_def FieldString_def
      split: option.splits if_splits)

text \<open>A field filled from a variable is text, however it was declared.\<close>

lemma normalized_filled_text:
  assumes "f \<in> set (normalized p)" and "trim_space (f_from f) \<noteq> []"
  shows "resolved f = FieldString"
proof (cases "\<exists>g \<in> set (ph_output p). fieldNeedsNormalizing g")
  case True
  with assms show ?thesis by (auto simp: normalized_def intro: normalize_field_filled)
next
  case False
  with assms have "\<not> fieldNeedsNormalizing f" by (auto simp: normalized_def)
  with assms(2) show ?thesis by (auto simp: fieldNeedsNormalizing_def resolved_def)
qed

lemma model_static_partition:
  "set (ModelOutput p) \<union> set (StaticFields p) = set (DeclaredOutput p)"
  "set (ModelOutput p) \<inter> set (StaticFields p) = {}"
  by (auto simp: ModelOutput_def StaticFields_def)

section \<open>Where control goes next\<close>

datatype route_note =
    NoRoutingField string string string
  | EmptyRoute string string
  | UnknownRoute string string string

definition fallbackLabel :: "string \<Rightarrow> string" where
  "fallbackLabel nxt =
     (if trim_space nxt = [] then ''no next phase (the turn replies from here)'' else nxt)"

definition as_string :: "val \<Rightarrow> string" where
  "as_string v = (case v of VStr s \<Rightarrow> s | _ \<Rightarrow> [])"

text \<open>
  The breadcrumb is a \<^typ>\<open>route_note\<close> holding what its sentence names: the step, the field
  or the step it wanted, and the label of the fallback.
\<close>

definition NextPhase ::
    "MachineDef \<Rightarrow> MachinePhase \<Rightarrow> (string \<times> val) list \<Rightarrow> string \<times> route_note option" where
  "NextPhase d ph flds =
     (let from = RoutesBy ph in
      if from = [] then (ph_next ph, None)
      else case map_of flds from of
          None \<Rightarrow> (ph_next ph, Some (NoRoutingField (ph_name ph) from (fallbackLabel (ph_next ph))))
        | Some raw \<Rightarrow>
            (let want = trim_space (as_string raw) in
             if want = [] then (ph_next ph, Some (EmptyRoute (ph_name ph) (fallbackLabel (ph_next ph))))
             else case Phase d want of
                 None \<Rightarrow> (ph_next ph, Some (UnknownRoute (ph_name ph) want (fallbackLabel (ph_next ph))))
               | Some _ \<Rightarrow> (want, None)))"

lemma NextPhase_cases:
  "fst (NextPhase d ph flds) = ph_next ph \<or>
   (RoutesBy ph \<noteq> [] \<and> snd (NextPhase d ph flds) = None
     \<and> (\<exists>p. Phase d (fst (NextPhase d ph flds)) = Some p))"
  by (auto simp: NextPhase_def Let_def split: option.splits)

text \<open>Where a step's decoded fields send the conversation: a step of the machine the reply named, when the
  step routes on a field, and otherwise, always with a breadcrumb, the step's declared next.\<close>

theorem NextPhase_resolves_or_falls_back:
  "case NextPhase d ph flds of (nxt, why) \<Rightarrow>
     if RoutesBy ph = [] then nxt = ph_next ph \<and> why = None
     else if why = None then \<exists>p \<in> set (md_phases d). ph_name p = nxt \<and>
         (\<exists>s. map_of flds (RoutesBy ph) = Some (VStr s) \<and> trim_space s = nxt)
     else nxt = ph_next ph"
  by (auto simp: NextPhase_def Let_def as_string_def dest: Phase_Some split: option.splits val.splits)

text \<open>
  The reply is checked against the declared values without regard to letter case, and the route it
  names is looked up exactly.
\<close>

definition choosing_step :: MachinePhase where
  "choosing_step = zero_phase\<lparr>ph_name := ''triage'', ph_choices := [''answer''], ph_next := ''later''\<rparr>"

definition choosing_machine :: MachineDef where
  "choosing_machine = zero_machine\<lparr>md_name := ''desk'', md_phases := [choosing_step,
     zero_phase\<lparr>ph_name := ''answer'', ph_resident := True\<rparr>, zero_phase\<lparr>ph_name := ''later'', ph_resident := True\<rparr>]\<rparr>"

text \<open>A deciding step's reply that names its one choice with a capital letter passes the check against the
  declared choices, and is then routed as an unknown step, to the fallback.\<close>

theorem capital_choice_decodes_and_falls_back:
  "decodeStageOutput (sample_lib\<lparr>json_object := \<lambda>_. Some [(''next_step'', VStr ''Answer'')]\<rparr>) ''{}'' (ModelOutput choosing_step)
     = Inr [(''next_step'', VStr ''Answer'')]
   \<and> NextPhase choosing_machine choosing_step [(''next_step'', VStr ''Answer'')]
     = (''later'', Some (UnknownRoute ''triage'' ''Answer'' ''later''))"
  by code_simp

end
