(* ===== verification/MachineReach.thy ===== *)
theory MachineReach
  imports MachineModel
begin

text \<open>
  What a step may reach (core/machine_routing.go): its reach, the tools it names, the tools it
  denies, and the paging tools no narrowing takes away; its reasoning and tier overrides; and
  whether it is offered the way out (\<open>offersSkip\<close>, core/machine_phase.go).
  \<open>resolveStageTools\<close> is core/pipeline_interp.go's, \<open>FilterToolsByCaps\<close> core/llm.go's.

  Of a tool only the name and the capabilities are read here; its handler is not. A Go \<open>nil\<close>
  slice is the empty list.
\<close>

type_synonym Capability = string

record AgentToolDef =
  td_name :: string
  td_caps :: "Capability list"
  td_confirm :: bool

definition CapRead :: Capability where "CapRead = ''read''"

definition ReachUnset :: string where "ReachUnset = []"
definition ReachAll :: string where "ReachAll = ''all''"
definition ReachRead :: string where "ReachRead = ''read''"
definition ReachNone :: string where "ReachNone = ''none''"

lemmas reach_defs = ReachUnset_def ReachAll_def ReachRead_def ReachNone_def

definition NoToolsMarker :: string where "NoToolsMarker = ''__none__''"

definition ReachAllowsCaps :: "string \<Rightarrow> Capability list" where
  "ReachAllowsCaps reach = (if trim_space reach = ReachRead then [CapRead] else [])"

definition validReach :: "string \<Rightarrow> bool" where
  "validReach reach \<longleftrightarrow>
     to_lower (trim_space reach) \<in> set [ReachUnset, ReachAll, ReachRead, ReachNone]"

definition hasRunner :: "MachinePhase \<Rightarrow> bool" where
  "hasRunner p \<longleftrightarrow> trim_space (ph_agent p) \<noteq> [] \<or> trim_space (ph_pipeline p) \<noteq> []
     \<or> trim_space (ph_machine p) \<noteq> [] \<or> trim_space (ph_tool p) \<noteq> []"

definition onlyReasons :: "MachinePhase \<Rightarrow> bool" where
  "onlyReasons p \<longleftrightarrow> \<not> ph_resident p \<and> ph_tools p = [] \<and> ph_deny p = [] \<and> \<not> hasRunner p"

definition PhaseReach :: "MachinePhase \<Rightarrow> string" where
  "PhaseReach ph =
     (let r = trim_space (ph_reach ph) in
      if r \<noteq> [] then r
      else if \<exists>n \<in> set (ph_tools ph). trim_space n = NoToolsMarker then ReachNone
      else if onlyReasons ph then ReachNone
      else ReachAll)"

section \<open>Narrowing a catalog\<close>

definition capsAllowed :: "Capability list \<Rightarrow> Capability list \<Rightarrow> bool" where
  "capsAllowed toolCaps allowed \<longleftrightarrow> toolCaps = [] \<or> (\<forall>c \<in> set toolCaps. c \<in> set allowed)"

definition FilterToolsByCaps :: "AgentToolDef list \<Rightarrow> Capability list \<Rightarrow> AgentToolDef list" where
  "FilterToolsByCaps tools allowed =
     (if allowed = [] then tools else filter (\<lambda>td. capsAllowed (td_caps td) allowed) tools)"

definition resolveStageTools :: "string list \<Rightarrow> AgentToolDef list \<Rightarrow> AgentToolDef list" where
  "resolveStageTools stageTools inherited =
     (if stageTools = [] then inherited
      else if \<exists>n \<in> set stageTools. trim_space n = NoToolsMarker then []
      else if inherited = [] then []
      else filter (\<lambda>td. td_name td \<in> set (map trim_space stageTools)) inherited)"

definition phaseDenied :: "MachinePhase \<Rightarrow> string \<Rightarrow> bool" where
  "phaseDenied ph name \<longleftrightarrow> (\<exists>d \<in> set (ph_deny ph). trim_space d = name)"

definition applyPhaseDeny :: "MachinePhase \<Rightarrow> AgentToolDef list \<Rightarrow> AgentToolDef list" where
  "applyPhaseDeny ph tools =
     (if ph_deny ph = [] then tools
      else filter (\<lambda>td. \<not> phaseDenied ph (td_name td)) tools)"

definition PagingToolNames :: "string list" where
  "PagingToolNames = [''read_output'', ''release_output'']"

definition keepPagingTools ::
    "AgentToolDef list \<Rightarrow> AgentToolDef list \<Rightarrow> AgentToolDef list" where
  "keepPagingTools narrowed catalog =
     (let held = map td_name narrowed in
      if \<exists>td \<in> set catalog. td_name td \<in> set PagingToolNames \<and> td_name td \<notin> set held
      then filter (\<lambda>td. td_name td \<in> set held \<or> td_name td \<in> set PagingToolNames) catalog
      else narrowed)"

definition PhaseTools :: "MachinePhase \<Rightarrow> AgentToolDef list \<Rightarrow> AgentToolDef list" where
  "PhaseTools ph catalog =
     (if PhaseReach ph = ReachNone then []
      else
        let cat = (if PhaseReach ph = ReachRead
                   then FilterToolsByCaps catalog (ReachAllowsCaps ReachRead) else catalog)
        in keepPagingTools (applyPhaseDeny ph (resolveStageTools (ph_tools ph) cat)) cat)"

datatype LLMTier = TierUnset | WORKER | LEAD

definition PhaseThink :: "MachinePhase \<Rightarrow> bool \<Rightarrow> bool" where
  "PhaseThink ph base =
     (let t = to_lower (trim_space (ph_think ph)) in
      if t = ''on'' then True else if t = ''off'' then False else base)"

definition PhaseTier :: "MachinePhase \<Rightarrow> LLMTier" where
  "PhaseTier ph =
     (let t = to_lower (trim_space (ph_model ph)) in
      if t = ''worker'' then WORKER else if t = ''lead'' then LEAD else TierUnset)"

definition skipStepToolName :: string where "skipStepToolName = ''skip_step''"

definition offersSkip :: "MachinePhase \<Rightarrow> bool" where
  "offersSkip ph \<longleftrightarrow> \<not> ph_required ph \<and> \<not> ph_resident ph \<and> \<not> hasRunner ph \<and> PhaseReach ph \<noteq> ReachNone"

text \<open>The tools \<open>PhaseWorkerConfirm\<close> hands a step's worker call.\<close>

definition skipStepTool :: AgentToolDef where
  "skipStepTool = \<lparr>td_name = skipStepToolName, td_caps = [], td_confirm = False\<rparr>"

definition workerTools :: "MachinePhase \<Rightarrow> AgentToolDef list \<Rightarrow> AgentToolDef list" where
  "workerTools ph catalog =
     PhaseTools ph catalog @ (if offersSkip ph then [skipStepTool] else [])"

section \<open>The narrowing contract\<close>

text \<open>
  Each stage returns a subsequence of what it was given: it never adds, reorders or duplicates a
  tool. Catalog order is what keeps the tool payload, and so the prompt cache, stable.
\<close>

locale narrowing =
  fixes narrow :: "'t list \<Rightarrow> 't list"
  assumes narrow_subseq: "subseq (narrow ts) ts"
begin

lemma narrow_subset: "set (narrow ts) \<subseteq> set ts"
  by (rule subseq_set [OF narrow_subseq])

lemma narrow_length: "length (narrow ts) \<le> length ts"
  by (rule list_emb_length [OF narrow_subseq])

lemma narrow_distinct: "distinct ts \<Longrightarrow> distinct (narrow ts)"
  by (rule subseq_distinct [OF narrow_subseq])

lemma narrow_empty: "narrow [] = []"
  using narrow_length [of "[]"] by simp

end

locale narrowing2 = first_stage: narrowing f + second_stage: narrowing g
  for f g :: "'t list \<Rightarrow> 't list"

sublocale narrowing2 \<subseteq> composed: narrowing "\<lambda>ts. g (f ts)"
  by unfold_locales
    (rule subseq_order.order_trans [OF second_stage.narrow_subseq first_stage.narrow_subseq])

interpretation caps_stage: narrowing "\<lambda>ts. FilterToolsByCaps ts allowed" for allowed
  by unfold_locales (simp add: FilterToolsByCaps_def)

interpretation names_stage: narrowing "resolveStageTools names" for names
  by unfold_locales (simp add: resolveStageTools_def)

interpretation deny_stage: narrowing "applyPhaseDeny ph" for ph
  by unfold_locales (simp add: applyPhaseDeny_def)

interpretation names_then_deny: narrowing2 "resolveStageTools names" "applyPhaseDeny ph" for names ph
  by unfold_locales

lemma keepPagingTools_subseq: "subseq narrowed catalog \<Longrightarrow> subseq (keepPagingTools narrowed catalog) catalog"
  by (simp add: keepPagingTools_def Let_def)

interpretation phase_tools: narrowing "PhaseTools ph" for ph
proof
  fix ts
  let ?cat = "if PhaseReach ph = ReachRead
    then FilterToolsByCaps ts (ReachAllowsCaps ReachRead) else ts"
  have "subseq (PhaseTools ph ts) ?cat"
    unfolding PhaseTools_def Let_def
    by (auto intro: keepPagingTools_subseq names_then_deny.composed.narrow_subseq)
  moreover have "subseq ?cat ts" using caps_stage.narrow_subseq by simp
  ultimately show "subseq (PhaseTools ph ts) ts" by (rule subseq_order.order_trans)
qed

section \<open>The stages as one predicate\<close>

definition named_ok :: "MachinePhase \<Rightarrow> string \<Rightarrow> bool" where
  "named_ok ph n \<longleftrightarrow> ph_tools ph = []
     \<or> (NoToolsMarker \<notin> set (map trim_space (ph_tools ph)) \<and> n \<in> set (map trim_space (ph_tools ph)))"

definition reach_ok :: "MachinePhase \<Rightarrow> AgentToolDef \<Rightarrow> bool" where
  "reach_ok ph td \<longleftrightarrow> (PhaseReach ph = ReachRead \<longrightarrow> capsAllowed (td_caps td) [CapRead])"

definition may_reach :: "MachinePhase \<Rightarrow> AgentToolDef \<Rightarrow> bool" where
  "may_reach ph td \<longleftrightarrow> PhaseReach ph \<noteq> ReachNone \<and> reach_ok ph td
     \<and> (td_name td \<in> set PagingToolNames
        \<or> (named_ok ph (td_name td) \<and> \<not> phaseDenied ph (td_name td)))"

lemma keepPaging_filter:
  "keepPagingTools (filter (\<lambda>td. P (td_name td)) cat) cat
     = filter (\<lambda>td. td_name td \<in> set PagingToolNames \<or> P (td_name td)) cat"
proof (cases "\<exists>td \<in> set cat. td_name td \<in> set PagingToolNames \<and> \<not> P (td_name td)")
  case True
  then show ?thesis by (auto simp: keepPagingTools_def Let_def image_iff intro!: filter_cong)
next
  case False
  then show ?thesis by (auto simp: keepPagingTools_def Let_def image_iff intro!: filter_cong)
qed

lemma resolve_filter: "resolveStageTools (ph_tools ph) cat = filter (\<lambda>td. named_ok ph (td_name td)) cat"
proof (cases "NoToolsMarker \<in> set (map trim_space (ph_tools ph))")
  case True
  then have "\<exists>n \<in> set (ph_tools ph). trim_space n = NoToolsMarker" "ph_tools ph \<noteq> []"
    by (metis imageE set_map, auto)
  with True show ?thesis by (simp add: resolveStageTools_def named_ok_def)
next
  case False
  then have "\<not> (\<exists>n \<in> set (ph_tools ph). trim_space n = NoToolsMarker)" by (metis image_eqI set_map)
  with False show ?thesis by (simp add: resolveStageTools_def named_ok_def)
qed

lemma resolve_deny_filter:
  "applyPhaseDeny ph (resolveStageTools (ph_tools ph) cat)
     = filter (\<lambda>td. named_ok ph (td_name td) \<and> \<not> phaseDenied ph (td_name td)) cat"
proof (cases "ph_deny ph = []")
  case True
  then show ?thesis by (simp add: applyPhaseDeny_def resolve_filter phaseDenied_def)
next
  case False
  then show ?thesis by (simp add: applyPhaseDeny_def resolve_filter filter_filter conj_commute)
qed

lemma caps_of_read: "ReachAllowsCaps ReachRead = [CapRead]"
  by code_simp

lemma cat_filter:
  "(if PhaseReach ph = ReachRead then FilterToolsByCaps cat (ReachAllowsCaps ReachRead) else cat)
     = filter (reach_ok ph) cat"
  by (auto simp: caps_of_read FilterToolsByCaps_def reach_ok_def intro!: filter_cong)

text \<open>The three stages together are one test of the tool alone: a step is handed exactly the
  catalog tools that its reach admits and that are paging tools or are named (or nothing is
  named) and not denied, in catalog order.\<close>

theorem PhaseTools_spec: "PhaseTools ph catalog = filter (may_reach ph) catalog"
proof (cases "PhaseReach ph = ReachNone")
  case True
  then show ?thesis by (simp add: PhaseTools_def may_reach_def)
next
  case False
  have "PhaseTools ph catalog = keepPagingTools
      (filter (\<lambda>td. named_ok ph (td_name td) \<and> \<not> phaseDenied ph (td_name td))
        (filter (reach_ok ph) catalog)) (filter (reach_ok ph) catalog)"
    using False by (simp only: PhaseTools_def Let_def cat_filter resolve_deny_filter if_False)
  also have "\<dots> = filter (may_reach ph) catalog"
    unfolding keepPaging_filter [of "\<lambda>n. named_ok ph n \<and> \<not> phaseDenied ph n"]
    unfolding filter_filter
    by (auto intro!: filter_cong simp: may_reach_def False)
  finally show ?thesis .
qed

text \<open>
  The reach is compared as stored, while \<open>validReach\<close> accepts it in any letter case: a step
  whose reach is spelled \<open>None\<close> validates and is handed the whole catalog.
\<close>

text \<open>A reach stored with capital letters passes validation, yet narrows nothing: a step
  whose reach reads \<open>None\<close>, and that names and denies no tool, is handed the whole catalog.\<close>

theorem capital_reach_is_not_narrowed:
  "ph_reach ph = ''None'' \<Longrightarrow> ph_tools ph = [] \<Longrightarrow> ph_deny ph = [] \<Longrightarrow>
     validReach (ph_reach ph) \<and> PhaseTools ph catalog = catalog"
proof -
  assume a: "ph_reach ph = ''None''" "ph_tools ph = []" "ph_deny ph = []"
  have t: "trim_space ''None'' = ''None''" "validReach ''None''" by code_simp+
  then have "PhaseReach ph = ''None''" using a by (simp add: PhaseReach_def)
  then have "may_reach ph = (\<lambda>_. True)"
    using a by (auto simp: may_reach_def named_ok_def phaseDenied_def reach_ok_def reach_defs)
  then show ?thesis using a t by (simp add: PhaseTools_spec)
qed

theorem capital_reach_witness:
  "validReach ''None''
     \<and> PhaseTools (zero_phase\<lparr>ph_reach := ''None''\<rparr>) [\<lparr>td_name = ''run_shell'', td_caps = [''execute''], td_confirm = False\<rparr>]
         = [\<lparr>td_name = ''run_shell'', td_caps = [''execute''], td_confirm = False\<rparr>]"
  using capital_reach_is_not_narrowed [of "zero_phase\<lparr>ph_reach := ''None''\<rparr>"]
  by (simp add: zero_phase_def)

end
