(* ===== verification/MachineAdvice.thy ===== *)
theory MachineAdvice
  imports MachineReach
begin

text \<open>
  What is worth fixing but does not refuse a save: \<open>Advice\<close> and what it asks of the wiring and of the
  prompts (core/machine_def.go). \<open>reachableFrom\<close>, the source's worklist over the wiring, is proved to
  compute exactly the reflexive transitive closure of the one-step relation \<open>wired\<close>.

  As in MachineChecks a sentence is a constructor of \<open>advice\<close> holding what it names.
\<close>

section \<open>The wiring\<close>

text \<open>\<open>p, _ := d.Phase(name)\<close>: Go's zero phase when there is none.\<close>

definition phase_at :: "MachineDef \<Rightarrow> string \<Rightarrow> MachinePhase" where
  "phase_at d name = (case Phase d name of Some p \<Rightarrow> p | None \<Rightarrow> zero_phase)"

definition phaseTargets :: "MachineDef \<Rightarrow> MachinePhase \<Rightarrow> string list \<times> bool" where
  "phaseTargets d p =
     (let targets = ph_next p # ph_choices p @ ph_exits_to p
            @ (if trim_space (ph_guard p) \<noteq> []
               then [chooseStr (trim_space (ph_guard_to p)) (StartPhase d)] else []);
          from = trim_space (ph_next_from p) in
      if from = [] then (targets, False)
      else
        let enum = (case find (\<lambda>f. f_name f = from) (rev (ph_output p)) of
                      Some f \<Rightarrow> f_enum f | None \<Rightarrow> [])
        in if enum = [] then (targets, True) else (targets @ enum, False))"

fun add_targets ::
    "MachineDef \<Rightarrow> string list \<Rightarrow> string list \<Rightarrow> string list \<Rightarrow> string list \<times> string list" where
  "add_targets d [] reached queue = (reached, queue)"
| "add_targets d (t # ts) reached queue =
     (let n = trim_space t in
      if Phase d n \<noteq> None \<and> n \<notin> set reached
      then add_targets d ts (n # reached) (queue @ [n])
      else add_targets d ts reached queue)"

definition unreached :: "MachineDef \<Rightarrow> string list \<Rightarrow> nat" where
  "unreached d reached = length (filter (\<lambda>n. n \<notin> set reached) (PhaseNames d))"

lemma unreached_Cons:
  assumes "Phase d n \<noteq> None" "trimmed n" "n \<notin> set reached"
  shows "unreached d (n # reached) < unreached d reached"
  unfolding unreached_def
proof (rule length_filter_strict)
  show "n \<in> set (PhaseNames d)" using assms Phase_None [of d n] by (simp add: trimmed_def)
qed (use assms in auto)

lemma add_targets_size:
  "add_targets d ts reached queue = (reached', queue') \<Longrightarrow>
     length queue' + unreached d reached' \<le> length queue + unreached d reached"
proof (induction ts arbitrary: reached queue)
  case (Cons t ts)
  show ?case
  proof (cases "Phase d (trim_space t) \<noteq> None \<and> trim_space t \<notin> set reached")
    case True
    with Cons.prems have "add_targets d ts (trim_space t # reached) (queue @ [trim_space t]) = (reached', queue')"
      by (simp add: Let_def)
    from Cons.IH [OF this] unreached_Cons [of d "trim_space t" reached] True
    show ?thesis by simp
  next
    case False
    with Cons show ?thesis by (auto simp: Let_def)
  qed
qed simp

function reach_loop ::
    "MachineDef \<Rightarrow> string list \<Rightarrow> string list \<Rightarrow> bool \<Rightarrow> string list \<times> bool" where
  "reach_loop d reached [] open0 = (reached, open0)"
| "reach_loop d reached (q # queue) open0 =
     (case phaseTargets d (phase_at d q) of (targets, anywhere) \<Rightarrow>
      case add_targets d targets reached queue of (reached', queue') \<Rightarrow>
        reach_loop d reached' queue' (open0 \<or> anywhere))"
  by pat_completeness auto
termination
proof (relation "measure (\<lambda>(d, reached, queue, _). length queue + unreached d reached)")
  fix d reached q queue open0 targets anywhere reached' queue' t1 t2
  assume "(reached', queue') = add_targets d targets reached queue"
  then show "((d, reached', queue', open0 \<or> anywhere), d, reached, q # queue, open0)
      \<in> measure (\<lambda>(d, reached, queue, _). length queue + unreached d reached)"
    using add_targets_size [of d targets reached queue reached' queue'] by simp
qed auto

definition reachableFrom :: "MachineDef \<Rightarrow> string \<Rightarrow> string list \<times> bool" where
  "reachableFrom d from = reach_loop d [from] [from] False"

definition unreachablePhases :: "MachineDef \<Rightarrow> string list" where
  "unreachablePhases d =
     (let start = StartPhase d in
      case Phase d start of
        None \<Rightarrow> []
      | Some _ \<Rightarrow>
          (let (reached, open0) = reachableFrom d start in
           if open0 then []
           else filter (\<lambda>n. n \<noteq> [] \<and> n \<notin> set reached) (map (\<lambda>p. trim_space (ph_name p)) (md_phases d))))"

subsection \<open>The worklist computes reachability\<close>

inductive wired :: "MachineDef \<Rightarrow> string \<Rightarrow> string \<Rightarrow> bool" for d where
  wired: "t \<in> set (fst (phaseTargets d (phase_at d a))) \<Longrightarrow> trim_space t = b \<Longrightarrow>
    Phase d b \<noteq> None \<Longrightarrow> wired d a b"

inductive_simps wired_iff: "wired d a b"

lemma add_targets_set:
  "add_targets d ts reached queue = (reached', queue') \<Longrightarrow>
     set reached' = set reached \<union> ({n. Phase d n \<noteq> None} \<inter> trim_space ` set ts)
     \<and> set queue' = set queue \<union> (set reached' - set reached)"
proof (induction ts arbitrary: reached queue)
  case (Cons t ts)
  let ?n = "trim_space t" and ?known = "{n. Phase d n \<noteq> None}"
  show ?case
  proof (cases "Phase d ?n \<noteq> None \<and> ?n \<notin> set reached")
    case True
    then have known: "?n \<in> ?known" "?n \<notin> set reached" by simp_all
    from True Cons.prems have "add_targets d ts (?n # reached) (queue @ [?n]) = (reached', queue')"
      by (simp add: Let_def)
    from Cons.IH [OF this] have
      R: "set reached' = insert ?n (set reached) \<union> (?known \<inter> trim_space ` set ts)" and
      Q: "set queue' = insert ?n (set queue) \<union> (set reached' - insert ?n (set reached))"
      by simp_all
    have "set reached' = set reached \<union> (?known \<inter> insert ?n (trim_space ` set ts))"
      unfolding R using known by blast
    moreover have "set queue' = set queue \<union> (set reached' - set reached)"
      unfolding Q using known R by blast
    ultimately show ?thesis by simp
  next
    case False
    then have "?n \<notin> ?known \<or> ?n \<in> set reached" by simp
    moreover from False Cons.prems have "add_targets d ts reached queue = (reached', queue')"
      by (auto simp: Let_def)
    note Cons.IH [OF this]
    ultimately show ?thesis by auto
  qed
qed simp

lemma add_targets_wired:
  assumes "phaseTargets d (phase_at d q) = (targets, anywhere)"
    and "add_targets d targets reached queue = (reached', queue')"
  shows "set reached' = set reached \<union> {n. wired d q n}"
    and "set queue' = set queue \<union> (set reached' - set reached)"
  using add_targets_set [OF assms(2)] assms(1) by (auto simp: wired_iff image_iff)

lemma reach_loop_exact:
  assumes "reach_loop d reached queue open0 = (r, o')"
    and "set queue \<subseteq> set reached"
    and "\<And>n. n \<in> set reached \<Longrightarrow> (wired d)\<^sup>*\<^sup>* from n"
    and "from \<in> set reached"
    and "\<And>a b. a \<in> set reached \<Longrightarrow> a \<notin> set queue \<Longrightarrow> wired d a b \<Longrightarrow> b \<in> set reached"
    and "open0 \<Longrightarrow> \<exists>a \<in> set reached. snd (phaseTargets d (phase_at d a))"
    and "\<And>a. a \<in> set reached \<Longrightarrow> a \<notin> set queue \<Longrightarrow> snd (phaseTargets d (phase_at d a)) \<Longrightarrow> open0"
  shows "set r = {n. (wired d)\<^sup>*\<^sup>* from n}
    \<and> (o' \<longleftrightarrow> (\<exists>n. (wired d)\<^sup>*\<^sup>* from n \<and> snd (phaseTargets d (phase_at d n))))"
  using assms
proof (induction d reached queue open0 rule: reach_loop.induct)
  case (1 d reached open0)
  have "n \<in> set reached" if "(wired d)\<^sup>*\<^sup>* from n" for n
    using that by induction (use "1.prems"(4,5) in auto)
  then have "set reached = {n. (wired d)\<^sup>*\<^sup>* from n}" using "1.prems"(3) by blast
  moreover from this have "open0 \<longleftrightarrow> (\<exists>n. (wired d)\<^sup>*\<^sup>* from n \<and> snd (phaseTargets d (phase_at d n)))"
    using "1.prems"(6,7) by auto
  ultimately show ?case using "1.prems"(1) by simp
next
  case (2 d reached q queue open0)
  obtain targets anywhere where t: "phaseTargets d (phase_at d q) = (targets, anywhere)"
    by (cases "phaseTargets d (phase_at d q)") auto
  obtain reached' queue' where a: "add_targets d targets reached queue = (reached', queue')"
    by (cases "add_targets d targets reached queue") auto
  note w = add_targets_wired [OF t a]
  have loop: "reach_loop d reached' queue' (open0 \<or> anywhere) = (r, o')"
    using "2.prems"(1) t a by simp
  have q: "q \<in> set reached" using "2.prems"(2) by simp
  show ?case
  proof (rule "2.IH" [OF t [symmetric] a [symmetric] loop])
    show "set queue' \<subseteq> set reached'" using w "2.prems"(2) by auto
    show "(wired d)\<^sup>*\<^sup>* from n" if "n \<in> set reached'" for n
      using that w(1) "2.prems"(3) q by (auto intro: rtranclp.rtrancl_into_rtrancl)
    show "from \<in> set reached'" using w(1) "2.prems"(4) by auto
    show "b \<in> set reached'" if "x \<in> set reached'" "x \<notin> set queue'" "wired d x b" for x b
    proof (cases "x = q")
      case True
      then show ?thesis using that w(1) by auto
    next
      case False
      have "x \<in> set reached" "x \<notin> set queue" using that w by auto
      then show ?thesis using False "2.prems"(5) [of x b] that w(1) by auto
    qed
    have any: "anywhere = snd (phaseTargets d (phase_at d q))" using t by simp
    show "\<exists>a \<in> set reached'. snd (phaseTargets d (phase_at d a))" if "open0 \<or> anywhere"
      using that "2.prems"(6) any q w(1) by auto
    show "open0 \<or> anywhere" if "x \<in> set reached'" "x \<notin> set queue'" "snd (phaseTargets d (phase_at d x))" for x
    proof (cases "x = q")
      case True
      then show ?thesis using any that by simp
    next
      case False
      then have "x \<in> set reached" "x \<notin> set (q # queue)" using that w by auto
      then show ?thesis using "2.prems"(7) that(3) by blast
    qed
  qed
qed

lemma reachableFrom_set: "set (fst (reachableFrom d from)) = {n. (wired d)\<^sup>*\<^sup>* from n}"
  and reachableFrom_open: "snd (reachableFrom d from) \<longleftrightarrow>
    (\<exists>n. (wired d)\<^sup>*\<^sup>* from n \<and> snd (phaseTargets d (phase_at d n)))"
proof -
  have "reach_loop d [from] [from] False = (fst (reachableFrom d from), snd (reachableFrom d from))"
    by (simp add: reachableFrom_def del: reach_loop.simps)
  from reach_loop_exact [OF this, of "from"]
  show "set (fst (reachableFrom d from)) = {n. (wired d)\<^sup>*\<^sup>* from n}"
    "snd (reachableFrom d from) \<longleftrightarrow> (\<exists>n. (wired d)\<^sup>*\<^sup>* from n \<and> snd (phaseTargets d (phase_at d n)))"
    by simp_all
qed

text \<open>C25: The search over the wiring is exact: it returns the steps some chain of declared targets leads
  to from the given one, and says the answer is open precisely when one of them routes on a field with
  no fixed set of values.\<close>

theorem reachableFrom_exact:
  "set (fst (reachableFrom d from)) = {n. (wired d)\<^sup>*\<^sup>* from n}
    \<and> (snd (reachableFrom d from) \<longleftrightarrow>
        (\<exists>n. (wired d)\<^sup>*\<^sup>* from n \<and> snd (phaseTargets d (phase_at d n))))"
  by (simp add: reachableFrom_set reachableFrom_open)

text \<open>A step is reported as unreachable exactly when the start step exists, no step reachable from it
  may name any step, and no chain of declared targets leads from the start to it.\<close>

theorem unreachablePhases_exact:
  "n \<in> set (unreachablePhases d) \<longleftrightarrow>
     n \<noteq> [] \<and> (\<exists>p \<in> set (md_phases d). trim_space (ph_name p) = n)
     \<and> Phase d (StartPhase d) \<noteq> None
     \<and> \<not> (wired d)\<^sup>*\<^sup>* (StartPhase d) n
     \<and> \<not> (\<exists>m. (wired d)\<^sup>*\<^sup>* (StartPhase d) m \<and> snd (phaseTargets d (phase_at d m)))"
proof -
  obtain r o' where ro: "reachableFrom d (StartPhase d) = (r, o')"
    by (cases "reachableFrom d (StartPhase d)") auto
  have r: "set r = {n. (wired d)\<^sup>*\<^sup>* (StartPhase d) n}"
    "o' \<longleftrightarrow> (\<exists>m. (wired d)\<^sup>*\<^sup>* (StartPhase d) m \<and> snd (phaseTargets d (phase_at d m)))"
    using reachableFrom_set [of d "StartPhase d"] reachableFrom_open [of d "StartPhase d"] ro by simp_all
  show ?thesis
    unfolding unreachablePhases_def Let_def ro r(2) [symmetric]
    using r(1) by (cases "Phase d (StartPhase d)") auto
qed

section \<open>Routing once\<close>

text \<open>
  \<open>routesOnce\<close>: the deciding steps in order, each contributing the waiting steps it leads to that no
  earlier one did.
\<close>

definition settles_here :: "MachinePhase \<Rightarrow> bool" where
  "settles_here p \<longleftrightarrow> ph_resident p \<and> trim_space (ph_next p) = [] \<and> trim_space (ph_guard p) = []"

definition decides :: "MachinePhase \<Rightarrow> bool" where
  "decides r \<longleftrightarrow> \<not> ph_resident r \<and> (ph_choices r \<noteq> [] \<or> trim_space (ph_next_from r) \<noteq> [])"

fun settle_scan ::
    "string list \<Rightarrow> string \<Rightarrow> MachinePhase list \<Rightarrow> string list \<Rightarrow> (string \<times> string) list \<times> string list" where
  "settle_scan reached router [] seen = ([], seen)"
| "settle_scan reached router (p # ps) seen =
     (let name = trim_space (ph_name p) in
      if name \<in> set reached \<and> name \<notin> set seen \<and> settles_here p then
        (case settle_scan reached router ps (name # seen) of (out, s) \<Rightarrow> ((name, router) # out, s))
      else settle_scan reached router ps seen)"

fun routes_scan ::
    "MachineDef \<Rightarrow> MachinePhase list \<Rightarrow> string list \<Rightarrow> (string \<times> string) list" where
  "routes_scan d [] seen = []"
| "routes_scan d (r # rs) seen =
     (if decides r then
        (case settle_scan (fst (reachableFrom d (ph_name r))) (trim_space (ph_name r)) (md_phases d) seen of
           (out, s) \<Rightarrow> out @ routes_scan d rs s)
      else routes_scan d rs seen)"

definition routesOnce :: "MachineDef \<Rightarrow> (string \<times> string) list" where
  "routesOnce d =
     (if md_unattended d \<or> md_route_each_message d then [] else routes_scan d (md_phases d) [])"

lemma settle_scan_sound:
  "settle_scan reached router ps seen = (out, s) \<Longrightarrow>
     (\<forall>e \<in> set out. snd e = router \<and> fst e \<in> set reached
        \<and> (\<exists>p \<in> set ps. settles_here p \<and> trim_space (ph_name p) = fst e))
     \<and> distinct (map fst out) \<and> set (map fst out) \<inter> set seen = {} \<and> set s = set seen \<union> set (map fst out)"
proof (induction ps arbitrary: seen out)
  case (Cons p ps)
  let ?n = "trim_space (ph_name p)"
  show ?case
  proof (cases "?n \<in> set reached \<and> ?n \<notin> set seen \<and> settles_here p")
    case True
    with Cons.prems obtain out' where o': "settle_scan reached router ps (?n # seen) = (out', s)"
        and out: "out = (?n, router) # out'"
      by (auto simp: Let_def split: prod.splits)
    note IH = Cons.IH [OF o']
    have "\<forall>e \<in> set out'. snd e = router \<and> fst e \<in> set reached
        \<and> (\<exists>q \<in> set (p # ps). settles_here q \<and> trim_space (ph_name q) = fst e)"
      using IH by auto
    moreover have "?n \<notin> set (map fst out')" "set (map fst out') \<inter> set seen = {}"
      "set s = insert ?n (set seen) \<union> set (map fst out')" "distinct (map fst out')"
      using IH by auto
    ultimately show ?thesis using True unfolding out by simp
  next
    case False
    with Cons.prems have "settle_scan reached router ps seen = (out, s)" by (auto simp: Let_def)
    from Cons.IH [OF this] show ?thesis by (metis list.set_intros(2))
  qed
qed simp

definition routed_once :: "MachineDef \<Rightarrow> MachinePhase list \<Rightarrow> string \<times> string \<Rightarrow> bool" where
  "routed_once d rs e \<longleftrightarrow>
     (\<exists>q \<in> set rs. decides q \<and> trim_space (ph_name q) = snd e \<and> (wired d)\<^sup>*\<^sup>* (ph_name q) (fst e))
     \<and> (\<exists>p \<in> set (md_phases d). settles_here p \<and> trim_space (ph_name p) = fst e)"

lemma routes_scan_sound:
  "(\<forall>e \<in> set (routes_scan d rs seen). routed_once d rs e)
   \<and> distinct (map fst (routes_scan d rs seen)) \<and> set (map fst (routes_scan d rs seen)) \<inter> set seen = {}"
proof (induction rs arbitrary: seen)
  case (Cons q rs)
  have more: "routed_once d (q # rs) e" if "routed_once d rs e" for e
    using that by (auto simp: routed_once_def)
  show ?case
  proof (cases "decides q")
    case True
    obtain out s where os:
      "settle_scan (fst (reachableFrom d (ph_name q))) (trim_space (ph_name q)) (md_phases d) seen = (out, s)"
      by fastforce
    have e: "routes_scan d (q # rs) seen = out @ routes_scan d rs s" using True os by simp
    note sc = settle_scan_sound [OF os]
    have "\<forall>e \<in> set out. routed_once d (q # rs) e"
      using sc True by (simp add: routed_once_def reachableFrom_set)
    moreover have "\<forall>e \<in> set (routes_scan d rs s). routed_once d (q # rs) e"
      using Cons.IH [of s] more by blast
    moreover have "set (map fst (routes_scan d rs s)) \<inter> (set seen \<union> set (map fst out)) = {}"
      using Cons.IH [of s] sc by simp
    ultimately show ?thesis unfolding e using sc Cons.IH [of s] by (simp add: ball_Un Int_Un_distrib Int_Un_distrib2 Int_commute)
  next
    case False
    with Cons.IH [of seen] more show ?thesis by simp
  qed
qed simp

text \<open>Each step reported as routed once is a waiting step with no next and no guard, reported once,
  and its router is a deciding step whose wiring leads to it.\<close>

theorem routesOnce_sound:
  "distinct (map fst (routesOnce d))
   \<and> ((n, r) \<in> set (routesOnce d) \<longrightarrow>
        (\<exists>p \<in> set (md_phases d). settles_here p \<and> trim_space (ph_name p) = n)
        \<and> (\<exists>q \<in> set (md_phases d). decides q \<and> trim_space (ph_name q) = r \<and> (wired d)\<^sup>*\<^sup>* (ph_name q) n))"
  using routes_scan_sound [of d "md_phases d" "[]"]
  by (auto simp: routesOnce_def dest!: bspec [of _ _ "(n, r)"] simp: routed_once_def)

definition routing_machine :: MachineDef where
  "routing_machine = zero_machine\<lparr>md_name := ''desk'',
     md_phases :=
      [zero_phase\<lparr>ph_name := ''triage'', ph_prompt := ''Decide who answers.'', ph_choices := [''answer'']\<rparr>,
       zero_phase\<lparr>ph_name := ''answer'', ph_resident := True, ph_prompt := ''Answer.''\<rparr>]\<rparr>"

theorem routesOnce_sound_witness:
  "\<exists>q \<in> set (md_phases routing_machine). decides q \<and> trim_space (ph_name q) = ''triage''
     \<and> (wired routing_machine)\<^sup>*\<^sup>* (ph_name q) ''answer''"
proof -
  have "(''answer'', ''triage'') \<in> set (routesOnce routing_machine)" by code_simp
  then show ?thesis using routesOnce_sound [of routing_machine "''answer''" "''triage''"] by blast
qed

section \<open>What a prompt says\<close>

definition handoff_verbs :: "string list" where
  "handoff_verbs = [''delegate'', ''hand it'', ''hand off'', ''hand the'', ''forward'', ''dispatch'',
     ''send it to'', ''send this to'', ''pass it to'', ''pass this to'', ''route it'', ''route this'']"

definition promptDelegatesTo :: "string \<Rightarrow> string \<Rightarrow> bool" where
  "promptDelegatesTo prompt agent =
     (let lp = to_lower prompt; la = to_lower (trim_space agent) in
      if la = [] \<or> \<not> contains lp la then False
      else list_ex (contains lp) handoff_verbs)"

definition said_words :: "string list" where
  "said_words = [''message'', ''request'', ''question'', ''said'', ''asked'', ''wrote'', ''query'', ''input'', ''text'']"

definition gap_chars :: "string list" where
  "gap_chars = [[CHR 0x20], [CHR 0x09], [CHR 0x0A], '':'', ''='', [CHR 0x22], [CHR 0x27], ''-'']"

definition names_what_was_said :: "string \<Rightarrow> string \<Rightarrow> bool" where
  "names_what_was_said before w =
     (case last_index_of before w of
        None \<Rightarrow> False
      | Some j \<Rightarrow> trim_runes gap_chars (drop (j + length w) before) \<in> set [[], ''is'', ''was''])"

function user_scan :: "string \<Rightarrow> nat \<Rightarrow> bool" where
  "user_scan lp pos =
     (case index_of (drop pos lp) ''{user}'' of
        None \<Rightarrow> False
      | Some i \<Rightarrow>
          (let start = (if pos + i \<ge> 40 then pos + i - 40 else 0);
               before = drop start (take (pos + i) lp)
           in if list_ex (names_what_was_said before) said_words then True
              else user_scan lp (pos + (i + 6))))"
  by pat_completeness auto
termination
proof (relation "measure (\<lambda>(lp, pos). length lp - pos)")
  fix lp :: string and pos i
  assume "index_of (drop pos lp) ''{user}'' = Some i"
  from index_of_Some [OF this] have "i + 6 \<le> length lp - pos" by simp
  then show "((lp, pos + (i + 6)), (lp, pos)) \<in> measure (\<lambda>(lp, pos). length lp - pos)" by simp
qed simp

declare user_scan.simps [simp del]

definition userMeantAsMessage :: "string \<Rightarrow> bool" where
  "userMeantAsMessage prompt = user_scan (to_lower prompt) 0"

definition isWordByte :: "char \<Rightarrow> bool" where
  "isWordByte c =
     (let n = (of_char c :: nat) in
      (97 \<le> n \<and> n \<le> 122) \<or> (65 \<le> n \<and> n \<le> 90) \<or> (48 \<le> n \<and> n \<le> 57) \<or> n = 95)"

function word_scan :: "string \<Rightarrow> string \<Rightarrow> nat \<Rightarrow> bool" where
  "word_scan s sign pos =
     (if pos < length s then
        (case index_of (drop pos s) sign of
           None \<Rightarrow> False
         | Some i0 \<Rightarrow>
             (let i = i0 + pos in
              if i = 0 \<or> \<not> isWordByte (s ! (i - 1)) then True
              else word_scan s sign (i + 1)))
      else False)"
  by pat_completeness auto
termination
  by (relation "measure (\<lambda>(s, _, pos). length s - pos)") auto

declare word_scan.simps [simp del]

definition containsWord :: "string \<Rightarrow> string \<Rightarrow> bool" where
  "containsWord s sign = word_scan s sign 0"

definition look_signs :: "string list" where
  "look_signs = [''go and look'', ''go look'', ''search '', ''look it up'', ''read the file'',
     ''read the log'', ''run the command'', ''ask the live'', ''check the system'', ''fetch '']"

definition wantsToLook :: "string \<Rightarrow> bool" where
  "wantsToLook prompt = list_ex (containsWord (to_lower prompt)) look_signs"

definition json_signs :: "string list" where
  "json_signs = [''json object'', ''as json'', ''valid json'', ''in json format'',
     ''do not include any other text'', ''respond only with'', ''reply only with'']"

definition asksForRawJSON :: "string \<Rightarrow> bool" where
  "asksForRawJSON prompt = list_ex (contains (to_lower prompt)) json_signs"

text \<open>
  \<open>containsWord\<close> finds an occurrence exactly when some occurrence of the sign starts the string or
  follows a byte no word continues with.
\<close>

definition word_at :: "string \<Rightarrow> string \<Rightarrow> nat \<Rightarrow> bool" where
  "word_at s sign i \<longleftrightarrow> i < length s \<and> has_prefix (drop i s) sign \<and> (i = 0 \<or> \<not> isWordByte (s ! (i - 1)))"

lemma index_of_least:
  "index_of s p = Some i \<Longrightarrow> has_prefix (drop i s) p \<and> (\<forall>j < i. \<not> has_prefix (drop j s) p)"
proof (induction s p arbitrary: i rule: index_of.induct)
  case (1 p)
  then show ?case by (simp split: if_splits)
next
  case (2 c s p)
  show ?case
  proof (cases "has_prefix (c # s) p")
    case True
    with "2.prems" show ?thesis by simp
  next
    case False
    with "2.prems" obtain k where k: "index_of s p = Some k" "i = Suc k" by auto
    with "2.IH" [OF False k(1)] False show ?thesis
      by (auto simp: less_Suc_eq_0_disj)
  qed
qed

lemma index_of_none: "index_of s p = None \<Longrightarrow> \<not> has_prefix (drop j s) p"
proof -
  assume n: "index_of s p = None"
  show ?thesis
  proof
    assume "has_prefix (drop j s) p"
    then obtain t where "s = take j s @ p @ t" by (metis append_take_drop_id has_prefix_conv)
    with n index_of_append show False by metis
  qed
qed

lemma word_scan_iff: "word_scan s sign pos \<longleftrightarrow> (\<exists>i \<ge> pos. word_at s sign i)"
proof (induction s sign pos rule: word_scan.induct)
  case (1 s sign pos)
  show ?case
  proof (cases "pos < length s")
    case False
    then show ?thesis by (subst word_scan.simps) (auto simp: word_at_def)
  next
    case lt: True
    show ?thesis
    proof (cases "index_of (drop pos s) sign")
      case None
      have "\<not> word_at s sign i" if "i \<ge> pos" for i
        using index_of_none [OF None, of "i - pos"] that by (simp add: word_at_def)
      then show ?thesis using None by (subst word_scan.simps) auto
    next
      case (Some i0)
      note least = index_of_least [OF Some]
      show ?thesis
      proof (cases "i0 + pos = 0 \<or> \<not> isWordByte (s ! (i0 + pos - 1))")
        case True
        have "i0 + pos < length s \<or> sign = []"
          using index_of_Some [OF Some] lt by (cases sign) auto
        moreover have "i0 = 0" if "sign = []" using least that by (metis gr0I has_prefix_Nil)
        ultimately have "word_at s sign (i0 + pos)"
          using True least lt by (auto simp: word_at_def add.commute)
        then show ?thesis using Some lt True by (subst word_scan.simps) (auto simp: Let_def intro: exI [of _ "i0 + pos"])
      next
        case False
        have "\<not> word_at s sign i" if "pos \<le> i" "i < i0 + pos + 1" for i
        proof (cases "i = i0 + pos")
          case True
          then show ?thesis using False by (simp add: word_at_def)
        next
          case False
          then have "i - pos < i0" using that by simp
          with least have "\<not> has_prefix (drop (i - pos) (drop pos s)) sign" by blast
          then show ?thesis using that by (simp add: word_at_def)
        qed
        then have "(\<exists>i \<ge> i0 + pos + 1. word_at s sign i) \<longleftrightarrow> (\<exists>i \<ge> pos. word_at s sign i)"
          by (metis add_leE le_add2 linorder_not_less order.trans)
        then have "word_scan s sign (i0 + pos + 1) \<longleftrightarrow> (\<exists>i \<ge> pos. word_at s sign i)"
          using "1.IH" [OF lt Some refl False] by blast
        then show ?thesis using False Some lt
          by (subst word_scan.simps) (auto simp: Let_def simp del: One_nat_def)
      qed
    qed
  qed
qed

lemma containsWord_iff: "containsWord s sign \<longleftrightarrow> (\<exists>i. word_at s sign i)"
  by (simp add: containsWord_def word_scan_iff)

text \<open>A phrase inside a longer word is not found: the case that made the test word-wise.\<close>

lemma research_does_not_search: "\<not> wantsToLook ''Plan how to research the product.''"
  by code_simp

section \<open>The advice\<close>

datatype advice =
    AFilledType string string string string
  | AToolsAndAgent string
  | ALooks string bool
  | ARawJSON string
  | ADelegates string string
  | AUserVar string bool
  | ARoutesOnce string string string
  | AUnreachable string

definition advise :: "bool \<Rightarrow> advice \<Rightarrow> advice list" where
  "advise b a = (if b then [a] else [])"

definition phase_advice :: "MachinePhase \<Rightarrow> advice list" where
  "phase_advice p =
     (let name = trim_space (ph_name p); agent = trim_space (ph_agent p) in
      if name = [] then []
      else
        map (\<lambda>f. AFilledType name (f_name f) (f_from f) (f_type f))
          (filter (\<lambda>f. trim_space (f_from f) \<noteq> [] \<and> f_type f \<noteq> [] \<and> f_type f \<noteq> FieldString) (ph_output p))
        @ advise (ph_tools p \<noteq> [] \<and> agent \<noteq> []) (AToolsAndAgent name)
        @ advise (PhaseReach p = ReachNone \<and> agent = [] \<and> wantsToLook (ph_prompt p))
            (ALooks name (trim_space (ph_reach p) = ReachUnset))
        @ advise (ph_output p \<noteq> [] \<and> asksForRawJSON (ph_prompt p)) (ARawJSON name)
        @ advise (agent \<noteq> [] \<and> promptDelegatesTo (ph_prompt p) agent) (ADelegates name agent)
        @ advise (userMeantAsMessage (ph_prompt p)) (AUserVar name (ph_resident p)))"

definition Advice :: "MachineDef \<Rightarrow> advice list" where
  "Advice d =
     concat (map phase_advice (md_phases d))
     @ map (\<lambda>(n, r). ARoutesOnce n r (StartPhase d)) (routesOnce d)
     @ map AUnreachable (unreachablePhases d)"

record MachineRewrite =
  rw_step :: string
  rw_why :: advice

definition PromptRewrites :: "MachineDef \<Rightarrow> MachineRewrite list" where
  "PromptRewrites d =
     map (\<lambda>p. \<lparr>rw_step = trim_space (ph_name p), rw_why = ARawJSON (trim_space (ph_name p))\<rparr>)
       (filter (\<lambda>p. trim_space (ph_name p) \<noteq> [] \<and> ph_output p \<noteq> [] \<and> asksForRawJSON (ph_prompt p))
          (md_phases d))"

text \<open>What the rewrite panel offers is exactly what the advice list reports of that kind.\<close>

lemma PromptRewrites_are_advice:
  "rw_why ` set (PromptRewrites d) = {a \<in> set (Advice d). \<exists>n. a = ARawJSON n}"
  by (auto simp: PromptRewrites_def Advice_def phase_advice_def advise_def Let_def image_iff
      split: if_splits)

end
