(* ===== verification/MachineState.thy ===== *)
theory MachineState
  imports MachineModel
begin

text \<open>
  A session's position and its blackboard: \<open>PhaseResult\<close>, \<open>MachineState\<close>, \<open>PhaseHop\<close>,
  \<open>MachineCursor\<close> and the moves over them (core/machine.go: \<open>moveTo\<close>, \<open>resume\<close>,
  \<open>restartForMessage\<close>, \<open>MoveCursor\<close>; core/machine_phase.go: \<open>CompleteTurn\<close>), and the
  run-scoped lists many steps write (core/machine_accum.go).

  The code updates the cursor in place and reports each framework decision to a callback; here an
  operation returns the new cursor and the list of reports (\<open>mnote\<close>, one constructor per kind).
  \<open>time.Now()\<close> is an argument.
\<close>

section \<open>Data\<close>

record PhaseResult =
  pr_text :: string
  pr_fields :: "(string \<times> val) list"
  pr_skipped :: bool
  pr_skip_reason :: string

type_synonym MachineState = "(string \<times> PhaseResult) list"

datatype hop_why =
    WhyText string
  | WhyRouteNote route_note
  | WhyRoutedBy string
  | WhyNotApplicable string
  | WhyGuard string
  | WhyNewMessage
  | WhyOneTurn

record PhaseHop =
  hop_from :: string
  hop_to :: string
  hop_reason :: hop_why
  hop_at :: int

definition maxPhaseLog :: nat where "maxPhaseLog = 50"

record MachineCursor =
  cur_phase :: string
  cur_state :: MachineState
  cur_log :: "PhaseHop list"
  cur_opening :: string

definition zero_cursor :: MachineCursor where
  "zero_cursor = \<lparr>cur_phase = [], cur_state = [], cur_log = [], cur_opening = []\<rparr>"

datatype mnote =
    NStateTrim string "string list"
  | NPhaseReset string string string
  | NRunCap string nat string
  | NTransitionCap string nat string
  | NStepSkipped string string string
  | NRouteFallback route_note
  | NDeadEnd string string
  | NUnknownHandoff string string
  | NPhaseAdvance string string
  | NPhaseChanged string string
  | NExitRefused string string "string list"
  | NGuardExitRefused string string
  | NGuardFailed string
  | NGuardUnresolved string string string
  | NGuardTripped string string string
  | NAccumulatorEmpty string string string
  | NStaticEmpty string string string
  | NOutputRepair string decode_err bool

section \<open>The working set\<close>

definition AccumulatorItemsField :: string where "AccumulatorItemsField = ''items''"
definition AccumulatorCountField :: string where "AccumulatorCountField = ''count''"

definition accumulator_names_raw :: "MachineDef \<Rightarrow> string list" where
  "accumulator_names_raw d =
     concat (map (\<lambda>p. map (\<lambda>a. trim_space (ac_name a)) (ph_accumulates p)) (md_phases d))"

text \<open>Every list the machine writes, in the order first declared.\<close>

definition Accumulators :: "MachineDef \<Rightarrow> string list" where
  "Accumulators d = first_seen [] (filter (\<lambda>n. n \<noteq> []) (accumulator_names_raw d))"

definition accumulatorNames :: "MachineDef \<Rightarrow> string list" where
  "accumulatorNames d = Accumulators d"

lemma set_Accumulators:
  "n \<in> set (Accumulators d) \<longleftrightarrow>
     n \<noteq> [] \<and> (\<exists>p \<in> set (md_phases d). \<exists>a \<in> set (ph_accumulates p). trim_space (ac_name a) = n)"
  by (auto simp: Accumulators_def accumulator_names_raw_def set_first_seen)

lemma distinct_Accumulators: "distinct (Accumulators d)"
  by (simp add: Accumulators_def distinct_first_seen)

fun accumItems :: "val \<Rightarrow> val list" where
  "accumItems VNil = []"
| "accumItems (VList t) = filter (\<lambda>it. \<not> (case it of VStr s \<Rightarrow> trim_space s = [] | _ \<Rightarrow> False)) t"
| "accumItems (VStr s) = (if trim_space s = [] then [] else [VStr s])"
| "accumItems v = [v]"

definition accumCurrent :: "MachineState \<Rightarrow> string \<Rightarrow> val list" where
  "accumCurrent st name =
     (case map_of st name of
        None \<Rightarrow> []
      | Some res \<Rightarrow> (case map_of (pr_fields res) AccumulatorItemsField of
                       Some (VList l) \<Rightarrow> l | _ \<Rightarrow> []))"

definition accumKey :: "golib \<Rightarrow> val \<Rightarrow> string \<Rightarrow> string" where
  "accumKey L item by0 =
     (let b = trim_space by0 in
      case (b, item) of
        ([], _) \<Rightarrow> trim_space (renderFieldValue L item)
      | (_, VObj m) \<Rightarrow>
          (case map_of m b of
             Some v \<Rightarrow> trim_space (renderFieldValue L v)
           | None \<Rightarrow> trim_space (renderFieldValue L item))
      | _ \<Rightarrow> trim_space (renderFieldValue L item))"

definition renderAccumulator :: "golib \<Rightarrow> val list \<Rightarrow> string" where
  "renderAccumulator L items =
     trim_right [newline]
       (concat (map (\<lambda>(i, it). itoa (i + 1) @ ''. '' @ trim_space (renderFieldValue L it) @ newline)
          (enumerate 0 items)))"

fun union_add :: "golib \<Rightarrow> string \<Rightarrow> string list \<Rightarrow> val list \<Rightarrow> val list \<Rightarrow> val list" where
  "union_add L b seen held [] = held"
| "union_add L b seen held (it # add) =
     (let k = accumKey L it b in
      if k \<in> set seen then union_add L b seen held add
      else union_add L b (k # seen) (held @ [it]) add)"

text \<open>What one contribution makes of the list held so far.\<close>

definition combine :: "golib \<Rightarrow> MachineAccumulator \<Rightarrow> val list \<Rightarrow> val list \<Rightarrow> val list" where
  "combine L acc held add =
     (let mode = to_lower (trim_space (ac_mode acc)) in
      if mode = ''replace'' then add
      else if mode = ''union''
        then union_add L (ac_by acc) (map (\<lambda>it. accumKey L it (ac_by acc)) held) held add
      else held @ add)"

definition accumulator_entry :: "golib \<Rightarrow> val list \<Rightarrow> PhaseResult" where
  "accumulator_entry L items =
     \<lparr>pr_text = renderAccumulator L items,
      pr_fields = [(AccumulatorItemsField, VList items), (AccumulatorCountField, VInt (int (length items)))],
      pr_skipped = False, pr_skip_reason = []\<rparr>"

text \<open>One declared contribution: the new blackboard and the report, if any.\<close>

definition accumulate_one ::
    "golib \<Rightarrow> MachinePhase \<Rightarrow> (string \<times> val) list \<Rightarrow> MachineAccumulator \<Rightarrow> MachineState
      \<Rightarrow> MachineState \<times> mnote list" where
  "accumulate_one L ph flds acc st =
     (let name = trim_space (ac_name acc); from = trim_space (ac_from acc) in
      if name = [] \<or> from = [] then (st, [])
      else case map_of flds from of
          None \<Rightarrow> (st, [NAccumulatorEmpty (ph_name ph) from name])
        | Some v \<Rightarrow>
            (let add = accumItems v in
             if add = [] then (st, [])
             else (AList.update name (accumulator_entry L (combine L acc (accumCurrent st name) add)) st, [])))"

fun accumulate_list ::
    "golib \<Rightarrow> MachinePhase \<Rightarrow> (string \<times> val) list \<Rightarrow> MachineAccumulator list \<Rightarrow> MachineState
      \<Rightarrow> MachineState \<times> mnote list" where
  "accumulate_list L ph flds [] st = (st, [])"
| "accumulate_list L ph flds (acc # accs) st =
     (let (st1, n1) = accumulate_one L ph flds acc st;
          (st2, n2) = accumulate_list L ph flds accs st1
      in (st2, n1 @ n2))"

definition accumulate ::
    "golib \<Rightarrow> MachinePhase \<Rightarrow> (string \<times> val) list \<Rightarrow> MachineState \<Rightarrow> MachineState \<times> mnote list" where
  "accumulate L ph flds st = accumulate_list L ph flds (ph_accumulates ph) st"

lemma union_add_keeps: "\<exists>more. union_add L b seen held add = held @ more \<and> set more \<subseteq> set add"
proof (induction add arbitrary: seen held)
  case Nil
  then show ?case by simp
next
  case (Cons it add)
  show ?case
  proof (cases "accumKey L it b \<in> set seen")
    case True
    with Cons.IH [of seen "held"] show ?thesis by fastforce
  next
    case False
    from Cons.IH [of "accumKey L it b # seen" "held @ [it]"] obtain more
      where "union_add L b (accumKey L it b # seen) (held @ [it]) add = (held @ [it]) @ more"
        "set more \<subseteq> set add" by auto
    with False show ?thesis by (intro exI [of _ "it # more"]) auto
  qed
qed

lemma union_add_distinct:
  assumes "distinct (map (\<lambda>it. accumKey L it b) held)"
    and "set seen = set (map (\<lambda>it. accumKey L it b) held)"
  shows "distinct (map (\<lambda>it. accumKey L it b) (union_add L b seen held add))"
  using assms
proof (induction add arbitrary: seen held)
  case Nil
  then show ?case by simp
next
  case (Cons it add)
  then show ?case by (cases "accumKey L it b \<in> set seen") (auto simp: Let_def)
qed

lemma union_add_complete:
  assumes "set seen = set (map (\<lambda>it. accumKey L it b) held)"
  shows "(\<lambda>it. accumKey L it b) ` set (union_add L b seen held add)
    = (\<lambda>it. accumKey L it b) ` (set held \<union> set add)"
  using assms
proof (induction add arbitrary: seen held)
  case Nil
  then show ?case by simp
next
  case (Cons it add)
  show ?case
  proof (cases "accumKey L it b \<in> set seen")
    case True
    with Cons show ?thesis by (auto simp: Let_def)
  next
    case False
    with Cons.IH [of "accumKey L it b # seen" "held @ [it]"] Cons.prems
    show ?thesis by (simp add: Let_def image_Un)
  qed
qed

text \<open>A step's contributions change only the lists it names.\<close>

lemma accumulate_one_other:
  "k \<noteq> trim_space (ac_name acc) \<Longrightarrow>
     map_of (fst (accumulate_one L ph flds acc st)) k = map_of st k"
  by (simp add: accumulate_one_def Let_def map_of_update_eq split: option.splits)

lemma accumulate_list_other:
  "\<forall>a \<in> set accs. k \<noteq> trim_space (ac_name a) \<Longrightarrow>
     map_of (fst (accumulate_list L ph flds accs st)) k = map_of st k"
  by (induction accs arbitrary: st) (auto simp: accumulate_one_other Let_def split_beta)

lemma accumulate_one_keys: "set (keys st) \<subseteq> set (keys (fst (accumulate_one L ph flds acc st)))"
  by (auto simp: accumulate_one_def Let_def dom_update split: option.splits)

lemma accumulate_list_keys: "set (keys st) \<subseteq> set (keys (fst (accumulate_list L ph flds accs st)))"
proof (induction accs arbitrary: st)
  case (Cons a accs)
  have "set (keys st) \<subseteq> set (keys (fst (accumulate_one L ph flds a st)))"
    by (rule accumulate_one_keys)
  also have "\<dots> \<subseteq> set (keys (fst (accumulate_list L ph flds accs (fst (accumulate_one L ph flds a st)))))"
    by (rule Cons.IH)
  finally show ?case by (simp add: Let_def split_beta)
qed simp

lemma accumulate_list_distinct:
  "distinct (keys st) \<Longrightarrow> distinct (keys (fst (accumulate_list L ph flds accs st)))"
proof (induction accs arbitrary: st)
  case (Cons a accs)
  have "distinct (keys (fst (accumulate_one L ph flds a st)))"
    using Cons.prems by (auto simp: accumulate_one_def Let_def distinct_update split: option.splits)
  then show ?case using Cons.IH by (simp add: Let_def split_beta)
qed simp

section \<open>Moves\<close>

definition last_n :: "nat \<Rightarrow> 'a list \<Rightarrow> 'a list" where
  "last_n n xs = drop (length xs - n) xs"

lemma length_last_n: "length (last_n n xs) \<le> n"
  by (simp add: last_n_def)

definition add_hop :: "int \<Rightarrow> MachineCursor \<Rightarrow> string \<Rightarrow> string \<Rightarrow> hop_why \<Rightarrow> MachineCursor" where
  "add_hop now cur from to why =
     (if from \<noteq> [] \<and> from \<noteq> to then
        cur\<lparr>cur_log := last_n maxPhaseLog
              (cur_log cur @ [\<lparr>hop_from = from, hop_to = to, hop_reason = why, hop_at = now\<rparr>])\<rparr>
      else cur)"

definition trim_dropped :: "MachineState \<Rightarrow> MachinePhase \<Rightarrow> string list \<Rightarrow> string list" where
  "trim_dropped st to protected =
     filter (\<lambda>n. n \<notin> set (map trim_space (ph_keep to)) \<and> n \<notin> set protected) (keys st)"

definition moveTo ::
    "int \<Rightarrow> MachineCursor \<Rightarrow> string \<Rightarrow> MachinePhase \<Rightarrow> hop_why \<Rightarrow> string list
      \<Rightarrow> MachineCursor \<times> mnote list" where
  "moveTo now cur from to why protected =
     (let cur1 = add_hop now (cur\<lparr>cur_phase := ph_name to\<rparr>) from (ph_name to) why in
      if from = ph_name to \<or> ph_keep to = [] then (cur1, [])
      else if map_of (cur_state cur1) (ph_name to) = None then (cur1, [])
      else
        let dropped = trim_dropped (cur_state cur1) to protected in
        if dropped = [] then (cur1, [])
        else (cur1\<lparr>cur_state := filter (\<lambda>e. fst e \<notin> set dropped) (cur_state cur1)\<rparr>,
              [NStateTrim (ph_name to) (sort dropped)]))"

datatype machine_err =
    NilCursor string
  | NoPhaseNamed string string
  | NotUnattended string
  | HandedOffNowhere string string
  | PhaseFailed string string phase_err
  | ExitNotAllowed string string "string list"
  | SkippedAtEnd string string string
  | WaitsForPerson string string
  | NotFinished string nat string
and phase_err =
    RunnerErr string
  | CtxErr string
  | ShapeErr decode_err
  | StepSkipped

definition resume ::
    "MachineDef \<Rightarrow> MachineCursor \<Rightarrow> machine_err + (MachinePhase \<times> bool \<times> MachineCursor \<times> mnote list)" where
  "resume d cur =
     (case Phase d (cur_phase cur) of
        Some ph \<Rightarrow> Inr (ph, True, cur, [])
      | None \<Rightarrow>
          (case Phase d (StartPhase d) of
             None \<Rightarrow> Inl (NoPhaseNamed (md_name d) (StartPhase d))
           | Some ph \<Rightarrow>
               Inr (ph, False, cur\<lparr>cur_phase := ph_name ph\<rparr>,
                    if trim_space (cur_phase cur) \<noteq> []
                    then [NPhaseReset (cur_phase cur) (md_name d) (ph_name ph)] else [])))"

text \<open>
  \<open>restartForMessage\<close> looks the start step up and ignores whether it was found: a machine with
  none gives Go's zero phase.
\<close>

definition restartForMessage ::
    "int \<Rightarrow> MachineDef \<Rightarrow> MachineCursor \<Rightarrow> MachinePhase \<times> MachineCursor" where
  "restartForMessage now d cur =
     (let start = (case Phase d (StartPhase d) of Some p \<Rightarrow> p | None \<Rightarrow> zero_phase);
          keep = accumulatorNames d;
          cur1 = cur\<lparr>cur_state := filter (\<lambda>e. fst e \<in> set keep) (cur_state cur)\<rparr>
      in (start, fst (moveTo now cur1 (cur_phase cur1) start WhyNewMessage keep)))"

definition MoveCursor ::
    "int \<Rightarrow> MachineDef \<Rightarrow> MachineCursor option \<Rightarrow> string \<Rightarrow> string
      \<Rightarrow> machine_err + (MachinePhase \<times> MachineCursor \<times> mnote list)" where
  "MoveCursor now d curo to why =
     (case curo of
        None \<Rightarrow> Inl (NilCursor (md_name d))
      | Some cur \<Rightarrow>
          (case Phase d (trim_space to) of
             None \<Rightarrow> Inl (NoPhaseNamed (md_name d) (trim_space to))
           | Some ph \<Rightarrow>
               (let (cur1, ns) = moveTo now cur (cur_phase cur) ph (WhyText why) (accumulatorNames d)
                in Inr (ph, cur1, ns))))"

definition CompleteTurn ::
    "int \<Rightarrow> MachineDef \<Rightarrow> MachineCursor \<Rightarrow> MachinePhase \<Rightarrow> MachineCursor \<times> mnote list" where
  "CompleteTurn now d cur ph =
     (if \<not> ph_resident ph then (cur, [])
      else
        let nxt = trim_space (ph_next ph) in
        if nxt = [] then (cur, [])
        else case Phase d nxt of
            None \<Rightarrow> (cur, [NUnknownHandoff (ph_name ph) nxt])
          | Some nph \<Rightarrow>
              (let (cur1, ns) = moveTo now cur (ph_name ph) nph WhyOneTurn (accumulatorNames d)
               in (cur1, ns @ [NPhaseAdvance (ph_name ph) (ph_name nph)])))"

subsection \<open>What a move keeps\<close>

lemma add_hop_frame [simp]:
  "cur_phase (add_hop now cur from to why) = cur_phase cur"
  "cur_state (add_hop now cur from to why) = cur_state cur"
  "cur_opening (add_hop now cur from to why) = cur_opening cur"
  by (simp_all add: add_hop_def)

lemma moveTo_phase [simp]: "cur_phase (fst (moveTo now cur from to why pr)) = ph_name to"
  by (simp add: moveTo_def Let_def)

lemma moveTo_opening [simp]: "cur_opening (fst (moveTo now cur from to why pr)) = cur_opening cur"
  by (simp add: moveTo_def Let_def)

text \<open>
  What survives a move: everything, unless this is a re-entry into a step with a Keep list; then
  exactly the kept and the protected entries.
\<close>

definition reentry_trims :: "MachineCursor \<Rightarrow> string \<Rightarrow> MachinePhase \<Rightarrow> bool" where
  "reentry_trims cur from to \<longleftrightarrow>
     from \<noteq> ph_name to \<and> ph_keep to \<noteq> [] \<and> map_of (cur_state cur) (ph_name to) \<noteq> None"

lemma moveTo_lookup:
  "map_of (cur_state (fst (moveTo now cur from to why pr))) k =
     (if reentry_trims cur from to \<and> k \<notin> set (map trim_space (ph_keep to)) \<and> k \<notin> set pr
      then None else map_of (cur_state cur) k)"
proof (cases "reentry_trims cur from to")
  case False
  then show ?thesis by (auto simp: moveTo_def reentry_trims_def Let_def)
next
  case True
  let ?st = "cur_state cur"
  let ?d = "trim_dropped ?st to pr"
  have "cur_state (fst (moveTo now cur from to why pr)) = filter (\<lambda>e. fst e \<notin> set ?d) ?st"
  proof (cases "?d = []")
    case True
    then show ?thesis using \<open>reentry_trims cur from to\<close>
      by (auto simp: moveTo_def reentry_trims_def Let_def)
  next
    case False
    then show ?thesis using \<open>reentry_trims cur from to\<close>
      by (auto simp: moveTo_def reentry_trims_def Let_def)
  qed
  then have "map_of (cur_state (fst (moveTo now cur from to why pr))) k
      = (if k \<notin> set ?d then map_of ?st k else None)"
    using map_of_filter_keys [of "\<lambda>k. k \<notin> set ?d" ?st k] by simp
  moreover have "k \<in> set ?d \<longleftrightarrow>
      k \<in> set (keys ?st) \<and> k \<notin> set (map trim_space (ph_keep to)) \<and> k \<notin> set pr"
    by (auto simp: trim_dropped_def)
  moreover have "map_of ?st k = None \<longleftrightarrow> k \<notin> set (keys ?st)"
    by (simp add: map_of_eq_None_iff)
  ultimately show ?thesis using True by auto
qed

lemma moveTo_keys: "distinct (keys (cur_state cur)) \<Longrightarrow>
    distinct (keys (cur_state (fst (moveTo now cur from to why pr))))"
  by (simp add: moveTo_def Let_def distinct_keys_filter)

lemma moveTo_log_bounded:
  "length (cur_log cur) \<le> maxPhaseLog \<Longrightarrow>
     length (cur_log (fst (moveTo now cur from to why pr))) \<le> maxPhaseLog"
  by (simp add: moveTo_def Let_def add_hop_def length_last_n)

text \<open>The cursor's own invariant: one entry per name, and a bounded trail.\<close>

definition wf_cursor :: "MachineCursor \<Rightarrow> bool" where
  "wf_cursor cur \<longleftrightarrow> distinct (keys (cur_state cur)) \<and> length (cur_log cur) \<le> maxPhaseLog"

lemma moveTo_wf [intro]: "wf_cursor cur \<Longrightarrow> wf_cursor (fst (moveTo now cur from to why pr))"
  by (simp add: wf_cursor_def moveTo_keys moveTo_log_bounded)

lemma moveTo_wf': "moveTo now cur from to why pr = (cur1, ns) \<Longrightarrow> wf_cursor cur \<Longrightarrow> wf_cursor cur1"
  by (metis fst_conv moveTo_wf)

lemma restart_wf: "wf_cursor cur \<Longrightarrow> wf_cursor (snd (restartForMessage now d cur))"
  unfolding restartForMessage_def Let_def snd_conv
  by (rule moveTo_wf) (simp add: wf_cursor_def distinct_keys_filter)

lemma resume_wf: "wf_cursor cur \<Longrightarrow> resume d cur = Inr (ph, r, cur1, ns) \<Longrightarrow> wf_cursor cur1"
  by (auto simp: resume_def wf_cursor_def split: option.splits)

lemma resume_state: "resume d cur = Inr (ph, r, cur1, ns) \<Longrightarrow> cur_state cur1 = cur_state cur"
  by (auto simp: resume_def split: option.splits)

lemma resume_phase:
  "resume d cur = Inr (ph, r, cur1, ns) \<Longrightarrow> ph \<in> set (md_phases d) \<and> trimmed (ph_name ph)"
  by (auto simp: resume_def trimmed_def dest: Phase_Some Phase_name_trimmed split: option.splits)

lemma MoveCursor_wf:
  "wf_cursor cur \<Longrightarrow> MoveCursor now d (Some cur) to why = Inr (ph, cur1, ns) \<Longrightarrow> wf_cursor cur1"
  by (auto simp: MoveCursor_def Let_def dest: moveTo_wf' split: option.splits prod.splits)

lemma CompleteTurn_wf: "wf_cursor cur \<Longrightarrow> wf_cursor (fst (CompleteTurn now d cur ph))"
  by (auto simp: CompleteTurn_def Let_def split_beta split: option.splits)

section \<open>Properties\<close>

text \<open>A move into a step drops from the blackboard exactly the entries the step does not keep and nothing
  protects, and that only when it re-enters a step that keeps something; every other entry, and the
  opening message, are unchanged.\<close>

theorem a_move_trims_only_on_reentry:
  "map_of (cur_state (fst (moveTo now cur from to why protected))) k =
     (if from \<noteq> ph_name to \<and> ph_keep to \<noteq> [] \<and> map_of (cur_state cur) (ph_name to) \<noteq> None
         \<and> k \<notin> set (map trim_space (ph_keep to)) \<and> k \<notin> set protected
      then None else map_of (cur_state cur) k)
   \<and> cur_opening (fst (moveTo now cur from to why protected)) = cur_opening cur"
  by (auto simp: moveTo_lookup reentry_trims_def)

text \<open>Adding to a list by union keeps what is there, adds only contributed items, leaves no two items with
  one key, and leaves out no key of either side.\<close>

theorem union_keeps_one_of_each:
  assumes "to_lower (trim_space (ac_mode acc)) = ''union''"
    and "distinct (map (\<lambda>it. accumKey L it (ac_by acc)) held)"
  shows "(\<exists>more. combine L acc held add = held @ more \<and> set more \<subseteq> set add)
    \<and> distinct (map (\<lambda>it. accumKey L it (ac_by acc)) (combine L acc held add))
    \<and> (\<lambda>it. accumKey L it (ac_by acc)) ` set (combine L acc held add)
        = (\<lambda>it. accumKey L it (ac_by acc)) ` (set held \<union> set add)"
proof -
  have c: "combine L acc held add
      = union_add L (ac_by acc) (map (\<lambda>it. accumKey L it (ac_by acc)) held) held add"
    by (simp add: combine_def assms(1))
  show ?thesis unfolding c
    using union_add_keeps [of L "ac_by acc"] union_add_distinct [OF assms(2)] union_add_complete [of _ L "ac_by acc" held]
    by simp
qed

theorem union_keeps_one_of_each_witness:
  "distinct (map (\<lambda>it. accumKey sample_lib it [])
     (combine sample_lib \<lparr>ac_name = ''n'', ac_from = ''f'', ac_mode = '' Union'', ac_by = []\<rparr> []
        [VStr ''a'', VStr ''a '', VStr ''b'']))"
proof -
  have "to_lower (trim_space (ac_mode \<lparr>ac_name = ''n'', ac_from = ''f'', ac_mode = '' Union'', ac_by = []\<rparr>)) = ''union''"
    by code_simp
  from union_keeps_one_of_each [OF this, of sample_lib "[]"] show ?thesis by simp
qed

text \<open>Closing a turn writes nothing to the blackboard: an entry afterwards is the entry before, and every
  accumulator list is still there.\<close>

theorem closing_a_turn_writes_no_state:
  "(map_of (cur_state (fst (CompleteTurn now d cur ph))) k = map_of (cur_state cur) k
      \<or> map_of (cur_state (fst (CompleteTurn now d cur ph))) k = None)
   \<and> (k \<in> set (accumulatorNames d) \<longrightarrow>
        map_of (cur_state (fst (CompleteTurn now d cur ph))) k = map_of (cur_state cur) k)"
proof (cases "ph_resident ph \<and> trim_space (ph_next ph) \<noteq> []")
  case False
  then show ?thesis by (auto simp: CompleteTurn_def Let_def)
next
  case True
  show ?thesis
  proof (cases "Phase d (ph_next ph)")
    case None
    with True show ?thesis by (simp add: CompleteTurn_def Let_def)
  next
    case (Some nph)
    have "cur_state (fst (CompleteTurn now d cur ph))
        = cur_state (fst (moveTo now cur (ph_name ph) nph WhyOneTurn (accumulatorNames d)))"
      using True Some by (simp add: CompleteTurn_def Let_def split_beta)
    then show ?thesis by (simp add: moveTo_lookup)
  qed
qed

theorem closing_a_turn_writes_no_state_witness:
  "map_of (cur_state (fst (CompleteTurn 0 zero_machine zero_cursor zero_phase))) ''x'' = None"
  using closing_a_turn_writes_no_state [of 0 zero_machine zero_cursor zero_phase "''x''"]
  by (auto simp: zero_cursor_def)

end
