(* ===== verification/MachineChecks.thy ===== *)
theory MachineChecks
  imports MachineReach MachineState
begin

text \<open>
  What refuses a save: \<open>MachineDef.problems\<close> and everything under it (core/machine_def.go), with
  the state references of a template (\<open>stateRefs\<close>, \<open>SplitStageRef\<close>), \<open>doubleBraceProblem\<close>
  (core/pipeline_validate_refs.go) and the registered workflow controls
  (core/toolrules/reserved_tools.go).

  The source returns sentences; here each sentence is a constructor of \<open>problem\<close> holding what it
  names, in the order the sentences are appended. \<open>phaseProblems\<close> is one Go function with some
  twenty checks; it is the concatenation of the groups below, in the source's order. The names the
  application registers as workflow controls are the argument \<open>ctl\<close>.
\<close>

section \<open>Problems\<close>

datatype accum_problem =
    PAccumNoName string
  | PAccumDot string string
  | PAccumTaken string string
  | PAccumNoFrom string string
  | PAccumUndeclared string string string
  | PAccumMode string string

datatype run_problem =
    PModel string string
  | PThink string string
  | PToolPrompt string
  | PToolResident string
  | PToolTier string
  | PToolReach string string
  | PToolTools string
  | PArgsNoTool string
  | PReach string string
  | PDenyControl string string
  | PToolsAndDeny string string
  | PManyRunners string "string list"

datatype route_problem =
    PNextUnknown string string
  | PGoesNowhere string bool
  | PChoicesResident string
  | PChoicesNextFrom string string
  | PChoiceUnknown string string
  | PNextStepField string
  | PNextFromResident string
  | PTargetUnknown string string string
  | PNextFromUndeclared string string
  | PNextFromType string string string
  | PGuardTransient string
  | PGuardToUnknown string string
  | PGuardToNoGuard string
  | PExitsTransient string
  | PExitUnknown string string
  | PKeepUnknown string string

datatype text_problem =
    PResidentOutput string
  | PResidentAgent string
  | PDoubleBrace string string
  | PReplyUnattended string
  | PReplyTransient string
  | PVolatile string string
  | PStateStep string string string
  | PStateField string string string
  | PFilledFrom string string string

datatype problem =
    PNoSteps
  | PNoName nat
  | PDuplicateStep string
  | PDotInName string
  | POutputField field_err
  | PWaitsUnattended "string list"
  | PNoFinish
  | PNobodyWaits
  | PUnknownStart string
  | PAccum accum_problem
  | PRun run_problem
  | PRoute route_problem
  | PText text_problem
  | PCycle string

definition prob :: "bool \<Rightarrow> 'p \<Rightarrow> 'p list" where
  "prob b p = (if b then [p] else [])"

lemma prob_Nil [simp]: "prob b p = [] \<longleftrightarrow> \<not> b"
  by (simp add: prob_def)

lemma set_prob [simp]: "set (prob b p) = (if b then {p} else {})"
  by (simp add: prob_def)

type_synonym declared = "(string \<times> (string \<times> string) list) list"

section \<open>References in a template\<close>

definition state_open :: string where "state_open = ''{state:''"

function stateRefs :: "string \<Rightarrow> string list" where
  "stateRefs tmpl =
     (case index_of tmpl state_open of
        None \<Rightarrow> []
      | Some i \<Rightarrow>
          (let rest = drop (i + 7) tmpl in
           case index_of rest ''}'' of
             None \<Rightarrow> []
           | Some j \<Rightarrow>
               (let ref = trim_space (take j rest)
                in (if ref \<noteq> [] then [ref] else []) @ stateRefs (drop (j + 1) rest))))"
  by pat_completeness auto
termination
proof (relation "measure length")
  fix tmpl :: string and i and rest :: string and j and ref :: string
  assume "index_of tmpl state_open = Some i" "rest = drop (i + 7) tmpl"
  moreover have "length state_open = 7" by (simp add: state_open_def)
  ultimately have "i + 7 \<le> length tmpl" using index_of_Some [of tmpl state_open i] by simp
  then have "length rest < length tmpl" using \<open>rest = _\<close> by simp
  then show "(drop (j + 1) rest, tmpl) \<in> measure length" by simp
qed simp

declare stateRefs.simps [simp del]

lemma stateRefs_trimmed: "r \<in> set (stateRefs t) \<Longrightarrow> r \<noteq> [] \<and> trimmed r"
proof (induction t rule: stateRefs.induct)
  case (1 t)
  from "1.prems" obtain i j where ij: "index_of t state_open = Some i"
      "index_of (drop (i + 7) t) ''}'' = Some j"
    by (subst (asm) stateRefs.simps)
      (cases "index_of t state_open"; cases "index_of (drop (the (index_of t state_open) + 7) t) ''}''"; simp)
  let ?rest = "drop (i + 7) t"
  have e: "stateRefs t = (if trim_space (take j ?rest) \<noteq> [] then [trim_space (take j ?rest)] else [])
      @ stateRefs (drop (j + 1) ?rest)"
    by (subst stateRefs.simps) (simp add: ij Let_def)
  show ?case
  proof (cases "r \<in> set (stateRefs (drop (j + 1) ?rest))")
    case True
    then show ?thesis by (rule "1.IH" [OF ij(1) refl ij(2) refl])
  next
    case False
    with "1.prems" e show ?thesis by (auto split: if_splits)
  qed
qed

lemma stateRefs_none: "\<not> contains t state_open \<Longrightarrow> stateRefs t = []"
  by (subst stateRefs.simps) (simp add: contains_def)

definition SplitStageRef :: "string \<Rightarrow> string \<times> string" where
  "SplitStageRef ref =
     (let r = trim_space ref in
      case index_of r ''.'' of Some i \<Rightarrow> (take i r, drop (i + 1) r) | None \<Rightarrow> (r, []))"

definition doubleBrace :: "string \<Rightarrow> bool" where
  "doubleBrace text \<longleftrightarrow> contains text ''{{''"

definition lookup2 :: "declared \<Rightarrow> string \<Rightarrow> string \<Rightarrow> string option" where
  "lookup2 declared name field =
     (case map_of declared name of None \<Rightarrow> None | Some m \<Rightarrow> map_of m field)"

definition stateRefProblem :: "string \<Rightarrow> string list \<Rightarrow> declared \<Rightarrow> string \<Rightarrow> text_problem list" where
  "stateRefProblem where0 seen declared ref =
     (let (name, field) = SplitStageRef ref in
      if name \<notin> set seen then [PStateStep where0 ref name]
      else if field = [] then []
      else if lookup2 declared name field = None then [PStateField where0 ref name]
      else [])"

definition stateRefProblems ::
    "string \<Rightarrow> string \<Rightarrow> string list \<Rightarrow> declared \<Rightarrow> text_problem list" where
  "stateRefProblems where0 tmpl seen declared =
     concat (map (stateRefProblem where0 seen declared) (stateRefs tmpl))"

section \<open>Registered workflow controls\<close>

definition RegisterWorkflowControlTool :: "string list \<Rightarrow> string list \<Rightarrow> string list" where
  "RegisterWorkflowControlTool names ctl =
     filter (\<lambda>n. n \<noteq> []) (map trim_space names) @ ctl"

definition IsWorkflowControlTool :: "string list \<Rightarrow> string \<Rightarrow> bool" where
  "IsWorkflowControlTool ctl name \<longleftrightarrow> trim_space name \<in> set ctl"

section \<open>The machine as a whole\<close>

definition hasTerminalPhase :: "MachineDef \<Rightarrow> bool" where
  "hasTerminalPhase d \<longleftrightarrow>
     (\<exists>p \<in> set (md_phases d). trim_space (ph_next p) = [] \<and> trim_space (RoutesBy p) = [])"

definition anyResident :: "MachineDef \<Rightarrow> bool" where
  "anyResident d \<longleftrightarrow> (\<exists>p \<in> set (md_phases d). ph_resident p)"

definition residentNames :: "MachineDef \<Rightarrow> string list" where
  "residentNames d = map ph_name (filter ph_resident (md_phases d))"

definition phaseRunners :: "MachinePhase \<Rightarrow> string list" where
  "phaseRunners p =
     (if trim_space (ph_agent p) \<noteq> [] then [''an agent''] else [])
     @ (if trim_space (ph_pipeline p) \<noteq> [] then [''a pipeline''] else [])
     @ (if trim_space (ph_machine p) \<noteq> [] then [''a machine''] else [])
     @ (if trim_space (ph_tool p) \<noteq> [] then [''a tool''] else [])"

definition accumulatorFields :: "(string \<times> string) list" where
  "accumulatorFields = [(AccumulatorItemsField, FieldList), (AccumulatorCountField, FieldNumber)]"

text \<open>Pass 1: the problem a step's name has, if any; then the loop.\<close>

definition identity_problem :: "nat \<Rightarrow> MachinePhase \<Rightarrow> string list \<Rightarrow> problem option" where
  "identity_problem i p seen =
     (if trim_space (ph_name p) = [] then Some (PNoName (i + 1))
      else if ph_name p \<in> set seen then Some (PDuplicateStep (ph_name p))
      else if contains (ph_name p) ''.'' then Some (PDotInName (ph_name p))
      else None)"

fun identity_pass ::
    "nat \<Rightarrow> MachinePhase list \<Rightarrow> string list \<Rightarrow> declared \<Rightarrow> nat
      \<Rightarrow> problem list \<times> string list \<times> declared \<times> nat" where
  "identity_pass i [] seen declared resident = ([], seen, declared, resident)"
| "identity_pass i (p # ps) seen declared resident =
     (case identity_problem i p seen of
        Some q \<Rightarrow> (case identity_pass (i + 1) ps seen declared resident of (qs, r) \<Rightarrow> (q # qs, r))
      | None \<Rightarrow>
          (let seen1 = ph_name p # seen;
               resident1 = (if ph_resident p then resident + 1 else resident) in
           case validateOutputFields (ph_name p) (ph_output p) False of
             Inl e \<Rightarrow> (case identity_pass (i + 1) ps seen1 declared resident1 of
                         (qs, r) \<Rightarrow> (POutputField e # qs, r))
           | Inr flds \<Rightarrow>
               identity_pass (i + 1) ps seen1 (AList.update (ph_name p) flds declared) resident1))"

definition shape_problems :: "MachineDef \<Rightarrow> nat \<Rightarrow> problem list" where
  "shape_problems d resident =
     (if md_unattended d \<and> resident > 0 then [PWaitsUnattended (residentNames d)]
      else if md_unattended d \<and> \<not> hasTerminalPhase d then [PNoFinish]
      else if \<not> md_unattended d \<and> resident = 0 then [PNobodyWaits]
      else [])"

definition accum_name_problems :: "MachinePhase \<Rightarrow> string \<Rightarrow> string list \<Rightarrow> accum_problem list" where
  "accum_name_problems p name taken =
     (if name = [] then [PAccumNoName (ph_name p)]
      else if contains name ''.'' then [PAccumDot (ph_name p) name]
      else if name \<in> set taken then [PAccumTaken (ph_name p) name]
      else [])"

definition accum_from_problems :: "MachinePhase \<Rightarrow> string \<Rightarrow> string \<Rightarrow> accum_problem list" where
  "accum_from_problems p name from =
     (if from = [] then [PAccumNoFrom (ph_name p) name]
      else if from \<notin> set (map (\<lambda>f. trim_space (f_name f)) (ph_output p))
        then [PAccumUndeclared (ph_name p) from name]
      else [])"

definition accumulator_problem ::
    "string list \<Rightarrow> MachinePhase \<Rightarrow> MachineAccumulator \<Rightarrow> accum_problem list" where
  "accumulator_problem taken p a =
     (let name = trim_space (ac_name a) in
      accum_name_problems p name taken
      @ accum_from_problems p name (trim_space (ac_from a))
      @ prob (to_lower (trim_space (ac_mode a)) \<notin> set [[], ''append'', ''replace'', ''union''])
          (PAccumMode (ph_name p) (ac_mode a)))"

definition accumulatorProblems :: "MachineDef \<Rightarrow> string list \<Rightarrow> accum_problem list" where
  "accumulatorProblems d taken =
     concat (map (\<lambda>p. concat (map (accumulator_problem taken p) (ph_accumulates p))) (md_phases d))"

text \<open>The lists join the steps' namespaces.\<close>

fun add_accumulators :: "string list \<Rightarrow> string list \<Rightarrow> declared \<Rightarrow> string list \<times> declared" where
  "add_accumulators [] seen declared = (seen, declared)"
| "add_accumulators (n # ns) seen declared =
     (if n \<in> set seen then add_accumulators ns seen declared
      else add_accumulators ns (n # seen) (AList.update n accumulatorFields declared))"

section \<open>One step\<close>

definition tier_problems :: "MachinePhase \<Rightarrow> run_problem list" where
  "tier_problems p =
     prob (to_lower (trim_space (ph_model p)) \<notin> set [[], ''worker'', ''lead'']) (PModel (ph_name p) (ph_model p))
     @ prob (to_lower (trim_space (ph_think p)) \<notin> set [[], ''on'', ''off'']) (PThink (ph_name p) (ph_think p))"

definition tool_step_problems :: "MachinePhase \<Rightarrow> run_problem list" where
  "tool_step_problems p =
     (let name = ph_name p; tool = trim_space (ph_tool p) in
      if tool \<noteq> [] then
        prob (trim_space (ph_prompt p) \<noteq> []) (PToolPrompt name)
        @ prob (ph_resident p) (PToolResident name)
        @ prob (trim_space (ph_think p) \<noteq> [] \<or> trim_space (ph_model p) \<noteq> []) (PToolTier name)
        @ prob (PhaseReach p \<noteq> ReachAll) (PToolReach name tool)
        @ prob (ph_tools p \<noteq> []) (PToolTools name)
      else prob (ph_args p \<noteq> []) (PArgsNoTool name))"

definition deny_problem :: "string list \<Rightarrow> MachinePhase \<Rightarrow> string \<Rightarrow> run_problem list" where
  "deny_problem ctl p d0 =
     (let d = trim_space d0 in
      if d = [] then []
      else prob (IsWorkflowControlTool ctl d) (PDenyControl (ph_name p) d)
        @ map (\<lambda>_. PToolsAndDeny (ph_name p) d) (filter (\<lambda>t. trim_space t = d) (ph_tools p)))"

definition reach_problems :: "string list \<Rightarrow> MachinePhase \<Rightarrow> run_problem list" where
  "reach_problems ctl p =
     prob (\<not> validReach (ph_reach p)) (PReach (ph_name p) (ph_reach p))
     @ concat (map (deny_problem ctl p) (ph_deny p))
     @ prob (length (phaseRunners p) > 1) (PManyRunners (ph_name p) (phaseRunners p))"

definition next_problems :: "MachineDef \<Rightarrow> MachinePhase \<Rightarrow> string list \<Rightarrow> route_problem list" where
  "next_problems d p seen =
     (let t = trim_space (ph_next p) in
      prob (t \<noteq> [] \<and> t \<notin> set seen) (PNextUnknown (ph_name p) t)
      @ prob (\<not> md_unattended d \<and> \<not> ph_resident p \<and> t = [] \<and> RoutesBy p = [])
          (PGoesNowhere (ph_name p) (\<not> anyResident d)))"

definition resident_problems :: "MachinePhase \<Rightarrow> text_problem list" where
  "resident_problems p =
     prob (ph_resident p \<and> ph_output p \<noteq> []) (PResidentOutput (ph_name p))
     @ prob (trim_space (ph_agent p) \<noteq> [] \<and> ph_resident p) (PResidentAgent (ph_name p))"

definition unknown_in :: "string list \<Rightarrow> string list \<Rightarrow> string list" where
  "unknown_in seen ns = filter (\<lambda>t. t \<noteq> [] \<and> t \<notin> set seen) (map trim_space ns)"

lemma unknown_in_Nil: "unknown_in seen ns = [] \<longleftrightarrow>
    (\<forall>t \<in> set ns. trim_space t \<noteq> [] \<longrightarrow> trim_space t \<in> set seen)"
  by (auto simp: unknown_in_def filter_empty_conv)

definition choice_problems :: "MachinePhase \<Rightarrow> string list \<Rightarrow> route_problem list" where
  "choice_problems p seen =
     (if ph_choices p = [] then []
      else
        (if ph_resident p then [PChoicesResident (ph_name p)]
         else if trim_space (ph_next_from p) \<noteq> [] then [PChoicesNextFrom (ph_name p) (ph_next_from p)]
         else [])
        @ map (PChoiceUnknown (ph_name p)) (unknown_in seen (ph_choices p))
        @ map (\<lambda>_. PNextStepField (ph_name p))
            (filter (\<lambda>f. f_name f = BuiltinNextStep) (ph_output p)))"

definition target_problems :: "MachineDef \<Rightarrow> string \<Rightarrow> string \<Rightarrow> route_problem list" where
  "target_problems d name from =
     (case Phase d name of
        None \<Rightarrow> []
      | Some ph \<Rightarrow>
          concat (map (\<lambda>f. map (PTargetUnknown name from)
                        (filter (\<lambda>target. Phase d (trim_space target) = None) (f_enum f)))
            (filter (\<lambda>f. f_name f = from) (ph_output ph))))"

definition next_from_problems :: "MachineDef \<Rightarrow> MachinePhase \<Rightarrow> declared \<Rightarrow> route_problem list" where
  "next_from_problems d p declared =
     (let name = ph_name p; from = trim_space (ph_next_from p) in
      if from \<noteq> [] \<and> ph_resident p then [PNextFromResident name]
      else if from \<noteq> [] then
        target_problems d name from
        @ (case lookup2 declared name from of
             None \<Rightarrow> [PNextFromUndeclared name from]
           | Some t \<Rightarrow> prob (t \<noteq> FieldString) (PNextFromType name from t))
      else [])"

definition guard_problems :: "MachinePhase \<Rightarrow> string list \<Rightarrow> route_problem list" where
  "guard_problems p seen =
     (let name = ph_name p; t = trim_space (ph_guard_to p) in
      prob (trim_space (ph_guard p) \<noteq> [] \<and> \<not> ph_resident p) (PGuardTransient name)
      @ (if t \<noteq> [] then
           prob (t \<notin> set seen) (PGuardToUnknown name t)
           @ prob (trim_space (ph_guard p) = []) (PGuardToNoGuard name)
         else [])
      @ prob (ph_exits_to p \<noteq> [] \<and> \<not> ph_resident p) (PExitsTransient name)
      @ map (PExitUnknown name) (unknown_in seen (ph_exits_to p))
      @ map (PKeepUnknown name) (unknown_in seen (ph_keep p)))"

definition reply_problems ::
    "MachineDef \<Rightarrow> MachinePhase \<Rightarrow> string list \<Rightarrow> declared \<Rightarrow> text_problem list" where
  "reply_problems d p seen declared =
     (let name = ph_name p; rw = trim_space (ph_reply_with p) in
      prob (doubleBrace (ph_prompt p)) (PDoubleBrace name ''prompt'')
      @ (if rw \<noteq> [] then
           (if md_unattended d then [PReplyUnattended name]
            else if \<not> ph_resident p then [PReplyTransient name] else [])
           @ prob (doubleBrace rw) (PDoubleBrace name ''reply_with'')
           @ stateRefProblems name rw seen declared
         else []))"

definition volatile_vars :: "string list" where
  "volatile_vars = [''{input}'', ''{prev}'', ''{now}'', ''{established}'']"

definition volatile_problems :: "MachinePhase \<Rightarrow> text_problem list" where
  "volatile_problems p =
     (if ph_resident p
      then map (PVolatile (ph_name p)) (filter (contains (ph_prompt p)) volatile_vars)
      else [])"

definition filled_from_problems ::
    "MachinePhase \<Rightarrow> string list \<Rightarrow> declared \<Rightarrow> PipelineField \<Rightarrow> text_problem list" where
  "filled_from_problems p seen declared f =
     (let ref = trim_space (f_from f) in
      if ref = [] then []
      else stateRefProblems (ph_name p) ref seen declared
        @ prob (\<not> contains ref state_open \<and> \<not> isBuiltinVarRef ref)
            (PFilledFrom (ph_name p) (f_name f) ref))"

definition template_problems :: "MachinePhase \<Rightarrow> string list \<Rightarrow> declared \<Rightarrow> text_problem list" where
  "template_problems p seen declared =
     volatile_problems p
     @ stateRefProblems (ph_name p) (ph_prompt p) seen declared
     @ concat (map (filled_from_problems p seen declared) (ph_output p))
     @ (if ph_guard p \<noteq> [] then stateRefProblems (ph_name p) (ph_guard p) seen declared else [])"

definition phaseProblems ::
    "string list \<Rightarrow> MachineDef \<Rightarrow> MachinePhase \<Rightarrow> string list \<Rightarrow> declared \<Rightarrow> problem list" where
  "phaseProblems ctl d p seen declared =
     map PRun (tier_problems p @ tool_step_problems p @ reach_problems ctl p)
     @ map PRoute (next_problems d p seen)
     @ map PText (resident_problems p)
     @ map PRoute (choice_problems p seen @ next_from_problems d p declared @ guard_problems p seen)
     @ map PText (reply_problems d p seen declared @ template_problems p seen declared)"

section \<open>A loop that never reaches a reply\<close>

text \<open>The step a static walk goes on to: \<open>None\<close> where the source's walk returns.\<close>

definition static_step :: "MachineDef \<Rightarrow> string list \<Rightarrow> string \<Rightarrow> string option" where
  "static_step d seen name =
     (case Phase d name of
        None \<Rightarrow> None
      | Some p \<Rightarrow>
          if ph_resident p \<or> RoutesBy p \<noteq> [] then None
          else (let nxt = trim_space (ph_next p) in
                if nxt = [] \<or> nxt \<notin> set seen then None else Some nxt))"

function cycle_walk :: "MachineDef \<Rightarrow> string list \<Rightarrow> string list \<Rightarrow> string \<Rightarrow> bool" where
  "cycle_walk d seen visited name =
     (case Phase d name of
        None \<Rightarrow> False
      | Some p \<Rightarrow>
          if ph_resident p \<or> RoutesBy p \<noteq> [] then False
          else if name \<in> set visited then True
          else (let nxt = trim_space (ph_next p) in
                if nxt = [] \<or> nxt \<notin> set seen then False
                else cycle_walk d seen (name # visited) nxt))"
  by pat_completeness auto
termination
proof (relation "measure (\<lambda>(d, _, visited, name).
    2 * length (filter (\<lambda>n. n \<notin> set visited) (PhaseNames d)) + (if trimmed name then 0 else 1))")
  fix d seen visited name p nxt
  assume p: "Phase d name = Some p" and new: "name \<notin> set visited" and nx: "nxt = trim_space (ph_next p)"
  let ?left = "\<lambda>v. filter (\<lambda>n. n \<notin> set v) (PhaseNames d)"
  have le: "length (?left (name # visited)) \<le> length (?left visited)"
    by (rule length_filter_mono) simp
  have lt: "length (?left (name # visited)) < length (?left visited)" if "trimmed name"
  proof -
    from p that have "name \<in> set (PhaseNames d)"
      using Phase_Some [OF p] by (force simp: PhaseNames_def trimmed_def)
    then show ?thesis using new by (intro length_filter_strict [of _ _ _ name]) simp_all
  qed
  show "((d, seen, name # visited, nxt), d, seen, visited, name) \<in> measure (\<lambda>(d, _, visited, name).
    2 * length (filter (\<lambda>n. n \<notin> set visited) (PhaseNames d)) + (if trimmed name then 0 else 1))"
    using le lt nx by auto
qed simp

declare cycle_walk.simps [simp del]

definition cycleProblems :: "MachineDef \<Rightarrow> string list \<Rightarrow> problem list" where
  "cycleProblems d seen =
     (let start = StartPhase d in
      if start = [] \<or> start \<notin> set seen then []
      else prob (cycle_walk d seen [] start) (PCycle start))"

section \<open>All of it\<close>

definition names_and_fields :: "MachineDef \<Rightarrow> problem list \<times> string list \<times> declared \<times> nat" where
  "names_and_fields d = identity_pass 0 (md_phases d) [] [] 0"

definition problems :: "string list \<Rightarrow> MachineDef \<Rightarrow> problem list" where
  "problems ctl d =
     (if md_phases d = [] then [PNoSteps]
      else
        case names_and_fields d of (probs, names, flds, resident) \<Rightarrow>
        (let (seen, declared) = add_accumulators (Accumulators d) names flds;
             start = StartPhase d
         in probs
            @ shape_problems d resident
            @ map PAccum (accumulatorProblems d names)
            @ prob (start \<noteq> [] \<and> start \<notin> set seen) (PUnknownStart start)
            @ concat (map (\<lambda>p. if ph_name p \<notin> set seen
                                 \<or> (map_of declared (ph_name p) = None \<and> ph_output p \<noteq> []) then []
                               else phaseProblems ctl d p seen declared) (md_phases d))
            @ cycleProblems d seen))"

definition Problems :: "string list \<Rightarrow> MachineDef \<Rightarrow> problem list" where
  "Problems ctl d = problems ctl d"

text \<open>\<open>Validate\<close>: no error, or the problems it reports together.\<close>

definition Validate :: "string list \<Rightarrow> MachineDef \<Rightarrow> problem list + unit" where
  "Validate ctl d = (if problems ctl d = [] then Inr () else Inl (problems ctl d))"

section \<open>What a machine with no problems is\<close>

lemma identity_pass_clean:
  "identity_pass i ps seen declared r = ([], seen', declared', r') \<Longrightarrow>
     seen' = rev (map ph_name ps) @ seen
     \<and> distinct (map ph_name ps)
     \<and> set (map ph_name ps) \<inter> set seen = {}
     \<and> (\<forall>p \<in> set ps. trim_space (ph_name p) \<noteq> [] \<and> \<not> contains (ph_name p) ''.''
          \<and> (\<exists>m. validateOutputFields (ph_name p) (ph_output p) False = Inr m
               \<and> map_of declared' (ph_name p) = Some m))
     \<and> (\<forall>k. k \<notin> set (map ph_name ps) \<longrightarrow> map_of declared' k = map_of declared k)
     \<and> r' = r + length (filter ph_resident ps)"
proof (induction ps arbitrary: i seen declared r)
  case Nil
  then show ?case by simp
next
  case (Cons p ps)
  from Cons.prems have none: "identity_problem i p seen = None"
    by (auto split: option.splits prod.splits)
  with Cons.prems obtain m where m: "validateOutputFields (ph_name p) (ph_output p) False = Inr m"
    and rest: "identity_pass (i + 1) ps (ph_name p # seen) (AList.update (ph_name p) m declared)
        (if ph_resident p then r + 1 else r) = ([], seen', declared', r')"
    by (auto simp: Let_def split: sum.splits prod.splits)
  note IH = Cons.IH [OF rest]
  from none have p: "trim_space (ph_name p) \<noteq> []" "ph_name p \<notin> set seen" "\<not> contains (ph_name p) ''.''"
    by (auto simp: identity_problem_def split: if_splits)
  from IH have d: "map_of declared' k = map_of (AList.update (ph_name p) m declared) k"
    if "k \<notin> set (map ph_name ps)" for k
    using that by blast
  from IH have new: "ph_name p \<notin> set (map ph_name ps)" by auto
  from d [OF new] have "map_of declared' (ph_name p) = Some m" by (simp add: map_of_update_eq)
  moreover have "map_of declared' k = map_of declared k" if "k \<notin> set (map ph_name (p # ps))" for k
    using d [of k] that by (simp add: map_of_update_eq)
  moreover have "r' = r + length (filter ph_resident (p # ps))" using IH by simp
  ultimately show ?case using IH p m new by (simp add: disjoint_iff)
qed

lemma add_accumulators_seen:
  "set (fst (add_accumulators ns seen declared)) = set seen \<union> set ns"
  by (induction ns arbitrary: seen declared) (auto simp: insert_absorb)

lemma add_accumulators_declared:
  "n \<in> set seen \<Longrightarrow> map_of (snd (add_accumulators ns seen declared)) n = map_of declared n"
  by (induction ns arbitrary: seen declared) (auto simp: map_of_update_eq)

text \<open>The names a reference may use, and the fields declared under each.\<close>

definition seen_names :: "MachineDef \<Rightarrow> string list" where
  "seen_names d = (case names_and_fields d of (_, names, flds, _) \<Rightarrow>
     fst (add_accumulators (Accumulators d) names flds))"

definition declared_fields :: "MachineDef \<Rightarrow> declared" where
  "declared_fields d = (case names_and_fields d of (_, names, flds, _) \<Rightarrow>
     snd (add_accumulators (Accumulators d) names flds))"

text \<open>No problems, taken apart: the one place the definition is unfolded.\<close>

lemma problems_Nil:
  assumes "problems ctl d = []"
  shows "md_phases d \<noteq> []"
    and "distinct (PhaseNames d)"
    and "\<And>p. p \<in> set (md_phases d) \<Longrightarrow> trim_space (ph_name p) \<noteq> [] \<and> \<not> contains (ph_name p) ''.''
          \<and> (\<exists>m. validateOutputFields (ph_name p) (ph_output p) False = Inr m
               \<and> map_of (declared_fields d) (ph_name p) = Some m)"
    and "set (seen_names d) = set (PhaseNames d) \<union> set (Accumulators d)"
    and "StartPhase d = [] \<or> StartPhase d \<in> set (seen_names d)"
    and "\<And>p. p \<in> set (md_phases d) \<Longrightarrow> phaseProblems ctl d p (seen_names d) (declared_fields d) = []"
    and "cycleProblems d (seen_names d) = []"
    and "accumulatorProblems d (rev (PhaseNames d)) = []"
    and "shape_problems d (length (filter ph_resident (md_phases d))) = []"
proof -
  show ne: "md_phases d \<noteq> []" using assms by (auto simp: problems_def)
  obtain probs names flds r where nf: "names_and_fields d = (probs, names, flds, r)"
    by (cases "names_and_fields d") auto
  obtain seen declared where aa: "add_accumulators (Accumulators d) names flds = (seen, declared)"
    by (cases "add_accumulators (Accumulators d) names flds") auto
  have sd: "seen_names d = seen" "declared_fields d = declared"
    using nf aa by (simp_all add: seen_names_def declared_fields_def)
  have all: "probs = []" "shape_problems d r = []" "accumulatorProblems d names = []"
      "StartPhase d = [] \<or> StartPhase d \<in> set seen" "cycleProblems d seen = []"
    and ph: "\<And>p. p \<in> set (md_phases d) \<Longrightarrow> ph_name p \<in> set seen \<Longrightarrow>
        map_of declared (ph_name p) \<noteq> None \<Longrightarrow> phaseProblems ctl d p seen declared = []"
    using assms ne by (auto simp: problems_def nf aa Let_def split: if_splits)
  from nf all(1) have "identity_pass 0 (md_phases d) [] [] 0 = ([], names, flds, r)"
    by (simp add: names_and_fields_def)
  note clean = identity_pass_clean [OF this]
  show "distinct (PhaseNames d)" using clean by (simp add: PhaseNames_def)
  have names: "names = rev (PhaseNames d)" using clean by (simp add: PhaseNames_def)
  have keep: "map_of declared n = map_of flds n" if "n \<in> set names" for n
    using add_accumulators_declared [OF that, of "Accumulators d" flds] aa by simp
  show phs: "trim_space (ph_name p) \<noteq> [] \<and> \<not> contains (ph_name p) ''.''
      \<and> (\<exists>m. validateOutputFields (ph_name p) (ph_output p) False = Inr m
           \<and> map_of (declared_fields d) (ph_name p) = Some m)" if "p \<in> set (md_phases d)" for p
    using clean that keep [of "ph_name p"] names sd by (auto simp: PhaseNames_def)
  show seen: "set (seen_names d) = set (PhaseNames d) \<union> set (Accumulators d)"
    using add_accumulators_seen [of "Accumulators d" names flds] aa sd names by simp
  show "StartPhase d = [] \<or> StartPhase d \<in> set (seen_names d)" using all sd by simp
  show "phaseProblems ctl d p (seen_names d) (declared_fields d) = []" if "p \<in> set (md_phases d)" for p
    using ph [OF that] phs [OF that] seen that sd by (auto simp: PhaseNames_def)
  show "cycleProblems d (seen_names d) = []" using all sd by simp
  show "accumulatorProblems d (rev (PhaseNames d)) = []" using all names by simp
  show "shape_problems d (length (filter ph_resident (md_phases d))) = []" using all clean by simp
qed

text \<open>The references of one step, once it has no problems.\<close>

lemma phaseProblems_Nil:
  assumes "phaseProblems ctl d p seen declared = []"
  shows "trim_space (ph_next p) \<noteq> [] \<Longrightarrow> trim_space (ph_next p) \<in> set seen"
    and "\<not> md_unattended d \<Longrightarrow> \<not> ph_resident p \<Longrightarrow> trim_space (ph_next p) \<noteq> [] \<or> RoutesBy p \<noteq> []"
    and "unknown_in seen (ph_choices p) = [] "
    and "unknown_in seen (ph_exits_to p) = []" and "unknown_in seen (ph_keep p) = []"
    and "trim_space (ph_guard_to p) \<noteq> [] \<Longrightarrow> trim_space (ph_guard_to p) \<in> set seen"
    and "ph_resident p \<Longrightarrow> ph_output p = []"
    and "stateRefProblems (ph_name p) (ph_prompt p) seen declared = []"
    and "length (phaseRunners p) \<le> 1"
    and "ph_resident p \<Longrightarrow> trim_space (ph_agent p) = []"
proof -
  have parts: "next_problems d p seen = []" "choice_problems p seen = []" "guard_problems p seen = []"
      "resident_problems p = []" "template_problems p seen declared = []" "reach_problems ctl p = []"
    using assms by (simp_all add: phaseProblems_def)
  show "trim_space (ph_next p) \<noteq> [] \<Longrightarrow> trim_space (ph_next p) \<in> set seen"
    "\<not> md_unattended d \<Longrightarrow> \<not> ph_resident p \<Longrightarrow> trim_space (ph_next p) \<noteq> [] \<or> RoutesBy p \<noteq> []"
    using parts(1) by (simp_all add: next_problems_def Let_def)
  show "unknown_in seen (ph_choices p) = []"
    using parts(2) by (cases "ph_choices p = []") (simp_all add: choice_problems_def unknown_in_def)
  show "unknown_in seen (ph_exits_to p) = []" "unknown_in seen (ph_keep p) = []"
    "trim_space (ph_guard_to p) \<noteq> [] \<Longrightarrow> trim_space (ph_guard_to p) \<in> set seen"
    using parts(3) by (simp_all add: guard_problems_def Let_def)
  show "ph_resident p \<Longrightarrow> ph_output p = []" "ph_resident p \<Longrightarrow> trim_space (ph_agent p) = []"
    using parts(4) by (simp_all add: resident_problems_def)
  show "stateRefProblems (ph_name p) (ph_prompt p) seen declared = []"
    using parts(5) by (simp add: template_problems_def)
  show "length (phaseRunners p) \<le> 1"
    using parts(6) by (simp add: reach_problems_def)
qed

section \<open>The cycle check is exact\<close>

fun static_walk :: "MachineDef \<Rightarrow> string list \<Rightarrow> nat \<Rightarrow> string \<Rightarrow> string option" where
  "static_walk d seen 0 name = Some name"
| "static_walk d seen (Suc k) name =
     (case static_step d seen name of None \<Rightarrow> None | Some nxt \<Rightarrow> static_walk d seen k nxt)"

lemma static_walk_add:
  "static_walk d seen (j + k) name =
     (case static_walk d seen j name of None \<Rightarrow> None | Some n \<Rightarrow> static_walk d seen k n)"
  by (induction j arbitrary: name) (auto split: option.splits)

lemma static_walk_loop:
  assumes "0 < k" "static_walk d seen k name = Some name"
  shows "static_walk d seen n name \<noteq> None"
proof -
  have "static_walk d seen (m * k) name = Some name" for m
    by (induction m) (simp_all add: static_walk_add assms(2))
  from this [of n] have "static_walk d seen (n + (n * k - n)) name = Some name"
    using assms(1) by (cases k) simp_all
  then show ?thesis unfolding static_walk_add by (auto split: option.splits)
qed

lemma cycle_walk_step:
  "cycle_walk d seen visited name =
     (case static_step d seen name of
        None \<Rightarrow> (\<exists>p. Phase d name = Some p \<and> \<not> ph_resident p \<and> RoutesBy p = []) \<and> name \<in> set visited
      | Some nxt \<Rightarrow> name \<in> set visited \<or> cycle_walk d seen (name # visited) nxt)"
  by (subst cycle_walk.simps) (auto simp: static_step_def Let_def split: option.splits)

lemma cycle_walk_True:
  "cycle_walk d seen visited name \<Longrightarrow>
     \<forall>v \<in> set visited. \<exists>k > 0. static_walk d seen k v = Some name \<Longrightarrow>
     static_walk d seen n name \<noteq> None"
proof (induction d seen visited name arbitrary: n rule: cycle_walk.induct)
  case (1 d seen visited name)
  show ?case
  proof (cases "name \<in> set visited")
    case True
    then show ?thesis using "1.prems"(2) static_walk_loop by blast
  next
    case False
    with "1.prems"(1) obtain nxt where st: "static_step d seen name = Some nxt"
        and cw: "cycle_walk d seen (name # visited) nxt"
      by (subst (asm) cycle_walk_step) (auto split: option.splits)
    from st obtain p where p: "Phase d name = Some p" "\<not> (ph_resident p \<or> RoutesBy p \<noteq> [])"
        "nxt = trim_space (ph_next p)" "\<not> (nxt = [] \<or> nxt \<notin> set seen)"
      by (auto simp: static_step_def Let_def split: option.splits if_splits)
    have "\<forall>v \<in> set (name # visited). \<exists>k > 0. static_walk d seen k v = Some nxt"
    proof
      fix v assume "v \<in> set (name # visited)"
      then consider "v = name" | k where "k > 0" "static_walk d seen k v = Some name"
        using "1.prems"(2) by auto
      then show "\<exists>k > 0. static_walk d seen k v = Some nxt"
      proof cases
        case 1
        then show ?thesis using st by (intro exI [of _ 1]) simp
      next
        case (2 k)
        then show ?thesis using st by (intro exI [of _ "k + 1"]) (simp add: static_walk_add del: add_Suc_right)
      qed
    qed
    then have "static_walk d seen m nxt \<noteq> None" for m
      using "1.IH" [OF p(1) p(2) False p(3) p(4) cw] by blast
    then show ?thesis using st by (cases n) auto
  qed
qed

lemma cycle_walk_False:
  "\<not> cycle_walk d seen visited name \<Longrightarrow> \<exists>k. static_walk d seen k name = None"
proof (induction d seen visited name rule: cycle_walk.induct)
  case (1 d seen visited name)
  show ?case
  proof (cases "static_step d seen name")
    case None
    then show ?thesis by (intro exI [of _ 1]) simp
  next
    case (Some nxt)
    with "1.prems" have cw: "\<not> cycle_walk d seen (name # visited) nxt" and new: "name \<notin> set visited"
      using cycle_walk_step [of d seen visited name] by simp_all
    from Some obtain p where p: "Phase d name = Some p" "\<not> (ph_resident p \<or> RoutesBy p \<noteq> [])"
        "nxt = trim_space (ph_next p)" "\<not> (nxt = [] \<or> nxt \<notin> set seen)"
      by (auto simp: static_step_def Let_def split: option.splits if_splits)
    from "1.IH" [OF p(1) p(2) new p(3) p(4) cw] obtain k where "static_walk d seen k nxt = None"
      by blast
    then show ?thesis using Some by (intro exI [of _ "Suc k"]) simp
  qed
qed

text \<open>The cycle check is exact: it reports a problem precisely when the start step is known and
  following the declared \<open>next\<close> of non-routing, non-waiting steps from it never ends.\<close>

theorem cycleProblems_exact:
  "cycleProblems d seen \<noteq> [] \<longleftrightarrow>
     StartPhase d \<noteq> [] \<and> StartPhase d \<in> set seen
     \<and> (\<forall>n. static_walk d seen n (StartPhase d) \<noteq> None)"
  using cycle_walk_True [of d seen "[]" "StartPhase d"] cycle_walk_False [of d seen "[]" "StartPhase d"]
  by (auto simp: cycleProblems_def Let_def prob_def)

section \<open>A machine that validates, and two that should not\<close>

definition StarterMachine :: MachineDef where
  "StarterMachine = zero_machine\<lparr>
     md_name := ''New machine'',
     md_description := ''What this machine is for, and when to reach for it.'',
     md_start := ''look'',
     md_phases :=
      [zero_phase\<lparr>ph_name := ''look'', ph_desc := ''Work out what is actually being asked.'',
         ph_think := ''on'', ph_prompt := ''Work out what is being asked, and hand it forward.'',
         ph_next := ''reply'',
         ph_output := [PipelineField ''summary'' FieldString
           ''what they are actually asking, in one sentence'' [] True [] []]\<rparr>,
       zero_phase\<lparr>ph_name := ''reply'', ph_desc := ''Answer, and keep answering.'', ph_resident := True,
         ph_prompt := ''Answer plainly, working from what is settled below.''\<rparr>]\<rparr>"

text \<open>The machine a new editor opens on validates, whatever workflow controls are registered.\<close>

theorem StarterMachine_validates: "problems ctl StarterMachine = []"
  by code_simp

lemma ref_known:
  assumes "problems ctl d = []" "p \<in> set (md_phases d)"
    and "t \<in> set (ph_next p # ph_guard_to p # ph_choices p @ ph_exits_to p @ ph_keep p)"
    and "trim_space t \<noteq> []"
  shows "trim_space t \<in> set (seen_names d)"
proof -
  note ok = phaseProblems_Nil [OF problems_Nil(6) [OF assms(1,2)]]
  from assms(3) consider "t = ph_next p" | "t = ph_guard_to p" | "t \<in> set (ph_choices p)"
    | "t \<in> set (ph_exits_to p)" | "t \<in> set (ph_keep p)" by auto
  then show ?thesis using ok(1,3,4,5,6) assms(4) by cases (auto simp: unknown_in_Nil)
qed

lemma start_known:
  assumes "problems ctl d = []"
  shows "StartPhase d \<in> set (seen_names d)"
proof -
  have "StartPhase d \<noteq> []"
  proof (cases "trim_space (md_start d) = []")
    case True
    obtain p ps where md: "md_phases d = p # ps" using problems_Nil(1) [OF assms] by (cases "md_phases d") auto
    then have "trim_space (ph_name p) \<noteq> []" using problems_Nil(3) [OF assms, of p] by simp
    then show ?thesis using True md by (auto simp: StartPhase_def Let_def)
  qed (simp add: StartPhase_def Let_def)
  then show ?thesis using problems_Nil(5) [OF assms] by simp
qed

text \<open>The field a step routes by names steps: each value it may take is looked up among them.\<close>

lemma routing_values_known:
  assumes "problems ctl d = []" "p \<in> set (md_phases d)" "trimmed (ph_name p)" "trim_space (ph_next_from p) \<noteq> []"
    and "f \<in> set (ph_output p)" "f_name f = trim_space (ph_next_from p)" "v \<in> set (f_enum f)"
  shows "trim_space v \<in> set (PhaseNames d)"
proof -
  have "next_from_problems d p (declared_fields d) = []"
    using problems_Nil(6) [OF assms(1,2)] by (simp add: phaseProblems_def)
  moreover have "\<not> ph_resident p" using phaseProblems_Nil(7) [OF problems_Nil(6) [OF assms(1,2)]] assms(5) by auto
  ultimately have t: "target_problems d (ph_name p) (trim_space (ph_next_from p)) = []"
    using assms(4) by (simp add: next_from_problems_def Let_def)
  obtain ph where ph: "Phase d (ph_name p) = Some ph"
    using Phase_exists [of "ph_name p" d] assms(2,3) by (auto simp: trimmed_def PhaseNames_def)
  have "ph_name ph = ph_name p" "ph \<in> set (md_phases d)" using Phase_Some [OF ph] assms(3) by (auto simp: trimmed_def)
  then have "ph = p" using problems_Nil(2) [OF assms(1)] assms(2) by (auto simp: PhaseNames_def distinct_map inj_on_def)
  then have "Phase d (trim_space v) \<noteq> None"
    using t ph assms(5,6,7) by (auto simp: target_problems_def filter_empty_conv)
  then show ?thesis by (simp add: Phase_None)
qed

text \<open>C32: A machine with no problems has at least one step, its step names are distinct, dot-free and
  not blank. What it starts on, and every step it names in \<open>next\<close>, \<open>guard_to\<close>, \<open>choices\<close>, \<open>exits_to\<close>
  or \<open>keep\<close>, is one of its steps or one of its accumulator lists; and where a step whose name has no blanks
  around it routes by a field, every value the field may take is one of the steps.\<close>

theorem no_problems_references_resolve:
  assumes "problems ctl d = []"
  shows "md_phases d \<noteq> [] \<and> distinct (PhaseNames d)
    \<and> StartPhase d \<in> set (PhaseNames d) \<union> set (Accumulators d)
    \<and> (\<forall>p \<in> set (md_phases d). trim_space (ph_name p) \<noteq> [] \<and> \<not> contains (ph_name p) ''.''
        \<and> (\<forall>t \<in> set (ph_next p # ph_guard_to p # ph_choices p @ ph_exits_to p @ ph_keep p).
              trim_space t \<noteq> [] \<longrightarrow> trim_space t \<in> set (PhaseNames d) \<union> set (Accumulators d))
        \<and> (trimmed (ph_name p) \<and> trim_space (ph_next_from p) \<noteq> [] \<longrightarrow>
            (\<forall>f \<in> set (ph_output p). f_name f = trim_space (ph_next_from p) \<longrightarrow>
              (\<forall>v \<in> set (f_enum f). trim_space v \<in> set (PhaseNames d)))))"
proof (intro conjI ballI impI)
  show "md_phases d \<noteq> []" "distinct (PhaseNames d)" using problems_Nil(1,2) [OF assms] by blast+
  show "StartPhase d \<in> set (PhaseNames d) \<union> set (Accumulators d)"
    using start_known [OF assms] problems_Nil(4) [OF assms] by simp
  fix p assume p: "p \<in> set (md_phases d)"
  then show "trim_space (ph_name p) \<noteq> []" "\<not> contains (ph_name p) ''.''" using problems_Nil(3) [OF assms] by blast+
  show "trim_space t \<in> set (PhaseNames d) \<union> set (Accumulators d)"
    if "t \<in> set (ph_next p # ph_guard_to p # ph_choices p @ ph_exits_to p @ ph_keep p)" "trim_space t \<noteq> []" for t
    using ref_known [OF assms p that] problems_Nil(4) [OF assms] by simp
  show "trim_space v \<in> set (PhaseNames d)"
    if "trimmed (ph_name p) \<and> trim_space (ph_next_from p) \<noteq> []" "f \<in> set (ph_output p)"
      "f_name f = trim_space (ph_next_from p)" "v \<in> set (f_enum f)" for f v
    using routing_values_known [OF assms p _ _ that(2-4)] that(1) by blast
qed

theorem no_problems_references_witness:
  "distinct (PhaseNames StarterMachine) \<and> trim_space ''reply'' \<in> set (PhaseNames StarterMachine)
    \<and> StartPhase StarterMachine \<in> set (PhaseNames StarterMachine)"
proof -
  have "problems [] StarterMachine = []" by code_simp
  from no_problems_references_resolve [OF this] have sound:
    "distinct (PhaseNames StarterMachine)"
    "StartPhase StarterMachine \<in> set (PhaseNames StarterMachine) \<union> set (Accumulators StarterMachine)"
    "\<And>p t. p \<in> set (md_phases StarterMachine) \<Longrightarrow> t = ph_next p \<Longrightarrow> trim_space t \<noteq> [] \<Longrightarrow>
       trim_space t \<in> set (PhaseNames StarterMachine) \<union> set (Accumulators StarterMachine)"
    by auto
  obtain p where "p \<in> set (md_phases StarterMachine)" "''reply'' = ph_next p"
    by (rule that [of "hd (md_phases StarterMachine)"]) code_simp+
  moreover have "trim_space ''reply'' \<noteq> []" "Accumulators StarterMachine = []" by code_simp+
  ultimately show ?thesis using sound by fastforce
qed

text \<open>
  The same namespace lets a list stand where only a step can: pass 2 looks a target up among steps
  and lists together, and the run looks it up among steps alone.
\<close>

definition list_start_machine :: MachineDef where
  "list_start_machine = zero_machine\<lparr>md_name := ''notes'', md_start := ''answers'',
     md_phases :=
      [zero_phase\<lparr>ph_name := ''ask'', ph_prompt := ''List the answers.'', ph_next := ''talk'',
         ph_output := [PipelineField ''answer'' FieldList [] [] False [] []],
         ph_accumulates := [\<lparr>ac_name = ''answers'', ac_from = ''answer'', ac_mode = [], ac_by = []\<rparr>]\<rparr>,
       zero_phase\<lparr>ph_name := ''talk'', ph_resident := True, ph_prompt := ''Talk.''\<rparr>]\<rparr>"

text \<open>A machine whose start names one of its accumulator lists has no problems, yet a session
  over it cannot be resumed: there is no such step.\<close>

theorem list_as_start_validates_and_cannot_run:
  "problems [] list_start_machine = []
    \<and> resume list_start_machine zero_cursor = Inl (NoPhaseNamed ''notes'' ''answers'')"
  by code_simp

definition padded_machine :: MachineDef where
  "padded_machine = zero_machine\<lparr>md_name := ''pad'',
     md_phases := [zero_phase\<lparr>ph_name := ''talk '', ph_resident := True, ph_prompt := ''Talk.''\<rparr>]\<rparr>"

text \<open>A machine whose one step has a trailing space in its name has no problems, yet a session over
  it cannot be resumed: the step list is searched for the trimmed name.\<close>

theorem padded_name_validates_and_cannot_run:
  "problems [] padded_machine = []
    \<and> resume padded_machine zero_cursor = Inl (NoPhaseNamed ''pad'' ''talk '')"
  by code_simp

end
