(* ===== verification/MachineEdit.thy ===== *)
theory MachineEdit
  imports MachineChecks
begin

text \<open>
  Edits the definition makes to itself: renaming and removing a step with the references to it
  (\<open>RenameStep\<close>, \<open>RemoveStep\<close>, core/machine_def.go), and the mechanical repairs
  (core/machine_repair.go).

  The source writes through a pointer and, for lists, through a shared backing array; here an edit
  returns the new definition. \<open>clonePhases\<close>, which keeps a preview from writing through, is the
  identity on values. What a repair says is a constructor of \<open>repair_what\<close>.
\<close>

section \<open>Renaming a step\<close>

definition rename_ref :: "string \<Rightarrow> string \<Rightarrow> string \<Rightarrow> string" where
  "rename_ref from to n = (if trim_space n = from then to else n)"

definition renameInList :: "string list \<Rightarrow> string \<Rightarrow> string \<Rightarrow> string list" where
  "renameInList lst from to = map (rename_ref from to) lst"

definition renameStateRefs :: "string \<Rightarrow> string \<Rightarrow> string \<Rightarrow> string" where
  "renameStateRefs s from to =
     replace_all (replace_all s (''{state:'' @ from @ ''.'') (''{state:'' @ to @ ''.''))
       (''{state:'' @ from @ ''}'') (''{state:'' @ to @ ''}'')"

definition rename_field :: "string \<Rightarrow> string \<Rightarrow> PipelineField \<Rightarrow> PipelineField" where
  "rename_field from to f =
     set_f_from (renameStateRefs (f_from f) from to) (set_f_enum (renameInList (f_enum f) from to) f)"

definition rename_phase :: "string \<Rightarrow> string \<Rightarrow> MachinePhase \<Rightarrow> MachinePhase" where
  "rename_phase from to p =
     p\<lparr>ph_name := (if ph_name p = from then to else ph_name p),
       ph_next := rename_ref from to (ph_next p),
       ph_guard_to := rename_ref from to (ph_guard_to p),
       ph_keep := renameInList (ph_keep p) from to,
       ph_choices := renameInList (ph_choices p) from to,
       ph_output := map (rename_field from to) (ph_output p),
       ph_prompt := renameStateRefs (ph_prompt p) from to,
       ph_guard := renameStateRefs (ph_guard p) from to\<rparr>"

definition RenameStep :: "MachineDef \<Rightarrow> string \<Rightarrow> string \<Rightarrow> MachineDef" where
  "RenameStep d from0 to0 =
     (let from = trim_space from0; to = trim_space to0 in
      if from = [] \<or> to = [] \<or> from = to then d
      else d\<lparr>md_start := rename_ref from to (md_start d),
             md_phases := map (rename_phase from to) (md_phases d)\<rparr>)"

lemma rename_phase_name [simp]:
  "ph_name (rename_phase from to p) = (if ph_name p = from then to else ph_name p)"
  by (simp add: rename_phase_def)

section \<open>Removing a step\<close>

text \<open>The new list and whether the name was there.\<close>

definition dropFromList :: "string list \<Rightarrow> string \<Rightarrow> string list \<times> bool" where
  "dropFromList lst name =
     (if \<exists>v \<in> set lst. trim_space v = name
      then (filter (\<lambda>v. trim_space v \<noteq> name) lst, True) else (lst, False))"

lemma dropFromList_fst: "fst (dropFromList lst name) = filter (\<lambda>v. trim_space v \<noteq> name) lst"
  by (auto simp: dropFromList_def filter_id_conv)

definition drop_enum :: "string \<Rightarrow> PipelineField \<Rightarrow> PipelineField" where
  "drop_enum name f = set_f_enum (fst (dropFromList (f_enum f) name)) f"

definition remove_refs :: "string \<Rightarrow> MachinePhase \<Rightarrow> MachinePhase \<times> bool" where
  "remove_refs name p =
     (p\<lparr>ph_next := (if trim_space (ph_next p) = name then [] else ph_next p),
        ph_guard_to := (if trim_space (ph_guard_to p) = name then [] else ph_guard_to p),
        ph_choices := fst (dropFromList (ph_choices p) name),
        ph_keep := fst (dropFromList (ph_keep p) name),
        ph_exits_to := fst (dropFromList (ph_exits_to p) name),
        ph_output := map (drop_enum name) (ph_output p)\<rparr>,
      trim_space (ph_next p) = name \<or> trim_space (ph_guard_to p) = name
      \<or> snd (dropFromList (ph_choices p) name) \<or> snd (dropFromList (ph_keep p) name)
      \<or> snd (dropFromList (ph_exits_to p) name)
      \<or> (\<exists>f \<in> set (ph_output p). snd (dropFromList (f_enum f) name)))"

definition RemoveStep :: "MachineDef \<Rightarrow> string \<Rightarrow> MachineDef \<times> string list" where
  "RemoveStep d name0 =
     (let name = trim_space name0 in
      if name = [] then (d, [])
      else
        let rest = filter (\<lambda>p. ph_name p \<noteq> name) (md_phases d);
            d1 = d\<lparr>md_phases := map (\<lambda>p. fst (remove_refs name p)) rest\<rparr>;
            touched = map ph_name (filter (\<lambda>p. snd (remove_refs name p)) rest)
        in
          if trim_space (md_start d) = name then
            let d2 = d1\<lparr>md_start := []\<rparr>; s = StartPhase d2 in
            if s \<noteq> [] then (d2\<lparr>md_start := s\<rparr>, sort (remdups (''start'' # touched)))
            else (d2, sort (remdups touched))
          else (d1, sort (remdups touched)))"

definition step_refs :: "MachinePhase \<Rightarrow> string list" where
  "step_refs p = ph_next p # ph_guard_to p # ph_choices p @ ph_keep p @ ph_exits_to p
     @ concat (map f_enum (ph_output p))"

lemma remove_refs_name [simp]: "ph_name (fst (remove_refs name p)) = ph_name p"
  by (simp add: remove_refs_def)

lemma remove_refs_gone: "name \<noteq> [] \<Longrightarrow> t \<in> set (step_refs (fst (remove_refs name p))) \<Longrightarrow> trim_space t \<noteq> name"
  by (auto simp: step_refs_def remove_refs_def dropFromList_fst drop_enum_def split: if_splits)

lemma remove_refs_other:
  "t \<in> set (step_refs p) \<Longrightarrow> trim_space t \<noteq> name \<Longrightarrow> t \<in> set (step_refs (fst (remove_refs name p)))"
  by (auto simp: step_refs_def remove_refs_def dropFromList_fst drop_enum_def)

lemma RemoveStep_phases:
  "trim_space name \<noteq> [] \<Longrightarrow> md_phases (fst (RemoveStep d name)) =
     map (\<lambda>p. fst (remove_refs (trim_space name) p)) (filter (\<lambda>p. ph_name p \<noteq> trim_space name) (md_phases d))"
  by (simp add: RemoveStep_def Let_def)

text \<open>C27: After a step is removed no step carries its name, no next, guard target, choice, kept name,
  declared exit or declared field value of any remaining step names it, and every reference of a remaining
  step to any other name is still there.\<close>

theorem RemoveStep_takes_references:
  assumes "trim_space name \<noteq> []"
  shows "trim_space name \<notin> set (PhaseNames (fst (RemoveStep d name)))
    \<and> (\<forall>p \<in> set (md_phases (fst (RemoveStep d name))). \<forall>t \<in> set (step_refs p). trim_space t \<noteq> trim_space name)
    \<and> (\<forall>p \<in> set (md_phases d). ph_name p \<noteq> trim_space name \<longrightarrow>
         (\<exists>q \<in> set (md_phases (fst (RemoveStep d name))). ph_name q = ph_name p
           \<and> {t \<in> set (step_refs p). trim_space t \<noteq> trim_space name} \<subseteq> set (step_refs q)))"
proof (intro conjI ballI impI)
  show "trim_space name \<notin> set (PhaseNames (fst (RemoveStep d name)))"
    by (auto simp: PhaseNames_def RemoveStep_phases [OF assms])
next
  fix p t assume "p \<in> set (md_phases (fst (RemoveStep d name)))" "t \<in> set (step_refs p)"
  then show "trim_space t \<noteq> trim_space name"
    using remove_refs_gone [OF assms] by (auto simp: RemoveStep_phases [OF assms])
next
  fix p assume "p \<in> set (md_phases d)" "ph_name p \<noteq> trim_space name"
  then have "fst (remove_refs (trim_space name) p) \<in> set (md_phases (fst (RemoveStep d name)))"
    by (simp add: RemoveStep_phases [OF assms])
  then show "\<exists>q \<in> set (md_phases (fst (RemoveStep d name))). ph_name q = ph_name p
      \<and> {t \<in> set (step_refs p). trim_space t \<noteq> trim_space name} \<subseteq> set (step_refs q)"
    using remove_refs_other by (intro bexI) auto
qed

theorem RemoveStep_takes_references_witness:
  "''reply'' \<notin> set (PhaseNames (fst (RemoveStep StarterMachine ''reply'')))"
proof -
  have t: "trim_space ''reply'' = ''reply''" by code_simp
  show ?thesis using RemoveStep_takes_references [of "''reply''" StarterMachine] by (simp add: t)
qed

section \<open>Renaming keeps lookups\<close>

text \<open>Renaming a step to a name no step has, in a machine whose step names need no trimming, changes
  nothing but names for every lookup: the step found under a new name is the renamed step that was
  found under the old one.\<close>

theorem RenameStep_lookup:
  assumes "trim_space from \<noteq> []" "trim_space to \<noteq> []" "trim_space to \<notin> set (PhaseNames d)"
    and "trim_space n \<noteq> trim_space to" and "trim_space from \<noteq> trim_space to"
  shows "Phase (RenameStep d from to) (rename_ref (trim_space from) (trim_space to) n)
    = map_option (rename_phase (trim_space from) (trim_space to)) (Phase d n)"
proof -
  let ?f = "trim_space from" and ?t = "trim_space to"
  have ph: "md_phases (RenameStep d from to) = map (rename_phase ?f ?t) (md_phases d)"
    using assms(1,2,5) by (simp add: RenameStep_def Let_def)
  have "find (\<lambda>p. ph_name p = trim_space (rename_ref ?f ?t n)) (map (rename_phase ?f ?t) (md_phases d))
      = map_option (rename_phase ?f ?t) (find (\<lambda>p. ph_name p = trim_space n) (md_phases d))"
  proof (rule find_map_same)
    fix p assume "p \<in> set (md_phases d)"
    then have "ph_name p \<noteq> ?t" using assms(3) by (metis PhaseNames_def image_eqI set_map)
    then show "(ph_name (rename_phase ?f ?t p) = trim_space (rename_ref ?f ?t n)) = (ph_name p = trim_space n)"
      using assms(4,5) by (auto simp: rename_ref_def)
  qed
  then show ?thesis by (simp add: Phase_def ph)
qed

theorem RenameStep_lookup_witness:
  "Phase (RenameStep StarterMachine ''reply'' ''answer'') ''answer''
     = map_option (rename_phase ''reply'' ''answer'') (Phase StarterMachine ''reply'')"
proof -
  have t: "trim_space ''reply'' = ''reply''" "trim_space ''answer'' = ''answer''"
    "''answer'' \<notin> set (PhaseNames StarterMachine)" by code_simp+
  show ?thesis
    using RenameStep_lookup [of "''reply''" "''answer''" StarterMachine "''reply''"] t
    by (simp add: rename_ref_def)
qed

text \<open>A step's declared exits are not rewritten: the rename leaves the old name in them.\<close>

definition exits_machine :: MachineDef where
  "exits_machine = zero_machine\<lparr>md_name := ''desk'', md_phases :=
     [zero_phase\<lparr>ph_name := ''talk'', ph_resident := True, ph_prompt := ''Talk.'', ph_exits_to := [''bill'']\<rparr>,
      zero_phase\<lparr>ph_name := ''bill'', ph_resident := True, ph_prompt := ''Bill.''\<rparr>]\<rparr>"

text \<open>Renaming a step that another step declares as an exit turns a machine with no problems into one
  whose exits name an unknown step: \<open>exits_to\<close> is not rewritten.\<close>

theorem RenameStep_leaves_exits:
  "problems [] exits_machine = []
    \<and> problems [] (RenameStep exits_machine ''bill'' ''invoice'') = [PRoute (PExitUnknown ''talk'' ''bill'')]"
  by code_simp

section \<open>Repairs\<close>

definition RepairAll :: string where "RepairAll = []"
definition RepairProblems :: string where "RepairProblems = ''problems''"
definition RepairAdvice :: string where "RepairAdvice = ''advice''"

datatype repair_what =
    ClearNext string
  | ClearGuardTo string
  | DropFrom string string
  | DropEnum string string
  | RetypeFilled string string string
  | StartAt string string

record MachineRepair =
  mr_step :: string
  mr_what :: repair_what
  mr_advice :: bool

definition stepNames :: "MachineDef \<Rightarrow> string list" where
  "stepNames d = filter (\<lambda>n. n \<noteq> []) (map (\<lambda>p. trim_space (ph_name p)) (md_phases d))"

fun danglingIn :: "string list \<Rightarrow> string list \<Rightarrow> string list \<Rightarrow> string list" where
  "danglingIn known seen [] = []"
| "danglingIn known seen (v # vs) =
     (let n = trim_space v in
      if n = [] \<or> n \<in> set seen \<or> n \<in> set known then danglingIn known seen vs
      else n # danglingIn known (n # seen) vs)"

definition drop_dangling :: "string list \<Rightarrow> string list \<Rightarrow> string list" where
  "drop_dangling known lst = fold (\<lambda>gone l. fst (dropFromList l gone)) (danglingIn known [] lst) lst"

definition dropped_repairs ::
    "(string \<Rightarrow> repair_what) \<Rightarrow> string list \<Rightarrow> string \<Rightarrow> string list \<Rightarrow> MachineRepair list" where
  "dropped_repairs what known name lst =
     map (\<lambda>gone. \<lparr>mr_step = name, mr_what = what gone, mr_advice = False\<rparr>) (danglingIn known [] lst)"

definition dangling_ref :: "string list \<Rightarrow> string \<Rightarrow> bool" where
  "dangling_ref known t \<longleftrightarrow> trim_space t \<noteq> [] \<and> trim_space t \<notin> set known"

definition repairPhaseRefs ::
    "string list \<Rightarrow> string \<Rightarrow> MachinePhase \<Rightarrow> MachinePhase \<times> MachineRepair list" where
  "repairPhaseRefs known name p =
     (p\<lparr>ph_next := (if dangling_ref known (ph_next p) then [] else ph_next p),
        ph_guard_to := (if dangling_ref known (ph_guard_to p) then [] else ph_guard_to p),
        ph_choices := drop_dangling known (ph_choices p),
        ph_keep := drop_dangling known (ph_keep p),
        ph_exits_to := drop_dangling known (ph_exits_to p),
        ph_output := map (\<lambda>f. set_f_enum (drop_dangling known (f_enum f)) f) (ph_output p)\<rparr>,
      (if dangling_ref known (ph_next p)
       then [\<lparr>mr_step = name, mr_what = ClearNext (trim_space (ph_next p)), mr_advice = False\<rparr>] else [])
      @ (if dangling_ref known (ph_guard_to p)
         then [\<lparr>mr_step = name, mr_what = ClearGuardTo (trim_space (ph_guard_to p)), mr_advice = False\<rparr>] else [])
      @ dropped_repairs (DropFrom ''may choose'') known name (ph_choices p)
      @ dropped_repairs (DropFrom ''keeps what was established in'') known name (ph_keep p)
      @ dropped_repairs (DropFrom ''may exit to'') known name (ph_exits_to p)
      @ concat (map (\<lambda>f. dropped_repairs (DropEnum (f_name f)) known name (f_enum f)) (ph_output p)))"

definition filled_not_text :: "PipelineField \<Rightarrow> bool" where
  "filled_not_text f \<longleftrightarrow> trim_space (f_from f) \<noteq> [] \<and> f_type f \<noteq> [] \<and> f_type f \<noteq> FieldString"

definition repairFilledFieldTypes ::
    "string \<Rightarrow> MachinePhase \<Rightarrow> MachinePhase \<times> MachineRepair list" where
  "repairFilledFieldTypes name p =
     (p\<lparr>ph_output := map (\<lambda>f. if filled_not_text f then set_f_type FieldString f else f) (ph_output p)\<rparr>,
      map (\<lambda>f. \<lparr>mr_step = name, mr_what = RetypeFilled (f_name f) (f_from f) (f_type f), mr_advice = True\<rparr>)
        (filter filled_not_text (ph_output p)))"

definition want :: "string \<Rightarrow> bool \<Rightarrow> bool" where
  "want kind advice =
     (if kind = RepairProblems then \<not> advice else if kind = RepairAdvice then advice else True)"

definition repair_phase ::
    "string \<Rightarrow> string list \<Rightarrow> MachinePhase \<Rightarrow> MachinePhase \<times> MachineRepair list" where
  "repair_phase kind known p =
     (let name = trim_space (ph_name p) in
      if name = [] then (p, [])
      else
        let (p1, r1) = (if want kind False then repairPhaseRefs known name p else (p, []));
            (p2, r2) = (if want kind True then repairFilledFieldTypes name p1 else (p1, []))
        in (p2, r1 @ r2))"

definition repair_start :: "string \<Rightarrow> string list \<Rightarrow> MachineDef \<Rightarrow> MachineDef \<times> MachineRepair list" where
  "repair_start kind known d =
     (let s = trim_space (md_start d);
          first = (case md_phases d of [] \<Rightarrow> [] | p # _ \<Rightarrow> trim_space (ph_name p))
      in if want kind False \<and> s \<noteq> [] \<and> s \<notin> set known \<and> first \<noteq> []
         then (d\<lparr>md_start := first\<rparr>,
               [\<lparr>mr_step = ''start'', mr_what = StartAt s first, mr_advice = False\<rparr>])
         else (d, []))"

definition Repair :: "string \<Rightarrow> MachineDef \<Rightarrow> MachineDef \<times> MachineRepair list" where
  "Repair kind d =
     (let known = stepNames d in
      if known = [] then (d, [])
      else
        let ps = map (repair_phase kind known) (md_phases d);
            (d1, r) = repair_start kind known (d\<lparr>md_phases := map fst ps\<rparr>)
        in (d1, concat (map snd ps) @ r))"

definition clonePhases :: "MachineDef \<Rightarrow> MachineDef" where
  "clonePhases d = d"

definition Repairs :: "MachineDef \<Rightarrow> string \<Rightarrow> MachineRepair list" where
  "Repairs d kind = snd (Repair kind (clonePhases d))"

subsection \<open>What dropping dangling names leaves\<close>

lemma set_danglingIn:
  "set (danglingIn known seen vs) =
     {n. n \<in> trim_space ` set vs \<and> n \<noteq> [] \<and> n \<notin> set seen \<and> n \<notin> set known}"
  by (induction known seen vs rule: danglingIn.induct) (auto simp: Let_def)

lemma distinct_danglingIn: "distinct (danglingIn known seen vs)"
  by (induction known seen vs rule: danglingIn.induct) (auto simp: Let_def set_danglingIn)

lemma drop_all: "fold (\<lambda>gone l. fst (dropFromList l gone)) ns lst = filter (\<lambda>v. trim_space v \<notin> set ns) lst"
  by (induction ns arbitrary: lst) (auto simp: dropFromList_fst intro!: filter_cong)

lemma drop_dangling_filter:
  "drop_dangling known lst = filter (\<lambda>v. \<not> dangling_ref known v) lst"
  by (auto simp: drop_dangling_def drop_all set_danglingIn dangling_ref_def intro!: filter_cong)

lemma danglingIn_clean: "danglingIn known [] (drop_dangling known lst) = []"
proof -
  have "set (danglingIn known [] (drop_dangling known lst)) = {}"
    unfolding set_danglingIn drop_dangling_filter by (auto simp: dangling_ref_def)
  then show ?thesis by simp
qed

lemma drop_dangling_idem [simp]: "drop_dangling known (drop_dangling known lst) = drop_dangling known lst"
  by (simp add: drop_dangling_filter)

lemma dangling_Nil [simp]: "\<not> dangling_ref known []"
  by (simp add: dangling_ref_def)

lemma repairPhaseRefs_name [simp]: "ph_name (fst (repairPhaseRefs known name p)) = ph_name p"
  by (simp add: repairPhaseRefs_def)

lemma repairFilled_name [simp]: "ph_name (fst (repairFilledFieldTypes name p)) = ph_name p"
  by (simp add: repairFilledFieldTypes_def)

lemma repair_phase_name [simp]: "ph_name (fst (repair_phase kind known p)) = ph_name p"
  by (simp add: repair_phase_def Let_def split_beta)

lemma set_f_enum_same: "set_f_enum (f_enum f) f = f"
  by (cases f) (simp add: set_f_enum_def)

lemma repairPhaseRefs_again:
  "repairPhaseRefs known name (fst (repairPhaseRefs known name p)) = (fst (repairPhaseRefs known name p), [])"
  by (simp add: repairPhaseRefs_def dropped_repairs_def danglingIn_clean o_def)
    (simp add: set_f_enum_def)

lemma repairFilled_again:
  "repairFilledFieldTypes name (fst (repairFilledFieldTypes name p)) = (fst (repairFilledFieldTypes name p), [])"
  by (auto simp: repairFilledFieldTypes_def filled_not_text_def filter_empty_conv)

text \<open>The two repairs touch different parts, so doing the second leaves nothing for the first.\<close>

lemma repair_refs_after_types:
  assumes "repairPhaseRefs known name p = (p, [])"
  shows "repairPhaseRefs known name (fst (repairFilledFieldTypes name p)) = (fst (repairFilledFieldTypes name p), [])"
proof -
  have enums: "drop_dangling known (f_enum f) = f_enum f \<and> danglingIn known [] (f_enum f) = []"
    if "f \<in> set (ph_output p)" for f
  proof -
    have "danglingIn known [] (f_enum f) = []"
      using assms that by (auto simp: repairPhaseRefs_def dropped_repairs_def)
    then show ?thesis by (simp add: drop_dangling_def)
  qed
  have "drop_dangling known l = l \<and> danglingIn known [] l = []"
    if "l \<in> {ph_choices p, ph_keep p, ph_exits_to p}" for l
    using assms that by (auto simp: repairPhaseRefs_def dropped_repairs_def drop_dangling_def)
  moreover have "\<not> dangling_ref known (ph_next p)" "\<not> dangling_ref known (ph_guard_to p)"
    using assms by (auto simp: repairPhaseRefs_def split: if_splits)
  ultimately show ?thesis
    using enums
    by (auto simp: repairPhaseRefs_def repairFilledFieldTypes_def dropped_repairs_def set_f_enum_def set_f_type_def
        intro!: map_idI)
qed

lemma repair_phase_again:
  "repair_phase kind known (fst (repair_phase kind known p)) = (fst (repair_phase kind known p), [])"
proof (cases "trim_space (ph_name p) = []")
  case False
  let ?n = "trim_space (ph_name p)"
  show ?thesis
    using False repairPhaseRefs_again [of known ?n p] repairFilled_again [of ?n p]
      repairFilled_again [of ?n "fst (repairPhaseRefs known ?n p)"]
      repair_refs_after_types [OF repairPhaseRefs_again [of known ?n p]]
    by (simp add: repair_phase_def Let_def split_beta)
qed (simp add: repair_phase_def Let_def)

lemma stepNames_repaired:
  "map ph_name (md_phases d') = map ph_name (md_phases d) \<Longrightarrow> stepNames d' = stepNames d"
proof -
  assume "map ph_name (md_phases d') = map ph_name (md_phases d)"
  then have "map trim_space (map ph_name (md_phases d')) = map trim_space (map ph_name (md_phases d))"
    by simp
  then show ?thesis by (simp add: stepNames_def o_def)
qed

lemma md_phases_Repair:
  "stepNames d \<noteq> [] \<Longrightarrow> md_phases (fst (Repair kind d)) =
     map (\<lambda>p. fst (repair_phase kind (stepNames d) p)) (md_phases d)"
  by (simp add: Repair_def Let_def split_beta repair_start_def)

lemma stepNames_Repair: "stepNames (fst (Repair kind d)) = stepNames d"
proof (cases "stepNames d = []")
  case True
  then show ?thesis by (simp add: Repair_def)
next
  case False
  then show ?thesis by (intro stepNames_repaired) (simp add: md_phases_Repair)
qed

lemma repair_start_again:
  assumes "known = stepNames d"
  shows "repair_start kind known (fst (repair_start kind known d)) = (fst (repair_start kind known d), [])"
proof -
  have "trim_space (trim_space (ph_name p)) \<in> set known"
    if "md_phases d = p # ps" "trim_space (ph_name p) \<noteq> []" for p ps
    using that by (simp add: assms stepNames_def)
  then show ?thesis by (cases "md_phases d") (auto simp: repair_start_def Let_def)
qed

lemma repair_start_phases [simp]: "md_phases (fst (repair_start kind known d)) = md_phases d"
  by (simp add: repair_start_def Let_def)

lemma Repair_stable:
  assumes "map (repair_phase kind (stepNames e)) (md_phases e) = map (\<lambda>p. (p, [])) (md_phases e)"
    and "repair_start kind (stepNames e) e = (e, [])"
  shows "Repair kind e = (e, [])"
proof -
  have "concat (map (snd \<circ> (\<lambda>p. (p, []))) ps) = []" for ps :: "MachinePhase list"
    by (induction ps) simp_all
  then show ?thesis unfolding Repair_def Let_def assms(1) using assms(2) by (simp add: o_def)
qed

text \<open>Repairing is idempotent: after a repair of any kind there is nothing left of that kind to
  repair, and repairing again changes nothing.\<close>

theorem Repair_idempotent:
  "Repairs (fst (Repair kind d)) kind = []
    \<and> fst (Repair kind (fst (Repair kind d))) = fst (Repair kind d)"
proof (cases "stepNames d = []")
  case True
  then show ?thesis by (simp add: Repair_def Repairs_def clonePhases_def)
next
  case False
  let ?k = "stepNames d" and ?d = "fst (Repair kind d)"
  let ?d1 = "d\<lparr>md_phases := map (\<lambda>p. fst (repair_phase kind ?k p)) (md_phases d)\<rparr>"
  have d: "?d = fst (repair_start kind ?k ?d1)"
    using False by (simp add: Repair_def Let_def split_beta o_def)
  have k: "?k = stepNames ?d1"
    by (rule stepNames_repaired [symmetric]) simp
  have k': "stepNames ?d = ?k" by (rule stepNames_Repair)
  have ph: "md_phases ?d = map (\<lambda>p. fst (repair_phase kind ?k p)) (md_phases d)"
    by (rule md_phases_Repair [OF False])
  have "map (repair_phase kind ?k) (md_phases ?d) = map (\<lambda>p. (p, [])) (md_phases ?d)"
    unfolding ph by (simp add: repair_phase_again o_def)
  moreover have "repair_start kind ?k ?d = (?d, [])"
    unfolding d by (rule repair_start_again [OF k])
  ultimately have "Repair kind ?d = (?d, [])"
    by (intro Repair_stable) (simp_all only: k')
  then show ?thesis by (simp add: Repairs_def clonePhases_def)
qed

text \<open>After repairing the problems, a named step's next, guard target, choices, kept names, declared
  exits and routing values name only steps of the machine, and its step names are unchanged.\<close>

theorem Repair_leaves_nothing_dangling:
  assumes "want kind False" "p \<in> set (md_phases (fst (Repair kind d)))" "trim_space (ph_name p) \<noteq> []"
    and "t \<in> set (step_refs p)" "trim_space t \<noteq> []"
  shows "trim_space t \<in> set (stepNames (fst (Repair kind d)))
    \<and> PhaseNames (fst (Repair kind d)) = PhaseNames d"
proof -
  let ?k = "stepNames d"
  have ne: "?k \<noteq> []"
  proof
    assume e: "?k = []"
    then have "md_phases (fst (Repair kind d)) = md_phases d" by (simp add: Repair_def)
    with e assms(2,3) show False by (auto simp: stepNames_def filter_empty_conv)
  qed
  from assms(2) obtain q where p: "p = fst (repair_phase kind ?k q)"
    by (auto simp: md_phases_Repair [OF ne])
  let ?n = "trim_space (ph_name q)"
  have n: "?n \<noteq> []" using assms(3) p by simp
  have refs: "step_refs p = step_refs (fst (repairPhaseRefs ?k ?n q))"
    using n assms(1) unfolding p
    by (auto simp: repair_phase_def Let_def split_beta step_refs_def repairFilledFieldTypes_def o_def
        intro!: arg_cong [of _ _ concat])
  have "\<not> dangling_ref ?k t"
    using assms(4) unfolding refs
    by (auto simp: step_refs_def repairPhaseRefs_def drop_dangling_filter split: if_splits)
  then show ?thesis using assms(5)
    by (simp add: dangling_ref_def stepNames_Repair PhaseNames_def md_phases_Repair [OF ne])
qed

definition dangling_machine :: MachineDef where
  "dangling_machine = zero_machine\<lparr>md_name := ''desk'', md_phases :=
     [zero_phase\<lparr>ph_name := ''talk'', ph_resident := True, ph_keep := [''gone'', ''talk'']\<rparr>]\<rparr>"

theorem Repair_leaves_nothing_dangling_witness:
  "trim_space ''talk'' \<in> set (stepNames (fst (Repair RepairAll dangling_machine)))"
proof -
  let ?p = "zero_phase\<lparr>ph_name := ''talk'', ph_resident := True, ph_keep := [''talk'']\<rparr>"
  have "want RepairAll False" "?p \<in> set (md_phases (fst (Repair RepairAll dangling_machine)))"
    "trim_space (ph_name ?p) \<noteq> []" "''talk'' \<in> set (step_refs ?p)" "trim_space ''talk'' \<noteq> []"
    by code_simp+
  from Repair_leaves_nothing_dangling [OF this] show ?thesis by blast
qed

subsection \<open>What it takes that it should not\<close>

definition enum_machine :: MachineDef where
  "enum_machine = zero_machine\<lparr>md_name := ''desk'', md_phases :=
     [zero_phase\<lparr>ph_name := ''rate'', ph_prompt := ''Rate it.'', ph_next := ''talk'',
        ph_output := [PipelineField ''urgency'' FieldString [] [] True [''low'', ''high''] [],
                      PipelineField ''note'' FieldList [] [] False [] []],
        ph_accumulates := [\<lparr>ac_name = ''notes'', ac_from = ''note'', ac_mode = [], ac_by = []\<rparr>]\<rparr>,
      zero_phase\<lparr>ph_name := ''talk'', ph_resident := True, ph_prompt := ''Talk.'', ph_keep := [''notes'']\<rparr>]\<rparr>"

text \<open>Repairing a machine that has no problems can take from it: an ordinary field's values, which name
  no step because they are not routing values, and a kept accumulator list are both dropped.\<close>

theorem Repair_takes_from_a_sound_machine:
  "problems [] enum_machine = []
    \<and> map mr_what (Repairs enum_machine RepairProblems)
        = [DropEnum ''urgency'' ''low'', DropEnum ''urgency'' ''high'',
           DropFrom ''keeps what was established in'' ''notes'']
    \<and> map (\<lambda>p. map f_enum (ph_output p)) (md_phases (fst (Repair RepairProblems enum_machine))) = [[[], []], []]"
  by code_simp

end
