(* ===== verification/MachinePrompt.thy ===== *)
theory MachinePrompt
  imports MachineReach MachineState
begin

text \<open>
  What a step is sent: the template substitution, the established block and the routing block shared by
  both kinds of step, the resident step's system-prompt layer (\<open>PhaseBlock\<close>), the transient step's
  prompt (\<open>phasePrompt\<close>), the guard's question, and the cut a delegated step's prompt gets
  (core/machine_prompt.go, core/machine_guard.go, core/machine_phase.go).

  The layer sits in a cached prompt prefix, so it must not change from turn to turn: the theorems show
  it reads none of the turn's own variables, and that neither the order the blackboard's map is walked
  in nor the order of a result's fields shows in it.
\<close>

section \<open>Templates\<close>

text \<open>\<open>sort.Strings\<close> over the keys of a map.\<close>

definition sorted_keys :: "(string \<times> 'v) list \<Rightarrow> string list" where
  "sorted_keys m = sort (remdups (keys m))"

definition field_value :: "(string \<times> val) list \<Rightarrow> string \<Rightarrow> val" where
  "field_value flds f = (case map_of flds f of Some v \<Rightarrow> v | None \<Rightarrow> VNil)"

definition subst_result :: "golib \<Rightarrow> string \<Rightarrow> PhaseResult \<Rightarrow> string \<Rightarrow> string" where
  "subst_result L name res s0 =
     fold (\<lambda>field s. replace_all s (''{state:'' @ name @ ''.'' @ field @ ''}'')
                       (renderFieldValue L (field_value (pr_fields res) field)))
       (sorted_keys (pr_fields res))
       (replace_all s0 (''{state:'' @ name @ ''}'') (pr_text res))"

definition subst_state :: "golib \<Rightarrow> MachineState \<Rightarrow> string \<Rightarrow> string \<Rightarrow> string" where
  "subst_state L st name s =
     (case map_of st name of None \<Rightarrow> s | Some res \<Rightarrow> subst_result L name res s)"

definition ResolvePhaseTemplate :: "golib \<Rightarrow> string \<Rightarrow> PhaseVars \<Rightarrow> MachineState \<Rightarrow> string" where
  "ResolvePhaseTemplate L tmpl v st = fold (subst_state L st) (sorted_keys st) (pv_resolve v tmpl)"

section \<open>What earlier steps established\<close>

definition finding_piece :: "bool \<Rightarrow> string \<Rightarrow> string \<Rightarrow> string" where
  "finding_piece single name body =
     (if name = BuiltinNextStep then ''went to: '' @ body
      else if single then body
      else displayFromSnake name @ '': '' @ (if contains body newline then newline else []) @ body)"

definition field_finding :: "golib \<Rightarrow> bool \<Rightarrow> PhaseResult \<Rightarrow> PipelineField \<Rightarrow> string list" where
  "field_finding L single res f =
     (case map_of (pr_fields res) (f_name f) of
        None \<Rightarrow> []
      | Some v \<Rightarrow>
          (let body = readableFieldValue L v in
           if body = [] then [] else [finding_piece single (f_name f) body]))"

definition renderPhaseFindings :: "golib \<Rightarrow> MachinePhase \<Rightarrow> PhaseResult \<Rightarrow> string" where
  "renderPhaseFindings L p res =
     (let decl = DeclaredOutput p in
      if decl = [] then trim_space (pr_text res)
      else join newline (concat (map (field_finding L (length decl = 1) res) decl)))"

definition step_heading :: "string \<Rightarrow> string \<Rightarrow> string" where
  "step_heading name desc =
     newline @ ''### '' @ name @ (if trim_space desc \<noteq> [] then '' - '' @ trim_space desc else []) @ newline"

definition established_step :: "golib \<Rightarrow> MachinePhase \<Rightarrow> MachineState \<Rightarrow> MachinePhase \<Rightarrow> string" where
  "established_step L ph st p =
     (if ph_name p = ph_name ph then []
      else case map_of st (ph_name p) of
          None \<Rightarrow> []
        | Some res \<Rightarrow>
            (let body = renderPhaseFindings L p res in
             if body = [] then [] else step_heading (ph_name p) (ph_desc p) @ body @ newline))"

definition accum_count :: "PhaseResult \<Rightarrow> int" where
  "accum_count res =
     (case map_of (pr_fields res) AccumulatorCountField of Some (VInt i) \<Rightarrow> i | _ \<Rightarrow> 0)"

definition established_list :: "MachineState \<Rightarrow> string \<Rightarrow> string" where
  "established_list st name =
     (case map_of st name of
        None \<Rightarrow> []
      | Some res \<Rightarrow>
          if trim_space (pr_text res) = [] then []
          else newline @ ''### '' @ name
            @ (if accum_count res > 0 then '' ('' @ itoa_int (accum_count res) @ '' so far)'' else [])
            @ newline @ pr_text res @ newline)"

definition establishedBlock :: "golib \<Rightarrow> MachineDef \<Rightarrow> MachinePhase \<Rightarrow> MachineState \<Rightarrow> string" where
  "establishedBlock L d ph st =
     concat (map (established_step L ph st) (md_phases d))
     @ concat (map (established_list st) (Accumulators d))"

section \<open>Where a step may send the conversation\<close>

definition phaseCapability :: "MachinePhase \<Rightarrow> string \<times> bool" where
  "phaseCapability p =
     (if trim_space (ph_tool p) \<noteq> [] then (''calls the '' @ trim_space (ph_tool p) @ '' tool'', False)
      else if trim_space (ph_agent p) \<noteq> []
        then (''hands the work to the '' @ trim_space (ph_agent p) @ '' agent, which works with its own tools'', False)
      else if trim_space (ph_pipeline p) \<noteq> []
        then (''runs the '' @ trim_space (ph_pipeline p) @ '' pipeline'', False)
      else if trim_space (ph_machine p) \<noteq> []
        then (''runs the '' @ trim_space (ph_machine p) @ '' machine'', False)
      else if PhaseReach p = ReachNone then (''writes text only, no tools'', False)
      else
        let named = filter (\<lambda>n. n \<noteq> [] \<and> n \<noteq> NoToolsMarker) (map trim_space (ph_tools p)) in
        if named \<noteq> [] then
          (''can use '' @ (if length named > 6
             then join '', '' (take 6 named) @ '' and '' @ itoa (length named - 6) @ '' more''
             else join '', '' named), False)
        else if PhaseReach p = ReachRead then (''can use this agent'' @ [CHR 0x27] @ ''s tools that only read'', True)
        else (''can use this agent'' @ [CHR 0x27] @ ''s tools'', True))"

definition routingBlockLead :: string where
  "routingBlockLead = newline @ ''## Where this goes next'' @ newline"

definition routing_target :: "MachineDef \<Rightarrow> string \<Rightarrow> string" where
  "routing_target d t =
     ''- '' @ t
     @ (case Phase d (trim_space t) of
          None \<Rightarrow> []
        | Some p \<Rightarrow>
            (if trim_space (ph_desc p) \<noteq> [] then '': '' @ trim_space (ph_desc p) else [])
            @ '' ('' @ fst (phaseCapability p) @ '')'')
     @ newline"

definition uses_own :: "MachineDef \<Rightarrow> string list \<Rightarrow> bool" where
  "uses_own d targets \<longleftrightarrow>
     list_ex (\<lambda>t. case Phase d (trim_space t) of None \<Rightarrow> False | Some p \<Rightarrow> snd (phaseCapability p)) targets"

definition routingBlock :: "MachineDef \<Rightarrow> MachinePhase \<Rightarrow> PhaseVars \<Rightarrow> string" where
  \<open>routingBlock d ph v =
     (let from = RoutesBy ph; targets = RoutingChoices ph in
      if from = [] then []
      else if targets = [] then []
      else routingBlockLead
        @ ''Put exactly one of these in "'' @ from @ ''". Choose by what the work needs, not by order.'' @ newline
        @ concat (map (routing_target d) targets)
        @ (if trim_space (ph_next ph) \<noteq> []
           then ''If none of them fits, '' @ trim_space (ph_next ph) @ '' is used.'' @ newline else [])
        @ (if uses_own d targets \<and> mt_tools v \<noteq> []
           then ''When the request needs one of these, pick a step that can use this agent'' @ [CHR 0x27]
             @ ''s tools:'' @ newline
             @ concat (map (\<lambda>t. ''- '' @ t @ newline) (mt_tools v))
           else []))\<close>

text \<open>\<open>SplitDelegatedStepPrompt\<close>: the task, and the routing block and contract that follow it.\<close>

definition earliest_lead :: "string \<Rightarrow> nat option" where
  "earliest_lead prompt =
     fold (\<lambda>lead pos.
        case last_index_of prompt lead of
          None \<Rightarrow> pos
        | Some i \<Rightarrow> (case pos of None \<Rightarrow> Some i | Some c \<Rightarrow> if i < c then Some i else Some c))
       [routingBlockLead, outputContractLead] None"

definition SplitDelegatedStepPrompt :: "string \<Rightarrow> string \<times> string" where
  "SplitDelegatedStepPrompt prompt =
     (case earliest_lead prompt of
        None \<Rightarrow> (prompt, [])
      | Some pos \<Rightarrow> (trim_right [newline] (take pos prompt), drop pos prompt))"

section \<open>The resident step's layer\<close>

definition block_tools :: "MachinePhase \<Rightarrow> string" where
  "block_tools ph =
     (if ph_tools ph \<noteq> [] \<or> ph_deny ph \<noteq> [] \<or> PhaseReach ph \<noteq> ReachAll then
        newline @ ''## Tools in this phase'' @ newline
        @ (if PhaseReach ph = ReachRead
           then ''This phase may only READ. Nothing that writes, runs a command, or reaches the network is available here, that is the step'' @ [CHR 0x27] @ ''s design, not a fault.'' @ newline
           else [])
        @ (if PhaseReach ph = ReachNone
           then ''This phase reaches no tools. Answer from what you were given and what is already in this conversation.'' @ newline
             @ ''If the job genuinely needs one, change_phase to a step that carries it rather than describing a call you cannot make.'' @ newline
           else if ph_tools ph \<noteq> []
           then ''This phase narrows what you may reach to: '' @ join '', '' (ph_tools ph)
               @ '', alongside your workflow controls and anything your attachments grant.'' @ newline
             @ ''Go by what is IN your catalog. A tool you used earlier in this conversation, under a phase that allowed it, and can no longer see is out of scope HERE: not misnamed. Don'' @ [CHR 0x27] @ ''t retry those names. Work with what you have, or change_phase if the job has genuinely moved to a phase that carries what you need.'' @ newline
           else [])
        @ (if ph_deny ph \<noteq> []
           then ''Withheld in this phase, by the step'' @ [CHR 0x27] @ ''s design: '' @ join '', '' (ph_deny ph)
             @ ''. Do not reach for these, do not substitute a neighbouring tool that does the same job, and do not author a replacement. If the work genuinely needs one, say so plainly or change_phase to a step that carries it.'' @ newline
           else [])
      else [])"

definition block_exits :: "MachineDef \<Rightarrow> MachinePhase \<Rightarrow> string" where
  "block_exits d ph =
     (let exits = ExitOptions d ph in
      if exits = [] then []
      else newline @ ''## Other phases in this workflow'' @ newline
        @ ''Reachable with change_phase, and only when the request has genuinely moved on. A follow-up or a clarification is the same job: stay here.'' @ newline
        @ concat (map (\<lambda>p. ''- '' @ ph_name p
            @ (if trim_space (ph_desc p) \<noteq> [] then '': '' @ trim_space (ph_desc p) else []) @ newline) exits))"

text \<open>The variables a layer may read: the turn's own are emptied, the step's own are filled in.\<close>

definition layer_vars :: "golib \<Rightarrow> MachineDef \<Rightarrow> MachinePhase \<Rightarrow> MachineState \<Rightarrow> PhaseVars \<Rightarrow> PhaseVars" where
  "layer_vars L d ph st v =
     v\<lparr>mt_input := [], pv_prev := [], mt_now := [], pv_step := ph_name ph,
       pv_machine := chooseStr (pv_machine v) (md_name d), pv_established := establishedBlock L d ph st\<rparr>"

definition PhaseBlock :: "golib \<Rightarrow> MachineDef \<Rightarrow> MachinePhase \<Rightarrow> MachineState \<Rightarrow> PhaseVars \<Rightarrow> string" where
  "PhaseBlock L d ph st v0 =
     (let v = layer_vars L d ph st v0;
          p = trim_space (ResolvePhaseTemplate L (ph_prompt ph) v st);
          est = pv_established v
      in newline @ newline @ ''## Current phase: '' @ ph_name ph @ newline
         @ (if trim_space (ph_desc ph) \<noteq> [] then trim_space (ph_desc ph) @ newline else [])
         @ (if p \<noteq> [] then newline @ p @ newline else [])
         @ routingBlock d ph v
         @ block_tools ph
         @ (if est \<noteq> [] \<and> \<not> mentionsEstablished (ph_prompt ph)
            then newline @ ''## Established earlier in this conversation'' @ newline
              @ ''Settled. Work from it rather than re-deriving it, and do not re-ask what it already answers.'' @ newline
              @ est
            else [])
         @ block_exits d ph)"

section \<open>The transient step's prompt\<close>

definition step_vars :: "golib \<Rightarrow> MachineDef \<Rightarrow> MachinePhase \<Rightarrow> MachineState \<Rightarrow> PhaseVars \<Rightarrow> PhaseVars" where
  "step_vars L d ph st v =
     v\<lparr>pv_step := ph_name ph, pv_machine := chooseStr (pv_machine v) (md_name d),
       pv_established := establishedBlock L d ph st\<rparr>"

definition phasePrompt :: "golib \<Rightarrow> MachineDef \<Rightarrow> MachinePhase \<Rightarrow> MachineState \<Rightarrow> PhaseVars \<Rightarrow> string" where
  "phasePrompt L d ph st v0 =
     (let v = step_vars L d ph st v0;
          out = ResolvePhaseTemplate L (ph_prompt ph) v st;
          out1 = (if mentionsInput (ph_prompt ph) then out else pv_inputBlock v @ out);
          out2 = (if mentionsEstablished (ph_prompt ph) then out1 else pv_establishedBlock v @ out1)
      in out2 @ routingBlock d ph v)"

definition PhaseInstructions :: "golib \<Rightarrow> MachineDef \<Rightarrow> MachinePhase \<Rightarrow> MachineState \<Rightarrow> PhaseVars \<Rightarrow> string" where
  "PhaseInstructions L d ph st v =
     (if ph_resident ph then PhaseBlock L d ph st v
      else phasePrompt L d ph st v
        @ (if ModelOutput ph \<noteq> [] then renderOutputContract (ModelOutput ph) else []))"

section \<open>The guard's question\<close>

definition guardPrompt :: "golib \<Rightarrow> MachineDef \<Rightarrow> MachinePhase \<Rightarrow> MachineState \<Rightarrow> string \<Rightarrow> string" where
  \<open>guardPrompt L d ph st inp =
     ''A conversation is currently in the phase named "'' @ ph_name ph @ ''".''
     @ (if trim_space (ph_desc ph) \<noteq> [] then '' That phase'' @ [CHR 0x27] @ ''s job: '' @ trim_space (ph_desc ph) else [])
     @ newline @ newline @ ''The condition to check:'' @ newline @ trim_space (ph_guard ph) @ newline
     @ (let est = establishedBlock L d ph st in
        if est \<noteq> [] then newline @ ''What earlier phases of this conversation settled:'' @ newline @ est else [])
     @ newline @ ''The phases you may move to:'' @ newline
     @ concat (map (\<lambda>p. ''- '' @ ph_name p
          @ (if trim_space (ph_desc p) \<noteq> [] then '': '' @ trim_space (ph_desc p) else []) @ newline)
         (filter (\<lambda>p. \<not> (ph_name p = ph_name ph \<or> \<not> MayExitTo ph (ph_name p))) (md_phases d)))
     @ newline @ ''The new message from the user:'' @ newline @ trim_space inp @ newline
     @ newline @ ''Decide whether the conversation stays in "'' @ ph_name ph
     @ ''" or moves. Staying is the default: move only when the condition above clearly applies. A follow-up, a clarification, or a related question is the SAME job and stays.''\<close>

section \<open>Byte stability\<close>

text \<open>A resident step's layer reads none of the turn's own variables: whatever the message, the
  previous step's output, the clock, the step name and the established text passed in, the block is
  the same.\<close>

theorem PhaseBlock_ignores_the_turn:
  "PhaseBlock L d ph st (v\<lparr>mt_input := a, pv_prev := b, mt_now := c, pv_step := s, pv_established := e\<rparr>)
     = PhaseBlock L d ph st v"
  by (simp add: PhaseBlock_def layer_vars_def)

text \<open>Two walks of the same Go map: the same keys, with results that differ in field order at most.\<close>

definition same_result :: "PhaseResult \<Rightarrow> PhaseResult \<Rightarrow> bool" where
  "same_result r r' \<longleftrightarrow> pr_text r = pr_text r' \<and> map_of (pr_fields r) = map_of (pr_fields r')"

definition same_state :: "MachineState \<Rightarrow> MachineState \<Rightarrow> bool" where
  "same_state st st' \<longleftrightarrow> (\<forall>k. rel_option same_result (map_of st k) (map_of st' k))"

lemma sorted_keys_cong: "set (keys m) = set (keys m') \<Longrightarrow> sorted_keys m = sorted_keys m'"
  unfolding sorted_keys_def
  by (intro sorted_distinct_set_unique) simp_all

lemma same_fields_keys: "map_of m = map_of m' \<Longrightarrow> set (keys m) = set (keys m')"
  by (metis dom_map_of_conv_image_fst set_map)

lemma same_state_keys:
  assumes "same_state st st'"
  shows "set (keys st) = set (keys st')"
proof -
  have "map_of st k = None \<longleftrightarrow> map_of st' k = None" for k
    using assms unfolding same_state_def by (metis option.rel_sel)
  then show ?thesis using map_of_neq_None [of st] map_of_neq_None [of st'] by blast
qed

lemma subst_result_cong:
  assumes "same_result r r'"
  shows "subst_result L name r s = subst_result L name r' s"
proof -
  have t: "pr_text r = pr_text r'" and m: "map_of (pr_fields r) = map_of (pr_fields r')"
    using assms by (simp_all add: same_result_def)
  have "sorted_keys (pr_fields r) = sorted_keys (pr_fields r')"
    by (rule sorted_keys_cong [OF same_fields_keys [OF m]])
  moreover have "field_value (pr_fields r) = field_value (pr_fields r')"
    by (simp add: field_value_def m fun_eq_iff)
  ultimately show ?thesis unfolding subst_result_def t by simp
qed

lemma subst_state_cong: "same_state st st' \<Longrightarrow> subst_state L st = subst_state L st'"
proof (intro ext)
  fix name s
  assume "same_state st st'"
  then have "rel_option same_result (map_of st name) (map_of st' name)" by (simp add: same_state_def)
  then show "subst_state L st name s = subst_state L st' name s"
    by (cases rule: option.rel_cases) (simp_all add: subst_state_def subst_result_cong [of _ _ L name s])
qed

lemma ResolvePhaseTemplate_cong:
  "same_state st st' \<Longrightarrow> ResolvePhaseTemplate L tmpl v st = ResolvePhaseTemplate L tmpl v st'"
  by (simp add: ResolvePhaseTemplate_def subst_state_cong sorted_keys_cong [OF same_state_keys])

lemma renderPhaseFindings_cong:
  "same_result r r' \<Longrightarrow> renderPhaseFindings L p r = renderPhaseFindings L p r'"
proof -
  assume "same_result r r'"
  then have t: "pr_text r = pr_text r'" and m: "map_of (pr_fields r) = map_of (pr_fields r')"
    by (simp_all add: same_result_def)
  have "field_finding L b r = field_finding L b r'" for b
    by (simp add: field_finding_def m fun_eq_iff)
  then show ?thesis unfolding renderPhaseFindings_def Let_def t by simp
qed

lemma establishedBlock_cong:
  assumes "same_state st st'"
  shows "establishedBlock L d ph st = establishedBlock L d ph st'"
proof -
  have rel: "rel_option same_result (map_of st k) (map_of st' k)" for k
    using assms by (simp add: same_state_def)
  have "established_step L ph st p = established_step L ph st' p" for p
    using rel [of "ph_name p"]
    by (cases rule: option.rel_cases) (simp_all add: established_step_def renderPhaseFindings_cong)
  moreover have "established_list st n = established_list st' n" for n
    using rel [of n]
    by (cases rule: option.rel_cases) (simp_all add: established_list_def accum_count_def same_result_def)
  ultimately show ?thesis by (simp add: establishedBlock_def cong: map_cong)
qed

text \<open>Nor does the order a map is walked in show: blackboards with the same entries, whose results
  hold the same fields in any order, give the same layer and the same transient prompt.\<close>

theorem prompts_ignore_map_order:
  "same_state st st' \<Longrightarrow>
     PhaseBlock L d ph st v = PhaseBlock L d ph st' v
     \<and> phasePrompt L d ph st v = phasePrompt L d ph st' v"
  by (simp add: PhaseBlock_def phasePrompt_def layer_vars_def step_vars_def
      establishedBlock_cong [of st st'] ResolvePhaseTemplate_cong [of st st'])

definition result_ab :: PhaseResult where
  "result_ab = \<lparr>pr_text = ''t'', pr_fields = [(''a'', VBool True), (''b'', VStr ''x'')],
     pr_skipped = False, pr_skip_reason = []\<rparr>"

definition result_ba :: PhaseResult where
  "result_ba = \<lparr>pr_text = ''t'', pr_fields = [(''b'', VStr ''x''), (''a'', VBool True)],
     pr_skipped = False, pr_skip_reason = []\<rparr>"

theorem prompts_ignore_map_order_witness:
  "PhaseBlock sample_lib zero_machine zero_phase [(''p'', result_ab), (''q'', result_ba)] zero_vars
     = PhaseBlock sample_lib zero_machine zero_phase [(''q'', result_ab), (''p'', result_ba)] zero_vars"
proof -
  have "same_result result_ab result_ba" "same_result result_ba result_ab"
    by (auto simp: same_result_def result_ab_def result_ba_def fun_eq_iff)
  then have "same_state [(''p'', result_ab), (''q'', result_ba)] [(''q'', result_ab), (''p'', result_ba)]"
    by (auto simp: same_state_def)
  from prompts_ignore_map_order [OF this] show ?thesis by blast
qed

section \<open>What a delegate is handed\<close>

lemma strip_newlines: "\<exists>k. s = replicate k (CHR 0x0A) @ strip [rev newline] s"
proof (induction "[rev newline]" s rule: strip.induct)
  case (1 s)
  show ?case
  proof (cases "has_prefix s newline")
    case True
    then obtain t where s: "s = CHR 0x0A # t" by (auto simp: has_prefix_conv newline_def)
    have find: "find (\<lambda>r. r \<noteq> [] \<and> has_prefix s r) [rev newline] = Some newline"
      using True by (simp add: newline_def)
    then have "strip [rev newline] s = strip [rev newline] t"
      by (subst strip.simps) (simp add: s newline_def)
    moreover from 1 [OF find] obtain k where "t = replicate k (CHR 0x0A) @ strip [rev newline] t"
      by (auto simp: s newline_def)
    ultimately have "s = replicate (Suc k) (CHR 0x0A) @ strip [rev newline] s" using s by simp
    then show ?thesis by blast
  next
    case False
    then have "strip [rev newline] s = s"
      by (intro strip_id) (auto simp: starts_in_def newline_def)
    then show ?thesis by (intro exI [of _ 0]) simp
  qed
qed

text \<open>Splitting a delegated step's prompt loses nothing but line ends: the task, some line ends and
  the shape put together are the prompt.\<close>

theorem SplitDelegatedStepPrompt_cuts:
  "\<exists>k. prompt = fst (SplitDelegatedStepPrompt prompt) @ replicate k (CHR 0x0A) @ snd (SplitDelegatedStepPrompt prompt)"
proof (cases "earliest_lead prompt")
  case None
  then show ?thesis by (intro exI [of _ 0]) (simp add: SplitDelegatedStepPrompt_def)
next
  case (Some pos)
  obtain k where "rev (take pos prompt) = replicate k (CHR 0x0A) @ strip [rev newline] (rev (take pos prompt))"
    using strip_newlines by blast
  then have "take pos prompt = trim_right [newline] (take pos prompt) @ replicate k (CHR 0x0A)"
    unfolding trim_right_def
    by (metis (no_types, lifting) list.simps(8) list.simps(9) rev_append rev_replicate rev_rev_ident)
  then have "prompt = trim_right [newline] (take pos prompt) @ replicate k (CHR 0x0A) @ drop pos prompt"
    by (metis append.assoc append_take_drop_id)
  then show ?thesis using Some by (auto simp: SplitDelegatedStepPrompt_def)
qed

end
