(* ===== verification/MachineWalk.thy ===== *)
theory MachineWalk
  imports MachinePrompt
begin

text \<open>
  The driver: one declared reply with its single repair (\<open>runDeclaredOutput\<close>,
  core/pipeline_interp.go), one step (\<open>runPhase\<close>, \<open>fillStatic\<close>, \<open>restateCall\<close>,
  core/machine_phase.go), the guard (core/machine_guard.go), and the walk with its three entries
  (\<open>AdvanceMachine\<close>, \<open>RunUnattended\<close>, \<open>ChangePhase\<close>, core/machine.go).

  What the host supplies is the record \<open>host\<close>: the step runner, the context's error and the clock, over
  a world \<open>'w\<close> that every call threads. A runner call may also call \<open>SkipStep\<close>; \<open>rr_skip\<close> is the
  reason it gave. The slot a step reports into (\<open>withSkipSlot\<close>) is the second half of the state a
  step's calls thread.

  The walk counts down the transitions it has left, so \<open>hops >= hopCap\<close> is \<open>0\<close>.
\<close>

section \<open>The host\<close>

record run_reply =
  rr_skip :: "string option"
  rr_reply :: "string + string"

record 'w host =
  h_run :: "'w \<Rightarrow> PhaseVars option \<Rightarrow> MachinePhase \<Rightarrow> string \<Rightarrow> run_reply \<times> 'w"
  h_ctx_err :: "'w \<Rightarrow> string option"
  h_now :: "'w \<Rightarrow> int"

type_synonym 's caller = "'s \<Rightarrow> string \<Rightarrow> (phase_err + string) \<times> 's"
type_synonym 'w slotted = "'w \<times> string option"

definition skip_reason :: "string \<Rightarrow> string" where
  "skip_reason r = (if trim_space r = [] then ''no reason given'' else trim_space r)"

text \<open>\<open>SkipStep\<close>: the first reason stays.\<close>

definition SkipStep :: "string option \<Rightarrow> string option \<Rightarrow> string option" where
  "SkipStep slot asked =
     (case slot of Some r \<Rightarrow> Some r | None \<Rightarrow> map_option skip_reason asked)"

section \<open>A declared reply\<close>

definition RuneStart :: "char \<Rightarrow> bool" where
  "RuneStart c \<longleftrightarrow> (let n = (of_char c :: nat) in \<not> (128 \<le> n \<and> n < 192))"

fun clip_at :: "string \<Rightarrow> nat \<Rightarrow> nat" where
  "clip_at s 0 = 0"
| "clip_at s (Suc n) = (if RuneStart (s ! Suc n) then Suc n else clip_at s n)"

definition Clip :: "string \<Rightarrow> nat \<Rightarrow> string" where
  "Clip s n = (if length s \<le> n then s else take (clip_at s n) s @ ellipsis)"

lemma clip_at_le: "clip_at s n \<le> n"
  by (induction n) auto

lemma Clip_bound: "length (Clip s n) \<le> max (length s) (n + 3)" "length s > n \<Longrightarrow> length (Clip s n) \<le> n + 3"
  using clip_at_le [of s n] by (auto simp: Clip_def ellipsis_def)

definition restateReplyMax :: nat where "restateReplyMax = 24000"

definition restatePrompt :: "golib \<Rightarrow> string \<Rightarrow> string \<Rightarrow> decode_err \<Rightarrow> string" where
  "restatePrompt L task reply0 derr =
     (let t = trim_space reply0;
          reply = (if length t > restateReplyMax then Clip t restateReplyMax @ ''(truncated)'' else t)
      in ''A step was given this task:'' @ newline @ newline @ task
         @ newline @ newline
         @ ''Its reply is below. The work in it is done, but the reply is not in the shape the next step needs ('' @ decode_err_text L derr @ '').''
         @ '' Restate it as the JSON object described at the end. Take its content as given: do not redo the task,''
         @ '' add findings it does not contain, or fill a field it left unanswered.''
         @ newline @ newline @ ''The reply:'' @ newline @ newline @ reply)"

definition previewForRepair :: "string \<Rightarrow> string" where
  "previewForRepair s =
     (let t = trim_space s in if length t \<le> 600 then t else Clip t 600 @ ''(truncated)'')"

definition repairPrompt :: "golib \<Rightarrow> string \<Rightarrow> string \<Rightarrow> string \<Rightarrow> decode_err \<Rightarrow> string" where
  "repairPrompt L prompt contract out derr =
     prompt @ contract @ newline @ newline
     @ ''Your previous reply could not be used: '' @ decode_err_text L derr
     @ newline @ ''It was:'' @ newline @ previewForRepair out
     @ newline @ ''Reply again with ONLY the JSON object described above.''"

text \<open>The one repair: a restatement when the caller has one and there is a reply to restate.\<close>

definition repair_call ::
    "golib \<Rightarrow> string \<Rightarrow> string \<Rightarrow> 's caller \<Rightarrow> 's caller option \<Rightarrow> string \<Rightarrow> decode_err
      \<Rightarrow> 's \<Rightarrow> (phase_err + string) \<times> 's" where
  "repair_call L prompt contract call reformat out derr s =
     (case reformat of
        Some again \<Rightarrow>
          if trim_space out \<noteq> [] then again s (restatePrompt L prompt out derr @ contract)
          else call s (repairPrompt L prompt contract out derr)
      | None \<Rightarrow> call s (repairPrompt L prompt contract out derr))"

definition restates :: "'s caller option \<Rightarrow> string \<Rightarrow> bool" where
  "restates reformat out \<longleftrightarrow> reformat \<noteq> None \<and> trim_space out \<noteq> []"

definition runDeclaredOutput ::
    "golib \<Rightarrow> string \<Rightarrow> PipelineField list \<Rightarrow> string \<Rightarrow> 's caller \<Rightarrow> 's caller option \<Rightarrow> ('s \<Rightarrow> string option)
      \<Rightarrow> 's \<Rightarrow> ((phase_err + string \<times> (string \<times> val) list) \<times> mnote list) \<times> 's" where
  "runDeclaredOutput L label decl prompt call reformat ctx_err s =
     (let contract = renderOutputContract decl in
      case call s (prompt @ contract) of
        (Inl e, s1) \<Rightarrow> ((Inl e, []), s1)
      | (Inr out, s1) \<Rightarrow>
          (case decodeStageOutput L out decl of
             Inr flds \<Rightarrow> ((Inr (out, flds), []), s1)
           | Inl derr \<Rightarrow>
               (let ns = [NOutputRepair label derr (restates reformat out)] in
                case ctx_err s1 of
                  Some e \<Rightarrow> ((Inl (CtxErr e), ns), s1)
                | None \<Rightarrow>
                    (case repair_call L prompt contract call reformat out derr s1 of
                       (Inl e, s2) \<Rightarrow> ((Inl e, ns), s2)
                     | (Inr out2, s2) \<Rightarrow>
                         (case decodeStageOutput L out2 decl of
                            Inl derr2 \<Rightarrow> ((Inl (ShapeErr derr2), ns), s2)
                          | Inr flds \<Rightarrow> ((Inr (out2, flds), ns), s2))))))"

lemma runDeclaredOutput_decodes:
  "fst (fst (runDeclaredOutput L label decl prompt call reformat ctx_err s)) = Inr (out, flds) \<Longrightarrow>
     decodeStageOutput L out decl = Inr flds"
  by (auto simp: runDeclaredOutput_def Let_def split: prod.splits sum.splits option.splits)

section \<open>One step\<close>

definition fill_one ::
    "golib \<Rightarrow> PhaseVars \<Rightarrow> MachineState \<Rightarrow> MachinePhase \<Rightarrow> PipelineField
      \<Rightarrow> (string \<times> val) list \<times> mnote list \<Rightarrow> (string \<times> val) list \<times> mnote list" where
  "fill_one L v st ph f acc =
     (case acc of (flds, ns) \<Rightarrow>
      (let val = trim_space (ResolvePhaseTemplate L (f_from f) v st) in
       (AList.update (f_name f) (VStr val) flds,
        if val = [] then ns @ [NStaticEmpty (ph_name ph) (f_name f) (f_from f)] else ns)))"

definition fillStatic ::
    "golib \<Rightarrow> MachineDef \<Rightarrow> MachinePhase \<Rightarrow> (string \<times> val) list \<Rightarrow> PhaseVars \<Rightarrow> MachineState
      \<Rightarrow> (string \<times> val) list \<times> mnote list" where
  "fillStatic L d ph flds v st =
     (if StaticFields ph = [] then (flds, [])
      else fold (fill_one L (step_vars L d ph st v) st ph) (StaticFields ph) (flds, []))"

definition run_step :: "'w host \<Rightarrow> PhaseVars option \<Rightarrow> MachinePhase \<Rightarrow> 'w slotted caller" where
  "run_step H sv ph s p =
     (case s of (w, slot) \<Rightarrow>
        if slot \<noteq> None then (Inl StepSkipped, s)
        else
          (case h_run H w sv ph p of (r, w1) \<Rightarrow>
            (let slot1 = SkipStep slot (rr_skip r) in
             if slot1 \<noteq> None then (Inl StepSkipped, (w1, slot1))
             else (case rr_reply r of Inl e \<Rightarrow> Inl (RunnerErr e) | Inr t \<Rightarrow> Inr t, (w1, slot1)))))"

definition plain_phase :: "MachinePhase \<Rightarrow> MachinePhase" where
  "plain_phase ph = zero_phase\<lparr>ph_name := ph_name ph, ph_model := ph_model ph, ph_think := ''off'',
     ph_reach := ReachNone, ph_output := ph_output ph\<rparr>"

definition restateCall :: "'w host \<Rightarrow> PhaseVars option \<Rightarrow> MachinePhase \<Rightarrow> 'w slotted caller option" where
  "restateCall H sv ph =
     (if PhaseReach ph = ReachNone \<and> \<not> hasRunner ph then None
      else Some (\<lambda>s p. case s of (w, slot) \<Rightarrow>
        (case h_run H w sv (plain_phase ph) p of (r, w1) \<Rightarrow>
          (case rr_reply r of Inl e \<Rightarrow> Inl (RunnerErr e) | Inr t \<Rightarrow> Inr t,
           (w1, SkipStep slot (rr_skip r))))))"

definition runPhase ::
    "golib \<Rightarrow> 'w host \<Rightarrow> MachineDef \<Rightarrow> MachinePhase \<Rightarrow> PhaseVars \<Rightarrow> MachineState \<Rightarrow> 'w slotted
      \<Rightarrow> ((phase_err + string \<times> (string \<times> val) list) \<times> mnote list) \<times> 'w slotted" where
  "runPhase L H d ph v st s =
     (let prompt = phasePrompt L d ph st v;
          sv = Some (v\<lparr>pv_step := ph_name ph, pv_machine := chooseStr (pv_machine v) (md_name d)\<rparr>);
          out = ModelOutput ph
      in
        if out = [] \<and> trim_space (ph_prompt ph) = [] \<and> StaticFields ph \<noteq> [] then
          (case fillStatic L d ph [] v st of (flds, ns) \<Rightarrow> ((Inr ([], flds), ns), s))
        else if out = [] then
          (case run_step H sv ph s prompt of
             (Inl e, s1) \<Rightarrow> ((Inl e, []), s1)
           | (Inr text, s1) \<Rightarrow>
               (case fillStatic L d ph [] v st of (flds, ns) \<Rightarrow> ((Inr (text, flds), ns), s1)))
        else
          (case runDeclaredOutput L (''phase '' @ ph_name ph) out prompt (run_step H sv ph) (restateCall H sv ph)
                  (\<lambda>s. h_ctx_err H (fst s)) s of
             ((Inl e, ns), s1) \<Rightarrow> ((Inl e, ns), s1)
           | ((Inr (text, flds), ns), s1) \<Rightarrow>
               (case fillStatic L d ph flds v st of (flds2, ns2) \<Rightarrow> ((Inr (text, flds2), ns @ ns2), s1))))"

section \<open>The walk\<close>

datatype walkStop = stopResident | stopTerminal | stopBudget

record 'w walked =
  wk_result :: "machine_err + (MachinePhase \<times> walkStop)"
  wk_notes :: "mnote list"
  wk_world :: 'w
  wk_cursor :: MachineCursor

datatype 'w walk_next =
    WDone "'w walked"
  | WGo MachinePhase string "mnote list" 'w MachineCursor

definition firstResident :: "MachineDef \<Rightarrow> MachinePhase option" where
  "firstResident d = find ph_resident (md_phases d)"

definition hopCap :: "MachineDef \<Rightarrow> nat" where
  "hopCap d = (if md_unattended d then MaxUnattendedTransitions else MaxPhaseTransitions)"

definition turn_vars :: "MachineTurn \<Rightarrow> string \<Rightarrow> string \<Rightarrow> string \<Rightarrow> PhaseVars" where
  "turn_vars turn opening prev machine =
     \<lparr>mt_input = mt_input turn, mt_user = mt_user turn, mt_agent = mt_agent turn, mt_now = mt_now turn,
      mt_tools = mt_tools turn, pv_opening = opening, pv_prev = prev, pv_established = [], pv_step = [],
      pv_machine = machine\<rparr>"

text \<open>A step's result goes on the blackboard under its name.\<close>

definition record_result :: "MachineCursor \<Rightarrow> string \<Rightarrow> PhaseResult \<Rightarrow> MachineCursor" where
  "record_result cur name res = cur\<lparr>cur_state := AList.update name res (cur_state cur)\<rparr>"

text \<open>The end of one iteration: stop, or move on to the step named.\<close>

definition hand_on ::
    "'w host \<Rightarrow> MachineDef \<Rightarrow> MachinePhase \<Rightarrow> string \<Rightarrow> hop_why \<Rightarrow> mnote list \<Rightarrow> string \<Rightarrow> 'w
      \<Rightarrow> MachineCursor \<Rightarrow> 'w walk_next" where
  "hand_on H d ph nxt why ns prev w cur =
     (if md_unattended d \<and> trim_space nxt = [] then
        WDone \<lparr>wk_result = Inr (ph, stopTerminal), wk_notes = ns, wk_world = w, wk_cursor = cur\<rparr>
      else
        (case (case Phase d nxt of
                 Some nph \<Rightarrow> Some (nph, [])
               | None \<Rightarrow> map_option (\<lambda>nph. (nph, [NDeadEnd (ph_name ph) (ph_name nph)])) (firstResident d)) of
           None \<Rightarrow> WDone \<lparr>wk_result = Inl (HandedOffNowhere (md_name d) (ph_name ph)), wk_notes = ns,
                        wk_world = w, wk_cursor = cur\<rparr>
         | Some (nph, ns1) \<Rightarrow>
             (case moveTo (h_now H w) cur (ph_name ph) nph why (accumulatorNames d) of
                (cur1, ns2) \<Rightarrow> WGo nph prev (ns @ ns1 @ ns2) w cur1)))"

definition walk_iter ::
    "golib \<Rightarrow> 'w host \<Rightarrow> MachineDef \<Rightarrow> MachineTurn \<Rightarrow> MachinePhase \<Rightarrow> string \<Rightarrow> 'w \<Rightarrow> MachineCursor
      \<Rightarrow> 'w walk_next" where
  "walk_iter L H d turn ph prev w cur =
     (case runPhase L H d ph (turn_vars turn (cur_opening cur) prev (md_name d)) (cur_state cur) (w, None) of
        ((r, ns), (w1, slot)) \<Rightarrow>
        (case slot of
           Some reason \<Rightarrow>
             (let nxt = trim_space (ph_next ph) in
              hand_on H d ph nxt (WhyNotApplicable (ph_name ph))
                (ns @ [NStepSkipped (ph_name ph) reason (chooseStr nxt ''the end of the run'')]) prev w1
                (record_result cur (ph_name ph)
                  \<lparr>pr_text = prev, pr_fields = [], pr_skipped = True, pr_skip_reason = reason\<rparr>))
         | None \<Rightarrow>
             (case r of
                Inl e \<Rightarrow> WDone \<lparr>wk_result = Inl (PhaseFailed (md_name d) (ph_name ph) e), wk_notes = ns,
                           wk_world = w1, wk_cursor = cur\<rparr>
              | Inr (text, flds) \<Rightarrow>
                  (let cur1 = record_result cur (ph_name ph)
                         \<lparr>pr_text = text, pr_fields = flds, pr_skipped = False, pr_skip_reason = []\<rparr>;
                       (st2, na) = accumulate L ph flds (cur_state cur1);
                       (nxt, why) = NextPhase d ph flds
                   in hand_on H d ph nxt
                        (case why of Some n \<Rightarrow> WhyRouteNote n | None \<Rightarrow> WhyRoutedBy (ph_name ph))
                        (ns @ na @ (case why of Some n \<Rightarrow> [NRouteFallback n] | None \<Rightarrow> []))
                        text w1 (cur1\<lparr>cur_state := st2\<rparr>)))))"

definition add_notes :: "mnote list \<Rightarrow> 'w walked \<Rightarrow> 'w walked" where
  "add_notes ns wk = wk\<lparr>wk_notes := ns @ wk_notes wk\<rparr>"

definition cap_note :: "MachineDef \<Rightarrow> MachinePhase \<Rightarrow> mnote" where
  "cap_note d ph =
     (if md_unattended d then NRunCap (md_name d) (hopCap d) (ph_name ph)
      else NTransitionCap (md_name d) (hopCap d) (ph_name ph))"

primrec walk_loop ::
    "nat \<Rightarrow> golib \<Rightarrow> 'w host \<Rightarrow> MachineDef \<Rightarrow> MachineTurn \<Rightarrow> MachinePhase \<Rightarrow> string \<Rightarrow> 'w \<Rightarrow> MachineCursor
      \<Rightarrow> 'w walked" where
  "walk_loop 0 L H d turn ph prev w cur =
     (if ph_resident ph
      then \<lparr>wk_result = Inr (ph, stopResident), wk_notes = [], wk_world = w, wk_cursor = cur\<rparr>
      else \<lparr>wk_result = Inr (ph, stopBudget), wk_notes = [cap_note d ph], wk_world = w, wk_cursor = cur\<rparr>)"
| "walk_loop (Suc left) L H d turn ph prev w cur =
     (if ph_resident ph
      then \<lparr>wk_result = Inr (ph, stopResident), wk_notes = [], wk_world = w, wk_cursor = cur\<rparr>
      else
        (case walk_iter L H d turn ph prev w cur of
           WDone r \<Rightarrow> r
         | WGo nph prev1 ns w1 cur1 \<Rightarrow> add_notes ns (walk_loop left L H d turn nph prev1 w1 cur1)))"

definition set_opening :: "MachineTurn \<Rightarrow> MachineCursor \<Rightarrow> MachineCursor" where
  "set_opening turn cur =
     (if trim_space (cur_opening cur) = [] then cur\<lparr>cur_opening := mt_input turn\<rparr> else cur)"

definition walk ::
    "golib \<Rightarrow> 'w host \<Rightarrow> MachineDef \<Rightarrow> MachineTurn \<Rightarrow> MachinePhase \<Rightarrow> 'w \<Rightarrow> MachineCursor \<Rightarrow> 'w walked" where
  "walk L H d turn ph w cur = walk_loop (hopCap d) L H d turn ph [] w (set_opening turn cur)"

section \<open>The guard\<close>

definition guardOutput :: "PipelineField list" where
  "guardOutput =
    [PipelineField ''stay'' FieldBool
       ''true if the new message still belongs to the current phase's job; false if the conversation has moved on and needs a different phase''
       [] True [] [],
     PipelineField ''to'' FieldString
       ''when stay is false, the name of the phase to move to, chosen from the list above'' [] False [] [],
     PipelineField ''why'' FieldString
       ''one short sentence explaining the call, in plain language'' [] False [] []]"

definition guard_probe :: "MachinePhase \<Rightarrow> MachinePhase" where
  "guard_probe ph = zero_phase\<lparr>ph_name := ''guard:'' @ ph_name ph, ph_model := ''worker'',
     ph_think := ''off'', ph_reach := ReachNone, ph_output := guardOutput\<rparr>"

definition guardTarget ::
    "MachineDef \<Rightarrow> MachinePhase \<Rightarrow> (string \<times> val) list \<Rightarrow> MachinePhase option \<times> mnote list" where
  "guardTarget d ph flds =
     (let named = as_string (field_value flds ''to'');
          refused = trim_space named \<noteq> [] \<and> \<not> MayExitTo ph (trim_space named);
          wanted = (if refused then [] else named);
          found = map (Phase d) (filter (\<lambda>n. trim_space n \<noteq> []) [wanted, ph_guard_to ph, StartPhase d])
      in (case find (\<lambda>r. r \<noteq> None) found of Some r \<Rightarrow> r | None \<Rightarrow> None,
          if refused then [NGuardExitRefused (ph_name ph) (trim_space named)] else []))"

definition is_true :: "val \<Rightarrow> bool" where
  "is_true v = (case v of VBool b \<Rightarrow> b | _ \<Rightarrow> False)"

definition guard_call :: "'w host \<Rightarrow> MachinePhase \<Rightarrow> 'w caller" where
  "guard_call H ph w p =
     (case h_run H w None (guard_probe ph) p of (r, w1) \<Rightarrow>
        (case rr_reply r of Inl e \<Rightarrow> Inl (RunnerErr e) | Inr t \<Rightarrow> Inr t, w1))"

text \<open>What a verdict comes to: the step to move to, if any, and what is reported.\<close>

definition guard_verdict ::
    "golib \<Rightarrow> MachineDef \<Rightarrow> MachinePhase \<Rightarrow> string \<Rightarrow> (string \<times> val) list
      \<Rightarrow> (MachinePhase \<times> string) option \<times> mnote list" where
  "guard_verdict L d ph raw flds =
     (if is_true (field_value flds ''stay'') then (None, [])
      else
        let said = trim_space (readableFieldValue L (field_value flds ''why''));
            why = (if said = [] then ''the guard judged this turn to be outside the phase'' @ [CHR 0x27] @ ''s job'' else said)
        in case guardTarget d ph flds of
             (None, ns) \<Rightarrow> (None, ns @ [NGuardUnresolved (ph_name ph) why (previewForRepair raw)])
           | (Some target, ns) \<Rightarrow>
               if ph_name target = ph_name ph then (None, ns @ [NGuardUnresolved (ph_name ph) why []])
               else (Some (target, why), ns @ [NGuardTripped (ph_name ph) (ph_name target) why]))"

definition checkGuard ::
    "golib \<Rightarrow> 'w host \<Rightarrow> MachineDef \<Rightarrow> MachinePhase \<Rightarrow> 'w \<Rightarrow> MachineCursor \<Rightarrow> string
      \<Rightarrow> MachinePhase \<times> bool \<times> mnote list \<times> 'w \<times> MachineCursor" where
  "checkGuard L H d ph w cur inp =
     (if trim_space (ph_guard ph) = [] \<or> trim_space inp = [] then (ph, False, [], w, cur)
      else
        (case runDeclaredOutput L (''guard on phase '' @ ph_name ph) guardOutput (guardPrompt L d ph (cur_state cur) inp) (guard_call H ph) None
                (h_ctx_err H) w of
           ((Inl e, _), w1) \<Rightarrow> (ph, False, [NGuardFailed (ph_name ph)], w1, cur)
         | ((Inr (raw, flds), _), w1) \<Rightarrow>
             (case guard_verdict L d ph raw flds of
                (None, ns) \<Rightarrow> (ph, False, ns, w1, cur)
              | (Some (target, why), ns) \<Rightarrow>
                  (case moveTo (h_now H w1) cur (ph_name ph) target (WhyGuard why) (accumulatorNames d) of
                     (cur1, ns2) \<Rightarrow> (target, True, ns @ ns2, w1, cur1)))))"

section \<open>The entries\<close>

record 'w turned =
  tn_result :: "machine_err + MachinePhase"
  tn_notes :: "mnote list"
  tn_world :: 'w
  tn_cursor :: MachineCursor

definition of_walk :: "mnote list \<Rightarrow> 'w walked \<Rightarrow> 'w turned" where
  "of_walk ns wk =
     \<lparr>tn_result = (case wk_result wk of Inl e \<Rightarrow> Inl e | Inr (ph, _) \<Rightarrow> Inr ph),
      tn_notes = ns @ wk_notes wk, tn_world = wk_world wk, tn_cursor = wk_cursor wk\<rparr>"

definition AdvanceMachine ::
    "golib \<Rightarrow> 'w host \<Rightarrow> MachineDef \<Rightarrow> MachineTurn \<Rightarrow> 'w \<Rightarrow> MachineCursor \<Rightarrow> 'w turned" where
  "AdvanceMachine L H d turn w cur =
     (case resume d cur of
        Inl e \<Rightarrow> \<lparr>tn_result = Inl e, tn_notes = [], tn_world = w, tn_cursor = cur\<rparr>
      | Inr (ph, resumed, cur1, ns) \<Rightarrow>
          if resumed \<and> md_route_each_message d \<and> \<not> md_unattended d then
            (case restartForMessage (h_now H w) d cur1 of
               (start, cur2) \<Rightarrow> of_walk ns (walk L H d turn start w cur2))
          else if resumed \<and> ph_resident ph then
            (case checkGuard L H d ph w cur1 (mt_input turn) of
               (ph1, _, ns1, w1, cur2) \<Rightarrow> of_walk (ns @ ns1) (walk L H d turn ph1 w1 cur2))
          else of_walk ns (walk L H d turn ph w cur1))"

definition text_at :: "MachineCursor \<Rightarrow> string \<Rightarrow> string" where
  "text_at cur name = (case map_of (cur_state cur) name of Some res \<Rightarrow> pr_text res | None \<Rightarrow> [])"

record 'w ran =
  rn_result :: "machine_err + unit"
  rn_final :: MachinePhase
  rn_text :: string
  rn_notes :: "mnote list"
  rn_world :: 'w
  rn_cursor :: MachineCursor

definition stop_result :: "MachineDef \<Rightarrow> MachineCursor \<Rightarrow> MachinePhase \<Rightarrow> walkStop \<Rightarrow> machine_err + unit" where
  "stop_result d cur final stop =
     (case stop of
        stopTerminal \<Rightarrow>
          (case map_of (cur_state cur) (ph_name final) of
             Some res \<Rightarrow>
               if pr_skipped res then
                 Inl (SkippedAtEnd (md_name d) (ph_name final)
                   (chooseStr (trim_space (pr_skip_reason res)) ''no reason given''))
               else Inr ()
           | None \<Rightarrow> Inr ())
      | stopResident \<Rightarrow> Inl (WaitsForPerson (md_name d) (ph_name final))
      | stopBudget \<Rightarrow> Inl (NotFinished (md_name d) MaxUnattendedTransitions (ph_name final)))"

definition RunUnattended ::
    "golib \<Rightarrow> 'w host \<Rightarrow> MachineDef \<Rightarrow> MachineTurn \<Rightarrow> 'w \<Rightarrow> MachineCursor \<Rightarrow> 'w ran" where
  "RunUnattended L H d turn w cur =
     (let fail = (\<lambda>e ns w cur. \<lparr>rn_result = Inl e, rn_final = zero_phase, rn_text = [], rn_notes = ns,
                    rn_world = w, rn_cursor = cur\<rparr>) in
      if \<not> md_unattended d then fail (NotUnattended (md_name d)) [] w cur
      else
        (case resume d cur of
           Inl e \<Rightarrow> fail e [] w cur
         | Inr (ph, _, cur1, ns) \<Rightarrow>
             (let wk = walk L H d turn ph w cur1 in
              case wk_result wk of
                Inl e \<Rightarrow> fail e (ns @ wk_notes wk) (wk_world wk) (wk_cursor wk)
              | Inr (final, stop) \<Rightarrow>
                  \<lparr>rn_result = stop_result d (wk_cursor wk) final stop, rn_final = final,
                   rn_text = text_at (wk_cursor wk) (ph_name final), rn_notes = ns @ wk_notes wk,
                   rn_world = wk_world wk, rn_cursor = wk_cursor wk\<rparr>)))"

definition exitNames :: "MachineDef \<Rightarrow> MachinePhase \<Rightarrow> string list" where
  "exitNames d p =
     (let out = map ph_name (ExitOptions d p) in
      if out = [] then [''nowhere: this step is where the conversation stays''] else out)"

definition change_to ::
    "golib \<Rightarrow> 'w host \<Rightarrow> MachineDef \<Rightarrow> MachineTurn \<Rightarrow> MachinePhase \<Rightarrow> 'w \<Rightarrow> MachineCursor \<Rightarrow> 'w turned" where
  "change_to L H d turn target w cur =
     (if cur_phase cur = ph_name target then
        \<lparr>tn_result = Inr target, tn_notes = [], tn_world = w, tn_cursor = cur\<rparr>
      else
        (case moveTo (h_now H w) cur (cur_phase cur) target
                (WhyText (chooseStr (trim_space (mt_input turn)) ''changed mid-turn'')) (accumulatorNames d) of
           (cur1, ns) \<Rightarrow>
             of_walk (ns @ [NPhaseChanged (cur_phase cur) (ph_name target)]) (walk L H d turn target w cur1)))"

definition ChangePhase ::
    "golib \<Rightarrow> 'w host \<Rightarrow> MachineDef \<Rightarrow> MachineTurn \<Rightarrow> string \<Rightarrow> 'w \<Rightarrow> MachineCursor \<Rightarrow> 'w turned" where
  "ChangePhase L H d turn to w cur =
     (case Phase d to of
        None \<Rightarrow> \<lparr>tn_result = Inl (NoPhaseNamed (md_name d) (trim_space to)), tn_notes = [], tn_world = w,
                  tn_cursor = cur\<rparr>
      | Some target \<Rightarrow>
          (case Phase d (cur_phase cur) of
             Some here \<Rightarrow>
               if \<not> MayExitTo here (ph_name target) then
                 \<lparr>tn_result = Inl (ExitNotAllowed (cur_phase cur) (ph_name target) (exitNames d here)),
                  tn_notes = [NExitRefused (cur_phase cur) (ph_name target) (exitNames d here)],
                  tn_world = w, tn_cursor = cur\<rparr>
               else change_to L H d turn target w cur
           | None \<Rightarrow> change_to L H d turn target w cur))"

end
