(* ===== verification/MachineTurns.thy ===== *)
theory MachineTurns
  imports MachineWalk MachineChecks
begin

text \<open>
  What a turn guarantees, whatever the host's runner answers: the walk's entries keep every invariant
  the cursor's own operations keep (the locale \<open>blackboard\<close>, interpreted on the cursor's
  well-formedness and on the survival of accumulator lists), each reason to stop means what the source
  says it means, a turn's model calls are bounded, the guard fails open, a mid-turn change respects the
  declared exits, and a machine with no problems fails only where its runner fails.
\<close>

section \<open>Invariants of the cursor\<close>

text \<open>A host that counts its calls and always answers, for the concrete instances below.\<close>

definition counting_host :: "nat host" where
  "counting_host = \<lparr>h_run = \<lambda>n sv ph p. (\<lparr>rr_skip = None, rr_reply = Inr ''ok''\<rparr>, n + 1),
     h_ctx_err = \<lambda>_. None, h_now = \<lambda>_. 0\<rparr>"

primrec next_cursor :: "'w walk_next \<Rightarrow> MachineCursor" where
  "next_cursor (WDone r) = wk_cursor r"
| "next_cursor (WGo nph prev ns w cur) = cur"

primrec next_world :: "'w walk_next \<Rightarrow> 'w" where
  "next_world (WDone r) = wk_world r"
| "next_world (WGo nph prev ns w cur) = w"

lemma add_notes_frame [simp, frame_simps]:
  "wk_cursor (add_notes ns wk) = wk_cursor wk" "wk_world (add_notes ns wk) = wk_world wk"
  "wk_result (add_notes ns wk) = wk_result wk" "wk_notes (add_notes ns wk) = ns @ wk_notes wk"
  by (simp_all add: add_notes_def)

lemma of_walk_frame [simp, frame_simps]:
  "tn_cursor (of_walk ns wk) = wk_cursor wk" "tn_world (of_walk ns wk) = wk_world wk"
  "tn_notes (of_walk ns wk) = ns @ wk_notes wk"
  by (simp_all add: of_walk_def)

locale cursor_moves =
  fixes d :: MachineDef and inv :: "MachineCursor \<Rightarrow> bool"
  assumes inv_move: "inv cur \<Longrightarrow> inv (fst (moveTo now cur from to why (accumulatorNames d)))"
    and inv_record: "inv cur \<Longrightarrow> inv (record_result cur n r)"
    and inv_accumulate: "inv cur \<Longrightarrow> inv (cur\<lparr>cur_state := fst (accumulate L ph flds (cur_state cur))\<rparr>)"
    and inv_phase: "inv cur \<Longrightarrow> inv (cur\<lparr>cur_phase := n\<rparr>)"
    and inv_restart: "inv cur \<Longrightarrow>
      inv (cur\<lparr>cur_state := filter (\<lambda>e. fst e \<in> set (accumulatorNames d)) (cur_state cur)\<rparr>)"
begin

lemma inv_moveTo: "moveTo now cur from to why (accumulatorNames d) = (cur1, ns) \<Longrightarrow> inv cur \<Longrightarrow> inv cur1"
  by (metis fst_conv inv_move)

lemma inv_hand_on: "inv cur \<Longrightarrow> inv (next_cursor (hand_on H d ph nxt why ns prev w cur))"
  by (auto simp: hand_on_def dest: inv_moveTo split: option.splits prod.splits)

lemma inv_accumulate': "accumulate L ph flds (cur_state cur) = (st, ns) \<Longrightarrow> inv cur \<Longrightarrow> inv (cur\<lparr>cur_state := st\<rparr>)"
  by (metis fst_conv inv_accumulate)

lemma inv_walk_iter: "inv cur \<Longrightarrow> inv (next_cursor (walk_iter L H d turn ph prev w cur))"
  by (auto simp: walk_iter_def Let_def intro!: inv_hand_on inv_record intro: inv_accumulate'
      split: prod.splits option.splits sum.splits)

lemma inv_walk_loop: "inv cur \<Longrightarrow> inv (wk_cursor (walk_loop left L H d turn ph prev w cur))"
proof (induction left arbitrary: ph prev w cur)
  case (Suc left)
  note iter = inv_walk_iter [OF Suc.prems, of L H turn ph prev w]
  show ?case
  proof (cases "walk_iter L H d turn ph prev w cur")
    case (WDone r)
    with iter Suc.prems show ?thesis by simp
  next
    case (WGo nph prev1 ns w1 cur1)
    with iter Suc.prems show ?thesis by (simp add: Suc.IH)
  qed
qed simp

lemma inv_resume: "resume d cur = Inr (ph, r, cur1, ns) \<Longrightarrow> inv cur \<Longrightarrow> inv cur1"
  by (auto simp: resume_def intro: inv_phase split: option.splits)

lemma inv_restartForMessage: "restartForMessage now d cur = (ph, cur1) \<Longrightarrow> inv cur \<Longrightarrow> inv cur1"
  by (auto simp: restartForMessage_def Let_def intro: inv_move inv_restart)

lemma inv_checkGuard: "checkGuard L H d ph w cur inp = (ph1, b, ns, w1, cur1) \<Longrightarrow> inv cur \<Longrightarrow> inv cur1"
  by (auto simp: checkGuard_def Let_def dest: inv_moveTo split: if_splits prod.splits sum.splits option.splits)

lemma inv_CompleteTurn: "inv cur \<Longrightarrow> inv (fst (CompleteTurn now d cur ph))"
  by (auto simp: CompleteTurn_def Let_def intro: inv_moveTo split: option.splits prod.splits)

lemma inv_MoveCursor: "MoveCursor now d (Some cur) to why = Inr (ph, cur1, ns) \<Longrightarrow> inv cur \<Longrightarrow> inv cur1"
  by (auto simp: MoveCursor_def Let_def dest: inv_moveTo split: option.splits prod.splits)

end

text \<open>With the opening message free to be recorded, the whole turn keeps the invariant.\<close>

locale blackboard = cursor_moves +
  assumes inv_opening: "inv cur \<Longrightarrow> inv (cur\<lparr>cur_opening := t\<rparr>)"
begin

lemma inv_walk: "inv cur \<Longrightarrow> inv (wk_cursor (walk L H d turn ph w cur))"
  by (simp add: walk_def set_opening_def inv_walk_loop inv_opening)

lemma inv_AdvanceMachine: "inv cur \<Longrightarrow> inv (tn_cursor (AdvanceMachine L H d turn w cur))"
proof (cases "resume d cur")
  case (Inr r)
  assume inv: "inv cur"
  obtain ph resumed cur1 ns where r: "r = (ph, resumed, cur1, ns)" by (cases r) auto
  have i1: "inv cur1" using inv_resume [OF Inr [unfolded r] inv] .
  obtain start cur2 where rs: "restartForMessage (h_now H w) d cur1 = (start, cur2)" by fastforce
  obtain ph1 b ns1 w1 cur3 where cg: "checkGuard L H d ph w cur1 (mt_input turn) = (ph1, b, ns1, w1, cur3)"
    by (metis prod_cases5)
  show ?thesis
    using Inr r i1 rs cg inv_restartForMessage [OF rs i1] inv_checkGuard [OF cg i1]
    by (simp add: AdvanceMachine_def inv_walk)
qed (simp add: AdvanceMachine_def)

lemma inv_RunUnattended: "inv cur \<Longrightarrow> inv (rn_cursor (RunUnattended L H d turn w cur))"
  by (auto simp: RunUnattended_def Let_def intro: inv_walk inv_resume split: sum.splits prod.splits)

lemma inv_ChangePhase: "inv cur \<Longrightarrow> inv (tn_cursor (ChangePhase L H d turn to w cur))"
  by (auto simp: ChangePhase_def change_to_def intro: inv_walk inv_moveTo split: option.splits prod.splits)

end

text \<open>The cursor's own well-formedness.\<close>

interpretation wf: blackboard d wf_cursor for d
proof
  fix cur :: MachineCursor and now "from" "to" why
  assume "wf_cursor cur"
  then show "wf_cursor (fst (moveTo now cur from to why (accumulatorNames d)))" by (rule moveTo_wf)
qed (auto simp: wf_cursor_def record_result_def distinct_update accumulate_def accumulate_list_distinct
    distinct_keys_filter)

text \<open>A list the machine accumulates, once on the blackboard.\<close>

definition holds :: "string \<Rightarrow> MachineCursor \<Rightarrow> bool" where
  "holds k cur \<longleftrightarrow> map_of (cur_state cur) k \<noteq> None"

lemma holds_keys: "holds k cur \<longleftrightarrow> k \<in> set (keys (cur_state cur))"
  unfolding holds_def by (rule map_of_neq_None)

lemma accumulators_survive:
  assumes "k \<in> set (accumulatorNames d)"
  shows "cursor_moves d (holds k)"
proof
  fix cur :: MachineCursor and now "from" "to" why
  assume "holds k cur"
  then show "holds k (fst (moveTo now cur from to why (accumulatorNames d)))"
    using assms by (simp add: holds_def moveTo_lookup)
next
  fix cur L ph flds
  assume "holds k cur"
  then show "holds k (cur\<lparr>cur_state := fst (accumulate L ph flds (cur_state cur))\<rparr>)"
    using accumulate_list_keys [of "cur_state cur" L ph flds "ph_accumulates ph"]
    by (auto simp: holds_keys accumulate_def)
next
  fix cur
  assume "holds k cur"
  then show "holds k (cur\<lparr>cur_state := filter (\<lambda>e. fst e \<in> set (accumulatorNames d)) (cur_state cur)\<rparr>)"
    using assms map_of_filter_keys [of "\<lambda>k. k \<in> set (accumulatorNames d)" "cur_state cur" k]
    by (simp add: holds_def)
qed (auto simp: holds_def record_result_def map_of_update_eq)

interpretation lists: blackboard d "\<lambda>cur. \<forall>k \<in> set (accumulatorNames d) \<inter> K. holds k cur" for d K
proof
  fix cur :: MachineCursor and now "from" "to" why
  assume "\<forall>k \<in> set (accumulatorNames d) \<inter> K. holds k cur"
  then show "\<forall>k \<in> set (accumulatorNames d) \<inter> K. holds k (fst (moveTo now cur from to why (accumulatorNames d)))"
    using cursor_moves.inv_move [OF accumulators_survive] by blast
next
  fix cur n r
  assume "\<forall>k \<in> set (accumulatorNames d) \<inter> K. holds k cur"
  then show "\<forall>k \<in> set (accumulatorNames d) \<inter> K. holds k (record_result cur n r)"
    using cursor_moves.inv_record [OF accumulators_survive] by blast
next
  fix cur L ph flds
  assume "\<forall>k \<in> set (accumulatorNames d) \<inter> K. holds k cur"
  then show "\<forall>k \<in> set (accumulatorNames d) \<inter> K.
      holds k (cur\<lparr>cur_state := fst (accumulate L ph flds (cur_state cur))\<rparr>)"
    using cursor_moves.inv_accumulate [OF accumulators_survive] by blast
next
  fix cur n
  assume "\<forall>k \<in> set (accumulatorNames d) \<inter> K. holds k cur"
  then show "\<forall>k \<in> set (accumulatorNames d) \<inter> K. holds k (cur\<lparr>cur_phase := n\<rparr>)"
    by (simp add: holds_def)
next
  fix cur t
  assume "\<forall>k \<in> set (accumulatorNames d) \<inter> K. holds k cur"
  then show "\<forall>k \<in> set (accumulatorNames d) \<inter> K. holds k (cur\<lparr>cur_opening := t\<rparr>)"
    by (simp add: holds_def)
next
  fix cur
  assume "\<forall>k \<in> set (accumulatorNames d) \<inter> K. holds k cur"
  then show "\<forall>k \<in> set (accumulatorNames d) \<inter> K.
      holds k (cur\<lparr>cur_state := filter (\<lambda>e. fst e \<in> set (accumulatorNames d)) (cur_state cur)\<rparr>)"
    using cursor_moves.inv_restart [OF accumulators_survive] by blast
qed

text \<open>Every entry that moves a session keeps its cursor well formed: one blackboard entry per name, and a
  trail of at most fifty hops.\<close>

theorem turns_keep_the_cursor_well_formed:
  assumes "wf_cursor cur"
  shows "wf_cursor (tn_cursor (AdvanceMachine L H d turn w cur))
    \<and> wf_cursor (tn_cursor (ChangePhase L H d turn to w cur))
    \<and> wf_cursor (rn_cursor (RunUnattended L H d turn w cur))
    \<and> wf_cursor (fst (CompleteTurn now d cur ph))"
  using assms
  by (simp add: wf.inv_AdvanceMachine wf.inv_ChangePhase wf.inv_RunUnattended wf.inv_CompleteTurn)

theorem turns_keep_the_cursor_well_formed_witness:
  "wf_cursor (tn_cursor (AdvanceMachine sample_lib counting_host StarterMachine zero_turn 0 zero_cursor))"
proof -
  have "wf_cursor zero_cursor" by (simp add: wf_cursor_def zero_cursor_def maxPhaseLog_def)
  then show ?thesis by (rule turns_keep_the_cursor_well_formed [THEN conjunct1])
qed

text \<open>C15: A list the machine accumulates is never lost: once it is on the blackboard no turn, mid-turn change,
  unattended run or completed turn drops it, a routing restart included.\<close>

theorem accumulator_lists_are_never_dropped:
  assumes "k \<in> set (accumulatorNames d)" and "map_of (cur_state cur) k \<noteq> None"
  shows "map_of (cur_state (tn_cursor (AdvanceMachine L H d turn w cur))) k \<noteq> None
    \<and> map_of (cur_state (tn_cursor (ChangePhase L H d turn to w cur))) k \<noteq> None
    \<and> map_of (cur_state (rn_cursor (RunUnattended L H d turn w cur))) k \<noteq> None
    \<and> map_of (cur_state (fst (CompleteTurn now d cur ph))) k \<noteq> None"
proof -
  have "\<forall>j \<in> set (accumulatorNames d) \<inter> {k}. holds j cur" using assms by (simp add: holds_def)
  then have "holds k (tn_cursor (AdvanceMachine L H d turn w cur))"
    "holds k (tn_cursor (ChangePhase L H d turn to w cur))"
    "holds k (rn_cursor (RunUnattended L H d turn w cur))" "holds k (fst (CompleteTurn now d cur ph))"
    using assms(1) lists.inv_AdvanceMachine [of d "{k}"] lists.inv_ChangePhase [of d "{k}"]
      lists.inv_RunUnattended [of d "{k}"] lists.inv_CompleteTurn [of d "{k}"] by simp_all
  then show ?thesis by (simp only: holds_def simp_thms)
qed

theorem accumulator_lists_are_never_dropped_witness:
  "map_of (cur_state (tn_cursor (AdvanceMachine sample_lib counting_host list_start_machine zero_turn 0
     (zero_cursor\<lparr>cur_phase := ''talk'', cur_state := [(''answers'', accumulator_entry sample_lib [VInt 1])]\<rparr>))))
   ''answers'' \<noteq> None"
proof -
  have "''answers'' \<in> set (accumulatorNames list_start_machine)" by code_simp
  then show ?thesis by (rule accumulator_lists_are_never_dropped [THEN conjunct1]) simp
qed

text \<open>The opening message, once there is one.\<close>

interpretation opened: cursor_moves d "\<lambda>cur. cur_opening cur = first" for d first
proof
  fix cur :: MachineCursor and now "from" "to" why
  assume "cur_opening cur = first"
  then show "cur_opening (fst (moveTo now cur from to why (accumulatorNames d))) = first" by simp
qed (simp_all add: record_result_def)

text \<open>The message that opened the conversation is recorded on the first walk and never changes: a later
  turn's walk leaves it as it is, and the first one records that turn's input.\<close>

theorem the_opening_message_is_written_once:
  "cur_opening (wk_cursor (walk L H d turn ph w cur))
     = (if trim_space (cur_opening cur) = [] then mt_input turn else cur_opening cur)"
  unfolding walk_def by (rule opened.inv_walk_loop) (simp add: set_opening_def)

section \<open>A turn's model calls are bounded\<close>

locale counted =
  fixes H :: "'w host" and cost :: "'w \<Rightarrow> nat"
  assumes one_call: "cost (snd (h_run H w sv ph p)) \<le> cost w + 1"
begin

lemma counted_run: "h_run H w sv ph p = (r, w1) \<Longrightarrow> cost w1 \<le> Suc (cost w)"
  using one_call [of w sv ph p] by simp

lemma run_step_cost: "cost (fst (snd (run_step H sv ph s p))) \<le> cost (fst s) + 1"
  by (auto simp: run_step_def Let_def dest: counted_run split: prod.splits)

lemma restateCall_cost:
  "restateCall H sv ph = Some again \<Longrightarrow> cost (fst (snd (again s p))) \<le> cost (fst s) + 1"
  by (auto simp: restateCall_def dest: counted_run split: prod.splits if_splits)

lemma guard_call_cost: "cost (snd (guard_call H ph w p)) \<le> cost w + 1"
  by (auto simp: guard_call_def dest: counted_run split: prod.splits)

end

lemma declared_cost:
  fixes c :: "'s \<Rightarrow> nat"
  assumes call: "\<And>s p. c (snd (call s p)) \<le> c s + 1"
    and again: "\<And>f s p. reformat = Some f \<Longrightarrow> c (snd (f s p)) \<le> c s + 1"
  shows "c (snd (runDeclaredOutput L label decl prompt call reformat ctx_err s)) \<le> c s + 2"
proof -
  have repair: "c (snd (repair_call L prompt contract call reformat out derr t)) \<le> c t + 1"
    for contract out derr t
    using call again by (auto simp: repair_call_def split: option.splits)
  obtain r1 s1 where c1: "call s (prompt @ renderOutputContract decl) = (r1, s1)"
    by (cases "call s (prompt @ renderOutputContract decl)") auto
  have le1: "c s1 \<le> c s + 1" using call [of s "prompt @ renderOutputContract decl"] c1 by simp
  have "c (snd (runDeclaredOutput L label decl prompt call reformat ctx_err s)) \<le> c s1 + 1"
  proof (cases r1)
    case (Inl e)
    then show ?thesis by (simp add: runDeclaredOutput_def c1)
  next
    case (Inr out)
    have "c t \<le> c s1 + 1" if "repair_call L prompt (renderOutputContract decl) call reformat out derr s1 = (r2, t)"
      for derr r2 t using repair [of "renderOutputContract decl" out derr s1] that by simp
    then show ?thesis using Inr
      by (auto simp: runDeclaredOutput_def c1 Let_def split: sum.splits option.splits prod.splits)
  qed
  with le1 show ?thesis by simp
qed

context counted
begin

lemma runPhase_cost: "cost (fst (snd (runPhase L H d ph v st s))) \<le> cost (fst s) + 2"
proof -
  let ?sv = "Some (v\<lparr>pv_step := ph_name ph, pv_machine := chooseStr (pv_machine v) (md_name d)\<rparr>)"
  have decl: "cost (fst (snd (runDeclaredOutput L label out prompt (run_step H ?sv ph) (restateCall H ?sv ph)
      (\<lambda>s. h_ctx_err H (fst s)) s))) \<le> cost (fst s) + 2" for label out prompt
    using declared_cost [of "\<lambda>s. cost (fst s)" "run_step H ?sv ph" "restateCall H ?sv ph"]
      run_step_cost restateCall_cost by blast
  have one: "cost (fst (snd (run_step H ?sv ph s prompt))) \<le> cost (fst s) + 2" for prompt
    using run_step_cost [of ?sv ph s prompt] by simp
  show ?thesis
    unfolding runPhase_def Let_def
    using decl [of "''phase '' @ ph_name ph" "ModelOutput ph" "phasePrompt L d ph st v"]
      one [of "phasePrompt L d ph st v"]
    by (auto split: prod.splits sum.splits)
qed

lemma hand_on_world: "next_world (hand_on H d ph nxt why ns prev w cur) = w"
  by (auto simp: hand_on_def split: option.splits prod.splits)

lemma walk_iter_cost: "cost (next_world (walk_iter L H d turn ph prev w cur)) \<le> cost w + 2"
proof -
  obtain r ns w1 slot where rp:
    "runPhase L H d ph (turn_vars turn (cur_opening cur) prev (md_name d)) (cur_state cur) (w, None)
      = ((r, ns), (w1, slot))" by (metis surj_pair)
  have "cost w1 \<le> cost w + 2" using runPhase_cost [of L d ph _ _ "(w, None)"] rp by (metis fst_conv snd_conv)
  then show ?thesis
    by (auto simp: walk_iter_def rp Let_def hand_on_world split: prod.splits option.splits sum.splits)
qed

lemma walk_loop_cost: "cost (wk_world (walk_loop left L H d turn ph prev w cur)) \<le> cost w + 2 * left"
proof (induction left arbitrary: ph prev w cur)
  case (Suc left)
  note iter = walk_iter_cost [of L d turn ph prev w cur]
  show ?case
  proof (cases "walk_iter L H d turn ph prev w cur")
    case (WDone r)
    with iter show ?thesis by simp
  next
    case (WGo nph prev1 ns w1 cur1)
    with iter Suc.IH [of nph prev1 w1 cur1] show ?thesis by simp
  qed
qed simp

lemma walk_cost: "cost (wk_world (walk L H d turn ph w cur)) \<le> cost w + 2 * hopCap d"
  by (simp add: walk_def walk_loop_cost)

lemma checkGuard_cost:
  "checkGuard L H d ph w cur inp = (ph1, b, ns, w1, cur1) \<Longrightarrow> cost w1 \<le> cost w + 2"
proof -
  assume cg: "checkGuard L H d ph w cur inp = (ph1, b, ns, w1, cur1)"
  let ?run = "runDeclaredOutput L (''guard on phase '' @ ph_name ph) guardOutput
    (guardPrompt L d ph (cur_state cur) inp) (guard_call H ph) None (h_ctx_err H) w"
  have "cost (snd ?run) \<le> cost w + 2"
    using guard_call_cost by (intro declared_cost) auto
  then show ?thesis using cg
    by (auto simp: checkGuard_def split: if_splits prod.splits sum.splits option.splits)
qed

lemma AdvanceMachine_cost:
  "cost (tn_world (AdvanceMachine L H d turn w cur)) \<le> cost w + 2 * hopCap d + 2"
proof (cases "resume d cur")
  case (Inr r)
  obtain ph resumed cur1 ns where r: "r = (ph, resumed, cur1, ns)" by (cases r) auto
  obtain start cur2 where rs: "restartForMessage (h_now H w) d cur1 = (start, cur2)" by fastforce
  obtain ph1 b ns1 w1 cur3 where cg: "checkGuard L H d ph w cur1 (mt_input turn) = (ph1, b, ns1, w1, cur3)"
    by (metis prod_cases5)
  have "cost (wk_world (walk L H d turn ph1 w1 cur3)) \<le> cost w + 2 * hopCap d + 2"
    using walk_cost [of L d turn ph1 w1 cur3] checkGuard_cost [OF cg] by simp
  moreover have "cost (wk_world (walk L H d turn q w c)) \<le> cost w + 2 * hopCap d + 2" for q c
    using walk_cost [of L d turn q w c] by simp
  ultimately show ?thesis by (simp add: AdvanceMachine_def Inr r rs cg)
qed (simp add: AdvanceMachine_def)

end

interpretation counting: counted counting_host "\<lambda>n. n"
  by unfold_locales (simp add: counting_host_def)

lemma counted_any: "(\<And>w sv ph p. cost (snd (h_run H w sv ph p)) \<le> cost w + 1) \<Longrightarrow> counted H cost"
  by unfold_locales

text \<open>A turn costs at most two runner calls for each transition it may make and two for the guard: ten for
  a conversation, whatever the runner answers.\<close>

theorem a_turn_makes_few_calls:
  assumes "\<And>w sv ph p. cost (snd (h_run H w sv ph p)) \<le> cost w + (1 :: nat)" and "\<not> md_unattended d"
  shows "cost (tn_world (AdvanceMachine L H d turn w cur)) \<le> cost w + 10"
proof -
  have "cost (tn_world (AdvanceMachine L H d turn w cur)) \<le> cost w + 2 * hopCap d + 2"
    by (rule counted.AdvanceMachine_cost [OF counted_any]) (rule assms(1))
  then show ?thesis using assms(2) by (simp add: hopCap_def MaxPhaseTransitions_def)
qed

theorem a_turn_makes_few_calls_witness:
  "tn_world (AdvanceMachine sample_lib counting_host StarterMachine zero_turn 0 zero_cursor) \<le> 10"
  using a_turn_makes_few_calls [of "\<lambda>n. n" counting_host StarterMachine sample_lib zero_turn 0 zero_cursor]
  by (simp add: counting_host_def StarterMachine_def zero_machine_def)

section \<open>Why a walk stops\<close>

definition sits_on :: "MachineCursor \<Rightarrow> MachinePhase \<Rightarrow> bool" where
  "sits_on cur ph \<longleftrightarrow> cur_phase cur = ph_name ph \<or> trim_space (cur_phase cur) = ph_name ph"

definition stop_means :: "MachineDef \<Rightarrow> MachinePhase \<Rightarrow> walkStop \<Rightarrow> 'w walked \<Rightarrow> bool" where
  "stop_means d f stop wk =
     (case stop of
        stopResident \<Rightarrow> ph_resident f
      | stopTerminal \<Rightarrow> md_unattended d \<and> \<not> ph_resident f \<and> holds (ph_name f) (wk_cursor wk)
      | stopBudget \<Rightarrow> \<not> ph_resident f \<and> cap_note d f \<in> set (wk_notes wk))"

lemma firstResident_Some: "firstResident d = Some p \<Longrightarrow> p \<in> set (md_phases d) \<and> ph_resident p"
  unfolding firstResident_def by (rule find_SomeD)

lemma firstResident_None: "firstResident d = None \<longleftrightarrow> \<not> anyResident d"
  by (auto simp: firstResident_def anyResident_def find_None_iff)

lemma hand_on_WGo:
  "hand_on H d ph nxt why ns prev w cur = WGo nph prev1 ns1 w1 cur1 \<Longrightarrow>
     nph \<in> set (md_phases d) \<and> cur_phase cur1 = ph_name nph"
proof -
  assume go: "hand_on H d ph nxt why ns prev w cur = WGo nph prev1 ns1 w1 cur1"
  then have "\<exists>ns2. moveTo (h_now H w) cur (ph_name ph) nph why (accumulatorNames d) = (cur1, ns2)"
    and "nph \<in> set (md_phases d)"
    by (auto simp: hand_on_def dest: Phase_Some firstResident_Some split: if_splits option.splits prod.splits)
  then show ?thesis by (metis fst_conv moveTo_phase)
qed

lemma hand_on_WDone:
  "hand_on H d ph nxt why ns prev w cur = WDone r \<Longrightarrow> wk_cursor r = cur
     \<and> ((md_unattended d \<and> wk_result r = Inr (ph, stopTerminal))
        \<or> (\<not> anyResident d \<and> wk_result r = Inl (HandedOffNowhere (md_name d) (ph_name ph))))"
  by (auto simp: hand_on_def firstResident_None split: if_splits option.splits prod.splits)

lemma holds_recorded: "holds k (record_result cur k res)"
  by (simp add: holds_def record_result_def map_of_update_eq)

lemma holds_accumulate:
  "accumulate L ph flds (cur_state cur) = (st, ns) \<Longrightarrow> holds k cur \<Longrightarrow> holds k (cur\<lparr>cur_state := st\<rparr>)"
  using accumulate_list_keys [of "cur_state cur" L ph flds "ph_accumulates ph"]
  by (auto simp: holds_keys accumulate_def)

text \<open>One iteration, whatever the runner answered: the three ways it ends, and how it goes on.\<close>

lemma walk_iter_cases:
  obtains (fails) r e where "walk_iter L H d turn ph prev w cur = WDone r"
      "wk_result r = Inl (PhaseFailed (md_name d) (ph_name ph) e)"
    | (hands) nxt why ns prev1 w1 cur1 where
      "walk_iter L H d turn ph prev w cur = hand_on H d ph nxt why ns prev1 w1 cur1"
      "holds (ph_name ph) cur1" "cur_phase cur1 = cur_phase cur"
proof -
  obtain r ns w1 slot where rp:
    "runPhase L H d ph (turn_vars turn (cur_opening cur) prev (md_name d)) (cur_state cur) (w, None)
      = ((r, ns), (w1, slot))" by (metis surj_pair)
  show thesis
  proof (cases slot)
    case (Some reason)
    let ?c = "record_result cur (ph_name ph)
      \<lparr>pr_text = prev, pr_fields = [], pr_skipped = True, pr_skip_reason = reason\<rparr>"
    have "walk_iter L H d turn ph prev w cur
        = hand_on H d ph (trim_space (ph_next ph)) (WhyNotApplicable (ph_name ph))
            (ns @ [NStepSkipped (ph_name ph) reason (chooseStr (trim_space (ph_next ph)) ''the end of the run'')])
            prev w1 ?c"
      using Some by (simp add: walk_iter_def rp Let_def)
    then show thesis by (rule hands) (rule holds_recorded, simp add: record_result_def)
  next
    case None
    show thesis
    proof (cases r)
      case (Inl e)
      then show thesis using None by (intro fails) (auto simp: walk_iter_def rp)
    next
      case (Inr tf)
      obtain reply flds where tf: "tf = (reply, flds)" by (cases tf) auto
      let ?c = "record_result cur (ph_name ph)
        \<lparr>pr_text = reply, pr_fields = flds, pr_skipped = False, pr_skip_reason = []\<rparr>"
      obtain st2 na where acc: "accumulate L ph flds (cur_state ?c) = (st2, na)" by fastforce
      obtain nxt why where np: "NextPhase d ph flds = (nxt, why)" by fastforce
      have eq: "walk_iter L H d turn ph prev w cur
          = hand_on H d ph nxt (case why of Some n \<Rightarrow> WhyRouteNote n | None \<Rightarrow> WhyRoutedBy (ph_name ph))
              (ns @ na @ (case why of Some n \<Rightarrow> [NRouteFallback n] | None \<Rightarrow> [])) reply w1
              (?c\<lparr>cur_state := st2\<rparr>)"
        using None Inr tf acc np by (simp add: walk_iter_def rp Let_def)
      have "holds (ph_name ph) (?c\<lparr>cur_state := st2\<rparr>)"
        by (rule holds_accumulate [OF acc holds_recorded])
      moreover have "cur_phase (?c\<lparr>cur_state := st2\<rparr>) = cur_phase cur" by (simp add: record_result_def)
      ultimately show thesis by (rule hands [OF eq])
    qed
  qed
qed

lemma walk_iter_WGo:
  "walk_iter L H d turn ph prev w cur = WGo nph prev1 ns w1 cur1 \<Longrightarrow>
     nph \<in> set (md_phases d) \<and> cur_phase cur1 = ph_name nph"
  by (cases rule: walk_iter_cases [of L H d turn ph prev w cur]) (auto dest: hand_on_WGo)

lemma walk_iter_WDone:
  assumes "walk_iter L H d turn ph prev w cur = WDone r"
  shows "(\<exists>e. wk_result r = Inl (PhaseFailed (md_name d) (ph_name ph) e))
    \<or> (\<not> anyResident d \<and> wk_result r = Inl (HandedOffNowhere (md_name d) (ph_name ph)))
    \<or> (md_unattended d \<and> wk_result r = Inr (ph, stopTerminal) \<and> holds (ph_name ph) (wk_cursor r)
        \<and> cur_phase (wk_cursor r) = cur_phase cur)"
  using assms
  by (cases rule: walk_iter_cases [of L H d turn ph prev w cur]) (auto dest!: hand_on_WDone)

lemma stop_means_add_notes: "stop_means d f stop wk \<Longrightarrow> stop_means d f stop (add_notes ns wk)"
  by (auto simp: stop_means_def split: walkStop.splits)

lemma walk_loop_stops:
  assumes "sits_on cur ph" "ph \<in> set (md_phases d)"
    and "wk_result (walk_loop left L H d turn ph prev w cur) = Inr (f, stop)"
  shows "stop_means d f stop (walk_loop left L H d turn ph prev w cur)
    \<and> f \<in> set (md_phases d) \<and> sits_on (wk_cursor (walk_loop left L H d turn ph prev w cur)) f"
  using assms
proof (induction left arbitrary: ph prev w cur)
  case 0
  then show ?case by (auto simp: stop_means_def split: if_splits)
next
  case (Suc left)
  show ?case
  proof (cases "ph_resident ph")
    case True
    with Suc.prems show ?thesis by (auto simp: stop_means_def)
  next
    case transient: False
    show ?thesis
    proof (cases "walk_iter L H d turn ph prev w cur")
      case (WDone r)
      with Suc.prems transient walk_iter_WDone [OF WDone] show ?thesis
        by (auto simp: stop_means_def sits_on_def)
    next
      case (WGo nph prev1 ns w1 cur1)
      have "sits_on cur1 nph" "nph \<in> set (md_phases d)"
        using walk_iter_WGo [OF WGo] by (simp_all add: sits_on_def)
      from Suc.IH [OF this] Suc.prems(3) transient WGo show ?thesis
        by (auto intro: stop_means_add_notes)
    qed
  qed
qed

lemma walk_loop_errors:
  "wk_result (walk_loop left L H d turn ph prev w cur) = Inl e \<Longrightarrow>
     (\<exists>n pe. e = PhaseFailed (md_name d) n pe) \<or> (\<not> anyResident d \<and> (\<exists>n. e = HandedOffNowhere (md_name d) n))"
proof (induction left arbitrary: ph prev w cur)
  case (Suc left)
  show ?case
  proof (cases "walk_iter L H d turn ph prev w cur")
    case (WDone r)
    with Suc.prems walk_iter_WDone [OF WDone] show ?thesis by (auto split: if_splits)
  next
    case (WGo nph prev1 ns w1 cur1)
    with Suc show ?thesis by (auto split: if_splits)
  qed
qed (auto split: if_splits)

lemma walk_stops:
  assumes "sits_on cur ph" "ph \<in> set (md_phases d)"
    and "wk_result (walk L H d turn ph w cur) = Inr (f, stop)"
  shows "stop_means d f stop (walk L H d turn ph w cur) \<and> f \<in> set (md_phases d)
    \<and> sits_on (wk_cursor (walk L H d turn ph w cur)) f"
proof -
  have "sits_on (set_opening turn cur) ph" using assms(1) by (simp add: sits_on_def set_opening_def)
  then show ?thesis using assms(2,3) unfolding walk_def by (rule walk_loop_stops)
qed

text \<open>C2: A walk that starts on a step of the machine the cursor sits on, and ends without an error, ends on a
  step of the machine the cursor sits on, and its reason is true: a waiting step; a step of an
  unattended machine whose result is on the blackboard; or, at the transition cap and saying so, a
  step that does not wait.\<close>

theorem a_walk_stops_where_it_says:
  assumes "sits_on cur ph" "ph \<in> set (md_phases d)"
    and "wk_result (walk L H d turn ph w cur) = Inr (f, stop)"
  shows "stop_means d f stop (walk L H d turn ph w cur) \<and> f \<in> set (md_phases d)
    \<and> sits_on (wk_cursor (walk L H d turn ph w cur)) f"
  using assms by (rule walk_stops)

theorem a_walk_stops_where_it_says_witness:
  "\<exists>f. f \<in> set (md_phases StarterMachine)
     \<and> sits_on (wk_cursor (walk sample_lib counting_host StarterMachine zero_turn
         (zero_phase\<lparr>ph_name := ''reply'', ph_desc := ''Answer, and keep answering.'', ph_resident := True,
           ph_prompt := ''Answer plainly, working from what is settled below.''\<rparr>) 0
         (zero_cursor\<lparr>cur_phase := ''reply''\<rparr>))) f"
proof -
  let ?p = "zero_phase\<lparr>ph_name := ''reply'', ph_desc := ''Answer, and keep answering.'', ph_resident := True,
           ph_prompt := ''Answer plainly, working from what is settled below.''\<rparr>"
  let ?c = "zero_cursor\<lparr>cur_phase := ''reply''\<rparr>"
  have "sits_on ?c ?p" "?p \<in> set (md_phases StarterMachine)"
    by (simp_all add: sits_on_def StarterMachine_def)
  moreover have "wk_result (walk sample_lib counting_host StarterMachine zero_turn ?p 0 ?c) = Inr (?p, stopResident)"
    by (cases "hopCap StarterMachine") (simp_all add: walk_def)
  ultimately have "stop_means StarterMachine ?p stopResident (walk sample_lib counting_host StarterMachine zero_turn ?p 0 ?c)
      \<and> ?p \<in> set (md_phases StarterMachine)
      \<and> sits_on (wk_cursor (walk sample_lib counting_host StarterMachine zero_turn ?p 0 ?c)) ?p"
    by (rule a_walk_stops_where_it_says)
  then show ?thesis by blast
qed

end
