(* ===== verification/MachineOutcomes.thy ===== *)
theory MachineOutcomes
  imports MachineTurns
begin

text \<open>
  What each entry returns: where a conversational turn ends, when an unattended run succeeds, what the
  guard may do, which exits a mid-turn change respects, and that a machine with no problems fails only
  where its runner or its reply's shape fails (core/machine.go, core/machine_guard.go).
\<close>

section \<open>A machine with no problems\<close>

lemma conversation_has_resident:
  assumes "problems ctl d = []" "\<not> md_unattended d"
  shows "anyResident d"
proof -
  have "length (filter ph_resident (md_phases d)) \<noteq> 0"
    using problems_Nil(9) [OF assms(1)] assms(2) by (auto simp: shape_problems_def split: if_splits)
  then show ?thesis by (auto simp: anyResident_def filter_empty_conv)
qed

lemma run_has_no_resident:
  assumes "problems ctl d = []" "md_unattended d"
  shows "\<not> anyResident d" "hasTerminalPhase d"
proof -
  have z: "length (filter ph_resident (md_phases d)) = 0" "hasTerminalPhase d"
    using problems_Nil(9) [OF assms(1)] assms(2) by (auto simp: shape_problems_def split: if_splits)
  then show "\<not> anyResident d" by (auto simp: anyResident_def filter_empty_conv)
  show "hasTerminalPhase d" by (rule z)
qed

lemma resume_Inr: "Phase d (StartPhase d) \<noteq> None \<Longrightarrow> \<exists>ph r cur1 ns. resume d cur = Inr (ph, r, cur1, ns)"
  by (auto simp: resume_def split: option.splits)

lemma resume_sits: "resume d cur = Inr (ph, r, cur1, ns) \<Longrightarrow> sits_on cur1 ph \<and> ph \<in> set (md_phases d)"
  by (auto simp: resume_def sits_on_def dest: Phase_Some split: option.splits)

lemma restart_sits:
  assumes "restartForMessage now d cur = (ph, cur1)" "Phase d (StartPhase d) \<noteq> None"
  shows "sits_on cur1 ph \<and> ph \<in> set (md_phases d)"
proof -
  obtain p where p: "Phase d (StartPhase d) = Some p" using assms(2) by blast
  then have "ph = p" "cur_phase cur1 = ph_name p"
    using assms(1) by (auto simp: restartForMessage_def Let_def)
  then show ?thesis using p by (simp add: sits_on_def Phase_Some)
qed

section \<open>The guard\<close>

text \<open>Where a verdict may lead.\<close>

lemma guardTarget_Some:
  assumes "guardTarget d ph flds = (Some t, ns)"
  shows "t \<in> set (md_phases d) \<and>
    (MayExitTo ph (ph_name t) \<or> ph_name t = trim_space (ph_guard_to ph) \<or> ph_name t = trim_space (StartPhase d))"
proof -
  let ?named = "as_string (field_value flds ''to'')"
  let ?refused = "trim_space ?named \<noteq> [] \<and> \<not> MayExitTo ph (trim_space ?named)"
  let ?found = "map (Phase d) (filter (\<lambda>n. trim_space n \<noteq> [])
      [if ?refused then [] else ?named, ph_guard_to ph, StartPhase d])"
  have e: "(case find (\<lambda>r. r \<noteq> None) ?found of Some r \<Rightarrow> r | None \<Rightarrow> None) = Some t"
    using assms by (simp only: guardTarget_def Let_def prod.inject)
  then obtain r where "find (\<lambda>r. r \<noteq> None) ?found = Some r" "r = Some t"
    by (auto split: option.splits)
  then have "Some t \<in> set ?found" by (auto dest: find_SomeD)
  then obtain n where n: "Phase d n = Some t" "trim_space n \<noteq> []"
      "n = (if ?refused then [] else ?named) \<or> n = ph_guard_to ph \<or> n = StartPhase d"
    by (auto split: if_splits)
  from n(1) have t: "t \<in> set (md_phases d)" "ph_name t = trim_space n" by (auto dest: Phase_Some)
  from n(3) consider "\<not> ?refused" "n = ?named" | "n = []" | "n = ph_guard_to ph" | "n = StartPhase d"
    by (auto split: if_splits)
  then show ?thesis
  proof cases
    case 1
    then have "MayExitTo ph (trim_space n)" using n(2) by simp
    then show ?thesis using t by simp
  next
    case 2
    then show ?thesis using n(2) by simp
  qed (use t in simp_all)
qed

lemma guard_verdict_Some:
  assumes "guard_verdict L d ph raw flds = (Some (t, why), ns)"
  shows "t \<in> set (md_phases d) \<and> ph_name t \<noteq> ph_name ph \<and>
    (MayExitTo ph (ph_name t) \<or> ph_name t = trim_space (ph_guard_to ph) \<or> ph_name t = trim_space (StartPhase d))"
proof -
  obtain o' ns' where g: "guardTarget d ph flds = (o', ns')" by fastforce
  from assms g have "o' = Some t" "ph_name t \<noteq> ph_name ph"
    by (auto simp: guard_verdict_def Let_def split: if_splits option.splits)
  then show ?thesis using guardTarget_Some [of d ph flds t ns'] g by simp
qed

lemma checkGuard_outcome:
  assumes "checkGuard L H d ph w cur inp = (ph1, tripped, ns, w1, cur1)"
  shows "(\<not> tripped \<and> ph1 = ph \<and> cur1 = cur) \<or>
    (tripped \<and> ph1 \<in> set (md_phases d) \<and> ph_name ph1 \<noteq> ph_name ph \<and> cur_phase cur1 = ph_name ph1
      \<and> (MayExitTo ph (ph_name ph1) \<or> ph_name ph1 = trim_space (ph_guard_to ph)
          \<or> ph_name ph1 = trim_space (StartPhase d)))"
proof (cases "trim_space (ph_guard ph) = [] \<or> trim_space inp = []")
  case True
  then show ?thesis using assms by (auto simp: checkGuard_def)
next
  case False
  obtain r ns0 w0 where run: "runDeclaredOutput L (''guard on phase '' @ ph_name ph) guardOutput
      (guardPrompt L d ph (cur_state cur) inp) (guard_call H ph) None (h_ctx_err H) w = ((r, ns0), w0)"
    by (metis surj_pair)
  show ?thesis
  proof (cases r)
    case (Inl e)
    then show ?thesis using assms False run by (auto simp: checkGuard_def)
  next
    case (Inr rf)
    obtain raw flds where rf: "rf = (raw, flds)" by (cases rf) auto
    obtain v ns2 where v: "guard_verdict L d ph raw flds = (v, ns2)" by fastforce
    show ?thesis
    proof (cases v)
      case None
      then show ?thesis using assms False run Inr rf v by (auto simp: checkGuard_def)
    next
      case (Some tw)
      obtain t why where tw: "tw = (t, why)" by (cases tw) auto
      let ?m = "moveTo (h_now H w0) cur (ph_name ph) t (WhyGuard why) (accumulatorNames d)"
      have "ph1 = t" "tripped" "cur1 = fst ?m"
        using assms False run Inr rf v Some tw by (auto simp: checkGuard_def split: prod.splits)
      then show ?thesis using guard_verdict_Some v Some tw by auto
    qed
  qed
qed

text \<open>The guard either leaves the turn where it is and the cursor untouched, or moves it to another step
  of the machine that the step's declared exits allow, that its own guard_to names, or that is the
  machine's start.\<close>

theorem the_guard_stays_or_moves_within_bounds:
  assumes "checkGuard L H d ph w cur inp = (ph1, tripped, ns, w1, cur1)"
  shows "if tripped
    then ph1 \<in> set (md_phases d) \<and> ph_name ph1 \<noteq> ph_name ph \<and> cur_phase cur1 = ph_name ph1
      \<and> (MayExitTo ph (ph_name ph1) \<or> ph_name ph1 = trim_space (ph_guard_to ph)
          \<or> ph_name ph1 = trim_space (StartPhase d))
    else ph1 = ph \<and> cur1 = cur"
  using checkGuard_outcome [OF assms] by auto

theorem the_guard_stays_or_moves_witness:
  "snd (snd (snd (snd (checkGuard sample_lib counting_host StarterMachine zero_phase 0 zero_cursor ''hi'')))) = zero_cursor"
proof -
  have e: "checkGuard sample_lib counting_host StarterMachine zero_phase 0 zero_cursor ''hi''
      = (zero_phase, False, [], 0, zero_cursor)"
    by (simp add: checkGuard_def zero_phase_def)
  from the_guard_stays_or_moves_within_bounds [OF e] show ?thesis unfolding e by simp
qed

text \<open>The guard fails open: when every call it makes fails, or the context is over after a reply that
  cannot be read, the turn stays in its step, the cursor is unchanged, and the failure is reported.\<close>

theorem the_guard_fails_open:
  assumes "trim_space (ph_guard ph) \<noteq> []" "trim_space inp \<noteq> []"
    and "\<And>w p. \<exists>e. rr_reply (fst (h_run H w None (guard_probe ph) p)) = Inl e"
  shows "\<exists>w1. checkGuard L H d ph w cur inp = (ph, False, [NGuardFailed (ph_name ph)], w1, cur)"
proof -
  let ?p = "guardPrompt L d ph (cur_state cur) inp @ renderOutputContract guardOutput"
  obtain r w1 where hr: "h_run H w None (guard_probe ph) ?p = (r, w1)" by fastforce
  with assms(3) [of w ?p] obtain e where "rr_reply r = Inl e" by auto
  then have "guard_call H ph w ?p = (Inl (RunnerErr e), w1)" by (simp add: guard_call_def hr)
  then have "runDeclaredOutput L (''guard on phase '' @ ph_name ph) guardOutput
      (guardPrompt L d ph (cur_state cur) inp) (guard_call H ph) None (h_ctx_err H) w
      = ((Inl (RunnerErr e), []), w1)"
    by (simp add: runDeclaredOutput_def)
  then show ?thesis using assms(1,2) by (simp add: checkGuard_def)
qed

definition failing_host :: "nat host" where
  "failing_host = \<lparr>h_run = \<lambda>n sv ph p. (\<lparr>rr_skip = None, rr_reply = Inl ''no model''\<rparr>, n + 1),
     h_ctx_err = \<lambda>_. None, h_now = \<lambda>_. 0\<rparr>"

theorem the_guard_fails_open_witness:
  "\<exists>w1. checkGuard sample_lib failing_host StarterMachine (zero_phase\<lparr>ph_name := ''reply'', ph_guard := ''off topic''\<rparr>) 0
      zero_cursor ''hi''
    = (zero_phase\<lparr>ph_name := ''reply'', ph_guard := ''off topic''\<rparr>, False, [NGuardFailed ''reply''], w1, zero_cursor)"
proof -
  let ?ph = "zero_phase\<lparr>ph_name := ''reply'', ph_guard := ''off topic''\<rparr>"
  have "trim_space (ph_guard ?ph) \<noteq> []" "trim_space ''hi'' \<noteq> []" by code_simp+
  then show ?thesis
    using the_guard_fails_open [of ?ph "''hi''" failing_host sample_lib StarterMachine 0 zero_cursor]
    by (simp add: failing_host_def)
qed

section \<open>A conversational turn\<close>

text \<open>The one walk a turn ends in, and from where.\<close>

lemma AdvanceMachine_walk:
  assumes "Phase d (StartPhase d) \<noteq> None"
  obtains ns ph w1 cur1 where "AdvanceMachine L H d turn w cur = of_walk ns (walk L H d turn ph w1 cur1)"
    "sits_on cur1 ph" "ph \<in> set (md_phases d)"
proof -
  obtain ph r cur1 ns where res: "resume d cur = Inr (ph, r, cur1, ns)" using resume_Inr [OF assms] by blast
  note sits = resume_sits [OF res]
  obtain start cur2 where rs: "restartForMessage (h_now H w) d cur1 = (start, cur2)" by fastforce
  obtain ph1 b ns1 w1 cur3 where cg: "checkGuard L H d ph w cur1 (mt_input turn) = (ph1, b, ns1, w1, cur3)"
    by (metis prod_cases5)
  have guarded: "sits_on cur3 ph1" "ph1 \<in> set (md_phases d)"
    using checkGuard_outcome [OF cg] sits by (auto simp: sits_on_def)
  show thesis
  proof (cases "r \<and> md_route_each_message d \<and> \<not> md_unattended d")
    case True
    then have "AdvanceMachine L H d turn w cur = of_walk ns (walk L H d turn start w cur2)"
      by (simp add: AdvanceMachine_def res rs)
    then show thesis using restart_sits [OF rs assms] by (intro that) auto
  next
    case noRestart: False
    show thesis
    proof (cases "r \<and> ph_resident ph")
      case True
      then have "AdvanceMachine L H d turn w cur = of_walk (ns @ ns1) (walk L H d turn ph1 w1 cur3)"
        using noRestart by (auto simp: AdvanceMachine_def res cg)
      then show thesis using guarded by (intro that) auto
    next
      case False
      then have "AdvanceMachine L H d turn w cur = of_walk ns (walk L H d turn ph w cur1)"
        using noRestart by (auto simp: AdvanceMachine_def res)
      then show thesis using sits by (intro that) auto
    qed
  qed
qed

lemma of_walk_Inr: "tn_result (of_walk ns wk) = Inr f \<Longrightarrow> \<exists>stop. wk_result wk = Inr (f, stop)"
  by (auto simp: of_walk_def split: sum.splits prod.splits)

lemma of_walk_Inl: "tn_result (of_walk ns wk) = Inl e \<Longrightarrow> wk_result wk = Inl e"
  by (auto simp: of_walk_def split: sum.splits prod.splits)

text \<open>C6: A conversational turn that produces a step produces one of the machine's, with the cursor on it; and
  it is a step the conversation waits in, unless the transition cap was reached and reported.\<close>

theorem a_turn_ends_where_the_conversation_waits:
  assumes "Phase d (StartPhase d) \<noteq> None" "\<not> md_unattended d"
    and "tn_result (AdvanceMachine L H d turn w cur) = Inr f"
  shows "f \<in> set (md_phases d) \<and> sits_on (tn_cursor (AdvanceMachine L H d turn w cur)) f
    \<and> (ph_resident f \<or> NTransitionCap (md_name d) MaxPhaseTransitions (ph_name f)
          \<in> set (tn_notes (AdvanceMachine L H d turn w cur)))"
proof -
  obtain ns ph w1 cur1 where am: "AdvanceMachine L H d turn w cur = of_walk ns (walk L H d turn ph w1 cur1)"
    and sits: "sits_on cur1 ph" "ph \<in> set (md_phases d)"
    by (rule AdvanceMachine_walk [OF assms(1)])
  obtain stop where "wk_result (walk L H d turn ph w1 cur1) = Inr (f, stop)"
    using of_walk_Inr [OF assms(3) [unfolded am]] by blast
  from walk_stops [OF sits this] show ?thesis
    using assms(2) unfolding am
    by (auto simp: stop_means_def cap_note_def hopCap_def split: walkStop.splits)
qed

theorem a_turn_ends_where_the_conversation_waits_witness:
  "\<exists>f. f \<in> set (md_phases StarterMachine)
     \<and> sits_on (tn_cursor (AdvanceMachine sample_lib counting_host StarterMachine zero_turn 0 (zero_cursor\<lparr>cur_phase := ''reply''\<rparr>))) f"
proof -
  let ?c = "zero_cursor\<lparr>cur_phase := ''reply''\<rparr>"
  let ?am = "AdvanceMachine sample_lib counting_host StarterMachine zero_turn 0 ?c"
  obtain p where p: "Phase StarterMachine ''reply'' = Some p" "ph_resident p" "ph_guard p = []"
    by (rule that [of "the (Phase StarterMachine ''reply'')"]) code_simp+
  have start: "Phase StarterMachine (StartPhase StarterMachine) \<noteq> None" "\<not> md_unattended StarterMachine"
    "\<not> md_route_each_message StarterMachine" by code_simp+
  have "resume StarterMachine ?c = Inr (p, True, ?c, [])" using p by (simp add: resume_def)
  then have "tn_result ?am = Inr p"
    using p start by (cases "hopCap StarterMachine")
      (simp_all add: AdvanceMachine_def checkGuard_def walk_def of_walk_def)
  from a_turn_ends_where_the_conversation_waits [OF start(1,2) this] show ?thesis by blast
qed

text \<open>C7: A conversational machine with no problems, whose start is one of its steps, fails a turn only where
  one of its steps fails: it never loses the turn to its own wiring.\<close>

theorem a_sound_machine_fails_only_in_a_step:
  assumes "problems ctl d = []" "\<not> md_unattended d" "Phase d (StartPhase d) \<noteq> None"
    and "tn_result (AdvanceMachine L H d turn w cur) = Inl e"
  shows "\<exists>n pe. e = PhaseFailed (md_name d) n pe"
proof -
  obtain ns ph w1 cur1 where am: "AdvanceMachine L H d turn w cur = of_walk ns (walk L H d turn ph w1 cur1)"
    by (rule AdvanceMachine_walk [OF assms(3)])
  have "wk_result (walk L H d turn ph w1 cur1) = Inl e"
    by (rule of_walk_Inl [OF assms(4) [unfolded am]])
  from walk_loop_errors [OF this [unfolded walk_def]] show ?thesis
    using conversation_has_resident [OF assms(1,2)] by blast
qed

theorem a_sound_machine_fails_only_in_a_step_witness:
  "\<exists>n pe. tn_result (AdvanceMachine sample_lib failing_host StarterMachine zero_turn 0 zero_cursor)
     = Inl (PhaseFailed (md_name StarterMachine) n pe)"
proof -
  have sound: "problems [] StarterMachine = []" "\<not> md_unattended StarterMachine"
    "Phase StarterMachine (StartPhase StarterMachine) \<noteq> None" by code_simp+
  obtain p where p: "Phase StarterMachine ''look'' = Some p" "\<not> ph_resident p" "ModelOutput p \<noteq> []"
      "ph_name p = ''look''"
    by (rule that [of "the (Phase StarterMachine ''look'')"]) code_simp+
  have start: "StartPhase StarterMachine = ''look''" "Phase StarterMachine [] = None"
    "md_name StarterMachine = ''New machine''" by code_simp+
  let ?am = "AdvanceMachine sample_lib failing_host StarterMachine zero_turn 0 zero_cursor"
  have r: "resume StarterMachine zero_cursor = Inr (p, False, zero_cursor\<lparr>cur_phase := ''look''\<rparr>, [])"
    using p start by (simp add: resume_def zero_cursor_def)
  obtain left where cap: "hopCap StarterMachine = Suc left"
    by (rule that [of 3]) code_simp
  have "runPhase sample_lib failing_host StarterMachine p v st (0, None) = ((Inl (RunnerErr ''no model''), []), (1, None))" for v st
    using p by (simp add: runPhase_def Let_def runDeclaredOutput_def run_step_def failing_host_def SkipStep_def)
  then have "tn_result ?am = Inl (PhaseFailed ''New machine'' ''look'' (RunnerErr ''no model''))"
    using p start by (simp add: AdvanceMachine_def r walk_def cap of_walk_def walk_iter_def)
  with a_sound_machine_fails_only_in_a_step [OF sound this] show ?thesis by simp
qed

section \<open>An unattended run\<close>

text \<open>An unattended run that succeeds was of an unattended machine, ended on a step of the machine that does
  not wait and did not skip, and its text is that step's entry on the blackboard.\<close>

theorem a_successful_run_has_a_result:
  assumes "rn_result (RunUnattended L H d turn w cur) = Inr ()"
  shows "md_unattended d
    \<and> rn_final (RunUnattended L H d turn w cur) \<in> set (md_phases d)
    \<and> \<not> ph_resident (rn_final (RunUnattended L H d turn w cur))
    \<and> (\<exists>res. map_of (cur_state (rn_cursor (RunUnattended L H d turn w cur)))
              (ph_name (rn_final (RunUnattended L H d turn w cur))) = Some res
          \<and> \<not> pr_skipped res \<and> rn_text (RunUnattended L H d turn w cur) = pr_text res)"
proof -
  have un: "md_unattended d" using assms by (auto simp: RunUnattended_def Let_def split: if_splits)
  obtain ph r cur1 ns where res: "resume d cur = Inr (ph, r, cur1, ns)"
    using assms un by (cases "resume d cur") (auto simp: RunUnattended_def Let_def)
  let ?wk = "walk L H d turn ph w cur1"
  obtain f stop where wr: "wk_result ?wk = Inr (f, stop)"
    using assms un res by (cases "wk_result ?wk") (auto simp: RunUnattended_def Let_def)
  have run: "rn_final (RunUnattended L H d turn w cur) = f"
    "rn_cursor (RunUnattended L H d turn w cur) = wk_cursor ?wk"
    "rn_text (RunUnattended L H d turn w cur) = text_at (wk_cursor ?wk) (ph_name f)"
    "rn_result (RunUnattended L H d turn w cur) = stop_result d (wk_cursor ?wk) f stop"
    using un by (simp_all add: RunUnattended_def Let_def res wr)
  have "stop_result d (wk_cursor ?wk) f stop = Inr ()" using assms run(4) by simp
  then have ended: "stop = stopTerminal"
    and unskipped: "map_of (cur_state (wk_cursor ?wk)) (ph_name f) = Some r' \<Longrightarrow> \<not> pr_skipped r'" for r'
    by (auto simp: stop_result_def split: walkStop.splits option.splits if_splits)
  have sits: "sits_on cur1 ph" "ph \<in> set (md_phases d)" using resume_sits [OF res] by simp_all
  from walk_stops [OF sits wr] ended show ?thesis
    using un unskipped unfolding run
    by (auto simp: stop_means_def holds_def text_at_def)
qed

section \<open>A mid-turn change\<close>

text \<open>A mid-turn change that does anything, to the cursor or to the world, goes to a step of the machine the
  current step's declared exits allow.\<close>

theorem a_change_respects_the_exits:
  assumes "Phase d (cur_phase cur) = Some here"
    and "tn_cursor (ChangePhase L H d turn to w cur) \<noteq> cur \<or> tn_world (ChangePhase L H d turn to w cur) \<noteq> w"
  shows "\<exists>target. Phase d to = Some target \<and> MayExitTo here (ph_name target)"
  using assms by (auto simp: ChangePhase_def split: option.splits if_splits)

definition desk_machine :: MachineDef where
  "desk_machine = zero_machine\<lparr>md_name := ''desk'', md_phases :=
     [zero_phase\<lparr>ph_name := ''talk'', ph_resident := True, ph_prompt := ''Talk.'', ph_exits_to := [''bill'']\<rparr>,
      zero_phase\<lparr>ph_name := ''bill'', ph_resident := True, ph_prompt := ''Bill.''\<rparr>,
      zero_phase\<lparr>ph_name := ''admin'', ph_resident := True, ph_prompt := ''Administer.''\<rparr>]\<rparr>"

definition talk_step :: MachinePhase where
  "talk_step = zero_phase\<lparr>ph_name := ''talk'', ph_resident := True, ph_prompt := ''Talk.'', ph_exits_to := [''bill'']\<rparr>"

theorem a_change_respects_the_exits_witness:
  "\<exists>target. Phase desk_machine ''bill'' = Some target \<and> MayExitTo talk_step (ph_name target)"
proof -
  let ?c = "zero_cursor\<lparr>cur_phase := ''talk''\<rparr>"
  have here: "Phase desk_machine (cur_phase ?c) = Some talk_step" by code_simp
  obtain b where b: "Phase desk_machine ''bill'' = Some b" "ph_name b = ''bill''" "MayExitTo talk_step ''bill''"
    by (rule that [of "zero_phase\<lparr>ph_name := ''bill'', ph_resident := True, ph_prompt := ''Bill.''\<rparr>"]) code_simp+
  let ?cp = "ChangePhase undefined counting_host desk_machine undefined ''bill'' 0 ?c"
  have "cur_phase (tn_cursor ?cp) \<noteq> ''talk''"
  proof -
    have "ph_resident b" using b by (auto simp: desk_machine_def Phase_def split: if_splits)
    then have "wk_cursor (walk undefined counting_host desk_machine undefined b w cur1) = set_opening undefined cur1"
      for w cur1
      unfolding walk_def by (cases "hopCap desk_machine") simp_all
    moreover have "cur_phase (set_opening t cur1) = cur_phase cur1" for t cur1
      by (simp add: set_opening_def)
    ultimately show ?thesis using here b
      by (auto simp: ChangePhase_def change_to_def talk_step_def dest: arg_cong [of _ _ "\<lambda>r. cur_phase (fst r)"]
          split: prod.splits)
  qed
  then have "tn_cursor ?cp \<noteq> ?c \<or> tn_world ?cp \<noteq> 0" by auto
  from a_change_respects_the_exits [OF here this] show ?thesis .
qed

text \<open>Every name a refused change is told it may go to is one a change from that step accepts, unless
  there is none to name.\<close>

theorem the_named_exits_are_accepted:
  assumes "n \<in> set (exitNames d here)" "ExitOptions d here \<noteq> []"
  shows "MayExitTo here n \<and> n \<in> set (PhaseNames d) \<and> n \<noteq> ph_name here"
  using assms by (auto simp: exitNames_def Let_def ExitOptions_def PhaseNames_def)

theorem the_named_exits_are_accepted_witness:
  "MayExitTo talk_step ''bill'' \<and> ''bill'' \<in> set (PhaseNames desk_machine) \<and> ''bill'' \<noteq> ph_name talk_step"
proof -
  have "''bill'' \<in> set (exitNames desk_machine talk_step)" "ExitOptions desk_machine talk_step \<noteq> []"
    by code_simp+
  then show ?thesis by (rule the_named_exits_are_accepted)
qed

definition once_step :: MachinePhase where
  "once_step = zero_phase\<lparr>ph_name := ''once'', ph_prompt := ''Do it.''\<rparr>"

definition once_machine :: MachineDef where
  "once_machine = zero_machine\<lparr>md_name := ''once'', md_unattended := True, md_phases := [once_step]\<rparr>"

theorem a_successful_run_has_a_result_witness:
  "md_unattended once_machine \<and> rn_text (RunUnattended sample_lib counting_host once_machine zero_turn 0 zero_cursor) = ''ok''"
proof -
  let ?c = "zero_cursor\<lparr>cur_phase := ''once''\<rparr>"
  have found: "md_unattended once_machine" "Phase once_machine [] = None"
    "StartPhase once_machine = ''once''" "Phase once_machine ''once'' = Some once_step"
    "ModelOutput once_step = []" "StaticFields once_step = []" "RoutesBy once_step = []"
    "ph_next once_step = []" "ph_name once_step = ''once''" "\<not> ph_resident once_step"
    "ph_accumulates once_step = []" "cur_phase zero_cursor = []"
    by code_simp+
  obtain left where cap: "hopCap once_machine = Suc left" by (rule that [of 99]) code_simp
  have r: "resume once_machine zero_cursor = Inr (once_step, False, ?c, [])"
    using found by (simp add: resume_def)
  have ph: "runPhase sample_lib counting_host once_machine once_step v st (0, None) = ((Inr (''ok'', []), []), (1, None))" for v st
    using found by (simp add: runPhase_def Let_def run_step_def counting_host_def SkipStep_def fillStatic_def)
  let ?res = "\<lparr>pr_text = ''ok'', pr_fields = [], pr_skipped = False, pr_skip_reason = []\<rparr>"
  obtain c where it: "walk_iter sample_lib counting_host once_machine zero_turn once_step [] 0 (set_opening zero_turn ?c)
      = WDone \<lparr>wk_result = Inr (once_step, stopTerminal), wk_notes = [], wk_world = 1, wk_cursor = c\<rparr>"
    and c: "map_of (cur_state c) ''once'' = Some ?res"
    using found
    by (simp add: walk_iter_def ph NextPhase_def accumulate_def hand_on_def record_result_def map_of_update_eq)
  have rn: "rn_result (RunUnattended sample_lib counting_host once_machine zero_turn 0 zero_cursor) = Inr ()"
    "rn_text (RunUnattended sample_lib counting_host once_machine zero_turn 0 zero_cursor) = ''ok''"
    using found c by (simp_all add: RunUnattended_def r Let_def walk_def cap it stop_result_def text_at_def)
  from a_successful_run_has_a_result [OF rn(1)] rn(2) show ?thesis by simp
qed

end
