(* ===== verification/Revisions.thy ===== *)
theory Revisions
  imports MachineModel
begin

text \<open>
  The kept versions of an authored definition (core/revisions/revisions.go): a ring of the last ten
  superseded records per definition, each filed under a number that never repeats.

  The store is an interface in the source too (\<open>Store\<close>): here a record of its operations over a state
  \<open>'s\<close>, and the locale \<open>kv_store\<close> states what a key-value store does. The package's lemmas are
  proved from those laws and interpreted on an in-memory store. \<open>json.Marshal\<close>, \<open>json.Unmarshal\<close>
  and the RFC 3339 rendering of a time are the record \<open>codec\<close>; a time is the number of ticks since
  Go's zero time, which is 0. A stored value is a ring or a definition of type \<open>'m\<close>: reading one as
  the other fails, as decoding it would.
\<close>

section \<open>Data\<close>

record Revision =
  rv_seq :: int
  rv_stamp :: string
  rv_reason :: string
  rv_body :: string

record ring =
  rg_entries :: "Revision list"
  rg_next :: int

datatype 'm stored = SRing ring | SDef 'm

record ('s, 'm) Store =
  s_get :: "'s \<Rightarrow> string \<Rightarrow> string \<Rightarrow> 'm stored option"
  s_set :: "'s \<Rightarrow> string \<Rightarrow> string \<Rightarrow> 'm stored \<Rightarrow> 's"
  s_unset :: "'s \<Rightarrow> string \<Rightarrow> string \<Rightarrow> 's"
  s_keys :: "'s \<Rightarrow> string \<Rightarrow> string list"

record 'a codec =
  cd_marshal :: "'a \<Rightarrow> string option"
  cd_unmarshal :: "string \<Rightarrow> 'a option"
  cd_object :: "string \<Rightarrow> (string \<times> val) list option"
  cd_rfc3339 :: "nat \<Rightarrow> string"

definition Table :: string where "Table = ''definition_revisions''"
definition Kept :: nat where "Kept = 10"
definition NoHistory :: string where "NoHistory = ''-''"
definition KindMachine :: string where "KindMachine = ''machine''"

definition ringKey :: "string \<Rightarrow> string \<Rightarrow> string" where
  "ringKey kind id0 = kind @ '':'' @ id0"

definition stampOf :: "'a codec \<Rightarrow> nat \<Rightarrow> string" where
  "stampOf C t = (if t = 0 then [] else cd_rfc3339 C t)"

section \<open>Operations\<close>

definition empty_ring :: ring where
  "empty_ring = \<lparr>rg_entries = [], rg_next = 0\<rparr>"

definition ring_of :: "('s, 'm) Store \<Rightarrow> 's \<Rightarrow> string \<Rightarrow> ring option" where
  "ring_of S db key = (case s_get S db Table key of Some (SRing r) \<Rightarrow> Some r | _ \<Rightarrow> None)"

definition push_ring :: "ring \<Rightarrow> string \<Rightarrow> string \<Rightarrow> string \<Rightarrow> ring" where
  "push_ring r0 stamp reason body =
     (let next = (if rg_next r0 < 1 then 1 else rg_next r0);
          es = rg_entries r0 @ [\<lparr>rv_seq = next, rv_stamp = stamp, rv_reason = reason, rv_body = body\<rparr>]
      in \<lparr>rg_entries = (if length es > Kept then drop (length es - Kept) es else es), rg_next = next + 1\<rparr>)"

text \<open>Returns the number filed under, 0 when nothing was stored, and the store.\<close>

definition Push ::
    "'a codec \<Rightarrow> ('s, 'm) Store \<Rightarrow> 's \<Rightarrow> string \<Rightarrow> string \<Rightarrow> 'a \<Rightarrow> nat \<Rightarrow> string \<Rightarrow> int \<times> 's" where
  "Push C S db kind id0 prior stamp reason =
     (if kind = [] \<or> id0 = [] \<or> reason = NoHistory then (0, db)
      else case cd_marshal C prior of
          None \<Rightarrow> (0, db)
        | Some blob \<Rightarrow>
            (let key = ringKey kind id0;
                 r = (case ring_of S db key of Some r \<Rightarrow> r | None \<Rightarrow> empty_ring);
                 r1 = push_ring r (stampOf C stamp) reason blob
             in (rg_next r1 - 1, s_set S db Table key (SRing r1))))"

definition List_revs :: "('s, 'm) Store \<Rightarrow> 's \<Rightarrow> string \<Rightarrow> string \<Rightarrow> Revision list" where
  "List_revs S db kind id0 =
     (if kind = [] \<or> id0 = [] then []
      else case ring_of S db (ringKey kind id0) of None \<Rightarrow> [] | Some r \<Rightarrow> rev (rg_entries r))"

definition Find :: "('s, 'm) Store \<Rightarrow> 's \<Rightarrow> string \<Rightarrow> string \<Rightarrow> string \<Rightarrow> Revision option" where
  "Find S db kind id0 ref0 =
     (case List_revs S db kind id0 of
        [] \<Rightarrow> None
      | newest # older \<Rightarrow>
          (let ref = trim_space (trim_prefix (trim_space ref0) ''#'') in
           if ref = [] then Some newest
           else case Atoi ref of
               Some n \<Rightarrow> find (\<lambda>r. rv_seq r = n) (newest # older)
             | None \<Rightarrow> find (\<lambda>r. rv_stamp r = ref) (newest # older)))"

definition Load :: "'a codec \<Rightarrow> ('s, 'm) Store \<Rightarrow> 's \<Rightarrow> string \<Rightarrow> string \<Rightarrow> string \<Rightarrow> 'a option" where
  "Load C S db kind id0 ref0 =
     (case Find S db kind id0 ref0 of None \<Rightarrow> None | Some rev0 \<Rightarrow> cd_unmarshal C (rv_body rev0))"

definition Delete_revs :: "('s, 'm) Store \<Rightarrow> 's \<Rightarrow> string \<Rightarrow> string \<Rightarrow> 's" where
  "Delete_revs S db kind id0 =
     (if kind \<noteq> [] \<and> id0 \<noteq> [] then s_unset S db Table (ringKey kind id0) else db)"

definition comparable :: "'a codec \<Rightarrow> 'a \<Rightarrow> string list \<Rightarrow> (string \<times> val) list option" where
  "comparable C v ignore =
     (case cd_marshal C v of
        None \<Rightarrow> None
      | Some blob \<Rightarrow> map_option (fold AList.delete ignore) (cd_object C blob))"

text \<open>\<open>reflect.DeepEqual\<close> on two decoded objects: the decoder lists an object's keys in one order.\<close>

definition Differs :: "'a codec \<Rightarrow> 'a \<Rightarrow> 'a \<Rightarrow> string list \<Rightarrow> bool" where
  "Differs C prior next ignore =
     (case (comparable C prior ignore, comparable C next ignore) of
        (Some a, Some b) \<Rightarrow> a \<noteq> b
      | _ \<Rightarrow> True)"

section \<open>The ring\<close>

definition ring_ok :: "ring \<Rightarrow> bool" where
  "ring_ok r \<longleftrightarrow> length (rg_entries r) \<le> Kept
     \<and> sorted_wrt (<) (map rv_seq (rg_entries r))
     \<and> (\<forall>e \<in> set (rg_entries r). 1 \<le> rv_seq e \<and> rv_seq e < rg_next r)"

lemma empty_ring_ok: "ring_ok empty_ring"
  by (simp add: ring_ok_def empty_ring_def)

lemma push_ring_entries:
  "rg_entries (push_ring r stamp reason body) =
     (let es = rg_entries r @ [\<lparr>rv_seq = max 1 (rg_next r), rv_stamp = stamp, rv_reason = reason, rv_body = body\<rparr>]
      in drop (length es - Kept) es)"
  by (simp add: push_ring_def Let_def max_def)

lemma push_ring_next: "rg_next (push_ring r stamp reason body) = max 1 (rg_next r) + 1"
  by (simp add: push_ring_def Let_def max_def)

lemma push_ring_rev:
  "rev (rg_entries (push_ring r stamp reason body)) =
     \<lparr>rv_seq = max 1 (rg_next r), rv_stamp = stamp, rv_reason = reason, rv_body = body\<rparr>
       # take (Kept - 1) (rev (rg_entries r))"
  by (simp add: push_ring_entries Let_def rev_drop take_Cons' Kept_def del: rev_append) (simp add: take_Cons' rev_take)

lemma push_ring_ok: "ring_ok r \<Longrightarrow> ring_ok (push_ring r stamp reason body)"
proof -
  assume ok: "ring_ok r"
  let ?x = "\<lparr>rv_seq = max 1 (rg_next r), rv_stamp = stamp, rv_reason = reason, rv_body = body\<rparr>"
  let ?es = "rg_entries r @ [?x]"
  have sorted: "sorted_wrt (<) (map rv_seq ?es)"
    using ok by (fastforce simp: ring_ok_def sorted_wrt_append)
  have "sorted_wrt (<) (map rv_seq (drop n ?es))" for n
    using sorted_wrt_drop [OF sorted, of n] by (simp only: drop_map)
  moreover have "1 \<le> rv_seq e \<and> rv_seq e < max 1 (rg_next r) + 1" if "e \<in> set (drop n ?es)" for e n
    using in_set_dropD [OF that] ok by (fastforce simp: ring_ok_def)
  moreover have "length (drop (length ?es - Kept) ?es) \<le> Kept" by simp
  moreover have e: "rg_entries (push_ring r stamp reason body) = drop (length ?es - Kept) ?es"
    by (simp only: push_ring_entries Let_def)
  ultimately show ?thesis unfolding ring_ok_def e push_ring_next by blast
qed

section \<open>What a key-value store promises\<close>

locale kv_store =
  fixes S :: "('s, 'm) Store"
  assumes get_set: "s_get S (s_set S db t k v) t' k' = (if t' = t \<and> k' = k then Some v else s_get S db t' k')"
    and get_unset: "s_get S (s_unset S db t k) t' k' = (if t' = t \<and> k' = k then None else s_get S db t' k')"
    and keys_get: "k \<in> set (s_keys S db t) \<longleftrightarrow> s_get S db t k \<noteq> None"
    and keys_distinct: "distinct (s_keys S db t)"
begin

lemma ring_of_set: "ring_of S (s_set S db Table k (SRing r)) k' = (if k' = k then Some r else ring_of S db k')"
  by (simp add: ring_of_def get_set)

lemma ring_of_unset: "ring_of S (s_unset S db Table k) k' = (if k' = k then None else ring_of S db k')"
  by (simp add: ring_of_def get_unset)

lemma ring_of_other: "t \<noteq> Table \<Longrightarrow> ring_of S (s_set S db t k v) k' = ring_of S db k'"
  by (simp add: ring_of_def get_set)

lemma ring_of_unset_other: "t \<noteq> Table \<Longrightarrow> ring_of S (s_unset S db t k) k' = ring_of S db k'"
  by (simp add: ring_of_def get_unset)

lemma Push_other_table: "t \<noteq> Table \<Longrightarrow> s_get S (snd (Push C S db kind id0 prior stamp reason)) t k = s_get S db t k"
  by (simp add: Push_def Let_def get_set split: option.splits)

lemma Push_List:
  assumes "kind \<noteq> []" "id0 \<noteq> []" "reason \<noteq> NoHistory" "cd_marshal C prior = Some blob"
  shows "List_revs S (snd (Push C S db kind id0 prior stamp reason)) kind id0 =
    \<lparr>rv_seq = fst (Push C S db kind id0 prior stamp reason), rv_stamp = stampOf C stamp,
      rv_reason = reason, rv_body = blob\<rparr> # take (Kept - 1) (List_revs S db kind id0)"
  using assms
  by (simp add: Push_def List_revs_def Let_def ring_of_set push_ring_rev push_ring_next empty_ring_def
      split: option.splits)

lemma Push_other_ring:
  assumes "ringKey kind' id' \<noteq> ringKey kind id0"
  shows "List_revs S (snd (Push C S db kind id0 prior stamp reason)) kind' id' = List_revs S db kind' id'"
  using assms by (simp add: Push_def List_revs_def Let_def ring_of_set split: option.splits)

lemma Push_ok:
  assumes "\<And>r. ring_of S db (ringKey kind id0) = Some r \<Longrightarrow> ring_ok r"
    and "ring_of S (snd (Push C S db kind id0 prior stamp reason)) (ringKey kind id0) = Some r'"
  shows "ring_ok r'"
  using assms push_ring_ok empty_ring_ok
  by (auto simp: Push_def Let_def ring_of_set split: if_splits option.splits)

lemma Delete_List: "List_revs S (Delete_revs S db kind id0) kind id0 = []"
  by (simp add: Delete_revs_def List_revs_def ring_of_unset split: option.splits)

end

text \<open>An in-memory store.\<close>

type_synonym 'm mem = "((string \<times> string) \<times> 'm stored) list"

definition mem_store :: "('m mem, 'm) Store" where
  "mem_store =
     \<lparr>s_get = \<lambda>db t k. map_of db (t, k), s_set = \<lambda>db t k v. AList.update (t, k) v db,
      s_unset = \<lambda>db t k. AList.delete (t, k) db,
      s_keys = \<lambda>db t. map snd (filter (\<lambda>p. fst p = t) (remdups (keys db)))\<rparr>"

interpretation mem: kv_store mem_store
proof
  fix db :: "'a mem" and t k t' k' v
  show "s_get mem_store (s_set mem_store db t k v) t' k' = (if t' = t \<and> k' = k then Some v else s_get mem_store db t' k')"
    by (simp add: mem_store_def map_of_update_eq)
  show "s_get mem_store (s_unset mem_store db t k) t' k' = (if t' = t \<and> k' = k then None else s_get mem_store db t' k')"
    by (simp add: mem_store_def map_of_delete_eq)
  show "k \<in> set (s_keys mem_store db t) \<longleftrightarrow> s_get mem_store db t k \<noteq> None"
    using map_of_neq_None [of db "(t, k)"] by (force simp: mem_store_def)
  show "distinct (s_keys mem_store db t)"
    by (auto simp: mem_store_def distinct_map inj_on_def)
qed

section \<open>Properties\<close>

text \<open>Filing a superseded version puts it first in the listing, under the number returned, and keeps the
  nine before it; every other definition's history is unchanged.\<close>

theorem Push_files_the_newest:
  assumes "kv_store S" "kind \<noteq> []" "id0 \<noteq> []" "reason \<noteq> NoHistory" "cd_marshal C prior = Some blob"
  shows "List_revs S (snd (Push C S db kind id0 prior stamp reason)) kind id0 =
      \<lparr>rv_seq = fst (Push C S db kind id0 prior stamp reason), rv_stamp = stampOf C stamp,
        rv_reason = reason, rv_body = blob\<rparr> # take 9 (List_revs S db kind id0)
    \<and> (ringKey kind' id' \<noteq> ringKey kind id0 \<longrightarrow>
        List_revs S (snd (Push C S db kind id0 prior stamp reason)) kind' id' = List_revs S db kind' id')"
proof (intro conjI impI)
  have nine: "Kept - 1 = 9" by (simp add: Kept_def)
  show "List_revs S (snd (Push C S db kind id0 prior stamp reason)) kind id0 =
      \<lparr>rv_seq = fst (Push C S db kind id0 prior stamp reason), rv_stamp = stampOf C stamp,
        rv_reason = reason, rv_body = blob\<rparr> # take 9 (List_revs S db kind id0)"
    by (rule kv_store.Push_List [OF assms, unfolded nine])
  assume "ringKey kind' id' \<noteq> ringKey kind id0"
  then show "List_revs S (snd (Push C S db kind id0 prior stamp reason)) kind' id' = List_revs S db kind' id'"
    by (rule kv_store.Push_other_ring [OF assms(1)])
qed

definition sample_codec :: "string codec" where
  "sample_codec = \<lparr>cd_marshal = \<lambda>s. Some s, cd_unmarshal = \<lambda>s. Some s,
     cd_object = \<lambda>s. Some [(''v'', VStr s)], cd_rfc3339 = \<lambda>n. itoa n\<rparr>"

theorem Push_files_the_newest_witness:
  "List_revs mem_store (snd (Push sample_codec mem_store ([] :: string mem) ''skill'' ''s1'' ''old'' 7 ''edited'')) ''skill'' ''s1''
     = [\<lparr>rv_seq = 1, rv_stamp = ''7'', rv_reason = ''edited'', rv_body = ''old''\<rparr>]"
proof -
  have c: "cd_marshal sample_codec ''old'' = Some ''old''" "''edited'' \<noteq> NoHistory"
    "fst (Push sample_codec mem_store ([] :: string mem) ''skill'' ''s1'' ''old'' 7 ''edited'') = 1"
    "stampOf sample_codec 7 = ''7''" "List_revs mem_store ([] :: string mem) ''skill'' ''s1'' = []"
    by code_simp+
  have "List_revs mem_store (snd (Push sample_codec mem_store ([] :: string mem) ''skill'' ''s1'' ''old'' 7 ''edited'')) ''skill'' ''s1''
      = \<lparr>rv_seq = fst (Push sample_codec mem_store ([] :: string mem) ''skill'' ''s1'' ''old'' 7 ''edited''),
          rv_stamp = stampOf sample_codec 7, rv_reason = ''edited'', rv_body = ''old''\<rparr>
        # take 9 (List_revs mem_store ([] :: string mem) ''skill'' ''s1'')"
    by (rule Push_files_the_newest [THEN conjunct1, OF mem.kv_store_axioms _ _ c(2) c(1)]) simp_all
  then show ?thesis by (simp add: c)
qed

text \<open>A history is at most ten versions deep, and its numbers strictly increase and are never reused: each
  is below the next to be given, and filing keeps this.\<close>

theorem Push_never_reuses_a_number:
  assumes "kv_store S" and "\<And>r. ring_of S db (ringKey kind id0) = Some r \<Longrightarrow> ring_ok r"
    and "ring_of S (snd (Push C S db kind id0 prior stamp reason)) (ringKey kind id0) = Some r'"
  shows "length (rg_entries r') \<le> 10 \<and> sorted_wrt (<) (map rv_seq (rg_entries r'))
    \<and> (\<forall>e \<in> set (rg_entries r'). 1 \<le> rv_seq e \<and> rv_seq e < rg_next r')"
  using kv_store.Push_ok [OF assms] by (simp add: ring_ok_def Kept_def)

theorem Push_never_reuses_a_number_witness:
  "\<exists>r'. ring_of mem_store (snd (Push sample_codec mem_store ([] :: string mem) ''skill'' ''s1'' ''old'' 7 ''edited'')) ''skill:s1'' = Some r'
     \<and> length (rg_entries r') \<le> 10"
proof -
  let ?db = "snd (Push sample_codec mem_store ([] :: string mem) ''skill'' ''s1'' ''old'' 7 ''edited'')"
  have k: "ringKey ''skill'' ''s1'' = ''skill:s1''" by code_simp
  obtain r' where r': "ring_of mem_store ?db (ringKey ''skill'' ''s1'') = Some r'"
    by (rule that [of "push_ring empty_ring ''7'' ''edited'' ''old''"]) code_simp
  have "ring_of mem_store ([] :: string mem) (ringKey ''skill'' ''s1'') = None" by code_simp
  then have "length (rg_entries r') \<le> 10"
    by (intro Push_never_reuses_a_number [THEN conjunct1, OF mem.kv_store_axioms _ r']) simp
  with r' show ?thesis unfolding k by blast
qed

lemma find_by_seq:
  "distinct (map rv_seq es) \<Longrightarrow> e \<in> set es \<Longrightarrow> find (\<lambda>r. rv_seq r = rv_seq e) es = Some e"
  by (induction es) (auto simp: image_iff)

lemma sorted_distinct_seqs: "sorted_wrt (<) (map rv_seq es) \<Longrightarrow> distinct (map rv_seq (rev es))"
  by (simp add: strict_sorted_iff rev_map [symmetric])

lemma Find_by_number:
  assumes "kv_store S" "kind \<noteq> []" "id0 \<noteq> []" "ring_of S db (ringKey kind id0) = Some r" "ring_ok r"
    and "e \<in> set (rg_entries r)" "trim_space (trim_prefix (trim_space ref0) ''#'') = n" "Atoi n = Some (rv_seq e)"
  shows "Find S db kind id0 ref0 = Some e"
proof -
  have l: "List_revs S db kind id0 = rev (rg_entries r)" using assms(2-4) by (simp add: List_revs_def)
  have ne: "n \<noteq> []" using assms(8) by (auto simp: Atoi_def has_prefix_def)
  have f: "find (\<lambda>q. rv_seq q = rv_seq e) (rev (rg_entries r)) = Some e"
    using assms(5,6) by (intro find_by_seq sorted_distinct_seqs) (auto simp: ring_ok_def)
  show ?thesis
    using assms(6,7,8) ne f by (auto simp: Find_def l Let_def split: list.splits)
qed

text \<open>A kept version is found again by its number, written plainly or with a hash, whatever was filed
  since: a reference never comes to name another version.\<close>

theorem a_number_names_one_version:
  assumes "kv_store S" "kind \<noteq> []" "id0 \<noteq> []" "ring_of S db (ringKey kind id0) = Some r" "ring_ok r"
    and "e \<in> set (rg_entries r)" "trim_space (trim_prefix (trim_space ref0) ''#'') = n" "Atoi n = Some (rv_seq e)"
  shows "Find S db kind id0 ref0 = Some e \<and> Load C S db kind id0 ref0 = cd_unmarshal C (rv_body e)"
  using Find_by_number [OF assms] by (simp add: Load_def)

theorem a_number_names_one_version_witness:
  "map_option rv_body (Find mem_store
     (snd (Push sample_codec mem_store (snd (Push sample_codec mem_store ([] :: string mem) ''skill'' ''s1'' ''v1'' 7 ''edited''))
        ''skill'' ''s1'' ''v2'' 8 ''edited'')) ''skill'' ''s1'' '' #1'') = Some ''v1''"
proof -
  let ?db = "snd (Push sample_codec mem_store (snd (Push sample_codec mem_store ([] :: string mem) ''skill'' ''s1'' ''v1'' 7 ''edited''))
        ''skill'' ''s1'' ''v2'' 8 ''edited'')"
  let ?r = "push_ring (push_ring empty_ring ''7'' ''edited'' ''v1'') ''8'' ''edited'' ''v2''"
  let ?e = "\<lparr>rv_seq = 1, rv_stamp = ''7'', rv_reason = ''edited'', rv_body = ''v1''\<rparr>"
  have h: "''skill'' \<noteq> []" "''s1'' \<noteq> []" "ring_of mem_store ?db (ringKey ''skill'' ''s1'') = Some ?r"
    "?e \<in> set (rg_entries ?r)" "trim_space (trim_prefix (trim_space '' #1'') ''#'') = ''1''"
    "Atoi ''1'' = Some (rv_seq ?e)" by code_simp+
  have "ring_ok ?r" by (intro push_ring_ok empty_ring_ok)
  from a_number_names_one_version [OF mem.kv_store_axioms h(1-3) this h(4-6), THEN conjunct1]
  show ?thesis by simp
qed

end
