(* ===== verification/MachineStore.thy ===== *)
theory MachineStore
  imports Revisions MachineChecks
begin

text \<open>
  Saving, listing, rolling back, deleting and moving machines between deployments
  (core/machine_def.go, from \<open>SaveMachineDef\<close> to \<open>ImportMachine\<close>), over the store interface of
  Revisions. A stored machine is the definition with the one-deep undo snapshot \<open>md_previous\<close>.

  The clock and the fresh identifier (\<open>UUIDv4\<close>) are arguments. The hooks an application installs are
  not called here: what \<open>MachineSavedHook\<close> receives is the returned definition, and what
  \<open>MachineDeletedHook\<close> receives is the second component \<open>DeleteMachineDef\<close> returns.
\<close>

section \<open>Operations\<close>

record StoredMachine = MachineDef +
  md_previous :: "MachineDef option"

definition MachineDefsTable :: string where "MachineDefsTable = ''machine_defs''"

definition get_machine ::
    "('s, StoredMachine) Store \<Rightarrow> 's \<Rightarrow> string \<Rightarrow> StoredMachine option" where
  "get_machine S db id0 = (case s_get S db MachineDefsTable id0 of Some (SDef d) \<Rightarrow> Some d | _ \<Rightarrow> None)"

definition prepare_save :: "string \<Rightarrow> nat \<Rightarrow> StoredMachine \<Rightarrow> StoredMachine" where
  "prepare_save fresh now d =
     d\<lparr>md_id := (if md_id d = [] then fresh else md_id d),
       md_created := (if md_created d = 0 then now else md_created d),
       md_updated := now\<rparr>"

definition file_prior ::
    "StoredMachine codec \<Rightarrow> ('s, StoredMachine) Store \<Rightarrow> 's \<Rightarrow> StoredMachine \<Rightarrow> string \<Rightarrow> 's" where
  "file_prior C S db d reason =
     (if reason \<noteq> NoHistory \<and> md_id d \<noteq> [] then
        (case get_machine S db (md_id d) of
           None \<Rightarrow> db
         | Some prior \<Rightarrow>
             if Differs C prior d [''updated'', ''previous'']
             then snd (Push C S db KindMachine (md_id d) (prior\<lparr>md_previous := None\<rparr>) (md_updated prior) reason)
             else db)
      else db)"

definition SaveMachineDefAs ::
    "StoredMachine codec \<Rightarrow> ('s, StoredMachine) Store \<Rightarrow> string \<Rightarrow> nat \<Rightarrow> 's \<Rightarrow> StoredMachine \<Rightarrow> string
      \<Rightarrow> StoredMachine \<times> 's" where
  "SaveMachineDefAs C S fresh now db d0 reason =
     (let d = prepare_save fresh now d0;
          db1 = file_prior C S db d reason
      in (d, s_set S db1 MachineDefsTable (md_id d) (SDef d)))"

definition SaveMachineDef ::
    "StoredMachine codec \<Rightarrow> ('s, StoredMachine) Store \<Rightarrow> string \<Rightarrow> nat \<Rightarrow> 's \<Rightarrow> StoredMachine \<Rightarrow> StoredMachine \<times> 's" where
  "SaveMachineDef C S fresh now db d = SaveMachineDefAs C S fresh now db d ''update''"

datatype store_err =
    RollbackNeedsMachine
  | NoKeptVersion string
  | UnreadableVersion int
  | RecipeNoName
  | RecipeNoSteps

definition keep_reach :: "StoredMachine \<Rightarrow> StoredMachine \<Rightarrow> StoredMachine" where
  "keep_reach current restored =
     restored\<lparr>md_allowed_users := md_allowed_users current, md_editors := md_editors current,
       md_published := md_published current, md_owner := md_owner current\<rparr>"

definition RollbackMachineDef ::
    "StoredMachine codec \<Rightarrow> ('s, StoredMachine) Store \<Rightarrow> nat \<Rightarrow> 's \<Rightarrow> string \<Rightarrow> string
      \<Rightarrow> store_err + (StoredMachine \<times> 's)" where
  "RollbackMachineDef C S now db id0 ref0 =
     (if id0 = [] then Inl RollbackNeedsMachine
      else case Find S db KindMachine id0 ref0 of
          None \<Rightarrow> Inl (NoKeptVersion ref0)
        | Some rev0 \<Rightarrow>
            (case Load C S db KindMachine id0 ref0 of
               None \<Rightarrow> Inl (UnreadableVersion (rv_seq rev0))
             | Some d \<Rightarrow>
                 (let restored = d\<lparr>md_id := id0\<rparr>;
                      restored1 = (case get_machine S db id0 of
                          Some current \<Rightarrow> keep_reach current restored | None \<Rightarrow> restored)
                  in Inr (SaveMachineDefAs C S [] now db restored1
                            (''rolled back to #'' @ itoa_int (rv_seq rev0))))))"

definition owned_by :: "string \<Rightarrow> StoredMachine \<Rightarrow> bool" where
  "owned_by owner d \<longleftrightarrow> \<not> (owner \<noteq> [] \<and> md_owner d \<noteq> [] \<and> md_owner d \<noteq> owner)"

definition LoadMachineDef ::
    "('s, StoredMachine) Store \<Rightarrow> 's \<Rightarrow> string \<Rightarrow> string \<Rightarrow> StoredMachine option" where
  "LoadMachineDef S db owner id0 =
     (if id0 = [] then None
      else case get_machine S db id0 of
          None \<Rightarrow> None
        | Some d \<Rightarrow> if owned_by owner d then Some d else None)"

definition ListMachineDefs :: "('s, StoredMachine) Store \<Rightarrow> 's \<Rightarrow> string \<Rightarrow> StoredMachine list" where
  "ListMachineDefs S db owner =
     sort_key (\<lambda>d. - int (md_updated d))
       (filter (owned_by owner) (List.map_filter (get_machine S db) (s_keys S db MachineDefsTable)))"

definition DeleteMachineDef ::
    "('s, StoredMachine) Store \<Rightarrow> 's \<Rightarrow> string \<Rightarrow> 's \<times> (string \<times> string \<times> string) option" where
  "DeleteMachineDef S db id0 =
     (if id0 = [] then (db, None)
      else
        (Delete_revs S (s_unset S db MachineDefsTable id0) KindMachine id0,
         map_option (\<lambda>d. (md_owner d, md_id d, md_name d)) (LoadMachineDef S db [] id0)))"

definition ExportMachine :: "StoredMachine \<Rightarrow> StoredMachine" where
  "ExportMachine d = d\<lparr>md_owner := [], md_allowed_users := [], md_editors := [], md_published := False,
     md_created := 0, md_updated := 0, md_previous := None\<rparr>"

definition ImportMachine ::
    "StoredMachine codec \<Rightarrow> ('s, StoredMachine) Store \<Rightarrow> string \<Rightarrow> nat \<Rightarrow> 's \<Rightarrow> string \<Rightarrow> StoredMachine
      \<Rightarrow> store_err + (StoredMachine \<times> 's)" where
  "ImportMachine C S fresh now db owner recipe =
     (if trim_space (md_name recipe) = [] then Inl RecipeNoName
      else if md_phases recipe = [] then Inl RecipeNoSteps
      else
        let r1 = (if md_id recipe \<noteq> [] \<and> LoadMachineDef S db [] (md_id recipe) \<noteq> None
                  then recipe\<lparr>md_id := []\<rparr> else recipe);
            r2 = (ExportMachine r1)\<lparr>md_owner := owner\<rparr>
        in Inr (SaveMachineDef C S fresh now db r2))"

section \<open>What saving does to the store\<close>

lemma tables_differ [simp]: "MachineDefsTable \<noteq> Table" "Table \<noteq> MachineDefsTable"
  by (simp_all add: MachineDefsTable_def Table_def)

lemma owned_by_anyone [simp]: "owned_by [] d"
  by (simp add: owned_by_def)

lemma file_prior_cases:
  "file_prior C S db d reason = db \<or>
   (\<exists>prior. get_machine S db (md_id d) = Some prior \<and>
      file_prior C S db d reason
        = snd (Push C S db KindMachine (md_id d) (prior\<lparr>md_previous := None\<rparr>) (md_updated prior) reason))"
  by (auto simp: file_prior_def split: option.splits)

locale machine_store = kv_store S for S :: "('s, StoredMachine) Store"
begin

lemma get_machine_set:
  "get_machine S (s_set S db MachineDefsTable k (SDef d)) k' = (if k' = k then Some d else get_machine S db k')"
  by (simp add: get_machine_def get_set)

lemma get_machine_other: "t \<noteq> MachineDefsTable \<Longrightarrow> get_machine S (s_set S db t k v) k' = get_machine S db k'"
  by (simp add: get_machine_def get_set)

lemma get_machine_unset:
  "get_machine S (s_unset S db MachineDefsTable k) k' = (if k' = k then None else get_machine S db k')"
  by (simp add: get_machine_def get_unset)

lemma get_machine_unset_other: "t \<noteq> MachineDefsTable \<Longrightarrow> get_machine S (s_unset S db t k) k' = get_machine S db k'"
  by (simp add: get_machine_def get_unset)

lemma get_machine_file_prior: "get_machine S (file_prior C S db d reason) k = get_machine S db k"
proof -
  have "get_machine S (snd (Push C S db kind id0 prior stamp why)) k = get_machine S db k" for kind id0 prior stamp why
    by (simp add: get_machine_def Push_other_table)
  with file_prior_cases [of C S db d reason] show ?thesis by auto
qed

lemma Save_get:
  "SaveMachineDefAs C S fresh now db d0 reason = (d, db') \<Longrightarrow>
     get_machine S db' k = (if k = md_id d then Some d else get_machine S db k)"
  by (auto simp: SaveMachineDefAs_def Let_def get_machine_set get_machine_file_prior)

lemma Delete_get:
  "get_machine S (fst (DeleteMachineDef S db id0)) k =
     (if k = id0 \<and> id0 \<noteq> [] then None else get_machine S db k)"
  by (simp add: DeleteMachineDef_def Delete_revs_def get_machine_unset get_machine_unset_other)

lemma List_set:
  "set (ListMachineDefs S db owner) = {d. owned_by owner d \<and> (\<exists>k. get_machine S db k = Some d)}"
proof -
  have "get_machine S db k = Some d \<Longrightarrow> k \<in> set (s_keys S db MachineDefsTable)" for k d
    by (auto simp: keys_get get_machine_def split: option.splits)
  then show ?thesis
    unfolding ListMachineDefs_def List.map_filter_def by (force intro: rev_image_eqI)
qed

lemma Save_files_prior:
  assumes "get_machine S db (md_id d) = Some prior" "md_id d \<noteq> []" "reason \<noteq> NoHistory"
    and "Differs C prior (prepare_save fresh now d) [''updated'', ''previous'']"
    and "cd_marshal C (prior\<lparr>md_previous := None\<rparr>) = Some blob"
  shows "\<exists>n. Find S (snd (SaveMachineDefAs C S fresh now db d reason)) KindMachine (md_id d) []
    = Some \<lparr>rv_seq = n, rv_stamp = stampOf C (md_updated prior), rv_reason = reason, rv_body = blob\<rparr>"
proof -
  let ?p = "prepare_save fresh now d"
  let ?push = "Push C S db KindMachine (md_id d) (prior\<lparr>md_previous := None\<rparr>) (md_updated prior) reason"
  have id: "md_id ?p = md_id d" using assms(2) by (simp add: prepare_save_def)
  have fp: "file_prior C S db ?p reason = snd ?push"
    using assms(1-4) by (simp add: file_prior_def id)
  let ?db' = "snd (SaveMachineDefAs C S fresh now db d reason)"
  have db': "?db' = s_set S (snd ?push) MachineDefsTable (md_id d) (SDef ?p)"
    by (simp add: SaveMachineDefAs_def Let_def fp id)
  have "List_revs S ?db' KindMachine (md_id d) = List_revs S (snd ?push) KindMachine (md_id d)"
    unfolding db' by (simp add: List_revs_def ring_of_other)
  moreover have "List_revs S (snd ?push) KindMachine (md_id d) =
      \<lparr>rv_seq = fst ?push, rv_stamp = stampOf C (md_updated prior), rv_reason = reason, rv_body = blob\<rparr>
        # take (Kept - 1) (List_revs S db KindMachine (md_id d))"
    using assms(2,3,5) by (intro Push_List) (simp_all add: KindMachine_def)
  ultimately show ?thesis
    by (auto simp: Find_def Let_def trim_prefix_def has_prefix_def)
qed

end

interpretation mem_machines: machine_store mem_store
  by unfold_locales

section \<open>Properties\<close>

definition sample_machine :: StoredMachine where
  "sample_machine = MachineDef.extend (StarterMachine\<lparr>md_id := ''m1'', md_owner := ''ana'', md_editors := [''bo''],
     md_published := True, md_created := 3, md_updated := 4\<rparr>) \<lparr>md_previous = None\<rparr>"

text \<open>A codec for examples: it tells machines apart by their names, and reads every body as the sample.\<close>

definition machine_codec :: "StoredMachine codec" where
  "machine_codec = \<lparr>cd_marshal = \<lambda>d. Some (md_name d), cd_unmarshal = \<lambda>_. Some sample_machine,
     cd_object = \<lambda>s. Some [(''name'', VStr s)], cd_rfc3339 = itoa\<rparr>"

text \<open>A saved machine is the one found under its identifier, with one minted when it had none, its creation
  time kept and its update time the clock's; no other machine in the store changes.\<close>

theorem a_saved_machine_is_found:
  assumes "kv_store S" "SaveMachineDefAs C S fresh now db d0 reason = (d, db')"
  shows "get_machine S db' k = (if k = md_id d then Some d else get_machine S db k)
    \<and> md_id d = (if md_id d0 = [] then fresh else md_id d0) \<and> md_updated d = now
    \<and> md_phases d = md_phases d0"
proof -
  have "get_machine S db' k = (if k = md_id d then Some d else get_machine S db k)"
    using assms(1) by (intro machine_store.Save_get [OF _ assms(2)]) (rule machine_store.intro)
  moreover have "d = prepare_save fresh now d0" using assms(2) by (simp add: SaveMachineDefAs_def Let_def)
  ultimately show ?thesis by (simp add: prepare_save_def)
qed

theorem a_saved_machine_is_found_witness:
  "get_machine mem_store (snd (SaveMachineDefAs machine_codec mem_store ''x'' 9 [] sample_machine ''update'')) ''m1''
     = Some (sample_machine\<lparr>md_updated := 9\<rparr>)"
proof -
  have e: "SaveMachineDefAs machine_codec mem_store ''x'' 9 [] sample_machine ''update''
      = (fst (SaveMachineDefAs machine_codec mem_store ''x'' 9 [] sample_machine ''update''),
         snd (SaveMachineDefAs machine_codec mem_store ''x'' 9 [] sample_machine ''update''))" by simp
  have f: "fst (SaveMachineDefAs machine_codec mem_store ''x'' 9 [] sample_machine ''update'')
      = sample_machine\<lparr>md_updated := 9\<rparr>" by code_simp
  have i: "md_id (sample_machine\<lparr>md_updated := 9\<rparr>) = ''m1''" by code_simp
  show ?thesis
    using a_saved_machine_is_found [OF mem.kv_store_axioms e, of "''m1''", THEN conjunct1]
    unfolding f i by simp
qed

text \<open>C29: Importing a recipe never overwrites: the machine it stores is under an identifier nothing had, every
  machine already stored is still there unchanged, and the copy is the importer's own, shared with
  nobody and unpublished, with the recipe's steps.\<close>

theorem an_import_never_clobbers:
  assumes "kv_store S" "get_machine S db fresh = None" "fresh \<noteq> []"
    and "ImportMachine C S fresh now db owner recipe = Inr (d, db')"
  shows "get_machine S db (md_id d) = None
    \<and> (\<forall>k x. get_machine S db k = Some x \<longrightarrow> get_machine S db' k = Some x)
    \<and> get_machine S db' (md_id d) = Some d
    \<and> md_owner d = owner \<and> md_allowed_users d = [] \<and> md_editors d = [] \<and> \<not> md_published d
    \<and> md_phases d = md_phases recipe"
proof -
  have ms: "machine_store S" using assms(1) by (rule machine_store.intro)
  let ?r1 = "if md_id recipe \<noteq> [] \<and> LoadMachineDef S db [] (md_id recipe) \<noteq> None
      then recipe\<lparr>md_id := []\<rparr> else recipe"
  let ?r2 = "(ExportMachine ?r1)\<lparr>md_owner := owner\<rparr>"
  have save: "SaveMachineDefAs C S fresh now db ?r2 ''update'' = (d, db')"
    using assms(4) by (auto simp: ImportMachine_def Let_def SaveMachineDef_def split: if_splits)
  have d: "d = prepare_save fresh now ?r2" using save by (simp add: SaveMachineDefAs_def Let_def)
  have new: "get_machine S db (md_id d) = None"
    using assms(2) unfolding d
    by (auto simp: prepare_save_def ExportMachine_def LoadMachineDef_def split: option.splits if_splits)
  show ?thesis
    using new machine_store.Save_get [OF ms save] unfolding d
    by (auto simp: prepare_save_def ExportMachine_def)
qed

theorem an_import_never_clobbers_witness:
  "\<exists>d db'. ImportMachine machine_codec mem_store ''m2'' 9 [((''machine_defs'', ''m1''), SDef sample_machine)] ''bo'' sample_machine
       = Inr (d, db')
     \<and> get_machine mem_store db' ''m1'' = Some sample_machine \<and> md_owner d = ''bo''"
proof -
  let ?db = "[((''machine_defs'', ''m1''), SDef sample_machine)]"
  obtain d db' where i: "ImportMachine machine_codec mem_store ''m2'' 9 ?db ''bo'' sample_machine = Inr (d, db')"
    by (rule that [of "sample_machine\<lparr>md_id := ''m2'', md_owner := ''bo'', md_editors := [], md_published := False,
        md_created := 9, md_updated := 9\<rparr>"
        "?db @ [((''machine_defs'', ''m2''), SDef (sample_machine\<lparr>md_id := ''m2'', md_owner := ''bo'', md_editors := [],
          md_published := False, md_created := 9, md_updated := 9\<rparr>))]"]) code_simp
  have g: "get_machine mem_store ?db ''m2'' = None" "get_machine mem_store ?db ''m1'' = Some sample_machine"
    by code_simp+
  from an_import_never_clobbers [OF mem.kv_store_axioms g(1) _ i] g(2) i show ?thesis by auto
qed

text \<open>A recipe that went out and comes back to a store that does not have it keeps its identifier, and is
  the machine that left but for its owner, its grants and its times.\<close>

theorem a_recipe_comes_back:
  assumes "trim_space (md_name d) \<noteq> []" "md_phases d \<noteq> []" "md_id d \<noteq> []" "get_machine S db (md_id d) = None"
  shows "\<exists>db'. ImportMachine C S fresh now db owner (ExportMachine d) =
    Inr (d\<lparr>md_owner := owner, md_allowed_users := [], md_editors := [], md_published := False,
           md_created := now, md_updated := now, md_previous := None\<rparr>, db')"
  using assms
  by (simp add: ImportMachine_def ExportMachine_def LoadMachineDef_def SaveMachineDef_def SaveMachineDefAs_def
      Let_def prepare_save_def)

theorem a_recipe_comes_back_witness:
  "\<exists>d' db'. ImportMachine machine_codec mem_store ''x'' 9 [] ''cy'' (ExportMachine sample_machine) = Inr (d', db')
     \<and> md_phases d' = md_phases sample_machine \<and> md_id d' = ''m1''"
proof -
  have h: "trim_space (md_name sample_machine) \<noteq> []" "md_phases sample_machine \<noteq> []" "md_id sample_machine = ''m1''"
    "get_machine mem_store [] (md_id sample_machine) = None" by code_simp+
  from a_recipe_comes_back [OF h(1,2) _ h(4), of machine_codec "''x''" 9 "''cy''"] h(3)
  show ?thesis by auto
qed

text \<open>C30: A save that changes a machine can be undone: after a save that is kept in the history, over a store that
  keeps its contract and a codec that reads back what it writes, rolling back to the most recent kept version
  answers the replaced definition and leaves it stored, except that who it belongs to and who it reaches stay
  as they are now; every other machine is as it was.\<close>

theorem a_save_can_be_rolled_back:
  assumes "kv_store S" "\<And>v b. cd_marshal C v = Some b \<Longrightarrow> cd_unmarshal C b = Some v"
    and "get_machine S db (md_id d) = Some prior" "md_id d \<noteq> []" "reason \<noteq> NoHistory"
    and "Differs C prior (prepare_save fresh now d) [''updated'', ''previous'']"
    and "cd_marshal C (prior\<lparr>md_previous := None\<rparr>) = Some blob"
  shows "\<exists>restored db2. restored = prepare_save [] now2 (keep_reach d (prior\<lparr>md_previous := None, md_id := md_id d\<rparr>))
    \<and> RollbackMachineDef C S now2 (snd (SaveMachineDefAs C S fresh now db d reason)) (md_id d) [] = Inr (restored, db2)
    \<and> (\<forall>k. get_machine S db2 k = (if k = md_id d then Some restored else get_machine S db k))"
proof -
  have ms: "machine_store S" using assms(1) by (rule machine_store.intro)
  let ?sv = "SaveMachineDefAs C S fresh now db d reason"
  obtain n where f: "Find S (snd ?sv) KindMachine (md_id d) []
      = Some \<lparr>rv_seq = n, rv_stamp = stampOf C (md_updated prior), rv_reason = reason, rv_body = blob\<rparr>"
    using machine_store.Save_files_prior [OF ms assms(3-7)] by blast
  have l: "Load C S (snd ?sv) KindMachine (md_id d) [] = Some (prior\<lparr>md_previous := None\<rparr>)"
    using assms(2) [OF assms(7)] by (simp add: Load_def f)
  have sv: "?sv = (fst ?sv, snd ?sv)" by simp
  have "fst ?sv = prepare_save fresh now d" by (simp add: SaveMachineDefAs_def Let_def)
  then have g: "get_machine S (snd ?sv) (md_id d) = Some (prepare_save fresh now d)"
    using machine_store.Save_get [OF ms sv, of "md_id d"] assms(4) by (simp add: prepare_save_def)
  define db1 where "db1 = snd ?sv"
  define restored where "restored = prepare_save [] now2 (keep_reach d (prior\<lparr>md_previous := None, md_id := md_id d\<rparr>))"
  obtain m db2 where save: "SaveMachineDefAs C S [] now2 db1
      (keep_reach (prepare_save fresh now d) (prior\<lparr>md_previous := None, md_id := md_id d\<rparr>))
      (''rolled back to #'' @ itoa_int n) = (m, db2)" by force
  then have m: "m = restored" "md_id restored = md_id d"
    using assms(4) by (auto simp: SaveMachineDefAs_def Let_def keep_reach_def prepare_save_def restored_def)
  have "RollbackMachineDef C S now2 db1 (md_id d) [] = Inr (restored, db2)"
    using assms(4) f l g save m(1) unfolding db1_def [symmetric] by (simp add: RollbackMachineDef_def)
  moreover have "get_machine S db2 k = (if k = md_id d then Some restored else get_machine S db k)" for k
  proof -
    have "get_machine S db1 k = (if k = md_id (prepare_save fresh now d) then Some (prepare_save fresh now d) else get_machine S db k)"
      using machine_store.Save_get [OF ms sv, of k] \<open>fst ?sv = prepare_save fresh now d\<close> by (simp add: db1_def)
    then show ?thesis
      using machine_store.Save_get [OF ms save, of k] m assms(4) by (simp add: prepare_save_def)
  qed
  ultimately show ?thesis unfolding db1_def restored_def by blast
qed

definition ident_codec :: "StoredMachine codec" where
  "ident_codec = \<lparr>cd_marshal = \<lambda>d. if d = sample_machine then Some ''1'' else None,
     cd_unmarshal = \<lambda>b. if b = ''1'' then Some sample_machine else None,
     cd_object = \<lambda>s. Some [(''v'', VStr s)], cd_rfc3339 = itoa\<rparr>"

theorem a_save_can_be_rolled_back_witness:
  "\<exists>db2. RollbackMachineDef ident_codec mem_store 20
     (snd (SaveMachineDefAs ident_codec mem_store ''x'' 9 [((''machine_defs'', ''m1''), SDef sample_machine)]
        (sample_machine\<lparr>md_name := ''renamed'', md_owner := ''cy''\<rparr>) ''update'')) ''m1'' []
   = Inr (sample_machine\<lparr>md_owner := ''cy'', md_updated := 20\<rparr>, db2)
     \<and> get_machine mem_store db2 ''m1'' = Some (sample_machine\<lparr>md_owner := ''cy'', md_updated := 20\<rparr>)"
proof -
  let ?db = "[((''machine_defs'', ''m1''), SDef sample_machine)]"
  let ?d = "sample_machine\<lparr>md_name := ''renamed'', md_owner := ''cy''\<rparr>"
  have rt: "cd_marshal ident_codec v = Some b \<Longrightarrow> cd_unmarshal ident_codec b = Some v" for v b
    by (auto simp: ident_codec_def split: if_splits)
  have i: "md_id ?d = ''m1''" by code_simp
  have h: "get_machine mem_store ?db (md_id ?d) = Some sample_machine" "md_id ?d \<noteq> []" "''update'' \<noteq> NoHistory"
    "Differs ident_codec sample_machine (prepare_save ''x'' 9 ?d) [''updated'', ''previous'']"
    "cd_marshal ident_codec (sample_machine\<lparr>md_previous := None\<rparr>) = Some ''1''" by code_simp+
  have r: "prepare_save [] 20 (keep_reach ?d (sample_machine\<lparr>md_previous := None, md_id := md_id ?d\<rparr>))
      = sample_machine\<lparr>md_owner := ''cy'', md_updated := 20\<rparr>" by code_simp
  from a_save_can_be_rolled_back [OF mem.kv_store_axioms rt h, of 20] show ?thesis
    unfolding r unfolding i by auto
qed

text \<open>The listing is every stored machine the owner may see and no other, most recently updated first, and
  a deleted machine, with its history, is gone from it while every other is still found.\<close>

theorem listing_and_deleting:
  assumes "kv_store S"
  shows "set (ListMachineDefs S db owner) = {d. owned_by owner d \<and> (\<exists>k. get_machine S db k = Some d)}
    \<and> sorted_wrt (\<lambda>a b. md_updated a \<ge> md_updated b) (ListMachineDefs S db owner)
    \<and> (id0 \<noteq> [] \<longrightarrow> List_revs S (fst (DeleteMachineDef S db id0)) KindMachine id0 = []
         \<and> get_machine S (fst (DeleteMachineDef S db id0)) k = (if k = id0 then None else get_machine S db k))"
proof -
  have ms: "machine_store S" using assms by (rule machine_store.intro)
  have "sorted_wrt (\<lambda>a b. - int (md_updated a) \<le> - int (md_updated b)) (ListMachineDefs S db owner)"
    unfolding ListMachineDefs_def using sorted_sort_key [of "\<lambda>d. - int (md_updated d)"]
    by (simp add: sorted_wrt_map)
  then have "sorted_wrt (\<lambda>a b. md_updated a \<ge> md_updated b) (ListMachineDefs S db owner)"
    by (rule sorted_wrt_mono_rel [rotated]) simp
  moreover have "List_revs S (fst (DeleteMachineDef S db id0)) KindMachine id0 = []" if "id0 \<noteq> []"
    using that by (simp add: DeleteMachineDef_def kv_store.Delete_List [OF assms])
  ultimately show ?thesis
    using machine_store.List_set [OF ms] machine_store.Delete_get [OF ms] by simp
qed

theorem listing_and_deleting_witness:
  "set (ListMachineDefs mem_store [] ''ana'') = {d. owned_by ''ana'' d \<and> (\<exists>k. get_machine mem_store [] k = Some d)}"
  by (rule listing_and_deleting [THEN conjunct1, OF mem.kv_store_axioms])

end
