(* ===== verification/PipelineModel.thy ===== *)
theory PipelineModel
  imports MachineChecks
begin

text \<open>
  Pipeline definitions (core/pipeline_def.go): the stages with the source's fields, the settings a
  stage resolves to (thinking, reach, what it asks the model for) and the template vocabulary of a
  stage's prompt (\<open>stageRefs\<close>, \<open>resolveStageTemplate\<close>).

  A stage's body is a list of stages, so a stage is a datatype over the record of its other fields.
  The legacy \<open>Think\<close> pointer is an option. A map the code walks in Go's unspecified order is an
  association list, and the walk is over its list order.
\<close>

section \<open>Data\<close>

record StageFields =
  sf_name :: string
  sf_kind :: string
  sf_prompt :: string
  sf_agent :: string
  sf_reach :: string
  sf_tools :: "string list"
  sf_think_mode :: string
  sf_think :: "bool option"
  sf_panel :: "string list"
  sf_research :: int
  sf_fan_over :: string
  sf_cite :: bool
  sf_check :: string
  sf_render :: string
  sf_card :: "(string \<times> string) list"
  sf_output :: "PipelineField list"
  sf_count :: int
  sf_count_from :: string
  sf_until :: string
  sf_collect :: string
  sf_when :: string
  sf_tool :: string
  sf_machine :: string
  sf_args :: "(string \<times> string) list"
  sf_model :: string
  sf_skip_to :: string

datatype PipelineStage = PipelineStage (sg: StageFields) (sg_body: "PipelineStage list")

abbreviation sg_name :: "PipelineStage \<Rightarrow> string" where "sg_name s \<equiv> sf_name (sg s)"

definition zero_stage :: StageFields where
  "zero_stage = \<lparr>sf_name = [], sf_kind = [], sf_prompt = [], sf_agent = [], sf_reach = [], sf_tools = [],
     sf_think_mode = [], sf_think = None, sf_panel = [], sf_research = 0, sf_fan_over = [], sf_cite = False,
     sf_check = [], sf_render = [], sf_card = [], sf_output = [], sf_count = 0, sf_count_from = [],
     sf_until = [], sf_collect = [], sf_when = [], sf_tool = [], sf_machine = [], sf_args = [], sf_model = [],
     sf_skip_to = []\<rparr>"

definition StageWorker :: string where "StageWorker = ''worker''"
definition StageAgent :: string where "StageAgent = ''agent''"
definition StageFanout :: string where "StageFanout = ''fanout''"
definition StageSynthesize :: string where "StageSynthesize = ''synthesize''"
definition StageLoop :: string where "StageLoop = ''loop''"
definition StageBranch :: string where "StageBranch = ''branch''"
definition StageTool :: string where "StageTool = ''tool''"
definition StageMachine :: string where "StageMachine = ''machine''"
definition StageVerify :: string where "StageVerify = ''verify''"
definition StageGather :: string where "StageGather = ''gather''"
definition StagePanel :: string where "StagePanel = ''panel''"

lemmas stage_kind_defs = StageWorker_def StageAgent_def StageFanout_def StageSynthesize_def StageLoop_def
  StageBranch_def StageTool_def StageMachine_def StageVerify_def StageGather_def StagePanel_def

definition loopMaxIterations :: int where "loopMaxIterations = 25"
definition panelMaxVoices :: nat where "panelMaxVoices = 8"
definition panelMaxRounds :: int where "panelMaxRounds = 4"
definition gatherMaxPages :: int where "gatherMaxPages = 12"
definition panelMaxResearch :: int where "panelMaxResearch = 4"

section \<open>Settings a stage resolves to\<close>

definition StageThinkMode :: "StageFields \<Rightarrow> string" where
  "StageThinkMode s =
     (let m = to_lower (trim_space (sf_think_mode s)) in
      if m \<noteq> [] then m
      else case sf_think s of Some True \<Rightarrow> ''on'' | Some False \<Rightarrow> ''off'' | None \<Rightarrow> [])"

definition StageThinks :: "StageFields \<Rightarrow> bool" where
  "StageThinks s \<longleftrightarrow> StageThinkMode s = ''on''"

text \<open>
  \<open>normalizeStageThink\<close> folds the legacy field into the string one, through every body.
\<close>

definition normalize_think :: "StageFields \<Rightarrow> StageFields" where
  "normalize_think s =
     s\<lparr>sf_think_mode := (if sf_think_mode s = [] \<and> sf_think s \<noteq> None then StageThinkMode s else sf_think_mode s),
       sf_think := None\<rparr>"

primrec normalizeStageThink :: "PipelineStage \<Rightarrow> PipelineStage" where
  "normalizeStageThink (PipelineStage s body) = PipelineStage (normalize_think s) (map normalizeStageThink body)"

text \<open>
  \<open>thinkModeFromJSON\<close> on the decoded value of the key, \<open>None\<close> when the key is absent. Go decodes a JSON
  \<open>null\<close> into a string without error, leaving it empty.
\<close>

definition thinkModeFromJSON :: "val option \<Rightarrow> string" where
  "thinkModeFromJSON raw =
     (case raw of
        Some (VStr s) \<Rightarrow>
          (let m = to_lower (trim_space s) in if m = ''on'' \<or> m = ''off'' then m else [])
      | Some (VBool b) \<Rightarrow> (if b then ''on'' else ''off'')
      | _ \<Rightarrow> [])"

definition stage_ModelOutput :: "StageFields \<Rightarrow> PipelineField list" where
  "stage_ModelOutput s = filter (\<lambda>f. trim_space (f_from f) = []) (sf_output s)"

definition stage_StaticFields :: "StageFields \<Rightarrow> PipelineField list" where
  "stage_StaticFields s = filter (\<lambda>f. trim_space (f_from f) \<noteq> []) (sf_output s)"

definition StageReach :: "StageFields \<Rightarrow> string" where
  "StageReach s =
     (let r = trim_space (sf_reach s) in
      if r \<noteq> [] then r
      else if \<exists>n \<in> set (sf_tools s). trim_space n = NoToolsMarker then ReachNone
      else ReachAll)"

definition StageTools :: "StageFields \<Rightarrow> AgentToolDef list \<Rightarrow> AgentToolDef list" where
  "StageTools s inherited =
     (if StageReach s = ReachNone then []
      else resolveStageTools (sf_tools s)
             (if StageReach s = ReachRead then FilterToolsByCaps inherited (ReachAllowsCaps ReachRead) else inherited))"

definition stageTier :: "StageFields \<Rightarrow> LLMTier" where
  "stageTier s = (if equal_fold (trim_space (sf_model s)) ''lead'' then LEAD else WORKER)"

text \<open>A stage's tools are a subsequence of the caller's: the contract every narrowing of tools keeps.\<close>

interpretation stage_tools: narrowing "StageTools s" for s
proof
  fix ts
  have "subseq (resolveStageTools (sf_tools s) (FilterToolsByCaps ts a)) ts" for a
    by (rule subseq_order.order_trans [OF names_stage.narrow_subseq caps_stage.narrow_subseq])
  then show "subseq (StageTools s ts) ts"
    by (simp add: StageTools_def names_stage.narrow_subseq)
qed

section \<open>References and templates\<close>

definition stage_open :: string where "stage_open = ''{stage:''"

text \<open>Unlike \<open>stateRefs\<close>, an empty reference is kept.\<close>

function stageRefs :: "string \<Rightarrow> string list" where
  "stageRefs tmpl =
     (case index_of tmpl stage_open of
        None \<Rightarrow> []
      | Some i \<Rightarrow>
          (let rest = drop (i + 7) tmpl in
           case index_of rest ''}'' of
             None \<Rightarrow> []
           | Some j \<Rightarrow> trim_space (take j rest) # stageRefs (drop (j + 1) rest)))"
  by pat_completeness auto
termination
proof (relation "measure length")
  fix tmpl :: string and i and rest :: string and j
  assume "index_of tmpl stage_open = Some i" "rest = drop (i + 7) tmpl"
  moreover have "length stage_open = 7" by (simp add: stage_open_def)
  ultimately have "i + 7 \<le> length tmpl" using index_of_Some [of tmpl stage_open i] by simp
  then have "length rest < length tmpl" using \<open>rest = _\<close> by simp
  then show "(drop (j + 1) rest, tmpl) \<in> measure length" by simp
qed simp

declare stageRefs.simps [simp del]

record stageOutput =
  so_text :: string
  so_fields :: "(string \<times> val) list"

text \<open>
  \<open>resolveStageTemplate\<close> substitutes each output in the order Go happens to walk the map, which is the
  order of the list here, and within an output its text before its fields.
\<close>

definition subst_output :: "golib \<Rightarrow> string \<times> stageOutput \<Rightarrow> string \<Rightarrow> string" where
  "subst_output L entry s0 =
     fold (\<lambda>(field, v) s. replace_all s (''{stage:'' @ fst entry @ ''.'' @ field @ ''}'') (renderFieldValue L v))
       (so_fields (snd entry))
       (replace_all s0 (''{stage:'' @ fst entry @ ''}'') (so_text (snd entry)))"

definition resolveStageTemplate ::
    "golib \<Rightarrow> string \<Rightarrow> string \<Rightarrow> string \<Rightarrow> (string \<times> stageOutput) list \<Rightarrow> string" where
  "resolveStageTemplate L tmpl inp prev outputs =
     fold (subst_output L) outputs (replace_all (replace_all tmpl ''{input}'' inp) ''{prev}'' prev)"

end
