(* ===== verification/PipelineChecks.thy ===== *)
theory PipelineChecks
  imports PipelineModel
begin

text \<open>
  What \<open>PipelineDef.Validate\<close> refuses (core/pipeline_validate.go, pipeline_validate_refs.go): each problem
  the source words as a sentence is a constructor with the values the sentence quotes. The walk over a
  stage list carries the scope built so far (\<open>done\<close>, each earlier stage with its declared fields), so a
  reference that is not in it is forward or unknown; a body is checked in a copy of that scope. The
  theorems: a pipeline without problems has distinct, dot-free stage names, every reference in a prompt,
  an argument, a condition or a fan names an earlier stage and a field it declares, every jump is
  forward, and every loop is bounded.
\<close>

section \<open>Problems\<close>

datatype ref_problem =
    RTemplate string string
  | RPrefix string string
  | RBuiltin string
  | RNotRun string
  | RNoFields string string
  | RNoField string string string

datatype stage_identity_problem =
    INoName nat
  | IDuplicate string
  | IThink string string
  | IReach string string
  | IDot string

datatype card_problem =
    CRender string
  | CNoCard
  | CNoPart string
  | COneField string string
  | CNotProduced string string bool

datatype kind_problem =
    KNoAgent
  | KFewVoices
  | KManyVoices nat
  | KPanelOutput
  | KPanelBody
  | KManyRounds int
  | KCountFrom
  | KGatherOutput
  | KManyPages int
  | KResearchKind
  | KResearchRange int
  | KResearchPrompt
  | KNoCheck
  | KCheckUnknown string
  | KVerifyOutput
  | KCheckKind
  | KCiteOutput
  | KCiteKind string
  | KVoicesKind
  | KNoFanOver
  | KFanoutOutput
  | KBodyKind

datatype until_problem =
    UCondition string
  | UPrefix string string
  | UWholeStage string
  | UNotInBody string
  | UNoField string string string
  | UNotBool string string
  | UOutside string int

datatype body_problem =
    FNested
  | FAgent
  | LNested
  | LNoBody
  | LOutput
  | LNoCount
  | LTooMany int
  | LCollect string
  | LUntil until_problem

datatype branch_problem =
    BrShape
  | BrNoWhen
  | BrCondition string
  | BrWholeStage
  | BrRef ref_problem
  | BrNotBool string string
  | BrEndsInBody
  | BrBackward string
  | BrUnknown string
  | BrOnlyBranch

datatype model_problem = MNotTier string | MFanoutAgent | MAgent | MBranch | MTool | MLoop

datatype tool_problem =
    TNoTool
  | TPrompt
  | TAgent
  | TThink
  | TArg string ref_problem
  | TOnlyTool

datatype machine_stage_problem = MaNoMachine | MaAgent | MaOnlyMachine

datatype wording_problem = WDouble string | WRef string ref_problem | WFanType string string

datatype stage_problem =
    SIdentity stage_identity_problem
  | SCard string card_problem
  | SKind string kind_problem
  | SBody string body_problem
  | SBranch string branch_problem
  | SModel string model_problem
  | STool string tool_problem
  | SMachine string machine_stage_problem
  | SWording string wording_problem
  | SOutput field_err

section \<open>References\<close>

definition contains_any :: "string \<Rightarrow> string \<Rightarrow> bool" where
  "contains_any s cs \<longleftrightarrow> (\<exists>c \<in> set s. c \<in> set cs)"

definition builtinTemplateTokens :: "string list" where
  "builtinTemplateTokens = [''input'', ''prev'', ''item'', ''iteration'', ''iterations'']"

definition barePrefix :: "string \<Rightarrow> (string \<times> string) option" where
  "barePrefix ref =
     (let t = trim_space ref in
      if has_prefix (to_lower t) ''stage:'' then Some (t, trim_space (drop 6 t)) else None)"

definition checkStageRef :: "string \<Rightarrow> declared \<Rightarrow> ref_problem option" where
  "checkStageRef ref scope =
     (let t = trim_space ref in
      if contains_any t ''{}''
        then Some (RTemplate t (trim_prefix (trim_space (trim_runes [''{'', ''}''] t)) ''stage:''))
      else case barePrefix ref of
        Some (written, bare) \<Rightarrow> Some (RPrefix written bare)
      | None \<Rightarrow>
          (let (name, field) = SplitStageRef ref in
           if to_lower name \<in> set builtinTemplateTokens \<and> field = [] then Some (RBuiltin name)
           else case map_of scope name of
             None \<Rightarrow> Some (RNotRun name)
           | Some flds \<Rightarrow>
               (if field = [] \<or> map_of flds field \<noteq> None then None
                else if flds = [] then Some (RNoFields ref name)
                else Some (RNoField ref name field))))"

definition condition_chars :: string where
  "condition_chars = ''={}<>!'' @ [CHR 0x27, CHR 0x22]"

definition looksLikeCondition :: "string \<Rightarrow> bool" where
  "looksLikeCondition ref \<longleftrightarrow> contains_any ref condition_chars"

definition opt_list :: "'a option \<Rightarrow> 'a list" where
  "opt_list x = (case x of Some y \<Rightarrow> [y] | None \<Rightarrow> [])"

lemma opt_list_Nil [simp]: "opt_list x = [] \<longleftrightarrow> x = None"
  by (simp add: opt_list_def split: option.splits)

section \<open>One stage's own checks\<close>

fun split_on :: "char \<Rightarrow> string \<Rightarrow> string list" where
  "split_on c [] = [[]]"
| "split_on c (x # s) =
     (if x = c then [] # split_on c s
      else case split_on c s of [] \<Rightarrow> [[x]] | l # ls \<Rightarrow> (x # l) # ls)"

definition verifyFields :: "PipelineField list" where
  "verifyFields =
     map (\<lambda>(n, t, d). PipelineField n t d [] False [] [])
       [(''summary'', FieldString, ''one line: what was checked and how it came out''),
        (''checked'', FieldNumber, ''cited claims put to the model''),
        (''supported'', FieldNumber, ''claims their cited sources carry''),
        (''unsupported'', FieldList, ''claims their sources do not carry, each with why''),
        (''unchecked'', FieldNumber, ''claims whose sources were never read in full''),
        (''unresolved_citations'', FieldList, ''citations naming no source the run read''),
        (''unverified_figures'', FieldList, ''figures that appear in none of the text read''),
        (''passed'', FieldBool, ''nothing unsupported, unresolved or unverified'')]"

definition gatherFields :: "PipelineField list" where
  "gatherFields =
     [PipelineField ''found'' FieldNumber ''pages read by this stage'' [] False [] [],
      PipelineField ''sources'' FieldList ''the pages read, each as [N] Title - URL'' [] False [] []]"

definition kindFields :: "string \<Rightarrow> PipelineField list" where
  "kindFields k = (if k = StageVerify then verifyFields else if k = StageGather then gatherFields else [])"

definition cardLayoutKeys :: "string list" where
  "cardLayoutKeys = [''title'', ''badges'', ''body'', ''accent'']"

definition card_fields :: "StageFields \<Rightarrow> string list" where
  "card_fields s =
     map f_name (sf_output s)
     @ (if sf_kind s = StagePanel then [''voice'', ''round'', ''text''] else [])
     @ map f_name (kindFields (sf_kind s))"

definition card_part_problems :: "StageFields \<Rightarrow> string \<times> string \<Rightarrow> card_problem list" where
  "card_part_problems s part =
     (case part of (key, val) \<Rightarrow>
      if key \<notin> set cardLayoutKeys then [CNoPart key]
      else if key \<noteq> ''badges'' \<and> contains val '','' then [COneField key val]
      else
        concat (map (\<lambda>raw. let n = trim_space raw in
                      prob (n \<noteq> [] \<and> n \<notin> set (card_fields s)) (CNotProduced key n (sf_kind s = StagePanel)))
          (if key = ''badges'' then split_on (CHR '','') val else [val])))"

text \<open>\<open>renderNameRE\<close> accepts what \<open>isFieldName\<close> does: one or more of \<open>[a-z0-9_]\<close>.\<close>

definition cardProblems :: "StageFields \<Rightarrow> card_problem list" where
  "cardProblems s =
     (let render = trim_space (sf_render s) in
      prob (render \<noteq> [] \<and> \<not> isFieldName render) (CRender (sf_render s))
      @ (if sf_card s = [] then []
         else if render \<noteq> ''card'' then [CNoCard]
         else concat (map (card_part_problems s) (sf_card s))))"

definition panel_problems :: "PipelineStage \<Rightarrow> kind_problem list" where
  "panel_problems p =
     (let s = sg p in
      if sf_kind s \<noteq> StagePanel then []
      else
        (if length (sf_panel s) < 2 then [KFewVoices]
         else prob (length (sf_panel s) > panelMaxVoices) (KManyVoices (length (sf_panel s))))
        @ prob (sf_output s \<noteq> []) KPanelOutput
        @ prob (sg_body p \<noteq> []) KPanelBody
        @ prob (sf_count s > panelMaxRounds) (KManyRounds (sf_count s)))"

definition research_problems :: "StageFields \<Rightarrow> kind_problem list" where
  "research_problems s =
     (if sf_research s \<noteq> 0 \<and> sf_kind s \<noteq> StagePanel then [KResearchKind]
      else if sf_research s < 0 \<or> sf_research s > panelMaxResearch then [KResearchRange (sf_research s)]
      else prob (sf_research s = 0 \<and> contains (sf_prompt s) ''{research}'') KResearchPrompt)"

definition verify_problems :: "StageFields \<Rightarrow> declared \<Rightarrow> string list \<Rightarrow> kind_problem list" where
  "verify_problems s scope bad =
     (if sf_kind s = StageVerify then
        (if trim_space (sf_check s) = [] then [KNoCheck]
         else prob (map_of scope (sf_check s) = None \<and> sf_check s \<notin> set bad) (KCheckUnknown (sf_check s)))
        @ prob (sf_output s \<noteq> []) KVerifyOutput
      else prob (trim_space (sf_check s) \<noteq> []) KCheckKind)"

definition cite_problems :: "StageFields \<Rightarrow> kind_problem list" where
  "cite_problems s =
     (if \<not> sf_cite s then []
      else if sf_output s \<noteq> [] then [KCiteOutput]
      else prob (sf_kind s \<in> set [StageVerify, StageGather, StageBranch, StageLoop, StageTool]) (KCiteKind (sf_kind s)))"

definition kind_problems :: "PipelineStage \<Rightarrow> declared \<Rightarrow> string list \<Rightarrow> kind_problem list" where
  "kind_problems p scope bad =
     (let s = sg p in
      prob (sf_kind s = StageAgent \<and> sf_agent s = []) KNoAgent
      @ panel_problems p
      @ prob (trim_space (sf_count_from s) \<noteq> [] \<and> sf_kind s \<notin> set [StagePanel, StageLoop, StageGather]) KCountFrom
      @ (if sf_kind s = StageGather
         then prob (sf_output s \<noteq> []) KGatherOutput @ prob (sf_count s > gatherMaxPages) (KManyPages (sf_count s))
         else [])
      @ research_problems s
      @ verify_problems s scope bad
      @ cite_problems s
      @ prob (sf_kind s \<noteq> StagePanel \<and> sf_panel s \<noteq> []) KVoicesKind
      @ prob (sf_kind s = StageFanout \<and> sf_fan_over s = []) KNoFanOver
      @ prob (sf_kind s = StageFanout \<and> sf_output s \<noteq> []) KFanoutOutput
      @ prob (sf_kind s \<noteq> StageLoop \<and> sf_kind s \<noteq> StageFanout \<and> sg_body p \<noteq> []) KBodyKind)"

definition validateStageModel :: "StageFields \<Rightarrow> model_problem option" where
  "validateStageModel s =
     (let tier = to_lower (trim_space (sf_model s)); k = sf_kind s in
      if tier = [] then None
      else if tier \<noteq> ''worker'' \<and> tier \<noteq> ''lead'' then Some (MNotTier (sf_model s))
      else if k = StageFanout then (if trim_space (sf_agent s) \<noteq> [] then Some MFanoutAgent else None)
      else if k = StageAgent then Some MAgent
      else if k = StageBranch then Some MBranch
      else if k = StageTool then Some MTool
      else if k = StageLoop then Some MLoop
      else None)"

text \<open>The first argument whose reference fails, in the order of the argument names.\<close>

definition first_arg_problem :: "StageFields \<Rightarrow> declared \<Rightarrow> tool_problem option" where
  "first_arg_problem s scope =
     (case concat (map (\<lambda>k. concat (map (\<lambda>ref. opt_list (map_option (TArg k) (checkStageRef ref scope)))
                        (stageRefs (the (map_of (sf_args s) k)))))
             (sort (remdups (keys (sf_args s))))) of
        [] \<Rightarrow> None | p # _ \<Rightarrow> Some p)"

definition validateToolStage :: "StageFields \<Rightarrow> declared \<Rightarrow> tool_problem option" where
  "validateToolStage s scope =
     (if trim_space (sf_tool s) = [] then Some TNoTool
      else if trim_space (sf_prompt s) \<noteq> [] then Some TPrompt
      else if trim_space (sf_agent s) \<noteq> [] then Some TAgent
      else if StageThinkMode s \<noteq> [] then Some TThink
      else first_arg_problem s scope)"

definition machine_stage_problems :: "StageFields \<Rightarrow> machine_stage_problem list" where
  "machine_stage_problems s =
     (if sf_kind s = StageMachine
      then prob (trim_space (sf_machine s) = []) MaNoMachine @ prob (trim_space (sf_agent s) \<noteq> []) MaAgent
      else prob (trim_space (sf_machine s) \<noteq> []) MaOnlyMachine)"

fun indexOfStage :: "PipelineStage list \<Rightarrow> string \<Rightarrow> nat option" where
  "indexOfStage [] name = None"
| "indexOfStage (s # ss) name = (if sg_name s = name then Some 0 else map_option Suc (indexOfStage ss name))"

definition validateBranchStage ::
    "PipelineStage \<Rightarrow> PipelineStage list \<Rightarrow> nat \<Rightarrow> declared \<Rightarrow> bool \<Rightarrow> branch_problem option" where
  "validateBranchStage p stages here scope inLoop =
     (let s = sg p; ref = trim_space (sf_when s); (name, field) = SplitStageRef ref;
          target = trim_space (sf_skip_to s) in
      if sf_output s \<noteq> [] \<or> sg_body p \<noteq> [] then Some BrShape
      else if ref = [] then Some BrNoWhen
      else if looksLikeCondition ref then Some (BrCondition ref)
      else if field = [] then Some BrWholeStage
      else case checkStageRef ref scope of
        Some e \<Rightarrow> Some (BrRef e)
      | None \<Rightarrow>
          (if lookup2 scope name field \<noteq> Some FieldBool
             then Some (BrNotBool ref (case lookup2 scope name field of Some t \<Rightarrow> t | None \<Rightarrow> []))
           else if target = [] then (if inLoop then Some BrEndsInBody else None)
           else case indexOfStage stages target of
             None \<Rightarrow> Some (BrUnknown target)
           | Some i \<Rightarrow> (if i \<le> here then Some (BrBackward target) else None)))"

definition checkLoopUntil :: "StageFields \<Rightarrow> string \<Rightarrow> declared \<Rightarrow> declared \<Rightarrow> until_problem option" where
  "checkLoopUntil s ref scope inner =
     (if looksLikeCondition ref then Some (UCondition ref)
      else case barePrefix ref of
        Some (written, bare) \<Rightarrow> Some (UPrefix written bare)
      | None \<Rightarrow>
          (let (name, field) = SplitStageRef ref in
           if field = [] then Some (UWholeStage ref)
           else if map_of inner name = None then Some (UNotInBody name)
           else case lookup2 inner name field of
             None \<Rightarrow> Some (UNoField ref name field)
           | Some t \<Rightarrow>
               (if t \<noteq> FieldBool then Some (UNotBool ref t)
                else if map_of scope name \<noteq> None then Some (UOutside ref (sf_count s))
                else None)))"

end
