(* ===== verification/PipelineValidate.thy ===== *)
theory PipelineValidate
  imports PipelineChecks
begin

text \<open>
  \<open>PipelineDef.Validate\<close> as a whole (core/pipeline_validate.go): the walk over a stage list, a body in a
  copy of its scope, and the checks of the definition around it. The theorems: with no problem reported,
  the scope a stage is checked in is exactly the stages before it, names are distinct and free of dots,
  references and jumps go the right way, and loops are bounded.
\<close>

section \<open>Bodies\<close>

text \<open>
  The checks of a body take the walk over it (\<open>walk\<close>) as an argument: it returns the body's problems and
  the scope its stages leave, a copy that never reaches the caller.
\<close>

type_synonym list_walk = "PipelineStage list \<Rightarrow> declared \<Rightarrow> stage_problem list \<times> declared"

definition loop_shape :: "PipelineStage \<Rightarrow> bool \<Rightarrow> body_problem option" where
  "loop_shape p inLoop =
     (let s = sg p; c = trim_space (sf_collect s) in
      if inLoop then Some LNested
      else if sg_body p = [] then Some LNoBody
      else if sf_output s \<noteq> [] then Some LOutput
      else if sf_count s < 1 then Some LNoCount
      else if sf_count s > loopMaxIterations then Some (LTooMany (sf_count s))
      else if c \<noteq> [] \<and> c \<noteq> ''last'' \<and> c \<noteq> ''all'' then Some (LCollect (sf_collect s))
      else None)"

definition validateLoopStage ::
    "list_walk \<Rightarrow> PipelineStage \<Rightarrow> declared \<Rightarrow> bool \<Rightarrow> body_problem option \<times> stage_problem list" where
  "validateLoopStage walk_body p scope inLoop =
     (case loop_shape p inLoop of
        Some e \<Rightarrow> (Some e, [])
      | None \<Rightarrow>
          (let (body_probs, inner) = walk_body (sg_body p) scope; ref = trim_space (sf_until (sg p)) in
           (if ref = [] then None else map_option LUntil (checkLoopUntil (sg p) ref scope inner), body_probs)))"

definition validateFanoutBody ::
    "list_walk \<Rightarrow> PipelineStage \<Rightarrow> declared \<Rightarrow> bool \<Rightarrow> body_problem option \<times> stage_problem list" where
  "validateFanoutBody walk_body p scope inLoop =
     (if inLoop then (Some FNested, [])
      else if trim_space (sf_agent (sg p)) \<noteq> [] then (Some FAgent, [])
      else (None, fst (walk_body (sg_body p) scope)))"

definition fanoutCollectedShape :: "PipelineStage \<Rightarrow> (string \<times> string) list" where
  "fanoutCollectedShape p =
     (if sf_kind (sg p) \<noteq> StageFanout \<or> sg_body p = [] then []
      else if sf_output (sg (last (sg_body p))) = [] then []
      else [(''items'', FieldList), (''count'', FieldNumber)])"

section \<open>The walk over a stage list\<close>

text \<open>Identity first: the problem, if any, and whether the stage's other checks are made.\<close>

definition stage_identity ::
    "nat \<Rightarrow> StageFields \<Rightarrow> declared \<Rightarrow> string list \<Rightarrow> stage_identity_problem list \<times> bool" where
  "stage_identity i s scope bad =
     (if sf_name s = [] then ([INoName (i + 1)], False)
      else if map_of scope (sf_name s) \<noteq> None \<or> sf_name s \<in> set bad then ([IDuplicate (sf_name s)], False)
      else if StageThinkMode s \<noteq> [] \<and> StageThinkMode s \<noteq> ''on'' \<and> StageThinkMode s \<noteq> ''off''
        then ([IThink (sf_name s) (sf_think_mode s)], True)
      else if \<not> validReach (sf_reach s) then ([IReach (sf_name s) (sf_reach s)], False)
      else if contains (sf_name s) ''.'' then ([IDot (sf_name s)], False)
      else ([], True))"

definition fan_over_problems :: "StageFields \<Rightarrow> declared \<Rightarrow> string list \<Rightarrow> wording_problem list" where
  "fan_over_problems s scope bad =
     (let (src, field) = SplitStageRef (sf_fan_over s) in
      if sf_fan_over s = [] \<or> src \<in> set bad then []
      else opt_list (map_option (WRef ''fan_over'') (checkStageRef (sf_fan_over s) scope))
        @ prob (field \<noteq> [] \<and> map_of scope src \<noteq> None \<and> lookup2 scope src field \<noteq> Some FieldList)
            (WFanType (sf_fan_over s) (case lookup2 scope src field of Some t \<Rightarrow> t | None \<Rightarrow> [])))"

definition prompt_ref_problems :: "StageFields \<Rightarrow> declared \<Rightarrow> string list \<Rightarrow> wording_problem list" where
  "prompt_ref_problems s scope bad =
     concat (map (\<lambda>ref. if fst (SplitStageRef ref) \<in> set bad then []
                        else opt_list (map_option (WRef ''prompt'') (checkStageRef ref scope)))
       (stageRefs (sf_prompt s)))"

definition wording_problems :: "StageFields \<Rightarrow> declared \<Rightarrow> string list \<Rightarrow> wording_problem list" where
  "wording_problems s scope bad =
     prob (doubleBrace (sf_prompt s)) (WDouble ''prompt'')
     @ concat (map (\<lambda>(k, v). prob (doubleBrace v) (WDouble (''args.'' @ k))) (sf_args s))
     @ prompt_ref_problems s scope bad
     @ fan_over_problems s scope bad"

definition body_checks :: "list_walk \<Rightarrow> PipelineStage \<Rightarrow> declared \<Rightarrow> bool \<Rightarrow> stage_problem list" where
  "body_checks walk_body p scope inLoop =
     (let n = sg_name p;
          report = (\<lambda>(own, probs). opt_list (map_option (SBody n) own) @ probs)
      in (if sf_kind (sg p) = StageFanout \<and> sg_body p \<noteq> []
          then report (validateFanoutBody walk_body p scope inLoop) else [])
       @ (if sf_kind (sg p) = StageLoop then report (validateLoopStage walk_body p scope inLoop) else []))"

definition stage_checks ::
    "list_walk \<Rightarrow> bool \<Rightarrow> PipelineStage list \<Rightarrow> nat \<Rightarrow> PipelineStage \<Rightarrow> declared \<Rightarrow> string list
      \<Rightarrow> stage_problem list" where
  "stage_checks walk_body inLoop stages i p scope bad =
     (let s = sg p; n = sg_name p in
      map (SCard n) (cardProblems s)
      @ map (SKind n) (kind_problems p scope bad)
      @ body_checks walk_body p scope inLoop
      @ map (SBranch n)
          (if sf_kind s = StageBranch then opt_list (validateBranchStage p stages i scope inLoop)
           else prob (sf_when s \<noteq> [] \<or> sf_skip_to s \<noteq> []) BrOnlyBranch)
      @ map (SModel n) (opt_list (validateStageModel s))
      @ map (STool n)
          (if sf_kind s = StageTool then opt_list (validateToolStage s scope)
           else prob (sf_tool s \<noteq> [] \<or> sf_args s \<noteq> []) TOnlyTool)
      @ map (SMachine n) (machine_stage_problems s)
      @ map (SWording n) (wording_problems s scope bad)
      @ (case validateOutputFields n (sf_output s) False of Inl e \<Rightarrow> [SOutput e] | Inr _ \<Rightarrow> []))"

text \<open>
  The fields a stage leaves in the scope: what it declares (nothing, when that failed), what its body's
  last stage collects, what its kind returns by itself.
\<close>

definition stage_own :: "PipelineStage \<Rightarrow> (string \<times> string) list" where
  "stage_own p =
     fold (\<lambda>(k, t). AList.update k t)
       (fanoutCollectedShape p @ map (\<lambda>f. (f_name f, f_type f)) (kindFields (sf_kind (sg p))))
       (case validateOutputFields (sg_name p) (sf_output (sg p)) False of Inl _ \<Rightarrow> [] | Inr m \<Rightarrow> m)"

definition output_fails :: "PipelineStage \<Rightarrow> bool" where
  "output_fails p \<longleftrightarrow> (\<exists>e. validateOutputFields (sg_name p) (sf_output (sg p)) False = Inl e)"

lemma output_fails_code [code]:
  "output_fails p = (case validateOutputFields (sg_name p) (sf_output (sg p)) False of Inl _ \<Rightarrow> True | Inr _ \<Rightarrow> False)"
  by (auto simp: output_fails_def split: sum.splits)

definition register :: "PipelineStage \<Rightarrow> declared \<Rightarrow> declared" where
  "register p scope = AList.update (sg_name p) (stage_own p) scope"

fun stages_from ::
    "list_walk \<Rightarrow> bool \<Rightarrow> PipelineStage list \<Rightarrow> nat \<Rightarrow> PipelineStage list \<Rightarrow> declared \<Rightarrow> string list
      \<Rightarrow> stage_problem list \<times> declared" where
  "stages_from walk_body inLoop stages i [] scope bad = ([], scope)"
| "stages_from walk_body inLoop stages i (p # ps) scope bad =
     (case stage_identity i (sg p) scope bad of
        (ids, False) \<Rightarrow>
          (case stages_from walk_body inLoop stages (i + 1) ps scope bad of
             (probs, scope1) \<Rightarrow> (map SIdentity ids @ probs, scope1))
      | (ids, True) \<Rightarrow>
          (case stages_from walk_body inLoop stages (i + 1) ps (register p scope)
                  (if output_fails p then sg_name p # bad else bad) of
             (probs, scope1) \<Rightarrow>
               (map SIdentity ids @ stage_checks walk_body inLoop stages i p scope bad @ probs, scope1)))"

text \<open>
  \<open>stageListProblems\<close>: a body refuses bodies of its own before it walks them, so the recursion is two
  levels deep.
\<close>

definition body_walk :: list_walk where
  "body_walk stages scope = stages_from (\<lambda>_ sc. ([], sc)) True stages 0 stages scope []"

definition stageListProblems ::
    "PipelineStage list \<Rightarrow> declared \<Rightarrow> bool \<Rightarrow> stage_problem list \<times> declared" where
  "stageListProblems stages scope inLoop =
     (if inLoop then body_walk stages scope else stages_from body_walk False stages 0 stages scope [])"

definition validateStageList :: "PipelineStage list \<Rightarrow> declared \<Rightarrow> bool \<Rightarrow> stage_problem list + unit" where
  "validateStageList stages scope inLoop =
     (case fst (stageListProblems stages scope inLoop) of [] \<Rightarrow> Inr () | ps \<Rightarrow> Inl ps)"

section \<open>The definition around the stages\<close>

record DefFields =
  pd_id :: string
  pd_owner :: string
  pd_name :: string
  pd_description :: string
  pd_session_meta :: "string list"
  pd_global :: bool
  pd_created :: nat
  pd_updated :: nat
  pd_allowed_users :: "string list"
  pd_editors :: "string list"
  pd_published :: bool
  pd_owning_app :: string

datatype PipelineDef = PipelineDef (pd: DefFields) (pd_stages: "PipelineStage list")
  (pd_followups: "PipelineDef list") (pd_suggest: "PipelineDef option") (pd_previous: "PipelineDef option")

datatype meta_problem =
    MtNotRef string
  | MtNoStage string string
  | MtNoField string string string
  | MtReserved string string
  | MtTwice string string

definition reservedSessionMetaKeys :: "string list" where
  "reservedSessionMetaKeys = [''id'', ''title'', ''date'', ''blocks'']"

definition meta_declared :: "PipelineStage list \<Rightarrow> (string \<times> string list) list" where
  "meta_declared stages = fold (\<lambda>p. AList.update (sg_name p) (map f_name (sf_output (sg p)))) stages []"

definition cut_dot :: "string \<Rightarrow> (string \<times> string) option" where
  "cut_dot s = map_option (\<lambda>i. (take i s, drop (i + 1) s)) (index_of s ''.'')"

fun meta_problems :: "(string \<times> string list) list \<Rightarrow> string list \<Rightarrow> string list \<Rightarrow> meta_problem list" where
  "meta_problems declared seen [] = []"
| "meta_problems declared seen (raw # refs) =
     (let ref = trim_space raw in
      case cut_dot ref of
        None \<Rightarrow> MtNotRef raw # meta_problems declared seen refs
      | Some (stage, field) \<Rightarrow>
          (if trim_space stage = [] \<or> trim_space field = [] then MtNotRef raw # meta_problems declared seen refs
           else case map_of declared stage of
             None \<Rightarrow> MtNoStage ref stage # meta_problems declared seen refs
           | Some flds \<Rightarrow>
               (if field \<notin> set flds then MtNoField ref stage field # meta_problems declared seen refs
                else if to_lower field \<in> set reservedSessionMetaKeys
                  then MtReserved ref field # meta_problems declared seen refs
                else if field \<in> set seen then MtTwice ref field # meta_problems declared seen refs
                else meta_problems declared (field # seen) refs)))"

definition validateSessionMeta :: "PipelineStage list \<Rightarrow> string list \<Rightarrow> meta_problem list" where
  "validateSessionMeta stages refs = meta_problems (meta_declared stages) [] refs"

text \<open>\<open>textutil.SnakeFromDisplay\<close> on ASCII text; \<open>sep\<close> says the last character was a separator.\<close>

definition letter_or_digit :: "char \<Rightarrow> bool" where
  "letter_or_digit c =
     (let n = (of_char c :: nat) in (97 \<le> n \<and> n \<le> 122) \<or> (65 \<le> n \<and> n \<le> 90) \<or> (48 \<le> n \<and> n \<le> 57))"

fun snake_from :: "bool \<Rightarrow> string \<Rightarrow> string" where
  "snake_from sep [] = []"
| "snake_from sep (c # s) =
     (if letter_or_digit c then lower_char c # snake_from False s
      else if sep then snake_from True s
      else CHR ''_'' # snake_from True s)"

definition SnakeFromDisplay :: "string \<Rightarrow> string" where
  "SnakeFromDisplay s = trim_right [''_''] (snake_from True (trim_space s))"

datatype def_problem =
    DNoStages
  | DStages "stage_problem list"
  | DMeta "meta_problem list"
  | DFollowNoName nat
  | DFollowNoKey string
  | DFollowTwice string
  | DFollowNested string
  | DFollow string def_problem
  | DSuggestNested
  | DSuggest def_problem

function (sequential) ValidatePipeline :: "PipelineDef \<Rightarrow> def_problem option"
  and validateFollowUps :: "nat \<Rightarrow> string list \<Rightarrow> PipelineDef list \<Rightarrow> def_problem option"
  and validateSuggest :: "PipelineDef option \<Rightarrow> def_problem option" where
  "ValidatePipeline (PipelineDef d stages followups suggest previous) =
     (if stages = [] then Some DNoStages
      else case validateStageList stages [] False of
        Inl ps \<Rightarrow> Some (DStages ps)
      | Inr _ \<Rightarrow>
          (case validateSessionMeta stages (pd_session_meta d) of
             [] \<Rightarrow> (case validateFollowUps 0 [] followups of
                     Some e \<Rightarrow> Some e
                   | None \<Rightarrow> validateSuggest suggest)
           | ps \<Rightarrow> Some (DMeta ps)))"
| "validateFollowUps i seen [] = None"
| "validateFollowUps i seen (f # fs) =
     (let label = trim_space (pd_name (pd f)); key = SnakeFromDisplay label in
      if label = [] then Some (DFollowNoName (i + 1))
      else if key = [] then Some (DFollowNoKey label)
      else if key \<in> set seen then Some (DFollowTwice label)
      else if pd_followups f \<noteq> [] then Some (DFollowNested label)
      else case ValidatePipeline f of
        Some e \<Rightarrow> Some (DFollow label e)
      | None \<Rightarrow> validateFollowUps (i + 1) (key # seen) fs)"
| "validateSuggest None = None"
| "validateSuggest (Some s) =
     (if pd_followups s \<noteq> [] \<or> pd_suggest s \<noteq> None then Some DSuggestNested
      else map_option DSuggest (ValidatePipeline s))"
  by pat_completeness auto
termination
  by (relation "measure (\<lambda>x. case x of Inl d \<Rightarrow> size d
        | Inr (Inl (_, _, fs)) \<Rightarrow> size_list size fs
        | Inr (Inr o1) \<Rightarrow> size_option size o1)") auto

section \<open>What a list without problems looks like\<close>

definition scope_before :: "declared \<Rightarrow> PipelineStage list \<Rightarrow> nat \<Rightarrow> declared" where
  "scope_before scope stages k = fold register (take k stages) scope"

lemma scope_before_0 [simp]: "scope_before scope stages 0 = scope"
  by (simp add: scope_before_def)

lemma scope_before_Suc [simp]: "scope_before scope (p # ps) (Suc k) = scope_before (register p scope) ps k"
  by (simp add: scope_before_def)

lemma map_of_register:
  "map_of (register p scope) n = (if n = sg_name p then Some (stage_own p) else map_of scope n)"
  by (simp add: register_def map_of_update_eq)

lemma stage_checks_output: "stage_checks W b all i p scope bad = [] \<Longrightarrow> \<not> output_fails p"
  by (auto simp: stage_checks_def Let_def output_fails_def)

text \<open>Each stage was checked in the scope of the stages before it, and nothing was found.\<close>

lemma stages_from_Nil:
  "stages_from W b all i ps scope bad = ([], scope1) \<Longrightarrow>
     scope1 = fold register ps scope
     \<and> (\<forall>k < length ps. stage_identity (i + k) (sg (ps ! k)) (scope_before scope ps k) bad = ([], True)
           \<and> stage_checks W b all (i + k) (ps ! k) (scope_before scope ps k) bad = [])"
proof (induction ps arbitrary: i scope)
  case (Cons p ps)
  obtain ids ok where id0: "stage_identity i (sg p) scope bad = (ids, ok)" by fastforce
  have ok: "ok" "ids = []"
    using Cons.prems id0 by (cases ok; auto simp: stage_identity_def split: prod.splits if_splits)+
  have clean: "stage_checks W b all i p scope bad = []"
    using Cons.prems id0 ok by (auto split: prod.splits)
  then have "\<not> output_fails p" by (rule stage_checks_output)
  then have "stages_from W b all (i + 1) ps (register p scope) bad = ([], scope1)"
    using Cons.prems id0 ok by (auto split: prod.splits)
  from Cons.IH [OF this] have rest: "scope1 = fold register ps (register p scope)"
    "\<And>k. k < length ps \<Longrightarrow>
       stage_identity (i + 1 + k) (sg (ps ! k)) (scope_before (register p scope) ps k) bad = ([], True)
       \<and> stage_checks W b all (i + 1 + k) (ps ! k) (scope_before (register p scope) ps k) bad = []"
    by auto
  have "stage_identity (i + k) (sg ((p # ps) ! k)) (scope_before scope (p # ps) k) bad = ([], True)
      \<and> stage_checks W b all (i + k) ((p # ps) ! k) (scope_before scope (p # ps) k) bad = []"
    if "k < length (p # ps)" for k
    using that id0 ok clean rest(2) [of "k - 1"] by (cases k) auto
  with rest(1) show ?case by simp
qed simp

lemma keys_scope_before:
  "map_of (scope_before scope stages k) n \<noteq> None \<longleftrightarrow>
     map_of scope n \<noteq> None \<or> n \<in> sg_name ` set (take k stages)"
proof (induction stages arbitrary: scope k)
  case (Cons p ps)
  then show ?case by (cases k) (auto simp: map_of_register)
qed (simp add: scope_before_def)

lemma stage_identity_ok:
  "stage_identity i s scope bad = ([], True) \<Longrightarrow>
     sf_name s \<noteq> [] \<and> map_of scope (sf_name s) = None \<and> \<not> contains (sf_name s) ''.'' \<and> validReach (sf_reach s)"
  by (auto simp: stage_identity_def split: if_splits)

text \<open>A name in scope, when the names are distinct, has the fields of the one stage that carries it.\<close>

lemma scope_before_lookup:
  "distinct (map sg_name stages) \<Longrightarrow> j < k \<Longrightarrow> k \<le> length stages \<Longrightarrow>
     map_of (scope_before scope stages k) (sg_name (stages ! j)) = Some (stage_own (stages ! j))"
proof (induction stages arbitrary: scope j k)
  case (Cons p ps)
  then obtain k' where k: "k = Suc k'" by (cases k) auto
  show ?case
  proof (cases j)
    case 0
    have "sg_name p \<notin> sg_name ` set (take k' ps)" using Cons.prems(1) by (auto dest: in_set_takeD)
    moreover have "map_of (scope_before sc ps m) n = map_of sc n" if "n \<notin> sg_name ` set (take m ps)" for sc m n
      using that
    proof (induction ps arbitrary: sc m)
      case (Cons q qs)
      then show ?case by (cases m) (auto simp: map_of_register)
    qed (simp add: scope_before_def)
    ultimately show ?thesis using 0 k by (simp add: map_of_register)
  next
    case (Suc j')
    with Cons k show ?thesis by simp
  qed
qed simp

definition clean_list :: "list_walk \<Rightarrow> bool \<Rightarrow> declared \<Rightarrow> PipelineStage list \<Rightarrow> bool" where
  "clean_list W b scope stages \<longleftrightarrow> fst (stages_from W b stages 0 stages scope []) = []"

lemma clean_list_stage:
  assumes "clean_list W b scope stages" "k < length stages"
  shows "stage_identity k (sg (stages ! k)) (scope_before scope stages k) [] = ([], True)"
    "stage_checks W b stages k (stages ! k) (scope_before scope stages k) [] = []"
proof -
  obtain scope1 where "stages_from W b stages 0 stages scope [] = ([], scope1)"
    using assms(1) by (cases "stages_from W b stages 0 stages scope []") (simp add: clean_list_def)
  from stages_from_Nil [OF this] assms(2) show
    "stage_identity k (sg (stages ! k)) (scope_before scope stages k) [] = ([], True)"
    "stage_checks W b stages k (stages ! k) (scope_before scope stages k) [] = []" by auto
qed

lemma clean_list_distinct:
  assumes "clean_list W b scope stages"
  shows "distinct (map sg_name stages)"
proof -
  have "sg_name (stages ! i) \<noteq> sg_name (stages ! k)" if "i < k" "k < length stages" for i k
  proof
    assume e: "sg_name (stages ! i) = sg_name (stages ! k)"
    from clean_list_stage(1) [OF assms that(2)]
    have "map_of (scope_before scope stages k) (sg_name (stages ! k)) = None"
      by (auto dest: stage_identity_ok)
    moreover have "stages ! i \<in> set (take k stages)" using that by (metis in_set_conv_nth length_take min_less_iff_conj nth_take order.strict_trans)
    ultimately show False using e keys_scope_before [of scope stages k "sg_name (stages ! k)"] by (metis image_eqI)
  qed
  then show ?thesis by (auto simp: distinct_conv_nth) (metis linorder_neqE_nat)
qed

text \<open>A reference that passes names a stage before this one, or one of the scope around the list.\<close>

lemma checkStageRef_None:
  assumes "checkStageRef ref scope = None" "SplitStageRef ref = (name, field)"
  shows "\<exists>flds. map_of scope name = Some flds \<and> (field = [] \<or> map_of flds field \<noteq> None)"
  using assms by (auto simp: checkStageRef_def Let_def split: if_splits option.splits)

lemma ref_looks_back:
  assumes "clean_list W b [] stages" "k < length stages"
    and "checkStageRef ref (scope_before [] stages k) = None"
  shows "\<exists>j < k. sg_name (stages ! j) = fst (SplitStageRef ref)
    \<and> (snd (SplitStageRef ref) = [] \<or> map_of (stage_own (stages ! j)) (snd (SplitStageRef ref)) \<noteq> None)"
proof -
  obtain name field where s: "SplitStageRef ref = (name, field)" by fastforce
  from checkStageRef_None [OF assms(3) s] obtain flds where f:
    "map_of (scope_before [] stages k) name = Some flds" "field = [] \<or> map_of flds field \<noteq> None" by blast
  then have "name \<in> sg_name ` set (take k stages)" using keys_scope_before [of "[]" stages k name] by simp
  then obtain j where j: "j < k" "sg_name (stages ! j) = name"
    using assms(2) by (fastforce simp: in_set_conv_nth)
  then have "map_of (scope_before [] stages k) name = Some (stage_own (stages ! j))"
    using scope_before_lookup [OF clean_list_distinct [OF assms(1)], of j k "[]"] assms(2) by simp
  with f j s show ?thesis by auto
qed

lemma stage_checks_parts:
  assumes "stage_checks W b all i p scope bad = []"
  shows "kind_problems p scope bad = []" "body_checks W p scope b = []"
    "sf_kind (sg p) = StageBranch \<Longrightarrow> validateBranchStage p all i scope b = None"
    "sf_kind (sg p) = StageTool \<Longrightarrow> validateToolStage (sg p) scope = None"
    "wording_problems (sg p) scope bad = []" "\<exists>m. validateOutputFields (sg_name p) (sf_output (sg p)) False = Inr m"
  using assms by (auto simp: stage_checks_def Let_def split: sum.splits if_splits)

lemma prompt_refs_ok:
  "wording_problems s scope [] = [] \<Longrightarrow> ref \<in> set (stageRefs (sf_prompt s)) \<Longrightarrow> checkStageRef ref scope = None"
  by (auto simp: wording_problems_def prompt_ref_problems_def)

lemma branch_ok:
  assumes "validateBranchStage p stages k scope b = None"
  shows "checkStageRef (trim_space (sf_when (sg p))) scope = None"
    "lookup2 scope (fst (SplitStageRef (trim_space (sf_when (sg p))))) (snd (SplitStageRef (trim_space (sf_when (sg p)))))
       = Some FieldBool"
    "trim_space (sf_skip_to (sg p)) \<noteq> [] \<Longrightarrow>
       \<exists>m > k. indexOfStage stages (trim_space (sf_skip_to (sg p))) = Some m"
    "b \<Longrightarrow> trim_space (sf_skip_to (sg p)) \<noteq> []" "sg_body p = []"
  using assms
  by (auto simp: validateBranchStage_def Let_def split: prod.splits option.splits if_splits)

lemma indexOfStage_Some:
  "indexOfStage stages n = Some m \<Longrightarrow> m < length stages \<and> sg_name (stages ! m) = n"
  by (induction stages arbitrary: m) (auto split: if_splits)

lemma loop_ok:
  assumes "body_checks body_walk p scope False = []" "sf_kind (sg p) = StageLoop"
  shows "sg_body p \<noteq> []" "1 \<le> sf_count (sg p)" "sf_count (sg p) \<le> loopMaxIterations" "sf_output (sg p) = []"
    "clean_list (\<lambda>_ sc. ([], sc)) True scope (sg_body p)"
  using assms
  by (auto simp: body_checks_def validateLoopStage_def loop_shape_def Let_def clean_list_def body_walk_def opt_list_def
      split: if_splits option.splits prod.splits)

lemma fan_ok:
  assumes "body_checks body_walk p scope False = []" "sf_kind (sg p) = StageFanout" "sg_body p \<noteq> []"
  shows "clean_list (\<lambda>_ sc. ([], sc)) True scope (sg_body p)" "trim_space (sf_agent (sg p)) = []"
  using assms
  by (auto simp: body_checks_def validateFanoutBody_def Let_def clean_list_def body_walk_def opt_list_def
      stage_kind_defs split: if_splits)

text \<open>Inside a body no stage has a body of its own.\<close>

lemma inner_ok:
  assumes "clean_list W True scope stages" "q \<in> set stages"
  shows "sf_kind (sg q) \<noteq> StageLoop" "sg_body q = []"
proof -
  obtain k where k: "k < length stages" "q = stages ! k" using assms(2) by (metis in_set_conv_nth)
  note c = stage_checks_parts [OF clean_list_stage(2) [OF assms(1) k(1)]]
  have b: "body_checks W q (scope_before scope stages k) True = []" using c(2) k(2) by simp
  then show nl: "sf_kind (sg q) \<noteq> StageLoop"
    by (auto simp: body_checks_def validateLoopStage_def loop_shape_def Let_def)
  show "sg_body q = []"
  proof (rule ccontr)
    assume n: "sg_body q \<noteq> []"
    with b have "sf_kind (sg q) \<noteq> StageFanout"
      by (auto simp: body_checks_def validateFanoutBody_def Let_def)
    with n nl c(1) k(2) show False by (auto simp: kind_problems_def Let_def)
  qed
qed

lemma Validate_clean:
  assumes "ValidatePipeline d = None"
  shows "pd_stages d \<noteq> []" "clean_list body_walk False [] (pd_stages d)"
  using assms
  by (cases d; auto simp: validateStageList_def stageListProblems_def clean_list_def split: if_splits sum.splits list.splits)+

section \<open>Properties\<close>

definition two_stage :: PipelineDef where
  "two_stage = PipelineDef
     \<lparr>pd_id = [], pd_owner = [], pd_name = ''digest'', pd_description = [], pd_session_meta = [''plan.ready''], pd_global = False,
      pd_created = 0, pd_updated = 0, pd_allowed_users = [], pd_editors = [], pd_published = False, pd_owning_app = []\<rparr>
     [PipelineStage (zero_stage\<lparr>sf_name := ''plan'', sf_kind := StageWorker, sf_prompt := ''Plan {input}'',
        sf_output := [PipelineField ''ready'' FieldBool [] [] False [] []]\<rparr>) [],
      PipelineStage (zero_stage\<lparr>sf_name := ''gate'', sf_kind := StageBranch, sf_when := ''plan.ready'', sf_skip_to := ''answer''\<rparr>) [],
      PipelineStage (zero_stage\<lparr>sf_name := ''polish'', sf_kind := StageLoop, sf_count := 3\<rparr>)
        [PipelineStage (zero_stage\<lparr>sf_name := ''draft'', sf_kind := StageWorker, sf_prompt := ''Improve {prev} with {stage:plan}''\<rparr>) []],
      PipelineStage (zero_stage\<lparr>sf_name := ''answer'', sf_kind := StageWorker, sf_prompt := ''Say {stage:plan.ready}''\<rparr>) []]
     [] None None"

lemma two_stage_valid: "ValidatePipeline two_stage = None"
  by code_simp

text \<open>In a pipeline that validates, every stage reference in a stage's prompt names a stage listed before it,
  and a field that stage leaves when it names one: no reference looks forward or at nothing.\<close>

theorem prompts_look_back:
  assumes "ValidatePipeline d = None" "k < length (pd_stages d)"
    and "ref \<in> set (stageRefs (sf_prompt (sg (pd_stages d ! k))))"
  shows "\<exists>j < k. sg_name (pd_stages d ! j) = fst (SplitStageRef ref)
    \<and> (snd (SplitStageRef ref) = [] \<or> map_of (stage_own (pd_stages d ! j)) (snd (SplitStageRef ref)) \<noteq> None)"
proof -
  note clean = Validate_clean(2) [OF assms(1)]
  note parts = stage_checks_parts [OF clean_list_stage(2) [OF clean assms(2)]]
  show ?thesis by (rule ref_looks_back [OF clean assms(2) prompt_refs_ok [OF parts(5) assms(3)]])
qed

theorem prompts_look_back_witness:
  "\<exists>j < (3 :: nat). sg_name (pd_stages two_stage ! j) = ''plan''"
proof -
  have h: "3 < length (pd_stages two_stage)"
    "''plan.ready'' \<in> set (stageRefs (sf_prompt (sg (pd_stages two_stage ! 3))))"
    "fst (SplitStageRef ''plan.ready'') = ''plan''" by code_simp+
  from prompts_look_back [OF two_stage_valid h(1,2)] h(3) show ?thesis by auto
qed

text \<open>In a pipeline that validates, a branch reads a boolean field of an earlier stage and jumps, when it
  names a target, to a later stage of its list; a loop has a body, at most twenty-five passes and no body
  inside its body.\<close>

theorem branches_jump_forward_and_loops_are_flat:
  assumes "ValidatePipeline d = None" "k < length (pd_stages d)" "p = pd_stages d ! k" "s = sg p"
    and "(name, field) = SplitStageRef (trim_space (sf_when s))"
  shows "(sf_kind s = StageBranch \<longrightarrow>
        (\<exists>j < k. sg_name (pd_stages d ! j) = name \<and> map_of (stage_own (pd_stages d ! j)) field = Some FieldBool)
        \<and> (trim_space (sf_skip_to s) \<noteq> [] \<longrightarrow>
            (\<exists>m. k < m \<and> m < length (pd_stages d) \<and> sg_name (pd_stages d ! m) = trim_space (sf_skip_to s))))
    \<and> (sf_kind s = StageLoop \<longrightarrow>
        sg_body p \<noteq> [] \<and> 1 \<le> sf_count s \<and> sf_count s \<le> 25 \<and> (\<forall>q \<in> set (sg_body p). sg_body q = []))"
proof (intro conjI impI ballI)
  note clean = Validate_clean(2) [OF assms(1)]
  note parts = stage_checks_parts [OF clean_list_stage(2) [OF clean assms(2)]]
  let ?scope = "scope_before [] (pd_stages d) k"
  {
    assume "sf_kind s = StageBranch"
    with parts(3) assms(3,4) have v: "validateBranchStage p (pd_stages d) k ?scope False = None" by simp
    note ok = branch_ok [OF v]
    have nf: "name = fst (SplitStageRef (trim_space (sf_when (sg p))))" "field = snd (SplitStageRef (trim_space (sf_when (sg p))))"
      using arg_cong [OF assms(5), of fst] arg_cong [OF assms(5), of snd] assms(4) by simp_all
    from ref_looks_back [OF clean assms(2) ok(1)] obtain j where j: "j < k" "sg_name (pd_stages d ! j) = name"
      unfolding nf by blast
    then have "map_of ?scope name = Some (stage_own (pd_stages d ! j))"
      using scope_before_lookup [OF clean_list_distinct [OF clean], of j k "[]"] assms(2) by simp
    with ok(2) have "map_of (stage_own (pd_stages d ! j)) field = Some FieldBool"
      unfolding nf by (simp add: lookup2_def)
    with j show "\<exists>j < k. sg_name (pd_stages d ! j) = name \<and> map_of (stage_own (pd_stages d ! j)) field = Some FieldBool"
      by blast
    show "\<exists>m. k < m \<and> m < length (pd_stages d) \<and> sg_name (pd_stages d ! m) = trim_space (sf_skip_to s)"
      if "trim_space (sf_skip_to s) \<noteq> []"
      using ok(3) that assms(4) indexOfStage_Some by blast
  }
  {
    assume l: "sf_kind s = StageLoop"
    have "body_checks body_walk p ?scope False = []" using parts(2) assms(3) by simp
    note ok = loop_ok [OF this]
    show "sg_body p \<noteq> []" "1 \<le> sf_count s" "sf_count s \<le> 25" using ok(1-3) l assms(4) by (auto simp: loopMaxIterations_def)
    show "sg_body q = []" if "q \<in> set (sg_body p)" for q
      using inner_ok(2) [OF ok(5)] l assms(4) that by blast
  }
qed

theorem branches_jump_forward_and_loops_are_flat_witness:
  "(\<exists>m. (1 :: nat) < m \<and> sg_name (pd_stages two_stage ! m) = ''answer'') \<and> sf_count (sg (pd_stages two_stage ! 2)) \<le> 25"
proof -
  note valid = two_stage_valid
  have v: "1 < length (pd_stages two_stage)" "2 < length (pd_stages two_stage)"
    "sf_kind (sg (pd_stages two_stage ! 1)) = StageBranch" "sf_kind (sg (pd_stages two_stage ! 2)) = StageLoop"
    "trim_space (sf_skip_to (sg (pd_stages two_stage ! 1))) = ''answer''" by code_simp+
  show ?thesis
    using branches_jump_forward_and_loops_are_flat [OF valid v(1) refl refl prod.collapse]
      branches_jump_forward_and_loops_are_flat [OF valid v(2) refl refl prod.collapse] v(3-5) by auto
qed

end
