(* ===== verification/RunSources.thy ===== *)
theory RunSources
  imports GoValue "HOL-Library.Word"
begin

text \<open>
  What a pipeline run has read (core/sources/sources.go, run_sources.go): the numbered registry of pages,
  the texts they were read as, the claims that keep parallel readers apart, and the citations a text makes
  of them. \<open>url.Parse\<close> is the argument \<open>up\<close>: the host and the path of a URL, or nothing when it does not
  parse. Every method takes the registry's lock for its whole length, so a run is a sequence of them.

  The theorems: the registry refines a list of distinct page keys in the order they were first read, so a
  number never changes hands; a page is handed to one reader only; a citation is either resolved or
  reported.
\<close>

section \<open>URLs and numbers\<close>

type_synonym url_parser = "string \<Rightarrow> (string \<times> string) option"

definition url_cutset :: "string list" where
  "url_cutset = [''.'', '','', '';'', '':'', '')'']"

definition trim_url :: "string \<Rightarrow> string" where
  "trim_url raw = trim_right url_cutset (trim_space raw)"

definition NormalizeURL :: "url_parser \<Rightarrow> string \<Rightarrow> string" where
  "NormalizeURL up raw0 =
     (let raw = trim_url raw0; plain = to_lower (trim_right [''/''] raw) in
      if raw = [] then []
      else case up raw of
        None \<Rightarrow> plain
      | Some (host, path) \<Rightarrow>
          (if host = [] then plain
           else to_lower (trim_prefix host ''www.'') @ trim_right [''/''] path))"

text \<open>The white space of a regular expression's \<open>\s\<close>.\<close>

definition re_space :: "char \<Rightarrow> bool" where
  "re_space c \<longleftrightarrow> c \<in> set [CHR 0x09, CHR 0x0A, CHR 0x0C, CHR 0x0D, CHR '' '']"

section \<open>The registry\<close>

record SourceRef =
  ref_title :: string
  ref_url :: string
  ref_authors :: string
  ref_journal :: string

record NumberedSource =
  ns_n :: int
  ns_title :: string
  ns_url :: string

record SourceRegistry =
  reg_refs :: "SourceRef list"
  reg_byURL :: "(string \<times> nat) list"

definition empty_registry :: SourceRegistry where
  "empty_registry = \<lparr>reg_refs = [], reg_byURL = []\<rparr>"

definition Register :: "url_parser \<Rightarrow> string \<Rightarrow> string \<Rightarrow> SourceRegistry \<Rightarrow> nat \<times> SourceRegistry" where
  "Register up title rawURL sr =
     (let u = trim_url rawURL; key = NormalizeURL up u; t = trim_space title in
      if u = [] then (0, sr)
      else case map_of (reg_byURL sr) key of
        Some idx \<Rightarrow> (idx, sr)
      | None \<Rightarrow>
          (let refs = reg_refs sr @ [\<lparr>ref_title = if t = [] then u else t, ref_url = u, ref_authors = [], ref_journal = []\<rparr>]
           in (length refs, \<lparr>reg_refs = refs, reg_byURL = AList.update key (length refs) (reg_byURL sr)\<rparr>)))"

definition Lookup :: "url_parser \<Rightarrow> string \<Rightarrow> SourceRegistry \<Rightarrow> nat" where
  "Lookup up rawURL sr =
     (let u = trim_url rawURL in
      if u = [] then 0
      else case map_of (reg_byURL sr) (NormalizeURL up u) of Some idx \<Rightarrow> idx | None \<Rightarrow> 0)"

fun absorb_from ::
    "url_parser \<Rightarrow> (int \<times> nat) list \<Rightarrow> NumberedSource list \<Rightarrow> SourceRegistry \<Rightarrow> (int \<times> nat) list \<times> SourceRegistry" where
  "absorb_from up remap [] sr = (remap, sr)"
| "absorb_from up remap (e # es) sr =
     (case Register up (ns_title e) (ns_url e) sr of
        (n, sr1) \<Rightarrow>
          absorb_from up (if ns_n e > 0 \<and> n > 0 then AList.update (ns_n e) n remap else remap) es sr1)"

definition Absorb :: "url_parser \<Rightarrow> NumberedSource list \<Rightarrow> SourceRegistry \<Rightarrow> (int \<times> nat) list \<times> SourceRegistry" where
  "Absorb up entries sr = absorb_from up [] entries sr"

definition numbered :: "'a list \<Rightarrow> (nat \<times> 'a) list" where
  "numbered xs = zip [1..<Suc (length xs)] xs"

definition citation_line :: "nat \<times> SourceRef \<Rightarrow> string" where
  "citation_line e = ''['' @ itoa (fst e) @ ''] '' @ ref_title (snd e) @ newline @ ''    '' @ ref_url (snd e) @ newline"

definition FormatCitationList :: "SourceRegistry \<Rightarrow> string" where
  "FormatCitationList sr =
     (if reg_refs sr = [] then []
      else newline @ newline @ ''--- AVAILABLE SOURCES ---'' @ newline
        @ ''Cite sources by number only, e.g. [1], [3]. Do NOT reproduce URLs in your argument. Citing a number not in this list will be flagged as fabricated.''
        @ newline @ newline
        @ concat (map citation_line (numbered (reg_refs sr))))"

text \<open>The classifier and the title cleaner are the hooks core wires in (core/sources/hooks.go).\<close>

definition bibliography_line :: "(string \<Rightarrow> string) \<Rightarrow> (string \<Rightarrow> string \<Rightarrow> string) \<Rightarrow> nat \<times> SourceRef \<Rightarrow> string" where
  "bibliography_line classify clean e =
     (let s = snd e;
          title = (if ref_title s = ref_url s \<or> ref_title s = [] then clean [] (ref_url s) else ref_title s);
          tag = classify (ref_url s);
          authors = (if ref_authors s \<noteq> [] then '' - Authors: '' @ ref_authors s
                     else if tag = ''peer-reviewed'' \<or> tag = ''preprint'' then '' - AUTHORS UNAVAILABLE'' else []);
          journal = (if ref_journal s \<noteq> [] then '' - Journal: '' @ ref_journal s else [])
      in ''['' @ itoa (fst e) @ ''] ''
         @ (if tag \<noteq> [] \<and> tag \<noteq> ''web'' then ''['' @ tag @ ''] '' else [])
         @ title @ authors @ journal @ '' - '' @ ref_url s @ newline)"

definition FormatBibliography :: "(string \<Rightarrow> string) \<Rightarrow> (string \<Rightarrow> string \<Rightarrow> string) \<Rightarrow> SourceRegistry \<Rightarrow> string" where
  "FormatBibliography classify clean sr = concat (map (bibliography_line classify clean) (numbered (reg_refs sr)))"

section \<open>Citations\<close>

text \<open>
  A regular expression that starts with \<open>[\<close> is a matcher of what follows: what it captured and how many
  characters it took. \<open>scan_brackets\<close> is \<open>FindAll\<close>: leftmost, without overlaps.
\<close>

type_synonym 'a matcher = "string \<Rightarrow> ('a \<times> nat) option"

function scan_brackets :: "'a matcher \<Rightarrow> string \<Rightarrow> 'a list" where
  "scan_brackets m [] = []"
| "scan_brackets m (c # s) =
     (if c = CHR ''['' then
        (case m s of Some (x, n) \<Rightarrow> x # scan_brackets m (drop n s) | None \<Rightarrow> scan_brackets m s)
      else scan_brackets m s)"
  by pat_completeness auto
termination by (relation "measure (\<lambda>(_, s). length s)") auto

text \<open>\<open>citeGroupRE\<close>: numbers separated by commas, then \<open>]\<close>.\<close>

function cite_group :: "string list matcher" where
  "cite_group s =
     (let d = takeWhile is_digit s; r = drop (length d) s;
          k = length (takeWhile re_space r); r1 = drop k r;
          j = length (takeWhile re_space (drop 1 r1))
      in if d = [] then None
         else if has_prefix r '']'' then Some ([d], length d + 1)
         else if has_prefix r1 '','' then
           (case cite_group (drop (1 + j) r1) of
              None \<Rightarrow> None
            | Some (ps, n) \<Rightarrow> Some (d # ps, length d + k + 1 + j + n))
         else None)"
  by pat_completeness auto
termination
proof (relation "measure length")
  fix s d r r1 :: string and k j
  assume "d = takeWhile is_digit s" "r = drop (length d) s" "r1 = drop k r" "d \<noteq> []"
  then show "(drop (1 + j) r1, s) \<in> measure length" by (cases s) auto
qed simp

declare cite_group.simps [simp del]

definition Citations :: "string \<Rightarrow> int list" where
  "Citations text0 = first_seen [] (List.map_filter Atoi (concat (scan_brackets cite_group text0)))"

text \<open>\<open>CiteRefPattern\<close>: one number, then \<open>]\<close>.\<close>

definition cite_ref :: "string matcher" where
  "cite_ref s =
     (let d = takeWhile is_digit s in
      if d \<noteq> [] \<and> has_prefix (drop (length d) s) '']'' then Some (d, length d + 1) else None)"

text \<open>\<open>RewriteCitations\<close> replaces each match; a number \<open>Sscanf\<close> cannot hold leaves its \<open>n\<close> at 0.\<close>

definition rewritten :: "(int \<times> nat) list \<Rightarrow> string \<Rightarrow> string" where
  "rewritten remap d =
     (case map_of remap (case Atoi d of Some n \<Rightarrow> n | None \<Rightarrow> 0) of
        Some n \<Rightarrow> ''['' @ itoa n @ '']''
      | None \<Rightarrow> [])"

function RewriteCitations :: "string \<Rightarrow> (int \<times> nat) list \<Rightarrow> string" where
  "RewriteCitations [] remap = []"
| "RewriteCitations (c # s) remap =
     (if c = CHR ''['' then
        (case cite_ref s of
           Some (d, n) \<Rightarrow> rewritten remap d @ RewriteCitations (drop n s) remap
         | None \<Rightarrow> c # RewriteCitations s remap)
      else c # RewriteCitations s remap)"
  by pat_completeness auto
termination by (relation "measure (\<lambda>(s, _). length s)") auto

text \<open>Here the digits are added up in a 64-bit \<open>int\<close>, which wraps.\<close>

definition digit_word :: "char \<Rightarrow> 64 word" where
  "digit_word c = of_nat (of_char c - 48)"

definition wrapped_number :: "string \<Rightarrow> int" where
  "wrapped_number d = sint (fold (\<lambda>c n. n * 10 + digit_word c) d 0)"

definition in_refs :: "int \<Rightarrow> SourceRegistry \<Rightarrow> bool" where
  "in_refs n sr \<longleftrightarrow> 1 \<le> n \<and> n \<le> int (length (reg_refs sr))"

definition ref_at :: "SourceRegistry \<Rightarrow> int \<Rightarrow> SourceRef" where
  "ref_at sr n = reg_refs sr ! nat (n - 1)"

definition ExtractCitedURLs :: "SourceRegistry \<Rightarrow> string \<Rightarrow> string list" where
  "ExtractCitedURLs sr text0 =
     first_seen [] (filter (\<lambda>u. u \<noteq> [])
       (map (\<lambda>n. ref_url (ref_at sr n))
         (filter (\<lambda>n. in_refs n sr) (map wrapped_number (scan_brackets cite_ref text0)))))"

text \<open>\<open>ExpandSourcesSection\<close> collects the numbers of brackets that hold digits, commas and spaces only.\<close>

definition loose_group :: "string matcher" where
  "loose_group s =
     (let g = takeWhile (\<lambda>c. is_digit c \<or> c = CHR '','' \<or> re_space c) s in
      if g \<noteq> [] \<and> has_prefix (drop (length g) s) '']'' then Some (g, length g + 1) else None)"

function digit_runs :: "string \<Rightarrow> string list" where
  "digit_runs [] = []"
| "digit_runs (c # s) =
     (if is_digit c then (c # takeWhile is_digit s) # digit_runs (dropWhile is_digit s) else digit_runs s)"
  by pat_completeness auto
termination by (relation "measure length") (auto simp: length_dropWhile_le le_imp_less_Suc)

definition markdown_ref :: "SourceRegistry \<Rightarrow> int \<Rightarrow> string" where
  "markdown_ref sr n = newline @ ''['' @ itoa_int n @ ''] ['' @ ref_title (ref_at sr n) @ '']('' @ ref_url (ref_at sr n) @ '')''"

definition ExpandSourcesSection :: "SourceRegistry \<Rightarrow> string \<Rightarrow> string" where
  "ExpandSourcesSection sr text0 =
     (case index_of text0 ''## SOURCES'' of
        None \<Rightarrow> text0
      | Some i \<Rightarrow>
          (let cited = first_seen [] (filter (\<lambda>n. in_refs n sr)
                  (map wrapped_number (concat (map digit_runs (scan_brackets loose_group (drop i text0))))))
           in if cited = [] then text0
              else take i text0 @ ''## SOURCES'' @ newline @ concat (map (\<lambda>n. markdown_ref sr n @ newline) cited)))"

section \<open>A run's sources\<close>

record Fetched =
  ft_title :: string
  ft_url :: string
  ft_text :: string

record RunSources =
  rs_reg :: SourceRegistry
  rs_text :: "(string \<times> string) list"
  rs_claimed :: "string list"

definition NewRunSources :: RunSources where
  "NewRunSources = \<lparr>rs_reg = empty_registry, rs_text = [], rs_claimed = []\<rparr>"

definition maxSourceText :: nat where "maxSourceText = 20000"
definition minReadText :: nat where "minReadText = 400"

definition text_of :: "RunSources \<Rightarrow> string \<Rightarrow> string" where
  "text_of rs key = (case map_of (rs_text rs) key of Some t \<Rightarrow> t | None \<Rightarrow> [])"

definition keep_longer :: "string \<Rightarrow> string \<Rightarrow> RunSources \<Rightarrow> RunSources" where
  "keep_longer key t rs =
     (if length t > length (text_of rs key) then rs\<lparr>rs_text := AList.update key t (rs_text rs)\<rparr> else rs)"

definition Add :: "url_parser \<Rightarrow> Fetched \<Rightarrow> RunSources \<Rightarrow> nat \<times> RunSources" where
  "Add up f rs =
     (if trim_space (ft_url f) = [] then (0, rs)
      else
        (let title = trim_space (ft_title f);
             (n, reg) = Register up (if title = [] then ft_url f else title) (ft_url f) (rs_reg rs);
             rs1 = rs\<lparr>rs_reg := reg\<rparr>;
             t = trim_space (ft_text f)
         in (n, if t = [] then rs1 else keep_longer (NormalizeURL up (ft_url f)) (take maxSourceText t) rs1)))"

definition Len :: "RunSources \<Rightarrow> nat" where
  "Len rs = length (reg_refs (rs_reg rs))"

definition List_sources :: "RunSources \<Rightarrow> string" where
  "List_sources rs =
     (if Len rs = 0 then ''(no sources have been read in this run yet)''
      else trim_space (concat (map (\<lambda>(i, r). ''['' @ itoa i @ ''] '' @ ref_title r @ '' - '' @ ref_url r @ newline)
             (numbered (reg_refs (rs_reg rs))))))"

definition Source :: "url_parser \<Rightarrow> int \<Rightarrow> RunSources \<Rightarrow> (SourceRef \<times> string) option" where
  "Source up n rs =
     (if \<not> in_refs n (rs_reg rs) then None
      else (let r = ref_at (rs_reg rs) n in Some (r, text_of rs (NormalizeURL up (ref_url r)))))"

definition Claimed :: "url_parser \<Rightarrow> string \<Rightarrow> RunSources \<Rightarrow> bool" where
  "Claimed up rawURL rs \<longleftrightarrow>
     (let key = NormalizeURL up rawURL in key \<in> set (rs_claimed rs) \<or> length (text_of rs key) \<ge> minReadText)"

definition Claim :: "url_parser \<Rightarrow> string \<Rightarrow> RunSources \<Rightarrow> bool \<times> RunSources" where
  "Claim up rawURL rs =
     (let key = NormalizeURL up rawURL in
      if key \<in> set (rs_claimed rs) \<or> length (text_of rs key) \<ge> minReadText then (False, rs)
      else (True, rs\<lparr>rs_claimed := key # rs_claimed rs\<rparr>))"

definition Texts :: "RunSources \<Rightarrow> string list" where
  "Texts rs = map snd (rs_text rs)"

definition Cite :: "string \<Rightarrow> RunSources \<Rightarrow> string \<times> int list" where
  "Cite text0 rs =
     (let cited = filter (\<lambda>n. in_refs n (rs_reg rs)) (Citations text0);
          unknown = filter (\<lambda>n. \<not> in_refs n (rs_reg rs)) (Citations text0)
      in if cited = [] then (text0, unknown)
         else (trim_right [newline] text0 @ newline @ newline @ ''## Sources'' @ newline
                 @ concat (map (markdown_ref (rs_reg rs)) (sort cited)) @ newline, unknown))"

section \<open>The registry as a list of keys\<close>

text \<open>The abstract registry: distinct keys, numbered from 1 in the order they came; 0 is no number.\<close>

primrec position :: "'a list \<Rightarrow> 'a \<Rightarrow> nat" where
  "position [] k = 0"
| "position (x # xs) k = (if x = k then 1 else if position xs k = 0 then 0 else Suc (position xs k))"

definition number_key :: "'a list \<Rightarrow> 'a \<Rightarrow> nat \<times> 'a list" where
  "number_key ks k = (if position ks k = 0 then (Suc (length ks), ks @ [k]) else (position ks k, ks))"

lemma position_0 [simp]: "position ks k = 0 \<longleftrightarrow> k \<notin> set ks"
  by (induction ks) auto

lemma position_bounds: "k \<in> set ks \<Longrightarrow> 1 \<le> position ks k \<and> position ks k \<le> length ks \<and> ks ! (position ks k - 1) = k"
proof (induction ks)
  case (Cons x xs)
  then show ?case by (cases "x = k") (auto simp: nth_Cons split: nat.splits)
qed simp

lemma position_append: "k \<in> set ks \<Longrightarrow> position (ks @ ls) k = position ks k"
  by (induction ks) auto

lemma position_snoc: "k \<notin> set ks \<Longrightarrow> position (ks @ [k]) k = Suc (length ks)"
  by (induction ks) auto

lemma position_inj: "k \<in> set ks \<Longrightarrow> position ks k = position ks l \<Longrightarrow> k = l"
  using position_bounds [of k ks] position_bounds [of l ks] by (metis One_nat_def position_0)

definition reg_keys :: "url_parser \<Rightarrow> SourceRegistry \<Rightarrow> string list" where
  "reg_keys up sr = map (\<lambda>r. NormalizeURL up (ref_url r)) (reg_refs sr)"

text \<open>The registry's invariant: its index answers exactly the positions of its keys.\<close>

definition reg_ok :: "url_parser \<Rightarrow> SourceRegistry \<Rightarrow> bool" where
  "reg_ok up sr \<longleftrightarrow> distinct (reg_keys up sr)
     \<and> (\<forall>k. map_of (reg_byURL sr) k = (if k \<in> set (reg_keys up sr) then Some (position (reg_keys up sr) k) else None))"

lemma reg_ok_empty [simp]: "reg_ok up empty_registry"
  by (simp add: reg_ok_def reg_keys_def empty_registry_def)

lemma reg_ok_lookup:
  "reg_ok up sr \<Longrightarrow>
     map_of (reg_byURL sr) k = (if k \<in> set (reg_keys up sr) then Some (position (reg_keys up sr) k) else None)"
  by (simp add: reg_ok_def)

lemma Register_refines:
  assumes "reg_ok up sr" "trim_url u \<noteq> []"
  shows "reg_ok up (snd (Register up title u sr))"
    "(fst (Register up title u sr), reg_keys up (snd (Register up title u sr)))
       = number_key (reg_keys up sr) (NormalizeURL up (trim_url u))"
proof -
  let ?k = "NormalizeURL up (trim_url u)"
  note look = reg_ok_lookup [OF assms(1)]
  show "(fst (Register up title u sr), reg_keys up (snd (Register up title u sr))) = number_key (reg_keys up sr) ?k"
    using assms(2) by (simp add: Register_def Let_def look number_key_def reg_keys_def)
  show "reg_ok up (snd (Register up title u sr))"
  proof (cases "?k \<in> set (reg_keys up sr)")
    case True
    then show ?thesis using assms by (simp add: Register_def Let_def look)
  next
    case False
    then have "reg_keys up (snd (Register up title u sr)) = reg_keys up sr @ [?k]"
      using assms(2) by (simp add: Register_def Let_def look reg_keys_def)
    moreover have "map_of (reg_byURL (snd (Register up title u sr))) k
        = ((map_of (reg_byURL sr))(?k \<mapsto> Suc (length (reg_keys up sr)))) k" for k
      using assms(2) False by (simp add: Register_def Let_def look map_of_update_eq reg_keys_def)
    ultimately show ?thesis
      using assms(1) False
      by (auto simp: reg_ok_def position_append position_snoc)
  qed
qed

lemma Register_none [simp]: "trim_url u = [] \<Longrightarrow> Register up title u sr = (0, sr)"
  by (simp add: Register_def)

lemma Register_keeps_ok: "reg_ok up sr \<Longrightarrow> reg_ok up (snd (Register up title u sr))"
  by (cases "trim_url u = []") (simp_all add: Register_refines)

text \<open>Registering only appends.\<close>

lemma Register_appends: "\<exists>rs. reg_refs (snd (Register up title u sr)) = reg_refs sr @ rs"
  by (auto simp: Register_def Let_def split: option.splits)

lemma Add_registers:
  "trim_space (ft_url f) \<noteq> [] \<Longrightarrow>
     rs_reg (snd (Add up f rs)) = snd (Register up (if trim_space (ft_title f) = [] then ft_url f else trim_space (ft_title f)) (ft_url f) (rs_reg rs))
     \<and> fst (Add up f rs) = fst (Register up (if trim_space (ft_title f) = [] then ft_url f else trim_space (ft_title f)) (ft_url f) (rs_reg rs))
     \<and> rs_claimed (snd (Add up f rs)) = rs_claimed rs"
  by (simp add: Add_def Let_def keep_longer_def split: prod.splits)

lemma trim_url_blank: "trim_space u = [] \<Longrightarrow> trim_url u = []"
  using trim_right_prefix [of "[]" url_cutset] by (simp add: trim_url_def)

lemma Add_frame:
  "rs_claimed (snd (Add up f rs)) = rs_claimed rs"
  "reg_ok up (rs_reg rs) \<Longrightarrow> reg_ok up (rs_reg (snd (Add up f rs)))"
  "\<exists>ks. reg_keys up (rs_reg (snd (Add up f rs))) = reg_keys up (rs_reg rs) @ ks"
proof -
  show "rs_claimed (snd (Add up f rs)) = rs_claimed rs"
    using Add_registers by (cases "trim_space (ft_url f) = []") (auto simp: Add_def)
  show "reg_ok up (rs_reg (snd (Add up f rs)))" if "reg_ok up (rs_reg rs)"
    using that Add_registers [of f up rs] Register_keeps_ok by (cases "trim_space (ft_url f) = []") (auto simp: Add_def)
  show "\<exists>ks. reg_keys up (rs_reg (snd (Add up f rs))) = reg_keys up (rs_reg rs) @ ks"
  proof (cases "trim_space (ft_url f) = []")
    case False
    then show ?thesis
      using Add_registers [of f up rs] Register_appends [of up "if trim_space (ft_title f) = [] then ft_url f else trim_space (ft_title f)" "ft_url f" "rs_reg rs"]
      by (auto simp: reg_keys_def)
  qed (simp add: Add_def)
qed

text \<open>The number a page gets is the position of its key.\<close>

lemma Add_number:
  assumes "reg_ok up (rs_reg rs)" "trim_url (ft_url f) \<noteq> []"
  shows "NormalizeURL up (trim_url (ft_url f)) \<in> set (reg_keys up (rs_reg (snd (Add up f rs))))
    \<and> fst (Add up f rs) = position (reg_keys up (rs_reg (snd (Add up f rs)))) (NormalizeURL up (trim_url (ft_url f)))"
proof -
  have "trim_space (ft_url f) \<noteq> []" using assms(2) trim_url_blank by blast
  note add = Add_registers [OF this, of up rs]
  let ?t = "if trim_space (ft_title f) = [] then ft_url f else trim_space (ft_title f)"
  from Register_refines(2) [OF assms, of ?t] add show ?thesis
    by (auto simp: number_key_def position_snoc split: if_splits)
qed

section \<open>Readers in any order\<close>

datatype rs_event = EAdd Fetched nat | EClaim string bool

inductive reads :: "url_parser \<Rightarrow> RunSources \<Rightarrow> rs_event list \<Rightarrow> RunSources \<Rightarrow> bool" for up where
  reads_done: "reads up rs [] rs"
| reads_add: "Add up f rs = (n, rs1) \<Longrightarrow> reads up rs1 es rs2 \<Longrightarrow> reads up rs (EAdd f n # es) rs2"
| reads_claim: "Claim up u rs = (b, rs1) \<Longrightarrow> reads up rs1 es rs2 \<Longrightarrow> reads up rs (EClaim u b # es) rs2"

inductive_cases reads_NilE: "reads up rs [] rs1"
inductive_cases reads_ConsE: "reads up rs (e # es) rs1"

lemma Claim_frame:
  "Claim up u rs = (b, rs1) \<Longrightarrow> rs_reg rs1 = rs_reg rs \<and> set (rs_claimed rs) \<subseteq> set (rs_claimed rs1)
     \<and> (b \<longrightarrow> NormalizeURL up u \<in> set (rs_claimed rs1) \<and> NormalizeURL up u \<notin> set (rs_claimed rs))"
  by (auto simp: Claim_def Let_def split: if_splits)

lemma reads_keys: "reads up rs es rs1 \<Longrightarrow> \<exists>ks. reg_keys up (rs_reg rs1) = reg_keys up (rs_reg rs) @ ks"
proof (induction rule: reads.induct)
  case (reads_add f rs n rs1 es rs2)
  then show ?case using Add_frame(3) [of up f rs] by auto
next
  case (reads_claim u rs b rs1 es rs2)
  then show ?case using Claim_frame [OF reads_claim.hyps(1)] by simp
qed simp

lemma reads_ok: "reads up rs es rs1 \<Longrightarrow> reg_ok up (rs_reg rs) \<Longrightarrow> reg_ok up (rs_reg rs1)"
proof (induction rule: reads.induct)
  case (reads_add f rs n rs1 es rs2)
  then show ?case using Add_frame(2) [of up rs f] by simp
next
  case (reads_claim u rs b rs1 es rs2)
  then show ?case using Claim_frame [OF reads_claim.hyps(1)] by simp
qed simp

lemma reads_numbers:
  "reads up rs es rs1 \<Longrightarrow> reg_ok up (rs_reg rs) \<Longrightarrow> EAdd f n \<in> set es \<Longrightarrow> trim_url (ft_url f) \<noteq> [] \<Longrightarrow>
     NormalizeURL up (trim_url (ft_url f)) \<in> set (reg_keys up (rs_reg rs1))
     \<and> n = position (reg_keys up (rs_reg rs1)) (NormalizeURL up (trim_url (ft_url f)))"
proof (induction rule: reads.induct)
  case (reads_add g rs m rs1 es rs2)
  have ok1: "reg_ok up (rs_reg rs1)" using Add_frame(2) [OF reads_add.prems(1), of g] reads_add.hyps(1) by simp
  show ?case
  proof (cases "EAdd f n = EAdd g m")
    case True
    with Add_number [OF reads_add.prems(1,3)] reads_add.hyps(1)
    have "NormalizeURL up (trim_url (ft_url f)) \<in> set (reg_keys up (rs_reg rs1))"
      "n = position (reg_keys up (rs_reg rs1)) (NormalizeURL up (trim_url (ft_url f)))" by auto
    with reads_keys [OF reads_add.hyps(2)] show ?thesis by (auto simp: position_append)
  next
    case False
    then have "EAdd f n \<in> set es" using reads_add.prems(2) by auto
    from reads_add.IH [OF ok1 this reads_add.prems(3)] show ?thesis .
  qed
next
  case (reads_claim u rs b rs1 es rs2)
  then show ?case using Claim_frame [OF reads_claim.hyps(1)] by simp
qed simp

definition claims_of :: "url_parser \<Rightarrow> string \<Rightarrow> rs_event list \<Rightarrow> rs_event list" where
  "claims_of up key es = filter (\<lambda>e. case e of EClaim u b \<Rightarrow> b \<and> NormalizeURL up u = key | EAdd _ _ \<Rightarrow> False) es"

lemma claimed_no_more: "reads up rs es rs1 \<Longrightarrow> key \<in> set (rs_claimed rs) \<Longrightarrow> claims_of up key es = []"
proof (induction rule: reads.induct)
  case (reads_add f rs n rs1 es rs2)
  then show ?case using Add_frame(1) [of up f rs] by (simp add: claims_of_def)
next
  case (reads_claim u rs b rs1 es rs2)
  then show ?case using Claim_frame [OF reads_claim.hyps(1)] by (auto simp: claims_of_def)
qed (simp add: claims_of_def)

section \<open>Numbers in print\<close>

lemma digits_value_itoa: "digits_value (itoa n) 0 = Some n"
proof (induction n rule: itoa.induct)
  case (1 n)
  show ?case
  proof (cases "n < 10")
    case True
    then show ?thesis by (simp add: itoa.simps [of n] digit_value)
  next
    case False
    with 1 show ?thesis
      by (simp add: itoa.simps [of n] digits_value_append digit_value)
  qed
qed

lemma digits_itoa: "itoa n \<noteq> [] \<and> (\<forall>c \<in> set (itoa n). is_digit c)"
proof (induction n rule: itoa.induct)
  case (1 n)
  have "is_digit (digit d)" if "d < 10" for d using that by (simp add: is_digit_def digit_value)
  with 1 show ?case by (subst itoa.simps, subst (2) itoa.simps) auto
qed

lemma Atoi_itoa: "int n < 2 ^ 63 \<Longrightarrow> Atoi (itoa n) = Some (int n)"
proof -
  assume n: "int n < 2 ^ 63"
  obtain c cs where s: "itoa n = c # cs" "is_digit c" using digits_itoa [of n] by (cases "itoa n") auto
  then have "c \<noteq> CHR ''-''" "c \<noteq> CHR ''+''" by (auto simp: is_digit_def)
  with s have "\<not> has_prefix (itoa n) ''-''" "\<not> has_prefix (itoa n) ''+''" by (auto simp: has_prefix_def)
  then show ?thesis using n digits_itoa [of n] by (simp add: Atoi_def digits_value_itoa)
qed

definition printed_group :: "nat list \<Rightarrow> string" where
  "printed_group ns = join '', '' (map itoa ns) @ '']''"

lemma takeWhile_digits:
  "\<not> is_digit c \<Longrightarrow> takeWhile is_digit (itoa n @ c # s) = itoa n"
  using digits_itoa [of n] by (subst takeWhile_append2) auto

lemma cite_group_last: "cite_group (itoa n @ '']'' @ s) = Some ([itoa n], length (itoa n) + 1)"
  using digits_itoa [of n]
  by (subst cite_group.simps) (simp add: Let_def takeWhile_digits has_prefix_def is_digit_def)

lemma cite_group_more:
  assumes "is_digit c"
  shows "cite_group (itoa n @ '', '' @ c # cs) =
    (case cite_group (c # cs) of None \<Rightarrow> None | Some (ps, k) \<Rightarrow> Some (itoa n # ps, length (itoa n) + 2 + k))"
proof -
  define s where "s = itoa n @ '', '' @ c # cs"
  have tw: "takeWhile is_digit s = itoa n"
    unfolding s_def using takeWhile_digits [of "CHR '',''" n "'' '' @ c # cs"] by (simp add: is_digit_def)
  have dr: "drop (length (itoa n)) s = '', '' @ c # cs" by (simp add: s_def)
  have sp: "\<not> re_space c" "\<not> re_space (CHR '','')" "re_space (CHR '' '')"
    using assms by (auto simp: is_digit_def re_space_def)
  have "cite_group s = (case cite_group (c # cs) of None \<Rightarrow> None | Some (ps, k) \<Rightarrow> Some (itoa n # ps, length (itoa n) + 2 + k))"
    using digits_itoa [of n] sp
    by (subst cite_group.simps) (simp add: Let_def tw dr has_prefix_def split: option.splits)
  then show ?thesis by (simp add: s_def)
qed

lemma cite_group_printed:
  "ns \<noteq> [] \<Longrightarrow> cite_group (printed_group ns @ s) = Some (map itoa ns, length (printed_group ns))"
proof (induction ns)
  case (Cons n ns)
  show ?case
  proof (cases ns)
    case Nil
    then show ?thesis using cite_group_last [of n s] by (simp add: printed_group_def)
  next
    case (Cons m ms)
    obtain c cs where p: "printed_group ns @ s = c # cs" "is_digit c"
      using digits_itoa [of m] Cons by (cases "itoa m"; cases ms) (auto simp: printed_group_def)
    have g: "printed_group (n # ns) = itoa n @ '', '' @ printed_group ns"
      using Cons by (simp add: printed_group_def)
    have "cite_group (c # cs) = Some (map itoa ns, length (printed_group ns))"
      using Cons.IH Cons p(1) by simp
    then have "cite_group (itoa n @ '', '' @ printed_group ns @ s)
        = Some (itoa n # map itoa ns, length (itoa n) + 2 + length (printed_group ns))"
      unfolding p(1) by (subst cite_group_more [OF p(2)]) simp
    then show ?thesis by (simp add: g)
  qed
qed simp

lemma scan_no_bracket: "CHR ''['' \<notin> set s \<Longrightarrow> scan_brackets m (s @ t) = scan_brackets m t"
  by (induction s) auto

lemma scan_ends: "CHR ''['' \<notin> set s \<Longrightarrow> scan_brackets m s = []"
  using scan_no_bracket [of s m "[]"] by simp

lemma map_filter_Atoi:
  "\<forall>n \<in> set ns. int n < 2 ^ 63 \<Longrightarrow> List.map_filter Atoi (map itoa ns) = map int ns"
  by (induction ns) (auto simp: Atoi_itoa List.map_filter_def)

lemma first_seen_distinct: "distinct xs \<Longrightarrow> set seen \<inter> set xs = {} \<Longrightarrow> first_seen seen xs = xs"
  by (induction xs arbitrary: seen) auto

section \<open>Properties\<close>

definition sample_parser :: url_parser where
  "sample_parser u =
     (if has_prefix u ''https://'' then
        Some (takeWhile (\<lambda>c. c \<noteq> CHR ''/'') (drop 8 u), dropWhile (\<lambda>c. c \<noteq> CHR ''/'') (drop 8 u))
      else None)"

definition page :: "string \<Rightarrow> string \<Rightarrow> Fetched" where
  "page u t = \<lparr>ft_title = [], ft_url = u, ft_text = t\<rparr>"

text \<open>C13: The source registry implements a list of distinct page keys numbered in the order they first came: a
  registration answers the key's position, appends it when it is new, and keeps the index exact, so a later
  lookup finds the same number.\<close>

theorem registry_refines_a_list_of_keys:
  assumes "reg_ok up sr" "trim_url u \<noteq> []"
  shows "(fst (Register up title u sr), reg_keys up (snd (Register up title u sr)))
        = number_key (reg_keys up sr) (NormalizeURL up (trim_url u))
    \<and> Lookup up u (snd (Register up title u sr)) = fst (Register up title u sr)
    \<and> reg_ok up (snd (Register up title u sr))"
proof -
  note r = Register_refines [OF assms, of title]
  have "Lookup up u (snd (Register up title u sr)) = fst (Register up title u sr)"
    using r(2) assms(2) reg_ok_lookup [OF r(1)]
    by (auto simp: Lookup_def Let_def number_key_def position_snoc split: if_splits)
  with r show ?thesis by blast
qed

theorem registry_refines_a_list_of_keys_witness:
  "Lookup sample_parser ''https://a.org/x.'' (snd (Register sample_parser ''X'' ''https://a.org/x.'' empty_registry)) = 1"
proof -
  have n: "trim_url ''https://a.org/x.'' \<noteq> []" by code_simp
  have "fst (Register sample_parser ''X'' ''https://a.org/x.'' empty_registry) = 1" by code_simp
  with registry_refines_a_list_of_keys [OF reg_ok_empty n, of sample_parser "''X''"] show ?thesis by simp
qed

text \<open>However readings and claims interleave, two readings are given the same number exactly when their
  pages have the same key: numbers are never reused and a page is never numbered twice.\<close>

theorem one_number_per_page:
  assumes "reads up NewRunSources es rs" "EAdd f n \<in> set es" "EAdd g m \<in> set es"
    and "trim_url (ft_url f) \<noteq> []" "trim_url (ft_url g) \<noteq> []"
  shows "n = m \<longleftrightarrow> NormalizeURL up (trim_url (ft_url f)) = NormalizeURL up (trim_url (ft_url g))"
proof -
  have ok: "reg_ok up (rs_reg NewRunSources)" by (simp add: NewRunSources_def)
  from reads_numbers [OF assms(1) ok assms(2,4)] reads_numbers [OF assms(1) ok assms(3,5)] show ?thesis
    using position_inj by metis
qed

definition two_readings :: "rs_event list" where
  "two_readings = [EAdd (page ''https://a.org/x'' ''t'') 1, EClaim ''https://a.org/x'' True,
     EAdd (page ''https://www.a.org/x/'' ''u'') 1]"

lemma reads_addI: "fst (Add up f rs) = n \<Longrightarrow> reads up (snd (Add up f rs)) es rs2 \<Longrightarrow> reads up rs (EAdd f n # es) rs2"
  by (cases "Add up f rs") (auto intro: reads_add)

lemma reads_claimI: "fst (Claim up u rs) = b \<Longrightarrow> reads up (snd (Claim up u rs)) es rs2 \<Longrightarrow> reads up rs (EClaim u b # es) rs2"
  by (cases "Claim up u rs") (auto intro: reads_claim)

lemma sample_trims:
  "NormalizeURL sample_parser ''https://a.org/x'' = ''a.org/x''"
    "NormalizeURL sample_parser ''https://www.a.org/x/'' = ''a.org/x''"
    "trim_url ''https://a.org/x'' = ''https://a.org/x''" "trim_url ''https://www.a.org/x/'' = ''https://www.a.org/x/''"
    "trim_space ''t'' = ''t''" "trim_space ''u'' = ''u''"
    "trim_space ''https://a.org/x'' \<noteq> []" "trim_space ''https://www.a.org/x/'' \<noteq> []"
  by code_simp+

lemma two_readings_run:
  "\<exists>rs. reads sample_parser NewRunSources two_readings rs"
proof -
  note d = Add_def Claim_def Register_def page_def NewRunSources_def empty_registry_def Let_def keep_longer_def text_of_def
    minReadText_def maxSourceText_def
  show ?thesis
    unfolding two_readings_def
    by (rule exI, rule reads_addI, (simp add: d sample_trims; fail), rule reads_claimI, (simp add: d sample_trims; fail),
        rule reads_addI, (simp add: d sample_trims; fail), rule reads_done)
qed

theorem one_number_per_page_witness:
  "NormalizeURL sample_parser (trim_url ''https://a.org/x'') = NormalizeURL sample_parser (trim_url ''https://www.a.org/x/'')"
proof -
  obtain rs where r: "reads sample_parser NewRunSources two_readings rs" using two_readings_run by blast
  have e: "EAdd (page ''https://a.org/x'' ''t'') 1 \<in> set two_readings"
    "EAdd (page ''https://www.a.org/x/'' ''u'') 1 \<in> set two_readings" by (simp_all add: two_readings_def)
  have n: "trim_url (ft_url (page ''https://a.org/x'' ''t'')) \<noteq> []"
    "trim_url (ft_url (page ''https://www.a.org/x/'' ''u'')) \<noteq> []" by code_simp+
  from one_number_per_page [OF r e n] show ?thesis by (simp add: page_def)
qed

text \<open>Parallel readers never fetch the same page: in any sequence of readings and claims, at most one claim of
  a page's key succeeds.\<close>

theorem a_page_is_claimed_once:
  assumes "reads up rs es rs1"
  shows "length (claims_of up key es) \<le> 1"
  using assms
proof (induction rule: reads.induct)
  case (reads_claim u rs b rs1 es rs2)
  show ?case
  proof (cases "b \<and> NormalizeURL up u = key")
    case True
    then have "key \<in> set (rs_claimed rs1)" using Claim_frame [OF reads_claim.hyps(1)] by blast
    with claimed_no_more [OF reads_claim.hyps(2)] show ?thesis by (auto simp: claims_of_def)
  next
    case False
    with reads_claim.IH show ?thesis by (auto simp: claims_of_def)
  qed
qed (simp_all add: claims_of_def)

theorem a_page_is_claimed_once_witness:
  "length (claims_of sample_parser ''a.org/x'' two_readings) \<le> 1"
  using two_readings_run a_page_is_claimed_once by blast

text \<open>A citation that is printed is found again: the numbers of one bracketed group, each below \<open>2^63\<close> and
  with no bracket before or after it, are read back in order.\<close>

theorem a_printed_citation_is_read_back:
  assumes "ns \<noteq> []" "distinct ns" "\<forall>n \<in> set ns. int n < 2 ^ 63"
    and "CHR ''['' \<notin> set before" "CHR ''['' \<notin> set after"
  shows "Citations (before @ CHR ''['' # printed_group ns @ after) = map int ns"
proof -
  have "distinct (map int ns)" using assms(2) by (simp add: distinct_map)
  then show ?thesis
    using assms(3-5) cite_group_printed [OF assms(1), of after]
    by (simp add: Citations_def scan_no_bracket scan_ends map_filter_Atoi first_seen_distinct)
qed

theorem a_printed_citation_is_read_back_witness:
  "Citations (''so it is '' @ CHR ''['' # printed_group [3, 12] @ ''.'') = [3, 12]"
  by (subst a_printed_citation_is_read_back) auto

text \<open>A number in a remap is the position of the key of an entry that carried it.\<close>

definition remap_ok :: "url_parser \<Rightarrow> NumberedSource list \<Rightarrow> (int \<times> nat) list \<Rightarrow> SourceRegistry \<Rightarrow> bool" where
  "remap_ok up entries remap sr \<longleftrightarrow>
     (\<forall>N n. map_of remap N = Some n \<longrightarrow>
        (\<exists>e \<in> set entries. ns_n e = N \<and> NormalizeURL up (trim_url (ns_url e)) \<in> set (reg_keys up sr)
           \<and> n = position (reg_keys up sr) (NormalizeURL up (trim_url (ns_url e)))))"

lemma remap_ok_grow:
  "remap_ok up entries remap sr \<Longrightarrow> reg_keys up sr1 = reg_keys up sr @ ks \<Longrightarrow> remap_ok up entries remap sr1"
  unfolding remap_ok_def by (fastforce simp: position_append)

lemma Register_keys: "\<exists>ks. reg_keys up (snd (Register up title u sr)) = reg_keys up sr @ ks"
  using Register_appends [of up title u sr] by (auto simp: reg_keys_def)

lemma Register_number:
  "reg_ok up sr \<Longrightarrow> trim_url u \<noteq> [] \<Longrightarrow>
     NormalizeURL up (trim_url u) \<in> set (reg_keys up (snd (Register up title u sr)))
     \<and> fst (Register up title u sr) = position (reg_keys up (snd (Register up title u sr))) (NormalizeURL up (trim_url u))"
  using Register_refines(2) [of up sr u title] by (auto simp: number_key_def position_snoc split: if_splits)

lemma absorb_from_ok:
  "reg_ok up sr \<Longrightarrow> remap_ok up entries remap sr \<Longrightarrow> set es \<subseteq> set entries \<Longrightarrow>
     absorb_from up remap es sr = (remap1, sr1) \<Longrightarrow> reg_ok up sr1 \<and> remap_ok up entries remap1 sr1"
proof (induction es arbitrary: remap sr)
  case (Cons e es)
  obtain n sr2 where r: "Register up (ns_title e) (ns_url e) sr = (n, sr2)" by fastforce
  have ok: "reg_ok up sr2" using Register_keeps_ok [OF Cons.prems(1), of "ns_title e" "ns_url e"] r by simp
  obtain ks where "reg_keys up sr2 = reg_keys up sr @ ks"
    using Register_keys [of up "ns_title e" "ns_url e" sr] r by auto
  then have grown: "remap_ok up entries remap sr2" by (rule remap_ok_grow [OF Cons.prems(2)])
  have "remap_ok up entries (if ns_n e > 0 \<and> n > 0 then AList.update (ns_n e) n remap else remap) sr2"
  proof (cases "n > 0")
    case True
    then have "trim_url (ns_url e) \<noteq> []" using r by (auto simp: Register_def Let_def)
    from Register_number [OF Cons.prems(1) this, of "ns_title e"] grown Cons.prems(3) show ?thesis
      by (auto simp: r remap_ok_def map_of_update_eq)
  qed (use grown in simp)
  from Cons.IH [OF ok this] Cons.prems(3,4) r show ?case by simp
qed simp

text \<open>Merging another index's sources keeps citations on their pages: the new number an old one is mapped to
  is that of the page which an entry with the old number named.\<close>

theorem absorbed_numbers_name_the_same_page:
  assumes "reg_ok up sr" "Absorb up entries sr = (remap, sr1)" "map_of remap N = Some n"
  shows "\<exists>e \<in> set entries. ns_n e = N \<and> 1 \<le> n \<and> n \<le> length (reg_refs sr1)
    \<and> NormalizeURL up (ref_url (reg_refs sr1 ! (n - 1))) = NormalizeURL up (trim_url (ns_url e))"
proof -
  have "remap_ok up entries [] sr" by (simp add: remap_ok_def)
  from absorb_from_ok [OF assms(1) this subset_refl] assms(2)
  have "remap_ok up entries remap sr1" by (simp add: Absorb_def)
  with assms(3) obtain e where e: "e \<in> set entries" "ns_n e = N"
    "NormalizeURL up (trim_url (ns_url e)) \<in> set (reg_keys up sr1)"
    "n = position (reg_keys up sr1) (NormalizeURL up (trim_url (ns_url e)))" by (auto simp: remap_ok_def)
  have b: "1 \<le> n" "n \<le> length (reg_refs sr1)" using position_bounds [OF e(3)] e(4) by (simp_all add: reg_keys_def)
  have "reg_keys up sr1 ! (n - 1) = NormalizeURL up (trim_url (ns_url e))" using position_bounds [OF e(3)] e(4) by simp
  with b have "NormalizeURL up (ref_url (reg_refs sr1 ! (n - 1))) = NormalizeURL up (trim_url (ns_url e))"
    by (simp add: reg_keys_def)
  with b e(1,2) show ?thesis by blast
qed

definition old_index :: "NumberedSource list" where
  "old_index = [\<lparr>ns_n = 7, ns_title = ''A'', ns_url = ''https://a.org/x''\<rparr>, \<lparr>ns_n = 9, ns_title = ''A'', ns_url = ''https://a.org/x/''\<rparr>]"

theorem absorbed_numbers_name_the_same_page_witness:
  "\<exists>e \<in> set old_index. ns_n e = 9"
proof -
  obtain remap sr1 where a: "Absorb sample_parser old_index empty_registry = (remap, sr1)" by fastforce
  have "map_of (fst (Absorb sample_parser old_index empty_registry)) 9 = Some 1" by code_simp
  then have "map_of remap 9 = Some 1" using a by simp
  from absorbed_numbers_name_the_same_page [OF reg_ok_empty a this] show ?thesis by blast
qed

text \<open>A page's text stays with its number: after a reading, the source it was numbered as carries at least as
  much text as was read, up to the 20000 characters kept, whatever was kept before. The page's URL is one
  that trimming twice leaves alone.\<close>

theorem a_reading_can_be_checked:
  assumes "reg_ok up (rs_reg rs)" "Add up f rs = (n, rs1)" "trim_url (ft_url f) \<noteq> []"
    and "NormalizeURL up (trim_url (ft_url f)) = NormalizeURL up (ft_url f)"
  shows "\<exists>r t. Source up (int n) rs1 = Some (r, t) \<and> min 20000 (length (trim_space (ft_text f))) \<le> length t"
proof -
  let ?k = "NormalizeURL up (ft_url f)"
  have ok1: "reg_ok up (rs_reg rs1)" using Add_frame(2) [OF assms(1), of f] assms(2) by simp
  from Add_number [OF assms(1,3)] assms(2,4)
  have n: "?k \<in> set (reg_keys up (rs_reg rs1))" "n = position (reg_keys up (rs_reg rs1)) ?k" by simp_all
  note b = position_bounds [OF n(1)]
  have range: "1 \<le> n" "n \<le> length (reg_refs (rs_reg rs1))" using b n(2) by (simp_all add: reg_keys_def)
  have "reg_keys up (rs_reg rs1) ! (n - 1) = ?k" using b n(2) by simp
  moreover have "nat (int n - 1) = n - 1" using range by simp
  ultimately have key: "NormalizeURL up (ref_url (ref_at (rs_reg rs1) (int n))) = ?k"
    using range by (simp add: reg_keys_def ref_at_def)
  have "min 20000 (length (trim_space (ft_text f))) \<le> length (text_of rs1 ?k)"
    using assms(2,3) trim_url_blank [of "ft_url f"]
    by (auto simp: Add_def Let_def keep_longer_def text_of_def map_of_update_eq maxSourceText_def
        split: prod.splits if_splits)
  with range key show ?thesis by (simp add: Source_def Let_def in_refs_def)
qed

theorem a_reading_can_be_checked_witness:
  "\<exists>r t. Source sample_parser 1 (snd (Add sample_parser (page ''https://a.org/x'' ''t'') NewRunSources)) = Some (r, t)"
proof -
  have n: "fst (Add sample_parser (page ''https://a.org/x'' ''t'') NewRunSources) = 1"
    by (simp add: Add_def page_def NewRunSources_def Register_def empty_registry_def Let_def keep_longer_def sample_trims)
  have k: "trim_url (ft_url (page ''https://a.org/x'' ''t'')) \<noteq> []"
    "NormalizeURL sample_parser (trim_url (ft_url (page ''https://a.org/x'' ''t'')))
      = NormalizeURL sample_parser (ft_url (page ''https://a.org/x'' ''t''))" by code_simp+
  have ok: "reg_ok sample_parser (rs_reg NewRunSources)" by (simp add: NewRunSources_def)
  from a_reading_can_be_checked [OF ok _ k, of 1] n show ?thesis
    by (cases "Add sample_parser (page ''https://a.org/x'' ''t'') NewRunSources") auto
qed

text \<open>Digits past 64 bits wrap where the numbers are added up by hand: a citation that \<open>Citations\<close> cannot
  read, and so reports to nobody, resolves to source 1 in \<open>ExtractCitedURLs\<close>.\<close>

theorem a_huge_citation_wraps_to_a_source:
  "Citations ''[18446744073709551617]'' = []
   \<and> ExtractCitedURLs (snd (Register sample_parser ''X'' ''https://a.org/x'' empty_registry)) ''[18446744073709551617]''
      = [''https://a.org/x'']"
proof -
  have "scan_brackets cite_group ''[18446744073709551617]'' = [[''18446744073709551617'']]"
    "scan_brackets cite_ref ''[18446744073709551617]'' = [''18446744073709551617'']" by code_simp+
  moreover have "Atoi ''18446744073709551617'' = None" by (simp add: Atoi_def has_prefix_def)
  moreover have "wrapped_number ''18446744073709551617'' = 1" by (simp add: wrapped_number_def digit_word_def)
  moreover have "reg_refs (snd (Register sample_parser ''X'' ''https://a.org/x'' empty_registry))
      = [\<lparr>ref_title = ''X'', ref_url = ''https://a.org/x'', ref_authors = [], ref_journal = []\<rparr>]" by code_simp
  ultimately show ?thesis
    by (simp add: Citations_def ExtractCitedURLs_def in_refs_def ref_at_def List.map_filter_def)
qed

end
