(* ===== verification/PipelineSources.thy ===== *)
theory PipelineSources
  imports PipelineHost
begin

text \<open>
  The two stage kinds that work on a run's sources (core/pipeline_interp.go): a gather searches, reads pages
  in waves and numbers them; a verify checks an earlier stage's citations, figures and cited claims. Calls
  the code makes in parallel are made here in index order; each goes through the shared world and source
  list, so this is one of the orders the code allows.

  The record \<open>readers\<close> holds what these stages use from elsewhere: the weak-source tables
  (core/sources/filters.go), a URL's host name, the excerpt chosen by shared words, the figures
  \<open>factcheck.VerifyFacts\<close> finds nowhere, and the sentences that carry a citation. A list a verify leaves empty
  is a nil slice in Go, which \<open>json.Marshal\<close> prints as \<open>null\<close>: \<open>VList []\<close> stands for it.
\<close>

record readers =
  rd_weak :: "string \<Rightarrow> bool"
  rd_host :: "string \<Rightarrow> string"
  rd_excerpt :: "string \<Rightarrow> string \<Rightarrow> nat \<Rightarrow> string"
  rd_figures :: "string \<Rightarrow> string list \<Rightarrow> string list"
  rd_claims :: "string \<Rightarrow> string list"

section \<open>Gather\<close>

definition gatherDefaultPages :: int where "gatherDefaultPages = 6"
definition gatherMaxQueries :: nat where "gatherMaxQueries = 4"
definition gatherPerDomain :: nat where "gatherPerDomain = 2"
definition gatherExcerpt :: nat where "gatherExcerpt = 1200"
definition minPageText :: nat where "minPageText = 400"

text \<open>\<open>listMarkerRE\<close>: white space, a dash, a star, a bullet (three bytes) or a number with \<open>.\<close> or \<open>)\<close>, white space.\<close>

definition bullet_rune :: string where
  "bullet_rune = [CHR 0xE2, CHR 0x80, CHR 0xA2]"

definition after_marker :: "string \<Rightarrow> string option" where
  "after_marker s =
     (if has_prefix s ''-'' \<or> has_prefix s ''*'' then Some (drop 1 s)
      else if has_prefix s bullet_rune then Some (drop 3 s)
      else (let d = takeWhile is_digit s; r = drop (length d) s in
            if d \<noteq> [] \<and> (has_prefix r ''.'' \<or> has_prefix r '')'') then Some (drop 1 r) else None))"

definition drop_marker :: "string \<Rightarrow> string" where
  "drop_marker line =
     (case after_marker (dropWhile re_space line) of
        None \<Rightarrow> line
      | Some r \<Rightarrow> (if r \<noteq> [] \<and> re_space (hd r) then dropWhile re_space r else line))"

fun query_lines :: "nat \<Rightarrow> string list \<Rightarrow> string list \<Rightarrow> string list" where
  "query_lines left seen [] = []"
| "query_lines left seen (l # ls) =
     (let line = trim_space (drop_marker l) in
      if left = 0 then []
      else if line = [] \<or> to_lower line \<in> set seen then query_lines left seen ls
      else line # query_lines (left - 1) (to_lower line # seen) ls)"

definition gatherQueries :: "golib \<Rightarrow> string \<Rightarrow> string list" where
  "gatherQueries L text0 =
     (let t = trim_space text0;
          t1 = (if has_prefix t ''['' then
                  (case json_array L t of
                     Some vs \<Rightarrow>
                       (if list_all (\<lambda>v. case v of VStr _ \<Rightarrow> True | VNil \<Rightarrow> True | _ \<Rightarrow> False) vs
                        then join newline (map (\<lambda>v. case v of VStr x \<Rightarrow> x | _ \<Rightarrow> []) vs) else t)
                   | None \<Rightarrow> t)
                else t)
      in if t = [] then [] else query_lines gatherMaxQueries [] (split_lines t1))"

record gatheredPage =
  gp_n :: nat
  gp_title :: string
  gp_url :: string
  gp_excerpt :: string
  gp_query :: string

record candidate =
  cn_page :: Fetched
  cn_query :: string

text \<open>The searches, one after another; a search that fails finds nothing.\<close>

fun search_all :: "'w pipe_host \<Rightarrow> string list \<Rightarrow> 'w run_state \<Rightarrow> Fetched list list \<times> 'w run_state" where
  "search_all H [] s = ([], s)"
| "search_all H (q # qs) s =
     (case ho_tool H (rn_now s) ''web_search'' [(''query'', VStr q)] of
        (r, w) \<Rightarrow>
          (case search_all H qs (s\<lparr>rn_now := w\<rparr>) of
             (found, s1) \<Rightarrow>
               ((case r of Inl _ \<Rightarrow> [] | Inr out \<Rightarrow> ho_extract H ''web_search'' [(''query'', VStr q)] out) # found, s1)))"

record picking =
  pk_seen :: "string list"
  pk_domain :: "(string \<times> nat) list"
  pk_picks :: "candidate list"

definition domain_count :: "picking \<Rightarrow> string \<Rightarrow> nat" where
  "domain_count pk host = (case map_of (pk_domain pk) host of Some n \<Rightarrow> n | None \<Rightarrow> 0)"

definition consider_page ::
    "readers \<Rightarrow> url_parser \<Rightarrow> RunSources \<Rightarrow> string \<times> Fetched \<Rightarrow> picking \<Rightarrow> picking" where
  "consider_page R up rs qf pk =
     (case qf of (q, f) \<Rightarrow>
      (let key = NormalizeURL up (ft_url f); host = rd_host R (ft_url f) in
       if key = [] \<or> key \<in> set (pk_seen pk) \<or> rd_weak R (ft_url f) \<or> Claimed up (ft_url f) rs
            \<or> domain_count pk host \<ge> gatherPerDomain
         then pk
       else \<lparr>pk_seen = key # pk_seen pk, pk_domain = AList.update host (domain_count pk host + 1) (pk_domain pk),
              pk_picks = pk_picks pk @ [\<lparr>cn_page = f, cn_query = q\<rparr>]\<rparr>))"

definition at_depth :: "string list \<Rightarrow> Fetched list list \<Rightarrow> nat \<Rightarrow> (string \<times> Fetched) list" where
  "at_depth qs found depth =
     concat (map (\<lambda>(q, res). if depth < length res then [(q, res ! depth)] else []) (zip qs found))"

definition pick_pages ::
    "readers \<Rightarrow> url_parser \<Rightarrow> RunSources \<Rightarrow> string list \<Rightarrow> Fetched list list \<Rightarrow> candidate list" where
  "pick_pages R up rs qs found =
     pk_picks (fold (consider_page R up rs)
       (concat (map (at_depth qs found) [0..<fold max (map length found) 0]))
       \<lparr>pk_seen = [], pk_domain = [], pk_picks = []\<rparr>)"

definition note_page ::
    "'w pipe_host \<Rightarrow> readers \<Rightarrow> string list \<Rightarrow> candidate \<Rightarrow> Fetched
      \<Rightarrow> gatheredPage list \<times> RunSources \<Rightarrow> gatheredPage list \<times> RunSources" where
  "note_page H R qs c f acc =
     (case acc of (read, rs) \<Rightarrow>
      if length (ft_text f) < minPageText then acc
      else
        (let f1 = (if trim_space (ft_title (cn_page c)) \<noteq> [] then f\<lparr>ft_title := ft_title (cn_page c)\<rparr> else f);
             (n, rs1) = Add (ho_url H) f1 rs
         in (read @ [\<lparr>gp_n = n, gp_title = ft_title f1, gp_url = ft_url f1,
                       gp_excerpt = rd_excerpt R (ft_text f1) (join '' '' qs) gatherExcerpt, gp_query = cn_query c\<rparr>],
             rs1)))"

definition read_page ::
    "'w pipe_host \<Rightarrow> readers \<Rightarrow> string list \<Rightarrow> candidate
      \<Rightarrow> gatheredPage list \<times> 'w run_state \<Rightarrow> gatheredPage list \<times> 'w run_state" where
  "read_page H R qs c acc =
     (case acc of (read, s) \<Rightarrow>
      (case Claim (ho_url H) (ft_url (cn_page c)) (rn_srcs s) of
         (False, rs) \<Rightarrow> (read, s\<lparr>rn_srcs := rs\<rparr>)
       | (True, rs) \<Rightarrow>
           (let args = [(''url'', VStr (ft_url (cn_page c)))] in
            case ho_tool H (rn_now s) ''fetch_url'' args of
              (Inl e, w) \<Rightarrow> (read, s\<lparr>rn_srcs := rs, rn_now := w\<rparr>)
            | (Inr out, w) \<Rightarrow>
                (case fold (note_page H R qs c) (ho_extract H ''fetch_url'' args out) (read, rs) of
                   (read1, rs1) \<Rightarrow> (read1, s\<lparr>rn_srcs := rs1, rn_now := w\<rparr>)))))"

text \<open>Waves: as many of the picks left as pages are still wanted.\<close>

function read_waves ::
    "'w pipe_host \<Rightarrow> readers \<Rightarrow> string list \<Rightarrow> nat \<Rightarrow> candidate list \<Rightarrow> gatheredPage list \<Rightarrow> 'w run_state
      \<Rightarrow> (stage_err + gatheredPage list) \<times> 'w run_state" where
  "read_waves H R qs pages picks read s =
     (if length read < pages \<and> picks \<noteq> [] then
        (let want = pages - length read in
         case fold (read_page H R qs) (take want picks) (read, s) of
           (read1, s1) \<Rightarrow>
             (case ho_ctx H (rn_now s1) of
                Some e \<Rightarrow> (Inl (SCtx e), s1)
              | None \<Rightarrow> read_waves H R qs pages (drop want picks) read1 s1))
      else (Inr read, s))"
  by pat_completeness auto
termination
proof (relation "measure (\<lambda>(_, _, _, _, picks, _, _). length picks)")
  fix H :: "'w pipe_host" and R qs pages want picks and read read1 :: "gatheredPage list" and s s1 :: "'w run_state"
  assume "length read < pages \<and> picks \<noteq> []" "want = pages - length read"
  then show "((H, R, qs, pages, drop want picks, read1, s1), H, R, qs, pages, picks, read, s)
      \<in> measure (\<lambda>(_, _, _, _, picks, _, _). length picks)"
    by (cases picks) auto
qed simp

declare read_waves.simps [simp del]

definition gatherPages ::
    "'w pipe_host \<Rightarrow> readers \<Rightarrow> string \<Rightarrow> string list \<Rightarrow> nat \<Rightarrow> AgentToolDef list \<Rightarrow> 'w run_state
      \<Rightarrow> (stage_err + gatheredPage list) \<times> 'w run_state" where
  "gatherPages H R label qs pages tools s =
     (if ''web_search'' \<notin> td_name ` set tools \<or> ''fetch_url'' \<notin> td_name ` set tools
        then (Inl (SGather label (label @ '': needs web_search and fetch_url, and this stage'' @ [CHR 0x27] @ ''s tools do not include both'')), s)
      else
        (case search_all H qs s of (found, s1) \<Rightarrow>
          (case ho_ctx H (rn_now s1) of
             Some e \<Rightarrow> (Inl (SCtx e), s1)
           | None \<Rightarrow>
               (let picks = pick_pages R (ho_url H) (rn_srcs s1) qs found in
                if picks = [] then (Inr [], s1)
                else case read_waves H R qs pages picks [] s1 of
                  (Inl e, s2) \<Rightarrow> (Inl e, s2)
                | (Inr read, s2) \<Rightarrow> (Inr (sort_key gp_n (take pages read)), s2)))))"

definition page_head :: "gatheredPage \<Rightarrow> string" where
  "page_head p = ''['' @ itoa (gp_n p) @ ''] '' @ gp_title p @ '' - '' @ gp_url p"

definition quoted_lines :: "string \<Rightarrow> string" where
  "quoted_lines t =
     concat (map (\<lambda>l. ''> '' @ l @ newline) (filter (\<lambda>l. l \<noteq> []) (map trim_space (split_lines t))))"

definition renderGathered :: "gatheredPage list \<Rightarrow> string" where
  "renderGathered read =
     (if read = [] then ''(nothing new was found to read)''
      else trim_space (concat (map (\<lambda>p. page_head p @ newline @ quoted_lines (gp_excerpt p) @ newline) read)))"

definition runGatherStage ::
    "golib \<Rightarrow> 'w pipe_host \<Rightarrow> readers \<Rightarrow> run_env \<Rightarrow> StageFields \<Rightarrow> string \<Rightarrow> AgentToolDef list \<Rightarrow> 'w run_state
      \<Rightarrow> (stage_err + string \<times> fieldmap) \<times> 'w run_state" where
  "runGatherStage L H R E st prompt tools s =
     (let q0 = gatherQueries L prompt; qs = (if q0 = [] then gatherQueries L (re_input E) else q0) in
      if qs = [] then
        (Inl (SGather (sf_name st) (''gather stage '' @ sf_name st @ '': nothing to look up, the prompt and the input are both empty'')), s)
      else
        (let st1 = (if sf_count st < 1 \<and> trim_space (sf_count_from st) = [] then st\<lparr>sf_count := gatherDefaultPages\<rparr> else st);
             pages = nat (resolveCount L E st1 gatherMaxPages s)
         in case gatherPages H R (''gather '' @ sf_name st) qs pages tools s of
              (Inl e, s1) \<Rightarrow> (Inl e, s1)
            | (Inr read, s1) \<Rightarrow>
                (Inr (renderGathered read,
                      [(''found'', VInt (int (length read))), (''sources'', VList (map (\<lambda>p. VStr (page_head p)) read))]),
                 s1)))"

section \<open>Verify\<close>

definition verifyMaxClaims :: nat where "verifyMaxClaims = 20"

datatype verdict = Supported | Unchecked string | Unsupported string

definition evidence :: "'w pipe_host \<Rightarrow> readers \<Rightarrow> string \<Rightarrow> RunSources \<Rightarrow> string" where
  "evidence H R claim rs =
     concat (map (\<lambda>n. case Source (ho_url H) n rs of
         None \<Rightarrow> []
       | Some (ref, t) \<Rightarrow>
           (if length t < minPageText then []
            else ''['' @ itoa_int n @ ''] '' @ ref_title ref @ '' ('' @ ref_url ref @ '')'' @ newline
              @ rd_excerpt R t claim 4000 @ newline @ newline))
       (Citations claim))"

definition dq :: string where "dq = [CHR 0x22]"

definition claimPrompt :: "string \<Rightarrow> string \<Rightarrow> string" where
  "claimPrompt claim ev =
     ''Does the SOURCE TEXT below support the CLAIM? Judge only from the text given, not from what you know.''
     @ newline @ newline @ ''CLAIM: '' @ claim @ newline @ newline @ ''SOURCE TEXT:'' @ newline @ ev
     @ ''Answer as JSON: {'' @ dq @ ''verdict'' @ dq @ '': '' @ dq @ ''supported'' @ dq @ '' | '' @ dq @ ''partly'' @ dq
     @ '' | '' @ dq @ ''unsupported'' @ dq @ '', '' @ dq @ ''why'' @ dq @ '': one short sentence}. ''
     @ dq @ ''partly'' @ dq @ '' is a claim the text carries only in a narrower or weaker form.''"

text \<open>
  Decoding into the verdict's struct: keys match whatever their case, later ones overwrite, \<open>null\<close> leaves
  the field, and any other type is an error.
\<close>

fun string_field :: "string \<Rightarrow> (string \<times> val) list \<Rightarrow> string \<Rightarrow> string option" where
  "string_field k [] acc = Some acc"
| "string_field k ((n, v) # es) acc =
     (if \<not> equal_fold n k then string_field k es acc
      else case v of VStr s \<Rightarrow> string_field k es s | VNil \<Rightarrow> string_field k es acc | _ \<Rightarrow> None)"

definition read_verdict :: "golib \<Rightarrow> string \<Rightarrow> verdict" where
  "read_verdict L reply =
     (case json_object L (decode_json_text reply) of
        None \<Rightarrow> Unchecked ''the check gave no verdict''
      | Some obj \<Rightarrow>
          (case (string_field ''verdict'' obj [], string_field ''why'' obj []) of
             (Some v, Some why) \<Rightarrow>
               (let k = to_lower (trim_space v) in
                if k = ''supported'' then Supported
                else if k = ''partly'' then Unsupported (''only partly: '' @ why)
                else Unsupported (chooseStr why ''the sources do not say this''))
           | _ \<Rightarrow> Unchecked ''the check gave no verdict''))"

definition checkClaim ::
    "golib \<Rightarrow> 'w pipe_host \<Rightarrow> readers \<Rightarrow> string \<Rightarrow> 'w run_state \<Rightarrow> verdict \<times> 'w run_state" where
  "checkClaim L H R claim s =
     (let ev = evidence H R claim (rn_srcs s) in
      if ev = [] then (Unchecked ''its sources were not read in full'', s)
      else case runWorkerStage H [] False True WORKER s (claimPrompt claim ev) of
        (Inl e, s1) \<Rightarrow> (Unchecked (''the check could not run: '' @ call_err_text L e), s1)
      | (Inr reply, s1) \<Rightarrow> (read_verdict L reply, s1))"

fun check_all ::
    "golib \<Rightarrow> 'w pipe_host \<Rightarrow> readers \<Rightarrow> string list \<Rightarrow> 'w run_state \<Rightarrow> verdict list \<times> 'w run_state" where
  "check_all L H R [] s = ([], s)"
| "check_all L H R (c # cs) s =
     (case checkClaim L H R (trim_space c) s of (v, s1) \<Rightarrow>
      (case check_all L H R cs s1 of (vs, s2) \<Rightarrow> (v # vs, s2)))"

definition verify_text :: "string \<Rightarrow> string" where
  "verify_text t =
     (case last_index_of t (newline @ ''## Sources'' @ newline) of Some i \<Rightarrow> take i t | None \<Rightarrow> t)"

definition unsupported_line :: "string \<Rightarrow> verdict \<Rightarrow> string list" where
  "unsupported_line claim v =
     (case v of Unsupported why \<Rightarrow> [trim_space claim @ '' ('' @ why @ '')''] | _ \<Rightarrow> [])"

definition issue_group :: "string \<Rightarrow> string list \<Rightarrow> string" where
  "issue_group head items =
     (if items = [] then []
      else newline @ newline @ head @ '':'' @ concat (map (\<lambda>it. newline @ ''- '' @ it) items))"

definition verify_summary :: "nat \<Rightarrow> nat \<Rightarrow> nat \<Rightarrow> nat \<Rightarrow> nat \<Rightarrow> string" where
  "verify_summary supported checked unresolved figures unchecked =
     itoa supported @ '' of '' @ itoa checked @ '' cited claims supported by their sources''
     @ (if unresolved > 0 then '', '' @ itoa unresolved @ '' citation(s) naming nothing read'' else [])
     @ (if figures > 0 then '', '' @ itoa figures @ '' figure(s) found in none of the sources'' else [])
     @ (if unchecked > 0 then '', '' @ itoa unchecked @ '' claim(s) unchecked (sources only seen as snippets)'' else [])"

definition runVerifyStage ::
    "golib \<Rightarrow> 'w pipe_host \<Rightarrow> readers \<Rightarrow> StageFields \<Rightarrow> 'w run_state
      \<Rightarrow> (stage_err + string \<times> fieldmap) \<times> 'w run_state" where
  "runVerifyStage L H R st s =
     (case map_of (rn_outputs s) (sf_check st) of
        None \<Rightarrow> (Inl (SNothingToCheck (sf_name st) (sf_check st)), s)
      | Some target \<Rightarrow>
          (let t = verify_text (so_text target);
               unresolved = map (\<lambda>n. ''['' @ itoa_int n @ '']'')
                 (filter (\<lambda>n. n < 1 \<or> n > int (Len (rn_srcs s))) (Citations t));
               figures = rd_figures R t (Texts (rn_srcs s));
               claims = take verifyMaxClaims (rd_claims R t)
           in case check_all L H R claims s of (vs, s1) \<Rightarrow>
             (case ho_ctx H (rn_now s1) of
                Some e \<Rightarrow> (Inl (SCtx e), s1)
              | None \<Rightarrow>
                  (let unsupported = concat (map2 unsupported_line claims vs);
                       supported = length (filter (\<lambda>v. v = Supported) vs);
                       unchecked = length (filter (\<lambda>v. case v of Unchecked _ \<Rightarrow> True | _ \<Rightarrow> False) vs);
                       checked = length claims - unchecked;
                       passed = (unsupported = [] \<and> unresolved = [] \<and> figures = []);
                       summary = verify_summary supported checked (length unresolved) (length figures) unchecked
                   in (Inr (summary @ ''.'' @ issue_group ''Not supported'' unsupported
                              @ issue_group ''Citations naming nothing read'' unresolved
                              @ issue_group ''Figures in none of the sources'' figures,
                            [(''summary'', VStr summary), (''checked'', VInt (int checked)), (''supported'', VInt (int supported)),
                             (''unsupported'', VList (map VStr unsupported)), (''unchecked'', VInt (int unchecked)),
                             (''unresolved_citations'', VList (map VStr unresolved)),
                             (''unverified_figures'', VList (map VStr figures)), (''passed'', VBool passed)]), s1)))))"

end
