(* ===== verification/PipelineRun.thy ===== *)
theory PipelineRun
  imports PipelineSources
begin

text \<open>
  The pipeline interpreter (core/pipeline_interp.go): \<open>runList\<close>, \<open>runStage\<close> and the stage kinds.

  A list is walked by position (\<open>run_at\<close>) with fuel, because the code's own loop may not end: a branch
  compares its target untrimmed with the stage names and may jump backward. \<open>None\<close> is a walk that used up
  its fuel. A stage with a body is handed the walk of a list as an argument (\<open>'w walker\<close>), so \<open>runStage\<close>, the
  loop and the fanout are defined once for every depth of fuel.

  Branches of a fanout and voices of a round run in parallel in the code; here they run in index order over
  the shared world, source list and block numbers, each branch with its own outputs (\<open>forBranch\<close>).
\<close>

section \<open>Walks as arguments\<close>

type_synonym 'w walked_list = "((stage_err + string \<times> bool) \<times> 'w run_state) option"
type_synonym 'w walker = "run_env \<Rightarrow> PipelineStage list \<Rightarrow> string \<Rightarrow> subst \<Rightarrow> 'w run_state \<Rightarrow> 'w walked_list"
type_synonym 'w staged = "((stage_err + string) \<times> 'w run_state) option"
type_synonym 'w produced = "((stage_err + string \<times> fieldmap) \<times> 'w run_state) option"

section \<open>Loops\<close>

definition until_reached :: "StageFields \<Rightarrow> 'w run_state \<Rightarrow> bool" where
  "until_reached st s =
     (case SplitStageRef (sf_until st) of (name, field) \<Rightarrow>
        field \<noteq> []
        \<and> (case map_of (rn_outputs s) name of
             None \<Rightarrow> False
           | Some src \<Rightarrow> map_of (so_fields src) field = Some (VBool True)))"

definition pass_vars :: "nat \<Rightarrow> nat \<Rightarrow> subst" where
  "pass_vars i tot = [(''{iteration}'', itoa i), (''{iterations}'', itoa tot)]"

text \<open>The passes left to make, from pass \<open>i\<close>; \<open>passes\<close> collects what they returned.\<close>

primrec loop_passes ::
    "nat \<Rightarrow> 'w pipe_host \<Rightarrow> run_env \<Rightarrow> 'w walker \<Rightarrow> PipelineStage \<Rightarrow> nat \<Rightarrow> nat \<Rightarrow> string \<Rightarrow> string list
      \<Rightarrow> 'w run_state \<Rightarrow> ((stage_err + string \<times> string list) \<times> 'w run_state) option" where
  "loop_passes 0 H E walk_list p tot i carry passes s = Some (Inr (carry, passes), s)"
| "loop_passes (Suc left) H E walk_list p tot i carry passes s =
     (case ho_ctx H (rn_now s) of
        Some e \<Rightarrow> Some (Inl (SCtx e), s)
      | None \<Rightarrow>
          (case walk_list E (sg_body p) carry (pass_vars i tot) s of
             None \<Rightarrow> None
           | Some (Inl e, s1) \<Rightarrow> Some (Inl e, s1)
           | Some (Inr (out, stopped), s1) \<Rightarrow>
               (if until_reached (sg p) s1 then Some (Inr (out, passes @ [out]), s1)
                else loop_passes left H E walk_list p tot (i + 1) out (passes @ [out]) s1)))"

definition pass_block :: "nat \<times> string \<Rightarrow> string" where
  "pass_block e = ''## Pass '' @ itoa (fst e) @ newline @ snd e @ newline @ newline"

definition runLoopStage ::
    "golib \<Rightarrow> 'w pipe_host \<Rightarrow> run_env \<Rightarrow> 'w walker \<Rightarrow> PipelineStage \<Rightarrow> string \<Rightarrow> 'w run_state \<Rightarrow> 'w staged" where
  "runLoopStage L H E walk_list p prev s =
     (let tot = nat (resolveCount L E (sg p) loopMaxIterations s) in
      case loop_passes tot H E walk_list p tot 1 prev [] s of
        None \<Rightarrow> None
      | Some (Inl e, s1) \<Rightarrow> Some (Inl e, s1)
      | Some (Inr (carry, passes), s1) \<Rightarrow>
          Some (Inr (if trim_space (sf_collect (sg p)) = ''all''
                     then trim_space (concat (map pass_block (numbered passes))) else carry), s1))"

section \<open>Fanouts\<close>

definition fanoutMaxItems :: nat where "fanoutMaxItems = 12"

definition branch_vars :: "string \<Rightarrow> nat \<Rightarrow> nat \<Rightarrow> subst" where
  "branch_vars item idx tot = [(''{item}'', item), (''{branch}'', itoa (idx + 1)), (''{branches}'', itoa tot)]"

text \<open>
  \<open>forBranch\<close> makes a run of its own for a branch, with a copy of the parent's outputs, since a Go map passed on
  is shared. A state here is a value, so the branch starts from the parent's outputs and nothing it does to them
  can reach the parent: the copy is what makes this reading right, and a branch that kept the parent's map
  could not be written in this model. What the two runs do share, the events, block numbers, sources and the
  world, comes back with \<open>join_branch\<close>, which is no line of the code but the parent's own fields, still
  there when the branch is over.
\<close>

definition forBranch :: "run_env \<Rightarrow> 'w run_state \<Rightarrow> run_env \<times> 'w run_state" where
  "forBranch E s = (E\<lparr>re_quiet := True\<rparr>, s\<lparr>rn_last := []\<rparr>)"

definition join_branch :: "'w run_state \<Rightarrow> 'w run_state \<Rightarrow> 'w run_state" where
  "join_branch parent br = br\<lparr>rn_outputs := rn_outputs parent, rn_last := rn_last parent\<rparr>"

definition runBranchBody ::
    "run_env \<Rightarrow> 'w walker \<Rightarrow> PipelineStage \<Rightarrow> string \<Rightarrow> nat \<Rightarrow> nat \<Rightarrow> string \<Rightarrow> 'w run_state \<Rightarrow> 'w produced" where
  "runBranchBody E walk_list p item idx tot prev s =
     (case forBranch E s of (E1, br) \<Rightarrow>
      (case walk_list E1 (sg_body p) prev (branch_vars item idx tot) br of
         None \<Rightarrow> None
       | Some (Inl e, br1) \<Rightarrow> Some (Inl e, join_branch s br1)
       | Some (Inr (out, stopped), br1) \<Rightarrow>
           Some (Inr (out, so_fields (output_at br1 (rn_last br1))), join_branch s br1)))"

definition run_dispatch ::
    "'w pipe_host \<Rightarrow> string \<Rightarrow> 'w run_state \<Rightarrow> string \<Rightarrow> (dispatch_err + string) option \<times> 'w run_state" where
  "run_dispatch H agent s prompt =
     (case ho_dispatch H of
        None \<Rightarrow> (None, s)
      | Some d \<Rightarrow> (case d (rn_now s) agent prompt of (r, w) \<Rightarrow> (Some r, s\<lparr>rn_now := w\<rparr>)))"

definition fan_prompt :: "golib \<Rightarrow> run_env \<Rightarrow> StageFields \<Rightarrow> string \<Rightarrow> string \<Rightarrow> 'w run_state \<Rightarrow> string" where
  "fan_prompt L E st item prev s =
     applyRunVars E (rn_srcs s)
       (resolveStageTemplate L (replace_all (sf_prompt st) ''{item}'' item) (re_input E) prev (rn_outputs s))"

definition fan_call ::
    "golib \<Rightarrow> 'w pipe_host \<Rightarrow> run_env \<Rightarrow> StageFields \<Rightarrow> AgentToolDef list \<Rightarrow> string \<Rightarrow> string \<Rightarrow> 'w run_state
      \<Rightarrow> (stage_err + string) \<times> 'w run_state" where
  "fan_call L H E st tools item prev s =
     (let agent = trim_space (sf_agent st); prompt = fan_prompt L E st item prev s in
      if agent \<noteq> [] then
        (case run_dispatch H agent s prompt of
           (None, s1) \<Rightarrow> (Inl (SDispatch (AgentErr ''agent fanout but no dispatch hook provided'')), s1)
         | (Some (Inl e), s1) \<Rightarrow> (Inl (SDispatch e), s1)
         | (Some (Inr out), s1) \<Rightarrow> (Inr out, s1))
      else
        (case runWorkerStage H tools (StageThinks st) False (stageTierFor H E st) s prompt of
           (Inl e, s1) \<Rightarrow> (Inl (SCall e), s1)
         | (Inr out, s1) \<Rightarrow> (Inr out, s1)))"

text \<open>One branch: its text, an error in words included, and the fields it collected.\<close>

definition fan_branch ::
    "golib \<Rightarrow> 'w pipe_host \<Rightarrow> run_env \<Rightarrow> 'w walker \<Rightarrow> PipelineStage \<Rightarrow> AgentToolDef list \<Rightarrow> string \<Rightarrow> nat \<Rightarrow> nat
      \<Rightarrow> string \<Rightarrow> 'w run_state \<Rightarrow> ((string \<times> fieldmap) \<times> 'w run_state) option" where
  "fan_branch L H E walk_list p tools item idx tot prev s =
     (let failed = (\<lambda>e. (''(branch error: '' @ stage_err_text L e @ '')'', [])) in
      if sg_body p \<noteq> [] then
        (case runBranchBody E walk_list p item idx tot prev s of
           None \<Rightarrow> None
         | Some (Inl e, s1) \<Rightarrow> Some (failed e, s1)
         | Some (Inr (out, flds), s1) \<Rightarrow> Some ((trim_space out, flds), s1))
      else
        (case fan_call L H E (sg p) tools item prev s of
           (Inl e, s1) \<Rightarrow> Some (failed e, s1)
         | (Inr out, s1) \<Rightarrow> Some ((trim_space out, []), s1)))"

fun fan_branches ::
    "golib \<Rightarrow> 'w pipe_host \<Rightarrow> run_env \<Rightarrow> 'w walker \<Rightarrow> PipelineStage \<Rightarrow> AgentToolDef list \<Rightarrow> nat \<Rightarrow> string
      \<Rightarrow> nat \<Rightarrow> string list \<Rightarrow> 'w run_state \<Rightarrow> ((string \<times> fieldmap) list \<times> 'w run_state) option" where
  "fan_branches L H E walk_list p tools tot prev idx [] s = Some ([], s)"
| "fan_branches L H E walk_list p tools tot prev idx (item # items) s =
     (if ho_ctx H (rn_now s) \<noteq> None then Some (map (\<lambda>_. ([], [])) (item # items), s)
      else case fan_branch L H E walk_list p tools item idx tot prev s of
        None \<Rightarrow> None
      | Some (r, s1) \<Rightarrow>
          (case fan_branches L H E walk_list p tools tot prev (idx + 1) items s1 of
             None \<Rightarrow> None
           | Some (rs, s2) \<Rightarrow> Some (r # rs, s2)))"

definition item_block :: "(nat \<times> string) \<times> string \<Rightarrow> string" where
  "item_block e = ''## Item '' @ itoa (fst (fst e)) @ '': '' @ trim_space (snd (fst e)) @ newline @ snd e @ newline @ newline"

definition branch_entry :: "(nat \<times> string) \<times> fieldmap \<Rightarrow> val" where
  "branch_entry e =
     VObj (AList.update ''item'' (VStr (snd (fst e)))
            (AList.update ''branch'' (VInt (int (fst (fst e)))) (snd e)))"

definition fanoutFields :: "string list \<Rightarrow> fieldmap list \<Rightarrow> fieldmap" where
  "fanoutFields items collected =
     (let out = map branch_entry (filter (\<lambda>e. snd e \<noteq> []) (zip (numbered items) collected)) in
      if out = [] then [] else [(''items'', VList out), (''count'', VInt (int (length out)))])"

definition runFanoutStage ::
    "golib \<Rightarrow> 'w pipe_host \<Rightarrow> run_env \<Rightarrow> 'w walker \<Rightarrow> PipelineStage \<Rightarrow> string \<Rightarrow> AgentToolDef list
      \<Rightarrow> 'w run_state \<Rightarrow> 'w produced" where
  "runFanoutStage L H E walk_list p prev tools s =
     (case fanoutItems L (sf_fan_over (sg p)) (rn_outputs s) of
        Inl e \<Rightarrow> Some (Inl (SFan (sg_name p) e), s)
      | Inr [] \<Rightarrow> Some (Inl (SFanEmpty (sg_name p) (sf_fan_over (sg p))), s)
      | Inr (i # is) \<Rightarrow>
          (let items = take fanoutMaxItems (i # is) in
           case fan_branches L H E walk_list p tools (length items) prev 0 items s of
             None \<Rightarrow> None
           | Some (rs, s1) \<Rightarrow>
               (case ho_ctx H (rn_now s1) of
                  Some e \<Rightarrow> Some (Inl (SCtx e), s1)
                | None \<Rightarrow>
                    Some (Inr (trim_space (concat (map item_block (zip (numbered items) (map fst rs)))),
                               fanoutFields items (map snd rs)), s1))))"

section \<open>Panels\<close>

definition panelPrompt :: "string \<Rightarrow> string \<Rightarrow> nat \<Rightarrow> nat \<Rightarrow> string \<Rightarrow> string" where
  "panelPrompt prompt voice rnd rounds sofar =
     (let p = replace_all (replace_all (replace_all prompt ''{voice}'' voice) ''{iteration}'' (itoa rnd))
                ''{iterations}'' (itoa rounds)
      in if contains p ''{panel}'' then replace_all p ''{panel}'' sofar
         else if trim_space sofar = [] then p
         else p @ newline @ newline @ ''## Already said, by the others'' @ newline @ sofar @ newline
           @ ''Answer as yourself. Where you agree, say so briefly and add what is missing; where you disagree, say which claim is wrong and why.'')"

definition renderPanel :: "(string \<times> string) list \<Rightarrow> string" where
  "renderPanel said =
     trim_space (concat (map (\<lambda>(v, t). v @ '': '' @ trim_space t @ newline @ newline) said))"

definition research_ask :: "string \<Rightarrow> string \<Rightarrow> string" where
  "research_ask voice prompt =
     ''You are '' @ voice @ '', about to speak on a panel. This is what you have been asked:'' @ newline @ newline @ prompt
     @ newline @ newline @ ''Before you answer, you may look things up. What would you search the web for, to make your case ''
     @ ''with evidence rather than from memory? Reply with a JSON list of one or two search queries, nothing else.''"

definition asked_queries :: "golib \<Rightarrow> phase_err + string \<Rightarrow> string list" where
  "asked_queries L r =
     (case r of
        Inl _ \<Rightarrow> []
      | Inr reply \<Rightarrow>
          (case decode_strings L reply of
             (True, items) \<Rightarrow> gatherQueries L (join newline items)
           | (False, _) \<Rightarrow> []))"

definition voiceResearch ::
    "golib \<Rightarrow> 'w pipe_host \<Rightarrow> readers \<Rightarrow> run_env \<Rightarrow> StageFields \<Rightarrow> string \<Rightarrow> nat \<Rightarrow> string \<Rightarrow> nat \<Rightarrow> AgentToolDef list
      \<Rightarrow> 'w run_state \<Rightarrow> string \<times> 'w run_state" where
  "voiceResearch L H R E st voice rnd prompt pages catalog s =
     (case runWorkerStage H [] False True (stageTierFor H E st) s (research_ask voice prompt) of
        (r, s1) \<Rightarrow>
          (let q1 = take 2 (asked_queries L r);
               qs = (if q1 = [] then gatherQueries L (re_input E) else q1)
           in case gatherPages H R (''panel '' @ sf_name st @ '': '' @ voice @ '', round '' @ itoa rnd) qs pages catalog s1 of
                (res, s2) \<Rightarrow>
                  (let found = (case res of Inr read \<Rightarrow> renderGathered read
                                | Inl e \<Rightarrow> ''(nothing could be looked up this round: '' @ stage_err_text L e @ '')'');
                       block = found @ newline @ newline @ ''Cite what you use from these as [N].''
                   in (if contains prompt ''{research}'' then replace_all prompt ''{research}'' block
                       else prompt @ newline @ newline @ ''## What you looked up'' @ newline @ block, s2))))"

text \<open>A voice is an agent where there is one by that name, and else a role the worker answers as.\<close>

definition role_says ::
    "golib \<Rightarrow> 'w pipe_host \<Rightarrow> run_env \<Rightarrow> StageFields \<Rightarrow> AgentToolDef list \<Rightarrow> string \<Rightarrow> 'w run_state
      \<Rightarrow> string \<times> 'w run_state" where
  "role_says L H E st tools prompt s =
     (case runWorkerStage H tools (StageThinks st) False (stageTierFor H E st) s prompt of
        (Inl e, s1) \<Rightarrow> (''(no answer: '' @ call_err_text L e @ '')'', s1)
      | (Inr out, s1) \<Rightarrow> (trim_space out, s1))"

definition voice_answer ::
    "golib \<Rightarrow> 'w pipe_host \<Rightarrow> run_env \<Rightarrow> StageFields \<Rightarrow> AgentToolDef list \<Rightarrow> string \<Rightarrow> string \<Rightarrow> 'w run_state
      \<Rightarrow> string \<times> 'w run_state" where
  "voice_answer L H E st tools voice prompt s =
     (case run_dispatch H voice s prompt of
        (None, s1) \<Rightarrow> role_says L H E st tools prompt s1
      | (Some (Inl NoSuchAgent), s1) \<Rightarrow> role_says L H E st tools prompt s1
      | (Some (Inl (AgentErr e)), s1) \<Rightarrow> (''(no answer: '' @ e @ '')'', s1)
      | (Some (Inr out), s1) \<Rightarrow> (trim_space out, s1))"

definition voice_says ::
    "golib \<Rightarrow> 'w pipe_host \<Rightarrow> readers \<Rightarrow> run_env \<Rightarrow> StageFields \<Rightarrow> AgentToolDef list \<Rightarrow> nat \<Rightarrow> nat \<Rightarrow> nat \<Rightarrow> string
      \<Rightarrow> string \<Rightarrow> string \<Rightarrow> 'w run_state \<Rightarrow> string \<times> 'w run_state" where
  "voice_says L H R E st tools research rnd rounds sofar prev voice s =
     (let p0 = applyRunVars E (rn_srcs s)
                 (resolveStageTemplate L (panelPrompt (sf_prompt st) voice rnd rounds sofar) (re_input E) prev (rn_outputs s))
      in if research > 0 then
           (case voiceResearch L H R E st voice rnd p0 research (StageTools st (re_inherited E)) s of
              (p, s1) \<Rightarrow> voice_answer L H E st tools voice p s1)
         else voice_answer L H E st tools voice p0 s)"

fun voices_say ::
    "'w pipe_host \<Rightarrow> (string \<Rightarrow> 'w run_state \<Rightarrow> string \<times> 'w run_state) \<Rightarrow> string list \<Rightarrow> 'w run_state
      \<Rightarrow> (string \<times> string) list \<times> 'w run_state" where
  "voices_say H say [] s = ([], s)"
| "voices_say H say (v # vs) s =
     (if ho_ctx H (rn_now s) \<noteq> None then (map (\<lambda>u. (u, [])) (v # vs), s)
      else case say v s of (t, s1) \<Rightarrow> (case voices_say H say vs s1 of (ts, s2) \<Rightarrow> ((v, t) # ts, s2)))"

definition voiceCard :: "run_env \<Rightarrow> StageFields \<Rightarrow> nat \<Rightarrow> nat \<Rightarrow> string \<times> string \<Rightarrow> 'w run_state \<Rightarrow> 'w run_state" where
  "voiceCard E st rnd rounds said s =
     (if \<not> re_sink E \<or> re_quiet E \<or> sf_render st = [] then s
      else
        (let n = Suc (rn_seq s); (voice, t) = said;
             title = (if rounds > 1 then voice @ '', round '' @ itoa rnd else voice)
         in emit E (EDone n)
              (emit E (EFields n [(''voice'', VStr voice), (''round'', VInt (int rnd)), (''text'', VStr t)])
                ((if t \<noteq> [] then emit E (EChunk n t) else id)
                  (emit E (EBlock n (sf_render st) title (sf_card st)) (s\<lparr>rn_seq := n\<rparr>))))))"

definition round_block :: "nat \<Rightarrow> nat \<Rightarrow> string \<times> string \<Rightarrow> string" where
  "round_block rnd rounds said =
     ''## '' @ (if rounds > 1 then ''Round '' @ itoa rnd @ '': '' else []) @ fst said @ newline @ snd said @ newline @ newline"

primrec panel_rounds ::
    "nat \<Rightarrow> golib \<Rightarrow> 'w pipe_host \<Rightarrow> readers \<Rightarrow> run_env \<Rightarrow> StageFields \<Rightarrow> AgentToolDef list \<Rightarrow> nat \<Rightarrow> string list \<Rightarrow> nat
      \<Rightarrow> nat \<Rightarrow> string \<Rightarrow> (string \<times> string) list \<Rightarrow> string \<Rightarrow> 'w run_state \<Rightarrow> (stage_err + string) \<times> 'w run_state" where
  "panel_rounds 0 L H R E st tools research voices rounds rnd prev said text0 s = (Inr text0, s)"
| "panel_rounds (Suc left) L H R E st tools research voices rounds rnd prev said text0 s =
     (case ho_ctx H (rn_now s) of
        Some e \<Rightarrow> (Inl (SCtx e), s)
      | None \<Rightarrow>
          (case voices_say H (voice_says L H R E st tools research rnd rounds (renderPanel said) prev) voices s of
             (results, s1) \<Rightarrow>
               (case ho_ctx H (rn_now s1) of
                  Some e \<Rightarrow> (Inl (SCtx e), s1)
                | None \<Rightarrow>
                    panel_rounds left L H R E st tools research voices rounds (rnd + 1) prev (said @ results)
                      (text0 @ concat (map (round_block rnd rounds) results))
                      (fold (voiceCard E st rnd rounds) results s1))))"

definition runPanelStage ::
    "golib \<Rightarrow> 'w pipe_host \<Rightarrow> readers \<Rightarrow> run_env \<Rightarrow> StageFields \<Rightarrow> string \<Rightarrow> AgentToolDef list \<Rightarrow> 'w run_state
      \<Rightarrow> (stage_err + string \<times> fieldmap) \<times> 'w run_state" where
  "runPanelStage L H R E st prev tools s =
     (let all_voices = filter (\<lambda>v. v \<noteq> []) (map trim_space (sf_panel st)) in
      if length all_voices < 2 then (Inl (SVoices (sf_name st)), s)
      else
        (let voices = take panelMaxVoices all_voices;
             rounds = nat (resolveCount L E st panelMaxRounds s);
             research = nat (min (sf_research st) panelMaxResearch)
         in case panel_rounds rounds L H R E st tools research voices rounds 1 prev [] [] s of
              (Inl e, s1) \<Rightarrow> (Inl e, s1)
            | (Inr text0, s1) \<Rightarrow>
                (Inr (trim_space text0,
                      [(''voices'', VList (map VStr voices)), (''rounds'', VInt (int rounds))]), s1)))"

section \<open>Machine and tool stages\<close>

fun declaredSubset :: "PipelineField list \<Rightarrow> fieldmap \<Rightarrow> fieldmap \<Rightarrow> fieldmap option" where
  "declaredSubset [] flds out = Some out"
| "declaredSubset (f # fs) flds out =
     (case map_of flds (f_name f) of None \<Rightarrow> None | Some v \<Rightarrow> declaredSubset fs flds (AList.update (f_name f) v out))"

definition runMachineStage ::
    "golib \<Rightarrow> 'w pipe_host \<Rightarrow> StageFields \<Rightarrow> string \<Rightarrow> 'w run_state
      \<Rightarrow> (stage_err + string \<times> fieldmap) \<times> 'w run_state" where
  "runMachineStage L H st prompt s =
     (case ho_machine H of
        None \<Rightarrow> (Inl (SNoMachine (sf_name st) (sf_machine st)), s)
      | Some run \<Rightarrow>
          (case run (rn_now s) (sf_machine st) prompt of
             (Inl e, w) \<Rightarrow> (Inl (SMachineErr (sf_name st) (sf_machine st) e), s\<lparr>rn_now := w\<rparr>)
           | (Inr (out0, flds), w) \<Rightarrow>
               (let out = trim_space out0; decl = stage_ModelOutput st; s1 = s\<lparr>rn_now := w\<rparr> in
                if decl = [] then (Inr (out, []), s1)
                else case (if flds = [] then None else declaredSubset decl flds []) of
                  Some kept \<Rightarrow> (Inr (out, kept), s1)
                | None \<Rightarrow>
                    (case decodeStageOutput L out decl of
                       Inl _ \<Rightarrow> (Inl (SMachineShape (sf_name st) (sf_machine st) (map f_name decl)), s1)
                     | Inr decoded \<Rightarrow> (Inr (out, decoded), s1)))))"

definition tool_args ::
    "golib \<Rightarrow> run_env \<Rightarrow> StageFields \<Rightarrow> string \<Rightarrow> subst \<Rightarrow> 'w run_state \<Rightarrow> (string \<times> val) list" where
  "tool_args L E st prev vars s =
     map (\<lambda>(k, tmpl). (k, VStr (applyRunVars E (rn_srcs s)
             (subst_all vars (resolveStageTemplate L tmpl (re_input E) prev (rn_outputs s))))))
       (sf_args st)"

definition runToolStage ::
    "golib \<Rightarrow> 'w pipe_host \<Rightarrow> run_env \<Rightarrow> StageFields \<Rightarrow> string \<Rightarrow> AgentToolDef list \<Rightarrow> subst \<Rightarrow> 'w run_state
      \<Rightarrow> (stage_err + string) \<times> 'w run_state" where
  "runToolStage L H E st prev tools vars s =
     (let name = trim_space (sf_tool st) in
      case find (\<lambda>td. td_name td = name) tools of
        None \<Rightarrow> (Inl (SNoTool name (sort (map td_name tools))), s)
      | Some td \<Rightarrow>
          (let args = tool_args L E st prev vars s in
           case ho_ctx H (rn_now s) of
             Some e \<Rightarrow> (Inl (SCtx e), s)
           | None \<Rightarrow>
               (if td_confirm td \<and> (case ho_guard H of None \<Rightarrow> False
                                    | Some blocked \<Rightarrow> blocked (name @ '' '' @ ho_guard_args H args))
                then (Inl (SToolGuarded (sf_name st) name), s)
                else case ho_tool H (rn_now s) name args of
                  (Inl e, w) \<Rightarrow> (Inl (STool e), s\<lparr>rn_now := w\<rparr>)
                | (Inr out, w) \<Rightarrow> (Inr out, s\<lparr>rn_now := w\<rparr>))))"

text \<open>A tool stage's own part of \<open>runStage\<close>: its result is a source, and may be held to a shape.\<close>

definition tool_shape :: "golib \<Rightarrow> StageFields \<Rightarrow> string \<Rightarrow> stage_err + fieldmap" where
  "tool_shape L st out =
     (if sf_output st = [] then Inr []
      else case toolStageBody out of
        Inl e \<Rightarrow> Inl (SToolShape e)
      | Inr body \<Rightarrow>
          (case decodeStageOutput L body (stage_ModelOutput st) of
             Inl e \<Rightarrow> Inl (SToolShape (SDecode e))
           | Inr flds \<Rightarrow> Inr flds))"

definition tool_stage ::
    "golib \<Rightarrow> 'w pipe_host \<Rightarrow> run_env \<Rightarrow> StageFields \<Rightarrow> string \<Rightarrow> AgentToolDef list \<Rightarrow> subst \<Rightarrow> 'w run_state
      \<Rightarrow> (stage_err + string \<times> fieldmap) \<times> 'w run_state" where
  "tool_stage L H E st prev tools vars s =
     (case runToolStage L H E st prev tools vars s of
        (Inl e, s1) \<Rightarrow> (Inl e, s1)
      | (Inr out, s1) \<Rightarrow>
          (let s2 = s1\<lparr>rn_srcs := add_fetched H (ho_extract H (sf_tool st) [] out) (rn_srcs s1)\<rparr> in
           case tool_shape L st out of
             Inl e \<Rightarrow> (Inl e, s2)
           | Inr flds \<Rightarrow> (Inr (out, flds), s2)))"

end
