(* ===== verification/PipelineExec.thy ===== *)
theory PipelineExec
  imports PipelineRun
begin

text \<open>
  One stage from its block's opening to its recorded output (\<open>runStage\<close>), the walk over a list
  (\<open>runList\<close>) and a run as a whole (\<open>executePipelineHooks\<close>, \<open>RunPipelineDefHooks\<close>), core/pipeline_interp.go.
\<close>

section \<open>One stage\<close>

definition stage_tools_of :: "run_env \<Rightarrow> StageFields \<Rightarrow> AgentToolDef list" where
  "stage_tools_of E st =
     (if sf_kind st \<in> set [StageWorker, StageSynthesize, StageTool, StageGather]
         \<or> (sf_kind st = StageFanout \<and> trim_space (sf_agent st) = [])
      then StageTools st (re_inherited E) else [])"

definition stage_prompt :: "golib \<Rightarrow> run_env \<Rightarrow> StageFields \<Rightarrow> string \<Rightarrow> subst \<Rightarrow> 'w run_state \<Rightarrow> string" where
  "stage_prompt L E st prev vars s =
     applyRunVars E (rn_srcs s)
       (subst_all vars (resolveStageTemplate L (sf_prompt st) (re_input E) prev (rn_outputs s)))"

definition agent_call :: "golib \<Rightarrow> 'w pipe_host \<Rightarrow> StageFields \<Rightarrow> 'w run_state caller" where
  "agent_call L H st s prompt =
     (case run_dispatch H (sf_agent st) s prompt of
        (None, s1) \<Rightarrow> (Inl (RunnerErr []), s1)
      | (Some (Inl e), s1) \<Rightarrow> (Inl (RunnerErr (stage_err_text L (SDispatch e))), s1)
      | (Some (Inr out), s1) \<Rightarrow> (Inr out, s1))"

definition stage_call :: "golib \<Rightarrow> 'w pipe_host \<Rightarrow> run_env \<Rightarrow> StageFields \<Rightarrow> 'w run_state caller" where
  "stage_call L H E st =
     (if sf_kind st = StageAgent then agent_call L H st
      else runWorkerStage H (stage_tools_of E st) (StageThinks st) (stage_ModelOutput st \<noteq> []) (stageTierFor H E st))"

definition run_call ::
    "golib \<Rightarrow> 'w pipe_host \<Rightarrow> run_env \<Rightarrow> StageFields \<Rightarrow> string \<Rightarrow> 'w run_state
      \<Rightarrow> (stage_err + string \<times> fieldmap) \<times> 'w run_state" where
  "run_call L H E st prompt s =
     (if stage_ModelOutput st \<noteq> [] then
        (case runDeclaredOutput L (''stage '' @ sf_name st) (stage_ModelOutput st) prompt (stage_call L H E st) None
                (\<lambda>s. ho_ctx H (rn_now s)) s of
           ((Inl e, ns), s1) \<Rightarrow> (Inl (SCall e), s1)
         | ((Inr r, ns), s1) \<Rightarrow> (Inr r, s1))
      else
        (case stage_call L H E st s prompt of
           (Inl e, s1) \<Rightarrow> (Inl (SCall e), s1)
         | (Inr out, s1) \<Rightarrow> (Inr (out, []), s1)))"

definition run_kind ::
    "golib \<Rightarrow> 'w pipe_host \<Rightarrow> readers \<Rightarrow> run_env \<Rightarrow> 'w walker \<Rightarrow> PipelineStage \<Rightarrow> string \<Rightarrow> string \<Rightarrow> subst
      \<Rightarrow> 'w run_state \<Rightarrow> 'w produced" where
  "run_kind L H R E walk_list p prompt prev vars s =
     (let st = sg p; k = sf_kind st; tools = stage_tools_of E st in
      if k = StageFanout then runFanoutStage L H E walk_list p prev tools s
      else if k = StageLoop then
        (case runLoopStage L H E walk_list p prev s of
           None \<Rightarrow> None
         | Some (Inl e, s1) \<Rightarrow> Some (Inl e, s1)
         | Some (Inr out, s1) \<Rightarrow> Some (Inr (out, []), s1))
      else Some
        (if k = StagePanel then runPanelStage L H R E st prev tools s
         else if k = StageVerify then runVerifyStage L H R st s
         else if k = StageGather then runGatherStage L H R E st prompt tools s
         else if k = StageMachine then runMachineStage L H st prompt s
         else if k = StageTool then tool_stage L H E st prev tools vars s
         else run_call L H E st prompt s))"

definition citeList :: "int list \<Rightarrow> string" where
  "citeList ns = join '', '' (map (\<lambda>n. ''['' @ itoa_int n @ '']'') ns)"

definition cite_stage :: "StageFields \<Rightarrow> string \<Rightarrow> RunSources \<Rightarrow> string" where
  "cite_stage st out rs =
     (if sf_cite st \<and> out \<noteq> [] then
        (case Cite out rs of (out1, unknown) \<Rightarrow>
           out1 @ (if unknown = [] then []
                   else newline @ newline @ ''> Note: this cites '' @ citeList unknown
                     @ '', which name no source this run read.''))
      else out)"

definition fill_stage ::
    "golib \<Rightarrow> run_env \<Rightarrow> StageFields \<Rightarrow> string \<Rightarrow> subst \<Rightarrow> 'w run_state \<Rightarrow> fieldmap \<Rightarrow> fieldmap" where
  "fill_stage L E st prev vars s flds =
     fold (\<lambda>f. AList.update (f_name f)
             (VStr (trim_space (applyRunVars E (rn_srcs s)
               (subst_all vars (resolveStageTemplate L (f_from f) (re_input E) prev (rn_outputs s)))))))
       (stage_StaticFields st) flds"

definition finish_stage ::
    "golib \<Rightarrow> run_env \<Rightarrow> StageFields \<Rightarrow> string \<Rightarrow> subst \<Rightarrow> nat option \<Rightarrow> string \<Rightarrow> fieldmap \<Rightarrow> 'w run_state
      \<Rightarrow> string \<times> 'w run_state" where
  "finish_stage L E st prev vars block out0 flds0 s =
     (let out = cite_stage st (trim_space out0) (rn_srcs s);
          flds = fill_stage L E st prev vars s flds0;
          s1 = promoteSessionMeta L E (sf_name st) flds
                 (s\<lparr>rn_outputs := AList.update (sf_name st) \<lparr>so_text = out, so_fields = flds\<rparr> (rn_outputs s)\<rparr>);
          body = (if sf_kind st = StagePanel \<and> sf_render st \<noteq> [] then [] else transcriptBody L st out flds)
      in (out, closeBlock E block body flds (s1\<lparr>rn_last := sf_name st\<rparr>)))"

definition run_kinds :: "string list" where
  "run_kinds = [StageWorker, StageSynthesize, StageAgent, StageFanout, StagePanel, StageLoop, StageVerify,
     StageGather, StageMachine, StageTool]"

text \<open>An agent stage with no agents, and a kind the switch does not know, return before the block is closed.\<close>

definition runStage ::
    "golib \<Rightarrow> 'w pipe_host \<Rightarrow> readers \<Rightarrow> run_env \<Rightarrow> 'w walker \<Rightarrow> PipelineStage \<Rightarrow> string \<Rightarrow> subst \<Rightarrow> 'w run_state
      \<Rightarrow> 'w staged" where
  "runStage L H R E walk_list p prev vars s =
     (let st = sg p; n = sf_name st in
      case openBlock E st n s of (block, s0) \<Rightarrow>
        if sf_kind st = StageAgent \<and> ho_dispatch H = None then Some (Inl (SNoDispatch n), s0)
        else if sf_kind st \<notin> set run_kinds then Some (Inl (SUnknownKind n (sf_kind st)), s0)
        else
          (case run_kind L H R E walk_list p (stage_prompt L E st prev vars s0) prev vars s0 of
             None \<Rightarrow> None
           | Some (Inl e, s1) \<Rightarrow> Some (Inl (SStage n e), failBlock E block e s1)
           | Some (Inr (out, flds), s1) \<Rightarrow>
               (case finish_stage L E st prev vars block out flds s1 of (text0, s2) \<Rightarrow> Some (Inr text0, s2))))"

section \<open>The walk\<close>

definition branchTaken :: "StageFields \<Rightarrow> 'w run_state \<Rightarrow> bool" where
  "branchTaken st s =
     (case SplitStageRef (sf_when st) of (name, field) \<Rightarrow>
        (case map_of (rn_outputs s) name of
           None \<Rightarrow> False
         | Some src \<Rightarrow> map_of (so_fields src) field = Some (VBool True)))"

primrec run_at ::
    "nat \<Rightarrow> golib \<Rightarrow> 'w pipe_host \<Rightarrow> readers \<Rightarrow> run_env \<Rightarrow> PipelineStage list \<Rightarrow> nat \<Rightarrow> string \<Rightarrow> subst
      \<Rightarrow> 'w run_state \<Rightarrow> 'w walked_list" where
  "run_at 0 L H R E stages i prev vars s = None"
| "run_at (Suc n) L H R E stages i prev vars s =
     (if length stages \<le> i then Some (Inr (prev, False), s)
      else case ho_ctx H (rn_now s) of
        Some e \<Rightarrow> Some (Inl (SCtx e), s)
      | None \<Rightarrow>
          (let p = stages ! i; st = sg p in
           if sf_kind st = StageBranch then
             (if \<not> branchTaken st s then run_at n L H R E stages (i + 1) prev vars s
              else if trim_space (sf_skip_to st) = [] then Some (Inr (prev, True), s)
              else case indexOfStage stages (sf_skip_to st) of
                None \<Rightarrow> Some (Inl (SSkipTo (sf_name st) (sf_skip_to st)), s)
              | Some t \<Rightarrow> run_at n L H R E stages t prev vars s)
           else
             (case runStage L H R E (\<lambda>E1 body prev1 vars1 s1. run_at n L H R E1 body 0 prev1 vars1 s1) p prev vars s of
                None \<Rightarrow> None
              | Some (Inl e, s1) \<Rightarrow> Some (Inl e, s1)
              | Some (Inr out, s1) \<Rightarrow> run_at n L H R E stages (i + 1) out vars s1)))"

definition runList ::
    "nat \<Rightarrow> golib \<Rightarrow> 'w pipe_host \<Rightarrow> readers \<Rightarrow> run_env \<Rightarrow> PipelineStage list \<Rightarrow> string \<Rightarrow> subst \<Rightarrow> 'w run_state
      \<Rightarrow> 'w walked_list" where
  "runList n L H R E stages prev vars s = run_at n L H R E stages 0 prev vars s"

section \<open>A run\<close>

definition start_env :: "PipelineDef \<Rightarrow> string \<Rightarrow> subst \<Rightarrow> bool \<Rightarrow> AgentToolDef list \<Rightarrow> run_env" where
  "start_env d inp vars sink tools =
     \<lparr>re_input = inp, re_vars = vars, re_inherited = tools, re_def = pd_id (pd d), re_meta = pd_session_meta (pd d),
      re_sink = sink, re_quiet = False\<rparr>"

definition start_state :: "'w \<Rightarrow> 'w run_state" where
  "start_state w = \<lparr>rn_now = w, rn_srcs = NewRunSources, rn_outputs = [], rn_last = [], rn_seq = 0, rn_events = []\<rparr>"

definition executePipelineHooks ::
    "nat \<Rightarrow> golib \<Rightarrow> 'w pipe_host \<Rightarrow> readers \<Rightarrow> PipelineDef \<Rightarrow> string \<Rightarrow> subst \<Rightarrow> bool \<Rightarrow> AgentToolDef list \<Rightarrow> 'w
      \<Rightarrow> 'w staged" where
  "executePipelineHooks fuel L H R d inp vars sink tools w =
     (case ValidatePipeline d of
        Some e \<Rightarrow> Some (Inl (SInvalid e), start_state w)
      | None \<Rightarrow>
          (case runList fuel L H R (start_env d inp vars sink tools) (pd_stages d) inp [] (start_state w) of
             None \<Rightarrow> None
           | Some (Inl e, s) \<Rightarrow> Some (Inl e, s)
           | Some (Inr (out, stopped), s) \<Rightarrow> Some (Inr out, s)))"

text \<open>This entry's sink forwards status lines only, so none of the events modelled here reaches it.\<close>

definition RunPipelineDefHooks ::
    "nat \<Rightarrow> golib \<Rightarrow> 'w pipe_host \<Rightarrow> readers \<Rightarrow> PipelineDef \<Rightarrow> string \<Rightarrow> AgentToolDef list \<Rightarrow> 'w
      \<Rightarrow> ((stage_err + string \<times> fieldmap) \<times> 'w) option" where
  "RunPipelineDefHooks fuel L H R d inp tools w =
     (case executePipelineHooks fuel L H R d inp [] False tools w of
        None \<Rightarrow> None
      | Some (Inl e, s) \<Rightarrow> Some (Inl e, rn_now s)
      | Some (Inr out, s) \<Rightarrow> Some (Inr (out, so_fields (output_at s (rn_last s))), rn_now s))"

end
