(* ===== verification/PipelineMoves.thy ===== *)
theory PipelineMoves
  imports PipelineExec
begin

text \<open>
  What every run keeps. The locale \<open>call_moves\<close> is the contract of a relation between the state before and
  after a stage's calls: it composes, and it holds across each primitive change they make (the world, a
  source, a claim). \<open>stage_moves\<close> adds a voice's card and the end of a branch, which covers every stage kind;
  \<open>event_moves\<close> asks for each event instead and gives \<open>stage_moves\<close>; \<open>run_moves\<close> adds the recording of an
  output, which covers the walk. Their lemmas hold whatever the host answers; the interpretations are the
  growth of the source list, of the outputs and of the transcript, and the outputs a fanout leaves alone.
\<close>

section \<open>The contract\<close>

locale call_moves =
  fixes H :: "'w pipe_host" and M :: "'w run_state \<Rightarrow> 'w run_state \<Rightarrow> bool"
  assumes M_refl: "M s s"
    and M_trans: "M a b \<Longrightarrow> M b c \<Longrightarrow> M a c"
    and M_now: "M s (s\<lparr>rn_now := w\<rparr>)"
    and M_add: "M s (s\<lparr>rn_srcs := snd (Add (ho_url H) f (rn_srcs s))\<rparr>)"
    and M_claim: "M s (s\<lparr>rn_srcs := snd (Claim (ho_url H) u (rn_srcs s))\<rparr>)"
begin

definition S :: "RunSources \<Rightarrow> RunSources \<Rightarrow> bool" where
  "S rs rs1 \<longleftrightarrow> (\<forall>s. rn_srcs s = rs \<longrightarrow> M s (s\<lparr>rn_srcs := rs1\<rparr>))"

lemma S_refl: "S rs rs"
  unfolding S_def
proof (intro allI impI)
  fix s :: "'w run_state" assume "rn_srcs s = rs"
  then have "s\<lparr>rn_srcs := rs\<rparr> = s" by auto
  then show "M s (s\<lparr>rn_srcs := rs\<rparr>)" by (simp add: M_refl)
qed

lemma S_trans:
  assumes "S rs rs1" "S rs1 rs2"
  shows "S rs rs2"
  unfolding S_def
proof (intro allI impI)
  fix s :: "'w run_state" assume "rn_srcs s = rs"
  with assms(1) have "M s (s\<lparr>rn_srcs := rs1\<rparr>)" by (simp add: S_def)
  moreover have "M (s\<lparr>rn_srcs := rs1\<rparr>) (s\<lparr>rn_srcs := rs2\<rparr>)"
    using assms(2) [unfolded S_def, rule_format, of "s\<lparr>rn_srcs := rs1\<rparr>"] by simp
  ultimately show "M s (s\<lparr>rn_srcs := rs2\<rparr>)" by (rule M_trans)
qed

lemma S_Add: "S rs (snd (Add (ho_url H) f rs))"
  using M_add by (auto simp: S_def)

lemma S_Claim: "S rs (snd (Claim (ho_url H) u rs))"
  using M_claim by (auto simp: S_def)

lemma M_srcs: "S (rn_srcs s) rs \<Longrightarrow> M s (s\<lparr>rn_srcs := rs\<rparr>)"
  by (simp add: S_def)

lemma S_fold: "(\<And>x rs. x \<in> set xs \<Longrightarrow> S rs (f x rs)) \<Longrightarrow> S rs (fold f xs rs)"
  by (induction xs arbitrary: rs) (auto intro: S_refl S_trans)

lemma M_fold: "(\<And>x s. x \<in> set xs \<Longrightarrow> M s (f x s)) \<Longrightarrow> M s (fold f xs s)"
  by (induction xs arbitrary: s) (auto intro: M_refl M_trans)

lemma S_add_fetched: "S rs (add_fetched H fs rs)"
  unfolding add_fetched_def by (rule S_fold) (rule S_Add)

lemma S_collect_result: "S rs (collect_result H calls res rs)"
  by (auto simp: collect_result_def intro: S_refl S_add_fetched split: option.splits)

lemma S_collect_from: "S rs (collect_from H calls ms rs)"
proof (induction ms arbitrary: calls rs)
  case (Cons m ms)
  show ?case
    by (simp add: Let_def) (rule S_trans [OF S_fold Cons.IH], rule S_collect_result)
qed (simp add: S_refl)

lemma M_now_srcs: "S (rn_srcs s) rs \<Longrightarrow> M s (s\<lparr>rn_now := w, rn_srcs := rs\<rparr>)"
proof -
  assume "S (rn_srcs s) rs"
  then have "M (s\<lparr>rn_now := w\<rparr>) (s\<lparr>rn_now := w\<rparr>\<lparr>rn_srcs := rs\<rparr>)" by (intro M_srcs) simp
  then show ?thesis using M_trans [OF M_now] by blast
qed

lemma M_runWorkerStage: "M s (snd (runWorkerStage H tools think json tier s prompt))"
  by (auto simp: runWorkerStage_def collectSources_def intro: M_now M_now_srcs S_collect_from split: prod.splits)

lemma M_run_dispatch: "M s (snd (run_dispatch H agent s prompt))"
  by (auto simp: run_dispatch_def intro: M_refl M_now split: option.splits prod.splits)

section \<open>Stages\<close>

lemma M_declared:
  assumes call: "\<And>s p. M s (snd (call s p))"
  shows "M s (snd (runDeclaredOutput L label decl prompt call None ctx s))"
proof -
  obtain r1 s1 where c1: "call s (prompt @ renderOutputContract decl) = (r1, s1)" by fastforce
  have m1: "M s s1" using call [of s "prompt @ renderOutputContract decl"] c1 by simp
  have m2: "call s1 p = (r2, s2) \<Longrightarrow> M s s2" for p r2 s2
    using call [of s1 p] M_trans [OF m1] by auto
  show ?thesis
    using m1 m2 c1
    by (auto simp: runDeclaredOutput_def Let_def repair_call_def split: sum.splits option.splits prod.splits)
qed

lemma M_stage_call: "M s (snd (stage_call L H E st s prompt))"
proof (cases "sf_kind st = StageAgent")
  case True
  then show ?thesis using M_run_dispatch [of s "sf_agent st" prompt]
    by (auto simp: stage_call_def agent_call_def split: prod.splits option.splits sum.splits)
qed (simp add: stage_call_def M_runWorkerStage)

lemma M_run_call: "M s (snd (run_call L H E st prompt s))"
proof -
  have d: "M s (snd (runDeclaredOutput L label decl prompt (stage_call L H E st) None ctx s))" for label decl ctx
    by (rule M_declared) (rule M_stage_call)
  show ?thesis
    using d [of "''stage '' @ sf_name st" "stage_ModelOutput st" "\<lambda>s. ho_ctx H (rn_now s)"] M_stage_call [of s L E st prompt]
    by (auto simp: run_call_def split: prod.splits sum.splits)
qed

lemma M_search_all: "M s (snd (search_all H qs s))"
proof (induction qs arbitrary: s)
  case (Cons q qs)
  obtain r w where r: "ho_tool H (rn_now s) ''web_search'' [(''query'', VStr q)] = (r, w)" by fastforce
  from M_trans [OF M_now Cons.IH [of "s\<lparr>rn_now := w\<rparr>"]] show ?case
    by (simp add: r case_prod_beta)
qed (simp add: M_refl)

lemma S_note_page: "S rs (snd (note_page H R qs c f (read, rs)))"
  using S_Add by (auto simp: note_page_def Let_def intro: S_refl split: prod.splits) (metis snd_conv)+

lemma S_note_pages: "S rs (snd (fold (note_page H R qs c) fs (read, rs)))"
proof (induction fs arbitrary: read rs)
  case (Cons f fs)
  obtain read1 rs1 where n: "note_page H R qs c f (read, rs) = (read1, rs1)" by fastforce
  then have "S rs rs1" using S_note_page [of rs R qs c f read] by simp
  from S_trans [OF this Cons.IH] show ?case by (simp add: n)
qed (simp add: S_refl)

lemma M_read_page: "M s (snd (read_page H R qs c (read, s)))"
proof -
  obtain b rs where c: "Claim (ho_url H) (ft_url (cn_page c)) (rn_srcs s) = (b, rs)" by fastforce
  have claimed: "S (rn_srcs s) rs" using S_Claim [of "rn_srcs s" "ft_url (cn_page c)"] c by simp
  have now: "S (rn_srcs s) rs2 \<Longrightarrow> M s (s\<lparr>rn_srcs := rs2, rn_now := w\<rparr>)" for rs2 w
    using M_trans [OF M_srcs M_now] by blast
  have "S (rn_srcs s) (snd (fold (note_page H R qs c) fs (read, rs)))" for fs
    by (rule S_trans [OF claimed S_note_pages])
  then show ?thesis using claimed now M_srcs [OF claimed]
    by (auto simp: read_page_def Let_def c split: prod.splits sum.splits bool.splits) (metis snd_conv)
qed

lemma M_read_wave: "M s (snd (fold (read_page H R qs) cs (read, s)))"
proof (induction cs arbitrary: read s)
  case (Cons c cs)
  obtain read1 s1 where n: "read_page H R qs c (read, s) = (read1, s1)" by fastforce
  then have "M s s1" using M_read_page [of s R qs c read] by simp
  from M_trans [OF this Cons.IH] show ?case by (simp add: n)
qed (simp add: M_refl)

lemma M_read_waves: "M s (snd (read_waves H R qs pages picks read s))"
proof (induction "length picks" arbitrary: picks read s rule: less_induct)
  case less
  show ?case
  proof (cases "length read < pages \<and> picks \<noteq> []")
    case True
    obtain read1 s1 where f: "fold (read_page H R qs) (take (pages - length read) picks) (read, s) = (read1, s1)"
      by fastforce
    then have m: "M s s1" using M_read_wave [of s R qs "take (pages - length read) picks" read] by simp
    have "length (drop (pages - length read) picks) < length picks" using True by (cases picks) auto
    from M_trans [OF m less [OF this]] m f True show ?thesis
      by (simp add: read_waves.simps [of H R qs pages picks] Let_def split: option.splits)
  next
    case False
    then show ?thesis by (subst read_waves.simps) (auto simp: M_refl)
  qed
qed

lemma M_gatherPages: "M s (snd (gatherPages H R label qs pages tools s))"
proof -
  obtain found s1 where f: "search_all H qs s = (found, s1)" by fastforce
  then have m: "M s s1" using M_search_all [of s qs] by simp
  have "M s (snd (read_waves H R qs pages picks [] s1))" for picks by (rule M_trans [OF m M_read_waves])
  with m f show ?thesis
    by (auto simp: gatherPages_def Let_def M_refl split: prod.splits option.splits sum.splits) (metis snd_conv)+
qed

lemma M_runGatherStage: "M s (snd (runGatherStage L H R E st prompt tools s))"
proof -
  have "M s s1" if "gatherPages H R label qs pages tools s = (r, s1)" for label qs pages r s1
    using M_gatherPages [of s R label qs pages tools] that by simp
  then show ?thesis
    by (auto simp: runGatherStage_def Let_def M_refl split: prod.splits sum.splits)
qed

lemma M_checkClaim: "M s (snd (checkClaim L H R claim s))"
proof -
  have "M s s1" if "runWorkerStage H [] False True WORKER s p = (r, s1)" for p r s1
    using M_runWorkerStage [of s "[]" False True WORKER p] that by simp
  then show ?thesis by (auto simp: checkClaim_def Let_def M_refl split: prod.splits sum.splits)
qed

lemma M_check_all: "M s (snd (check_all L H R cs s))"
proof (induction cs arbitrary: s)
  case (Cons c cs)
  obtain v s1 where n: "checkClaim L H R (trim_space c) s = (v, s1)" by fastforce
  then have "M s s1" using M_checkClaim [of s L R "trim_space c"] by simp
  from M_trans [OF this Cons.IH] show ?case by (simp add: n case_prod_beta)
qed (simp add: M_refl)

lemma M_runVerifyStage: "M s (snd (runVerifyStage L H R st s))"
proof -
  have "M s s1" if "check_all L H R cs s = (vs, s1)" for cs vs s1
    using M_check_all [of s L R cs] that by simp
  then show ?thesis by (auto simp: runVerifyStage_def Let_def M_refl split: prod.splits option.splits)
qed

lemma M_voiceResearch: "M s (snd (voiceResearch L H R E st voice rnd prompt pages catalog s))"
proof -
  obtain r s1 where w: "runWorkerStage H [] False True (stageTierFor H E st) s (research_ask voice prompt) = (r, s1)"
    by fastforce
  then have m: "M s s1" using M_runWorkerStage [of s "[]" False True "stageTierFor H E st" "research_ask voice prompt"] by simp
  have "M s s2" if "gatherPages H R label qs pages catalog s1 = (res, s2)" for label qs res s2
    using M_trans [OF m M_gatherPages [of s1 R label qs pages catalog]] that by simp
  then show ?thesis by (simp add: voiceResearch_def Let_def w split: prod.splits)
qed

lemma M_voice_answer: "M s (snd (voice_answer L H E st tools voice prompt s))"
proof -
  have role: "M s (snd (role_says L H E st tools prompt s))" for s
    using M_runWorkerStage [of s tools "StageThinks st" False "stageTierFor H E st" prompt]
    by (simp add: role_says_def case_prod_beta split: sum.splits)
  obtain r s1 where d: "run_dispatch H voice s prompt = (r, s1)" by fastforce
  then have m: "M s s1" using M_run_dispatch [of s voice prompt] by simp
  from m M_trans [OF m role] show ?thesis
    by (simp add: voice_answer_def d split: option.splits sum.splits dispatch_err.splits)
qed

lemma M_voice_says: "M s (snd (voice_says L H R E st tools research rnd rounds sofar prev voice s))"
proof -
  have "M s (snd (voice_answer L H E st tools voice p1 s1))"
    if "voiceResearch L H R E st voice rnd p0 research cat s = (p1, s1)" for p0 cat p1 s1
    using M_trans [OF M_voiceResearch [of s L R E st voice rnd p0 research cat]] M_voice_answer that by simp
  then show ?thesis by (auto simp: voice_says_def Let_def M_voice_answer split: prod.splits)
qed

lemma M_voices_say:
  assumes "\<And>v s. M s (snd (say v s))"
  shows "M s (snd (voices_say H say vs s))"
proof (induction vs arbitrary: s)
  case (Cons v vs)
  obtain t s1 where n: "say v s = (t, s1)" by fastforce
  then have "M s s1" using assms [of s v] by simp
  from M_trans [OF this Cons.IH] show ?case by (simp add: n case_prod_beta M_refl)
qed (simp add: M_refl)

lemma M_runMachineStage: "M s (snd (runMachineStage L H st prompt s))"
  by (auto simp: runMachineStage_def Let_def intro: M_refl M_now split: option.splits prod.splits sum.splits)

lemma M_tool_stage: "M s (snd (tool_stage L H E st prev tools vars s))"
proof -
  have t: "M s s1" if "runToolStage L H E st prev tools vars s = (r, s1)" for r s1
    using that by (auto simp: runToolStage_def Let_def intro: M_refl M_now split: option.splits prod.splits sum.splits if_splits)
  have src: "M s (s1\<lparr>rn_srcs := add_fetched H fs (rn_srcs s1)\<rparr>)"
    if "runToolStage L H E st prev tools vars s = (r, s1)" for r s1 fs
    by (rule M_trans [OF t [OF that] M_srcs [OF S_add_fetched]])
  show ?thesis using t src by (auto simp: tool_stage_def Let_def split: prod.splits sum.splits)
qed

lemma M_fan_call: "M s (snd (fan_call L H E st tools item prev s))"
proof -
  have "M s s1" if "run_dispatch H agent s p = (r, s1)" for agent p r s1
    using M_run_dispatch [of s agent p] that by simp
  moreover have "M s s1" if "runWorkerStage H tools th False tier s p = (r, s1)" for th tier p r s1
    using M_runWorkerStage [of s tools th False tier p] that by simp
  ultimately show ?thesis by (auto simp: fan_call_def Let_def split: prod.splits option.splits sum.splits)
qed

end

section \<open>Panels, fanouts and loops\<close>

text \<open>A voice's card is a whole block; a branch's end puts the outputs back.\<close>

locale stage_moves = call_moves H M for H :: "'w pipe_host" and M :: "'w run_state \<Rightarrow> 'w run_state \<Rightarrow> bool" +
  assumes M_card: "re_sink E \<Longrightarrow>
      M s (emit E (EDone (Suc (rn_seq s))) (emit E (EFields (Suc (rn_seq s)) flds) ((if c then emit E (EChunk (Suc (rn_seq s)) t) else id)
            (emit E (EBlock (Suc (rn_seq s)) look title lay) (s\<lparr>rn_seq := Suc (rn_seq s)\<rparr>)))))"
    and M_join: "M (s\<lparr>rn_last := []\<rparr>) br \<Longrightarrow> M s (join_branch s br)"
begin

lemma M_voiceCard: "M s (voiceCard E st rnd rounds said s)"
  by (cases said) (auto simp: voiceCard_def Let_def M_refl intro: M_card [where c = True, simplified] M_card [where c = False, simplified])

lemma M_panel_rounds: "M s (snd (panel_rounds left L H R E st tools research voices rounds rnd prev said t0 s))"
proof (induction left arbitrary: rnd said t0 s)
  case (Suc left)
  let ?say = "voice_says L H R E st tools research rnd rounds (renderPanel said) prev"
  obtain results s1 where v: "voices_say H ?say voices s = (results, s1)" by fastforce
  have "M s (snd (voices_say H ?say voices s))" by (rule M_voices_say) (rule M_voice_says)
  then have m: "M s s1" by (simp add: v)
  have "M s1 (fold (voiceCard E st rnd rounds) results s1)" by (rule M_fold) (rule M_voiceCard)
  from M_trans [OF M_trans [OF m this] Suc.IH] m show ?case
    by (simp add: v M_refl split: option.splits)
qed (simp add: M_refl)

lemma M_runPanelStage: "M s (snd (runPanelStage L H R E st prev tools s))"
proof -
  have "M s s1" if "panel_rounds n L H R E st tools research voices rounds rnd prev said t0 s = (r, s1)"
    for n research voices rounds rnd said t0 r s1
    using M_panel_rounds [of s n L R E st tools research voices rounds rnd prev said t0] that by simp
  then show ?thesis by (auto simp: runPanelStage_def Let_def M_refl split: prod.splits sum.splits)
qed

text \<open>A stage that neither fans out nor loops needs no walk.\<close>

lemma M_plain_kind:
  assumes "run_kind L H R E W p prompt prev vars s = Some (r, s1)" "sf_kind (sg p) \<noteq> StageFanout" "sf_kind (sg p) \<noteq> StageLoop"
  shows "M s s1"
proof -
  have one: "M s s1" if "f = (r1, s1)" "M s (snd f)" for f :: "(stage_err + string \<times> fieldmap) \<times> 'w run_state" and r1 s1
    using that by simp
  show ?thesis using assms
    by (auto simp: run_kind_def Let_def split: if_splits dest!: one
        simp: M_runPanelStage M_runVerifyStage M_runGatherStage M_runMachineStage M_tool_stage M_run_call)
qed

definition moving :: "'w walker \<Rightarrow> PipelineStage list \<Rightarrow> bool" where
  "moving W body \<longleftrightarrow> (\<forall>E prev vars s r s1. W E body prev vars s = Some (r, s1) \<longrightarrow> M s s1)"

lemma movingD: "moving W body \<Longrightarrow> W E body prev vars s = Some (r, s1) \<Longrightarrow> M s s1"
  by (auto simp: moving_def)

lemma M_runBranchBody:
  assumes "moving W (sg_body p)" "runBranchBody E W p item idx tot prev s = Some (r, s1)"
  shows "M s s1"
proof -
  have "M s (join_branch s br1)"
    if "W E1 (sg_body p) prev v (s\<lparr>rn_last := []\<rparr>) = Some (r1, br1)" for E1 v r1 br1
    by (rule M_join) (rule movingD [OF assms(1) that])
  then show ?thesis using assms(2)
    by (auto simp: runBranchBody_def forBranch_def split: option.splits prod.splits sum.splits)
qed

lemma M_fan_branch:
  assumes "moving W (sg_body p)" "fan_branch L H E W p tools item idx tot prev s = Some (r, s1)"
  shows "M s s1"
proof -
  have "M s s1" if "fan_call L H E (sg p) tools item prev s = (r1, s1)" for r1 s1
    using M_fan_call [of s L E "sg p" tools item prev] that by simp
  then show ?thesis using assms M_runBranchBody [OF assms(1)]
    by (auto simp: fan_branch_def Let_def split: if_splits option.splits prod.splits sum.splits)
qed

lemma M_fan_branches:
  assumes "moving W (sg_body p)"
  shows "fan_branches L H E W p tools tot prev idx items s = Some (rs, s1) \<Longrightarrow> M s s1"
proof (induction items arbitrary: idx s rs)
  case (Cons item items)
  then show ?case
    by (auto split: if_splits option.splits prod.splits intro: M_refl M_trans [OF M_fan_branch [OF assms]])
qed (simp add: M_refl)

lemma M_runFanoutStage:
  assumes "moving W (sg_body p)" "runFanoutStage L H E W p prev tools s = Some (r, s1)"
  shows "M s s1"
  using assms(2)
  by (auto simp: runFanoutStage_def Let_def M_refl split: sum.splits list.splits option.splits prod.splits
      dest: M_fan_branches [OF assms(1)])

lemma M_loop_passes:
  assumes "moving W (sg_body p)"
  shows "loop_passes left H E W p tot i carry passes s = Some (r, s1) \<Longrightarrow> M s s1"
proof (induction left arbitrary: i carry passes s)
  case (Suc left)
  then show ?case
    by (auto split: option.splits prod.splits sum.splits if_splits intro: M_refl M_trans [OF movingD [OF assms]]
        dest: movingD [OF assms])
qed (simp add: M_refl)

lemma M_runLoopStage:
  "moving W (sg_body p) \<Longrightarrow> runLoopStage L H E W p prev s = Some (r, s1) \<Longrightarrow> M s s1"
  by (auto simp: runLoopStage_def Let_def split: option.splits prod.splits sum.splits dest: M_loop_passes)

lemma M_run_kind:
  assumes "moving W (sg_body p)" "run_kind L H R E W p prompt prev vars s = Some (r, s1)"
  shows "M s s1"
proof (cases "sf_kind (sg p) = StageFanout \<or> sf_kind (sg p) = StageLoop")
  case True
  then show ?thesis using assms(2)
    by (auto simp: run_kind_def Let_def stage_kind_defs split: option.splits prod.splits sum.splits
        dest: M_runFanoutStage [OF assms(1)] M_runLoopStage [OF assms(1)])
next
  case False
  then show ?thesis using M_plain_kind [OF assms(2)] by blast
qed

end

section \<open>Blocks and outputs\<close>

locale event_moves = call_moves H M for H :: "'w pipe_host" and M :: "'w run_state \<Rightarrow> 'w run_state \<Rightarrow> bool" +
  assumes M_event: "M s (s\<lparr>rn_events := rn_events s @ [ev]\<rparr>)"
    and M_seq: "rn_seq s \<le> n \<Longrightarrow> M s (s\<lparr>rn_seq := n\<rparr>)"
    and M_branch: "M (s\<lparr>rn_last := []\<rparr>) br \<Longrightarrow> M s (join_branch s br)"
begin

lemma M_emit: "M s (emit E ev s)"
  by (simp add: emit_def M_event M_refl)

lemma M_if: "M s a \<Longrightarrow> M s b \<Longrightarrow> M s (if c then a else b)"
  by simp

lemma M_openBlock: "M s (snd (openBlock E st title s))"
proof -
  have "M s (emit E ev (s\<lparr>rn_seq := Suc (rn_seq s)\<rparr>))" for ev
    by (rule M_trans [OF M_seq M_emit]) simp
  then show ?thesis by (simp add: openBlock_def Let_def M_refl split: prod.splits)
qed

lemma M_closeBlock: "M s (closeBlock E block body flds s)"
proof (cases block)
  case (Some n)
  have a: "M s ((if body \<noteq> [] then emit E (EChunk n body) else id) s)" by (simp add: M_emit M_refl)
  have b: "M a ((if flds \<noteq> [] then emit E (EFields n flds) else id) a)" for a by (simp add: M_emit M_refl)
  from M_trans [OF M_trans [OF a b] M_emit] Some show ?thesis by (simp add: closeBlock_def)
qed (simp add: closeBlock_def M_refl)

lemma M_failBlock: "M s (failBlock E block e s)"
  by (cases block) (auto simp: failBlock_def intro: M_refl M_trans [OF M_emit M_emit])

lemma M_promote: "M s (promoteSessionMeta L E n flds s)"
  by (simp add: promoteSessionMeta_def Let_def M_refl M_emit)

end

sublocale event_moves \<subseteq> stage_moves
proof
  show "M s (join_branch s br)" if "M (s\<lparr>rn_last := []\<rparr>) br" for s br by (rule M_branch [OF that])
  fix E :: run_env and s :: "'w run_state" and flds c t look title lay
  let ?n = "Suc (rn_seq s)"
  have a: "M s (emit E (EBlock ?n look title lay) (s\<lparr>rn_seq := ?n\<rparr>))"
    by (rule M_trans [OF M_seq M_emit]) simp
  have b: "M a ((if c then emit E (EChunk ?n t) else id) a)" for a by (simp add: M_emit M_refl)
  show "M s (emit E (EDone (Suc (rn_seq s))) (emit E (EFields (Suc (rn_seq s)) flds) ((if c then emit E (EChunk (Suc (rn_seq s)) t) else id)
            (emit E (EBlock (Suc (rn_seq s)) look title lay) (s\<lparr>rn_seq := Suc (rn_seq s)\<rparr>)))))"
    by (rule M_trans [OF M_trans [OF M_trans [OF a b] M_emit] M_emit])
qed

text \<open>With the outputs of the run free to be written, the whole walk is covered.\<close>

locale run_moves = event_moves H M for H :: "'w pipe_host" and M :: "'w run_state \<Rightarrow> 'w run_state \<Rightarrow> bool" +
  assumes M_output: "M s (s\<lparr>rn_outputs := AList.update n out (rn_outputs s)\<rparr>)"
    and M_last: "M s (s\<lparr>rn_last := n\<rparr>)"
begin

lemma M_finish_stage: "M s (snd (finish_stage L E st prev vars block out flds s))"
  unfolding finish_stage_def Let_def snd_conv
  by (rule M_trans [OF M_trans [OF M_trans [OF M_output M_promote] M_last] M_closeBlock])

lemma M_runStage:
  assumes "moving W (sg_body p)" "runStage L H R E W p prev vars s = Some (r, s1)"
  shows "M s s1"
proof -
  obtain block s0 where o0: "openBlock E (sg p) (sg_name p) s = (block, s0)" by fastforce
  then have m: "M s s0" using M_openBlock [of s E "sg p" "sg_name p"] by simp
  have k: "M s s2" if "run_kind L H R E W p prompt prev vars s0 = Some (r2, s2)" for prompt r2 s2
    using M_trans [OF m M_run_kind [OF assms(1) that]] .
  have fin: "M s s3" if "M s s2" "finish_stage L E st prev vars block out flds s2 = (t3, s3)" for st out flds s2 t3 s3
    using M_trans [OF that(1) M_finish_stage [of s2 L E st prev vars block out flds]] that(2) by simp
  show ?thesis using assms(2) m
    by (auto simp: runStage_def Let_def o0 split: if_splits option.splits prod.splits sum.splits
        intro: M_trans [OF k M_failBlock] fin [OF k])
qed

lemma M_run_at: "run_at n L H R E stages i prev vars s = Some (r, s1) \<Longrightarrow> M s s1"
proof (induction n arbitrary: E stages i prev vars s r s1)
  case (Suc n)
  have mv: "moving (\<lambda>E1 body prev1 vars1 s1. run_at n L H R E1 body 0 prev1 vars1 s1) body" for body
    using Suc.IH by (auto simp: moving_def)
  show ?case using Suc.prems
    by (auto simp: Let_def M_refl split: if_splits option.splits prod.splits sum.splits
        intro: Suc.IH M_runStage [OF mv] M_trans [OF M_runStage [OF mv] Suc.IH])
qed simp

lemma M_execute:
  "executePipelineHooks fuel L H R d inp vars sink tools w = Some (r, s1) \<Longrightarrow> M (start_state w) s1"
  by (auto simp: executePipelineHooks_def runList_def M_refl split: option.splits sum.splits prod.splits dest: M_run_at)

end

section \<open>What grows\<close>

interpretation outputs: run_moves H
  "\<lambda>s s1. \<forall>n. map_of (rn_outputs s) n \<noteq> None \<longrightarrow> map_of (rn_outputs s1) n \<noteq> None" for H :: "'w pipe_host"
  by unfold_locales (auto simp: map_of_update_eq join_branch_def)

interpretation transcript: run_moves H
  "\<lambda>s s1. (\<exists>evs. rn_events s1 = rn_events s @ evs) \<and> rn_seq s \<le> rn_seq s1" for H :: "'w pipe_host"
  by unfold_locales (auto simp: join_branch_def)

text \<open>The registry stays exact and its keys only append.\<close>

definition srcs_grow :: "url_parser \<Rightarrow> RunSources \<Rightarrow> RunSources \<Rightarrow> bool" where
  "srcs_grow up rs rs1 \<longleftrightarrow> (reg_ok up (rs_reg rs) \<longrightarrow> reg_ok up (rs_reg rs1))
     \<and> (\<exists>ks. reg_keys up (rs_reg rs1) = reg_keys up (rs_reg rs) @ ks)
     \<and> set (rs_claimed rs) \<subseteq> set (rs_claimed rs1)"

lemma srcs_grow_refl: "srcs_grow up rs rs"
  by (simp add: srcs_grow_def)

lemma srcs_grow_trans: "srcs_grow up a b \<Longrightarrow> srcs_grow up b c \<Longrightarrow> srcs_grow up a c"
  by (auto simp: srcs_grow_def)

lemma srcs_grow_Add: "srcs_grow up rs (snd (Add up f rs))"
  using Add_frame(2) [of up rs f] by (auto simp: srcs_grow_def Add_frame(1,3))

lemma srcs_grow_Claim: "srcs_grow up rs (snd (Claim up u rs))"
  by (auto simp: srcs_grow_def Claim_def Let_def)

interpretation sources: run_moves H "\<lambda>s s1. srcs_grow (ho_url H) (rn_srcs s) (rn_srcs s1)" for H :: "'w pipe_host"
  by unfold_locales
    (auto simp: join_branch_def srcs_grow_refl srcs_grow_Add srcs_grow_Claim intro: srcs_grow_trans)

text \<open>Whatever a run does, its source list stays exact and only grows: the pages it had keep their numbers, so
  what an earlier stage cited as \<open>[N]\<close> still names the same page at the end.\<close>

theorem sources_keep_their_numbers:
  assumes "runList fuel L H R E stages prev vars s = Some (r, s1)" "reg_ok (ho_url H) (rs_reg (rn_srcs s))"
  shows "reg_ok (ho_url H) (rs_reg (rn_srcs s1)) \<and> Len (rn_srcs s) \<le> Len (rn_srcs s1)
    \<and> take (Len (rn_srcs s)) (reg_keys (ho_url H) (rs_reg (rn_srcs s1))) = reg_keys (ho_url H) (rs_reg (rn_srcs s))"
proof -
  from sources.M_run_at [OF assms(1) [unfolded runList_def]] obtain ks where
    k: "reg_keys (ho_url H) (rs_reg (rn_srcs s1)) = reg_keys (ho_url H) (rs_reg (rn_srcs s)) @ ks"
    and ok: "reg_ok (ho_url H) (rs_reg (rn_srcs s1))" using assms(2) by (auto simp: srcs_grow_def)
  have len: "length (reg_keys (ho_url H) (rs_reg rs)) = Len rs" for rs by (simp add: reg_keys_def Len_def)
  from arg_cong [OF k, of length] have "Len (rn_srcs s) \<le> Len (rn_srcs s1)" by (simp add: len)
  moreover have "take (Len (rn_srcs s)) (reg_keys (ho_url H) (rs_reg (rn_srcs s1))) = reg_keys (ho_url H) (rs_reg (rn_srcs s))"
    using k len [of "rn_srcs s"] by simp
  ultimately show ?thesis using ok by blast
qed

text \<open>A host whose model repeats its prompt, without agents, machines or tools.\<close>

definition echo_host :: "nat pipe_host" where
  "echo_host = \<lparr>ho_chat = \<lambda>w tier p think json. (Inr (Some p), w + 1), ho_loop = \<lambda>w tier p tools think. ((Inr (Some p), []), w + 1),
     ho_dispatch = None, ho_machine = None, ho_tool = \<lambda>w n args. (Inr [], w), ho_guard = None, ho_guard_args = \<lambda>_. [],
     ho_extract = \<lambda>_ _ _. [], ho_ctx = \<lambda>_. None, ho_route = \<lambda>_. [], ho_url = \<lambda>_. None\<rparr>"

definition no_readers :: readers where
  "no_readers = \<lparr>rd_weak = \<lambda>_. False, rd_host = \<lambda>_. [], rd_excerpt = \<lambda>t _ _. t, rd_figures = \<lambda>_ _. [], rd_claims = \<lambda>_. []\<rparr>"

definition plain_env :: run_env where
  "plain_env = \<lparr>re_input = ''in'', re_vars = [], re_inherited = [], re_def = [], re_meta = [], re_sink = True, re_quiet = False\<rparr>"

definition ask_stage :: "string \<Rightarrow> string \<Rightarrow> PipelineStage" where
  "ask_stage n prompt = PipelineStage (zero_stage\<lparr>sf_name := n, sf_kind := StageWorker, sf_prompt := prompt\<rparr>) []"

definition read_state :: "nat run_state" where
  "read_state = (start_state 0)\<lparr>rn_srcs :=
     \<lparr>rs_reg = \<lparr>reg_refs = [\<lparr>ref_title = ''A'', ref_url = ''https://a.org/x'', ref_authors = [], ref_journal = []\<rparr>],
        reg_byURL = [(''https://a.org/x'', 1)]\<rparr>, rs_text = [], rs_claimed = []\<rparr>\<rparr>"

lemma read_state_ok: "reg_ok (ho_url echo_host) (rs_reg (rn_srcs read_state))"
proof -
  have "reg_keys (ho_url echo_host) (rs_reg (rn_srcs read_state)) = [''https://a.org/x'']" by code_simp
  then show ?thesis by (simp add: reg_ok_def read_state_def)
qed

theorem sources_keep_their_numbers_witness:
  "\<exists>r s1. runList 2 sample_lib echo_host no_readers plain_env [ask_stage ''a'' ''p''] [] [] read_state = Some (r, s1)
    \<and> reg_ok (ho_url echo_host) (rs_reg (rn_srcs s1))"
proof -
  have "map_option (\<lambda>x. isl (fst x)) (runList 2 sample_lib echo_host no_readers plain_env [ask_stage ''a'' ''p''] [] [] read_state)
      = Some False" by code_simp
  then obtain r s1 where r: "runList 2 sample_lib echo_host no_readers plain_env [ask_stage ''a'' ''p''] [] [] read_state
      = Some (r, s1)" by auto
  with sources_keep_their_numbers [OF r read_state_ok] show ?thesis by blast
qed

section \<open>What a branch cannot touch\<close>

definition same_outputs :: "'w run_state \<Rightarrow> 'w run_state \<Rightarrow> bool" where
  "same_outputs s s1 \<longleftrightarrow> rn_outputs s1 = rn_outputs s \<and> rn_last s1 = rn_last s"

interpretation quiet_calls: event_moves H same_outputs for H :: "'w pipe_host"
  by unfold_locales (auto simp: same_outputs_def join_branch_def)

lemma same_outputs_branch:
  "fan_branch L H E W p tools item idx tot prev s = Some (r, s1) \<Longrightarrow> same_outputs s s1"
proof -
  assume b: "fan_branch L H E W p tools item idx tot prev s = Some (r, s1)"
  have "same_outputs s s2" if "fan_call L H E (sg p) tools item prev s = (r2, s2)" for r2 s2
    using quiet_calls.M_fan_call [of s L H E "sg p" tools item prev] that by simp
  then show ?thesis using b
    by (auto simp: fan_branch_def runBranchBody_def Let_def same_outputs_def join_branch_def
        split: if_splits option.splits prod.splits sum.splits)
qed

lemma same_outputs_branches:
  "fan_branches L H E W p tools tot prev idx items s = Some (rs, s1) \<Longrightarrow> same_outputs s s1"
proof (induction items arbitrary: idx s rs)
  case (Cons item items)
  then show ?case
    by (auto simp: same_outputs_def split: if_splits option.splits prod.splits dest!: same_outputs_branch)
qed (simp add: same_outputs_def)

text \<open>A fanout leaves the outputs of the run as they were, whatever its branches ran: a branch writes to its own
  copy, so no branch sees or overwrites what another, or the list around the fan, has produced.\<close>

theorem branches_are_isolated:
  assumes "runFanoutStage L H E W p prev tools s = Some (r, s1)"
  shows "rn_outputs s1 = rn_outputs s \<and> rn_last s1 = rn_last s"
  using assms
  by (auto simp: runFanoutStage_def Let_def same_outputs_def split: sum.splits list.splits option.splits prod.splits
      dest!: same_outputs_branches)

definition fan_stage :: PipelineStage where
  "fan_stage = PipelineStage (zero_stage\<lparr>sf_name := ''fan'', sf_kind := StageFanout, sf_fan_over := ''plan.parts''\<rparr>)
     [ask_stage ''look'' ''Look at {item}'']"

definition planned_state :: "nat run_state" where
  "planned_state = (start_state 0)\<lparr>rn_outputs := [(''plan'', \<lparr>so_text = [], so_fields = [(''parts'', VList [VStr ''one'', VStr ''two''])]\<rparr>)]\<rparr>"

text \<open>A body whose walk records an output of its own.\<close>

definition marking :: "nat walker" where
  "marking E stages prev vars s = Some (Inr (''done'', False), s\<lparr>rn_outputs := (''look'', zero_output) # rn_outputs s\<rparr>)"

theorem branches_are_isolated_witness:
  "\<exists>r s1. runFanoutStage sample_lib echo_host plain_env marking fan_stage [] [] planned_state = Some (r, s1)
      \<and> map_of (rn_outputs s1) ''look'' = None"
proof -
  have "map_option (\<lambda>x. isl (fst x)) (runFanoutStage sample_lib echo_host plain_env marking fan_stage [] [] planned_state)
      = Some False" by code_simp
  then obtain r s1 where r: "runFanoutStage sample_lib echo_host plain_env marking fan_stage [] [] planned_state = Some (r, s1)"
    by auto
  from branches_are_isolated [OF r] have "rn_outputs s1 = rn_outputs planned_state" by simp
  then have "map_of (rn_outputs s1) ''look'' = None" by (simp add: planned_state_def start_state_def)
  with r show ?thesis by blast
qed

end
