(* ===== verification/PipelineEnds.thy ===== *)
theory PipelineEnds
  imports PipelineMoves
begin

text \<open>
  When a run ends. More fuel never changes an answer, so \<open>None\<close> means only that the walk was cut short; a
  list whose jumps go forward, with bodies of the same kind, always answers within the fuel \<open>fuel_for\<close>
  counts on its stages; a pipeline that validates is such a list when its jump targets carry no white space
  around them; and one that validates with a padded target can walk in a circle for ever.
\<close>

section \<open>More fuel, same answer\<close>

definition walker_le :: "'w walker \<Rightarrow> 'w walker \<Rightarrow> bool" where
  "walker_le V W \<longleftrightarrow> (\<forall>E stages prev vars s r. V E stages prev vars s = Some r \<longrightarrow> W E stages prev vars s = Some r)"

lemma walker_leD: "walker_le V W \<Longrightarrow> V E stages prev vars s = Some r \<Longrightarrow> W E stages prev vars s = Some r"
  unfolding walker_le_def by blast

lemma loop_passes_mono:
  "walker_le V W \<Longrightarrow> loop_passes left H E V p tot i carry passes s = Some r \<Longrightarrow>
     loop_passes left H E W p tot i carry passes s = Some r"
proof (induction left arbitrary: i carry passes s)
  case (Suc left)
  show ?case
  proof (cases "ho_ctx H (rn_now s)")
    case None
    with Suc.prems(2) obtain q where v: "V E (sg_body p) carry (pass_vars i tot) s = Some q"
      by (auto split: option.splits)
    from walker_leD [OF Suc.prems(1) v] show ?thesis
      using Suc.prems(2) None v Suc.IH [OF Suc.prems(1)] by (auto split: sum.splits prod.splits if_splits)
  qed (use Suc.prems in simp)
qed simp

lemma runLoopStage_mono:
  "walker_le V W \<Longrightarrow> runLoopStage L H E V p prev s = Some r \<Longrightarrow> runLoopStage L H E W p prev s = Some r"
  by (auto simp: runLoopStage_def Let_def split: option.splits prod.splits sum.splits dest: loop_passes_mono)

lemma runBranchBody_mono:
  "walker_le V W \<Longrightarrow> runBranchBody E V p item idx tot prev s = Some r \<Longrightarrow> runBranchBody E W p item idx tot prev s = Some r"
  by (auto simp: runBranchBody_def split: option.splits prod.splits sum.splits dest: walker_leD)

lemma fan_branch_mono:
  "walker_le V W \<Longrightarrow> fan_branch L H E V p tools item idx tot prev s = Some r \<Longrightarrow>
     fan_branch L H E W p tools item idx tot prev s = Some r"
  by (auto simp: fan_branch_def Let_def split: if_splits option.splits prod.splits sum.splits dest: runBranchBody_mono)

lemma fan_branches_mono:
  "walker_le V W \<Longrightarrow> fan_branches L H E V p tools tot prev idx items s = Some r \<Longrightarrow>
     fan_branches L H E W p tools tot prev idx items s = Some r"
proof (induction items arbitrary: idx s r)
  case (Cons item items)
  show ?case
  proof (cases "ho_ctx H (rn_now s)")
    case None
    with Cons.prems(2) obtain q s1 where v: "fan_branch L H E V p tools item idx tot prev s = Some (q, s1)"
      by (auto split: option.splits)
    from Cons.prems(2) None v obtain rs s2 where
      vs: "fan_branches L H E V p tools tot prev (idx + 1) items s1 = Some (rs, s2)" "r = (q # rs, s2)"
      by (auto split: option.splits)
    from fan_branch_mono [OF Cons.prems(1) v] Cons.IH [OF Cons.prems(1) vs(1)] vs(2) None show ?thesis by simp
  qed (use Cons.prems in simp)
qed simp

lemma runFanoutStage_mono:
  "walker_le V W \<Longrightarrow> runFanoutStage L H E V p prev tools s = Some r \<Longrightarrow> runFanoutStage L H E W p prev tools s = Some r"
  by (auto simp: runFanoutStage_def Let_def split: sum.splits list.splits option.splits prod.splits dest: fan_branches_mono)

lemma run_kind_mono:
  assumes "walker_le V W" "run_kind L H R E V p prompt prev vars s = Some r"
  shows "run_kind L H R E W p prompt prev vars s = Some r"
proof -
  consider "sf_kind (sg p) = StageFanout" | "sf_kind (sg p) \<noteq> StageFanout" "sf_kind (sg p) = StageLoop"
    | "sf_kind (sg p) \<noteq> StageFanout" "sf_kind (sg p) \<noteq> StageLoop" by blast
  then show ?thesis
  proof cases
    case 1
    with assms show ?thesis by (simp add: run_kind_def Let_def runFanoutStage_mono)
  next
    case 2
    with assms(2) obtain q where q: "runLoopStage L H E V p prev s = Some q"
      by (auto simp: run_kind_def Let_def split: option.splits)
    from assms(2) 2 show ?thesis by (simp add: run_kind_def Let_def q runLoopStage_mono [OF assms(1) q])
  next
    case 3
    with assms(2) show ?thesis by (simp add: run_kind_def Let_def)
  qed
qed

lemma runStage_mono:
  assumes "walker_le V W" "runStage L H R E V p prev vars s = Some r"
  shows "runStage L H R E W p prev vars s = Some r"
proof -
  obtain block s0 where o0: "openBlock E (sg p) (sg_name p) s = (block, s0)" by fastforce
  let ?pr = "stage_prompt L E (sg p) prev vars s0"
  consider (early) "(sf_kind (sg p) = StageAgent \<and> ho_dispatch H = None) \<or> sf_kind (sg p) \<notin> set run_kinds"
    | (run) "\<not> (sf_kind (sg p) = StageAgent \<and> ho_dispatch H = None)" "\<not> sf_kind (sg p) \<notin> set run_kinds" by blast
  then show ?thesis
  proof cases
    case early
    then show ?thesis using assms(2) by (auto simp: runStage_def Let_def o0)
  next
    case run
    note stage = runStage_def Let_def o0 prod.case if_not_P [OF run(1)] if_not_P [OF run(2)]
    from assms(2) obtain q where q: "run_kind L H R E V p ?pr prev vars s0 = Some q"
      unfolding stage by (cases "run_kind L H R E V p ?pr prev vars s0") auto
    from assms(2) show ?thesis unfolding stage q run_kind_mono [OF assms(1) q] .
  qed
qed

lemma run_at_over: "length stages \<le> i \<Longrightarrow> run_at (Suc n) L H R E stages i prev vars s = Some (Inr (prev, False), s)"
  by simp

lemma run_at_cancelled:
  "i < length stages \<Longrightarrow> ho_ctx H (rn_now s) = Some e \<Longrightarrow>
     run_at (Suc n) L H R E stages i prev vars s = Some (Inl (SCtx e), s)"
  by simp

lemma run_at_branch:
  "i < length stages \<Longrightarrow> ho_ctx H (rn_now s) = None \<Longrightarrow> sf_kind (sg (stages ! i)) = StageBranch \<Longrightarrow>
     run_at (Suc n) L H R E stages i prev vars s =
       (let st = sg (stages ! i) in
        if \<not> branchTaken st s then run_at n L H R E stages (i + 1) prev vars s
        else if trim_space (sf_skip_to st) = [] then Some (Inr (prev, True), s)
        else case indexOfStage stages (sf_skip_to st) of
          None \<Rightarrow> Some (Inl (SSkipTo (sf_name st) (sf_skip_to st)), s)
        | Some t \<Rightarrow> run_at n L H R E stages t prev vars s)"
  by (simp add: Let_def)

lemma run_at_stage:
  "i < length stages \<Longrightarrow> ho_ctx H (rn_now s) = None \<Longrightarrow> sf_kind (sg (stages ! i)) \<noteq> StageBranch \<Longrightarrow>
     run_at (Suc n) L H R E stages i prev vars s =
       (case runStage L H R E (\<lambda>E1 body prev1 vars1 s1. run_at n L H R E1 body 0 prev1 vars1 s1) (stages ! i) prev vars s of
          None \<Rightarrow> None
        | Some (Inl e, s1) \<Rightarrow> Some (Inl e, s1)
        | Some (Inr out, s1) \<Rightarrow> run_at n L H R E stages (i + 1) out vars s1)"
  by simp

lemmas run_at_cases = run_at_over run_at_cancelled run_at_branch run_at_stage

declare run_at.simps(2) [simp del]

lemma run_at_Suc:
  "run_at n L H R E stages i prev vars s = Some r \<Longrightarrow> run_at (Suc n) L H R E stages i prev vars s = Some r"
proof (induction n arbitrary: E stages i prev vars s r)
  case (Suc n)
  let ?V = "\<lambda>n E1 body prev1 vars1 s1. run_at n L H R E1 body 0 prev1 vars1 s1"
  have le: "walker_le (?V n) (?V (Suc n))" unfolding walker_le_def using Suc.IH by blast
  consider "length stages \<le> i" | e where "i < length stages" "ho_ctx H (rn_now s) = Some e"
    | "i < length stages" "ho_ctx H (rn_now s) = None" "sf_kind (sg (stages ! i)) = StageBranch"
    | "i < length stages" "ho_ctx H (rn_now s) = None" "sf_kind (sg (stages ! i)) \<noteq> StageBranch"
    by (cases "ho_ctx H (rn_now s)") fastforce+
  then show ?case
  proof cases
    case 3
    note b = run_at_branch [OF 3]
    show ?thesis using Suc.prems unfolding b Let_def
      by (auto split: if_splits option.splits dest: Suc.IH)
  next
    case 4
    note b = run_at_stage [OF 4]
    from Suc.prems obtain q s1 where q: "runStage L H R E (?V n) (stages ! i) prev vars s = Some (q, s1)"
      unfolding b by (auto split: option.splits)
    note q1 = runStage_mono [OF le q]
    show ?thesis using Suc.prems Suc.IH unfolding b q q1 by (cases q) auto
  qed (use Suc.prems in \<open>auto simp: run_at_over run_at_cancelled\<close>)
qed simp

lemma run_at_mono: "run_at n L H R E stages i prev vars s = Some r \<Longrightarrow> n \<le> m \<Longrightarrow> run_at m L H R E stages i prev vars s = Some r"
  by (induction m) (auto simp: le_Suc_eq intro: run_at_Suc)

section \<open>Enough fuel\<close>

definition forward :: "PipelineStage list \<Rightarrow> bool" where
  "forward stages \<longleftrightarrow>
     (\<forall>k < length stages. sf_kind (sg (stages ! k)) = StageBranch \<longrightarrow> trim_space (sf_skip_to (sg (stages ! k))) \<noteq> [] \<longrightarrow>
        (\<forall>t. indexOfStage stages (sf_skip_to (sg (stages ! k))) = Some t \<longrightarrow> k < t))"

primrec all_forward :: "PipelineStage \<Rightarrow> bool" where
  "all_forward (PipelineStage s body) \<longleftrightarrow> forward body \<and> list_all (\<lambda>b. b) (map all_forward body)"

primrec need :: "PipelineStage \<Rightarrow> nat" where
  "need (PipelineStage s body) = length body + 1 + sum_list (map need body)"

definition fuel_for :: "PipelineStage list \<Rightarrow> nat" where
  "fuel_for stages = length stages + 1 + sum_list (map need stages)"

lemma need_body: "need p = fuel_for (sg_body p)"
  by (cases p) (simp add: fuel_for_def)

lemma all_forward_body: "all_forward p \<longleftrightarrow> forward (sg_body p) \<and> (\<forall>q \<in> set (sg_body p). all_forward q)"
  by (cases p) (auto simp: list_all_iff)

definition answers :: "'w walker \<Rightarrow> PipelineStage list \<Rightarrow> bool" where
  "answers W body \<longleftrightarrow> (\<forall>E prev vars s. W E body prev vars s \<noteq> None)"

lemma answersD: "answers W body \<Longrightarrow> (W E body prev vars s = None) = False"
  by (simp add: answers_def)

lemma loop_passes_answers: "answers W (sg_body p) \<Longrightarrow> (loop_passes left H E W p tot i carry passes s = None) = False"
proof (induction left arbitrary: i carry passes s)
  case (Suc left)
  show ?case
    by (auto simp: Suc.IH [OF Suc.prems] answersD [OF Suc.prems] simp del: not_None_eq not_Some_eq
        split: option.splits sum.splits prod.splits)
qed simp

lemma fan_branch_answers: "answers W (sg_body p) \<Longrightarrow> (fan_branch L H E W p tools item idx tot prev s = None) = False"
proof -
  assume w: "answers W (sg_body p)"
  have b: "(runBranchBody E W p item idx tot prev s = None) = False"
    by (simp add: runBranchBody_def answersD [OF w] split: option.splits prod.splits sum.splits)
  show ?thesis by (simp add: fan_branch_def Let_def b split: option.splits prod.splits sum.splits)
qed

lemma fan_branches_answers:
  "answers W (sg_body p) \<Longrightarrow> (fan_branches L H E W p tools tot prev idx items s = None) = False"
proof (induction items arbitrary: idx s)
  case (Cons item items)
  show ?case by (simp add: Cons.IH [OF Cons.prems] fan_branch_answers [OF Cons.prems] split: option.splits prod.splits)
qed simp

lemma runStage_answers:
  assumes "answers W (sg_body p)"
  shows "(runStage L H R E W p prev vars s = None) = False"
proof -
  have f: "(runFanoutStage L H E W p prev tools s = None) = False" for tools s
    by (simp add: runFanoutStage_def Let_def fan_branches_answers [OF assms] split: sum.splits list.splits option.splits prod.splits)
  have l: "(runLoopStage L H E W p prev s = None) = False" for s
    by (simp add: runLoopStage_def Let_def loop_passes_answers [OF assms] split: sum.splits option.splits prod.splits)
  have k: "(run_kind L H R E W p prompt prev vars s = None) = False" for prompt s
    by (auto simp: run_kind_def Let_def f l simp del: not_None_eq not_Some_eq split: option.splits sum.splits prod.splits)
  show ?thesis
    by (simp add: runStage_def Let_def k split: option.splits prod.splits sum.splits)
qed

lemma need_le: "p \<in> set stages \<Longrightarrow> need p \<le> sum_list (map need stages)"
  by (induction stages) auto

lemma run_at_answers:
  "forward stages \<Longrightarrow> (\<forall>p \<in> set stages. all_forward p) \<Longrightarrow> (length stages - i) + 1 + sum_list (map need stages) \<le> n \<Longrightarrow>
     run_at n L H R E stages i prev vars s \<noteq> None"
proof (induction n arbitrary: E stages i prev vars s)
  case (Suc n)
  let ?p = "stages ! i"
  have next_at: "run_at n L H R E stages t prev1 vars s1 \<noteq> None" if "i < t" "i < length stages" for t prev1 s1
    using Suc.prems(3) that by (intro Suc.IH [OF Suc.prems(1,2)]) simp
  consider "length stages \<le> i" | e where "i < length stages" "ho_ctx H (rn_now s) = Some e"
    | "i < length stages" "ho_ctx H (rn_now s) = None" "sf_kind (sg ?p) = StageBranch"
    | "i < length stages" "ho_ctx H (rn_now s) = None" "sf_kind (sg ?p) \<noteq> StageBranch"
    by (cases "ho_ctx H (rn_now s)") fastforce+
  then show ?case
  proof cases
    case 3
    have "i < t" if "indexOfStage stages (sf_skip_to (sg ?p)) = Some t" "trim_space (sf_skip_to (sg ?p)) \<noteq> []" for t
      using Suc.prems(1) 3 that by (simp add: forward_def)
    with next_at 3(1) show ?thesis by (simp add: run_at_branch [OF 3] Let_def split: option.splits)
  next
    case 4
    have p: "?p \<in> set stages" using 4(1) by simp
    have "run_at n L H R E1 (sg_body ?p) 0 prev1 vars1 s1 \<noteq> None" for E1 prev1 vars1 s1
    proof (rule Suc.IH)
      show "forward (sg_body ?p)" "\<forall>q \<in> set (sg_body ?p). all_forward q"
        using Suc.prems(2) p all_forward_body [of ?p] by auto
      show "length (sg_body ?p) - 0 + 1 + sum_list (map need (sg_body ?p)) \<le> n"
        using Suc.prems(3) 4(1) need_le [OF p] need_body [of ?p] by (simp add: fuel_for_def)
    qed
    then have w: "answers (\<lambda>E1 body prev1 vars1 s1. run_at n L H R E1 body 0 prev1 vars1 s1) (sg_body ?p)"
      by (simp add: answers_def)
    show ?thesis using next_at [of "i + 1"] 4(1)
      by (auto simp: run_at_stage [OF 4] runStage_answers [OF w] split: option.splits sum.splits prod.splits)
  qed (simp_all add: run_at_cases)
qed simp

section \<open>Pipelines that validate\<close>

lemma validated_forward:
  assumes "clean_list W b scope stages"
    and "\<And>p. p \<in> set stages \<Longrightarrow> trim_space (sf_skip_to (sg p)) = sf_skip_to (sg p)"
  shows "forward stages"
  unfolding forward_def
proof (intro allI impI)
  fix k t
  assume k: "k < length stages" "sf_kind (sg (stages ! k)) = StageBranch" "trim_space (sf_skip_to (sg (stages ! k))) \<noteq> []"
    "indexOfStage stages (sf_skip_to (sg (stages ! k))) = Some t"
  note parts = stage_checks_parts [OF clean_list_stage(2) [OF assms(1) k(1)]]
  from branch_ok(3) [OF parts(3) [OF k(2)] k(3)] assms(2) [of "stages ! k"] k(1,4) show "k < t" by simp
qed

lemma body_only_in: "kind_problems p scope bad = [] \<Longrightarrow> sf_kind (sg p) \<noteq> StageLoop \<Longrightarrow> sf_kind (sg p) \<noteq> StageFanout \<Longrightarrow> sg_body p = []"
  by (simp add: kind_problems_def Let_def)

definition all_stages :: "PipelineDef \<Rightarrow> PipelineStage list" where
  "all_stages d = pd_stages d @ concat (map sg_body (pd_stages d))"

lemma validated_body:
  assumes "ValidatePipeline d = None" "p \<in> set (pd_stages d)" "sg_body p \<noteq> []"
  shows "\<exists>scope. clean_list (\<lambda>_ sc. ([], sc)) True scope (sg_body p)"
proof -
  obtain k where k: "k < length (pd_stages d)" "p = pd_stages d ! k" using assms(2) by (metis in_set_conv_nth)
  note parts = stage_checks_parts [OF clean_list_stage(2) [OF Validate_clean(2) [OF assms(1)] k(1)]]
  let ?scope = "scope_before [] (pd_stages d) k"
  have "kind_problems p ?scope [] = []" using parts(1) k(2) by simp
  from body_only_in [OF this] assms(3) consider "sf_kind (sg p) = StageLoop" | "sf_kind (sg p) = StageFanout" by blast
  then show ?thesis
  proof cases
    case 1
    from loop_ok(5) [OF parts(2) [folded k(2)] 1] show ?thesis by blast
  next
    case 2
    from fan_ok(1) [OF parts(2) [folded k(2)] 2 assms(3)] show ?thesis by blast
  qed
qed

lemma validated_all_forward:
  assumes "ValidatePipeline d = None" "\<forall>p \<in> set (all_stages d). trim_space (sf_skip_to (sg p)) = sf_skip_to (sg p)"
  shows "forward (pd_stages d)" "\<forall>p \<in> set (pd_stages d). all_forward p"
proof -
  show "forward (pd_stages d)"
    using validated_forward [OF Validate_clean(2) [OF assms(1)]] assms(2) by (simp add: all_stages_def)
  show "\<forall>p \<in> set (pd_stages d). all_forward p"
  proof
    fix p assume p: "p \<in> set (pd_stages d)"
    show "all_forward p"
    proof (cases "sg_body p = []")
      case True
      then show ?thesis using all_forward_body [of p] by (simp add: forward_def)
    next
      case False
      from validated_body [OF assms(1) p False] obtain scope where
        c: "clean_list (\<lambda>_ sc. ([], sc)) True scope (sg_body p)" by blast
      have "q \<in> set (all_stages d)" if "q \<in> set (sg_body p)" for q
        using that p by (auto simp: all_stages_def)
      then have "forward (sg_body p)" using validated_forward [OF c] assms(2) by blast
      moreover have "all_forward q" if "q \<in> set (sg_body p)" for q
        using inner_ok(2) [OF c that] all_forward_body [of q] by (simp add: forward_def)
      ultimately show ?thesis using all_forward_body [of p] by blast
    qed
  qed
qed

section \<open>What a stage leaves\<close>

lemma promote_outputs: "rn_outputs (promoteSessionMeta L E n flds s) = rn_outputs s"
  using quiet_calls.M_promote [of s L E n flds] by (simp add: same_outputs_def)

lemma closeBlock_outputs:
  "rn_outputs (closeBlock E block body flds s) = rn_outputs s" "rn_last (closeBlock E block body flds s) = rn_last s"
  using quiet_calls.M_closeBlock [of s E block body flds] by (simp_all add: same_outputs_def)

lemma finish_stage_records:
  "finish_stage L E st prev vars block out0 flds0 s = (out, s1) \<Longrightarrow>
     rn_outputs s1 = AList.update (sf_name st) \<lparr>so_text = out, so_fields = fill_stage L E st prev vars s flds0\<rparr> (rn_outputs s)
     \<and> rn_last s1 = sf_name st"
  by (auto simp: finish_stage_def Let_def promote_outputs closeBlock_outputs)

lemma runStage_ok:
  assumes "openBlock E (sg p) (sg_name p) s = (block, s0)"
    and "sf_kind (sg p) = StageAgent \<longrightarrow> ho_dispatch H \<noteq> None" "sf_kind (sg p) \<in> set run_kinds"
    and "run_kind L H R E W p (stage_prompt L E (sg p) prev vars s0) prev vars s0 = Some (Inr (out0, flds0), s2)"
    and "finish_stage L E (sg p) prev vars block out0 flds0 s2 = (out, s1)"
  shows "runStage L H R E W p prev vars s = Some (Inr out, s1)"
  using assms by (auto simp: runStage_def Let_def)

text \<open>A stage that returns has recorded its text under its name, on top of what its kind left.\<close>

lemma runStage_records:
  assumes "runStage L H R E W p prev vars s = Some (Inr out, s1)"
  shows "\<exists>s0 s2 prompt flds0. same_outputs s s0
    \<and> run_kind L H R E W p prompt prev vars s0 = Some (Inr flds0, s2)
    \<and> rn_outputs s1 = AList.update (sg_name p) \<lparr>so_text = out, so_fields = fill_stage L E (sg p) prev vars s2 (snd flds0)\<rparr> (rn_outputs s2)
    \<and> rn_last s1 = sg_name p"
proof -
  obtain block s0 where o0: "openBlock E (sg p) (sg_name p) s = (block, s0)" by fastforce
  then have same: "same_outputs s s0" using quiet_calls.M_openBlock [of s E "sg p" "sg_name p"] by simp
  obtain out0 flds0 s2 where k: "run_kind L H R E W p (stage_prompt L E (sg p) prev vars s0) prev vars s0 = Some (Inr (out0, flds0), s2)"
    and f: "finish_stage L E (sg p) prev vars block out0 flds0 s2 = (out, s1)"
    using assms by (auto simp: runStage_def Let_def o0 split: if_splits option.splits prod.splits sum.splits)
  from finish_stage_records [OF f] same k show ?thesis by fastforce
qed

lemma plain_stage_records:
  assumes "runStage L H R E W p prev vars s = Some (Inr out, s1)"
    and "sf_kind (sg p) \<noteq> StageLoop"
  shows "\<exists>flds. rn_outputs s1 = AList.update (sg_name p) \<lparr>so_text = out, so_fields = flds\<rparr> (rn_outputs s) \<and> rn_last s1 = sg_name p"
proof -
  from runStage_records [OF assms(1)] obtain s0 s2 prompt flds0 where
    r: "same_outputs s s0" "run_kind L H R E W p prompt prev vars s0 = Some (Inr flds0, s2)"
    "rn_outputs s1 = AList.update (sg_name p) \<lparr>so_text = out, so_fields = fill_stage L E (sg p) prev vars s2 (snd flds0)\<rparr> (rn_outputs s2)"
    "rn_last s1 = sg_name p" by blast
  have "same_outputs s0 s2"
  proof (cases "sf_kind (sg p) = StageFanout")
    case True
    then have "runFanoutStage L H E W p prev (stage_tools_of E (sg p)) s0 = Some (Inr flds0, s2)"
      using r(2) by (simp add: run_kind_def Let_def)
    then show ?thesis
      by (auto simp: runFanoutStage_def Let_def same_outputs_def split: sum.splits list.splits option.splits prod.splits
          dest!: same_outputs_branches)
  next
    case False
    from quiet_calls.M_plain_kind [OF r(2) False assms(2)] show ?thesis .
  qed
  with r show ?thesis by (auto simp: same_outputs_def)
qed

section \<open>Properties\<close>

lemma enough_fuel:
  assumes "ValidatePipeline d = None" "\<forall>p \<in> set (all_stages d). trim_space (sf_skip_to (sg p)) = sf_skip_to (sg p)"
    and "fuel_for (pd_stages d) \<le> fuel"
  shows "\<exists>r s. executePipelineHooks fuel L H R d inp vars sink tools w = Some (r, s)
    \<and> executePipelineHooks (fuel_for (pd_stages d)) L H R d inp vars sink tools w = Some (r, s)"
proof -
  note ok = validated_all_forward [OF assms(1,2)]
  let ?run = "\<lambda>n. run_at n L H R (start_env d inp vars sink tools) (pd_stages d) 0 inp [] (start_state w)"
  from run_at_answers [OF ok, of 0 "fuel_for (pd_stages d)"] obtain r s where
    r: "?run (fuel_for (pd_stages d)) = Some (r, s)" by (fastforce simp: fuel_for_def)
  with run_at_mono [OF r assms(3)] assms(1) show ?thesis
    by (cases r) (auto simp: executePipelineHooks_def runList_def split: prod.splits)
qed

lemma two_stage_fits:
  "\<forall>p \<in> set (all_stages two_stage). trim_space (sf_skip_to (sg p)) = sf_skip_to (sg p)"
  "fuel_for (pd_stages two_stage) \<le> 40"
  by code_simp+

text \<open>C1: A pipeline that validates and whose jump targets have no white space around them always returns, a text or
  an error, whatever its model, agents, machines and tools answer; and the fuel counted from its stages is
  enough: more changes nothing.\<close>

theorem a_validated_pipeline_returns:
  assumes "ValidatePipeline d = None" "\<forall>p \<in> set (all_stages d). trim_space (sf_skip_to (sg p)) = sf_skip_to (sg p)"
    and "fuel_for (pd_stages d) \<le> fuel"
  shows "\<exists>r s. executePipelineHooks fuel L H R d inp vars sink tools w = Some (r, s)
    \<and> executePipelineHooks (fuel_for (pd_stages d)) L H R d inp vars sink tools w = Some (r, s)"
  using assms by (rule enough_fuel)

theorem a_validated_pipeline_returns_witness:
  "\<exists>r s. executePipelineHooks 40 sample_lib echo_host no_readers two_stage ''in'' [] False [] 0 = Some (r, s)"
proof -
  from a_validated_pipeline_returns [OF two_stage_valid two_stage_fits, of sample_lib echo_host no_readers "''in''" "[]" False "[]" 0]
  show ?thesis by blast
qed

text \<open>
  A pipeline whose branch jumps to \<open>''a ''\<close>: the validator trims the target and finds the later stage
  \<open>''a''\<close>, the walk compares it as written and finds the earlier stage \<open>''a ''\<close>.
\<close>

definition yes_lib :: golib where
  "yes_lib = sample_lib\<lparr>json_object := \<lambda>_. Some [(''yes'', VBool True)]\<rparr>"

definition circle_stages :: "PipelineStage list" where
  "circle_stages =
     [PipelineStage (zero_stage\<lparr>sf_name := ''go'', sf_kind := StageWorker, sf_prompt := ''p'',
        sf_output := [PipelineField ''yes'' FieldBool [] [] False [] []]\<rparr>) [],
      ask_stage ''a '' ''p'',
      PipelineStage (zero_stage\<lparr>sf_name := ''hop'', sf_kind := StageBranch, sf_when := ''go.yes'', sf_skip_to := ''a ''\<rparr>) [],
      ask_stage ''a'' ''p'']"

definition circle :: PipelineDef where
  "circle = PipelineDef
     \<lparr>pd_id = [], pd_owner = [], pd_name = ''circle'', pd_description = [], pd_session_meta = [], pd_global = False,
      pd_created = 0, pd_updated = 0, pd_allowed_users = [], pd_editors = [], pd_published = False, pd_owning_app = []\<rparr>
     circle_stages [] None None"

definition said_yes :: "nat run_state \<Rightarrow> bool" where
  "said_yes s \<longleftrightarrow> (\<exists>t. map_of (rn_outputs s) ''go'' = Some \<lparr>so_text = t, so_fields = [(''yes'', VBool True)]\<rparr>)"

lemma circle_valid: "ValidatePipeline circle = None"
  by code_simp

lemma circle_parts:
  "length circle_stages = 4" "sf_kind (sg (circle_stages ! 2)) = StageBranch" "sf_kind (sg (circle_stages ! Suc 0)) = StageWorker"
  "sf_kind (sg (circle_stages ! 0)) = StageWorker" "indexOfStage circle_stages ''a '' = Some 1"
  "sf_skip_to (sg (circle_stages ! 2)) = ''a ''" "SplitStageRef (sf_when (sg (circle_stages ! 2))) = (''go'', ''yes'')"
  "trim_space ''a '' \<noteq> []" "sg_name (circle_stages ! Suc 0) = ''a ''" "sg_name (circle_stages ! 0) = ''go''"
  by code_simp+

lemma echo_worker: "\<exists>t s1. runWorkerStage echo_host tools th json tier s p = (Inr t, s1)"
  by (simp add: runWorkerStage_def echo_host_def reply_text_def)

lemma worker_kind:
  assumes "sf_kind (sg p) = StageWorker"
  shows "run_kind L H R E W p prompt prev vars s = Some (run_call L H E (sg p) prompt s)"
    "stage_call L H E (sg p) = runWorkerStage H (stage_tools_of E (sg p)) (StageThinks (sg p)) (stage_ModelOutput (sg p) \<noteq> []) (stageTierFor H E (sg p))"
  using assms by (simp_all add: run_kind_def stage_call_def Let_def stage_kind_defs)

lemma worker_runs:
  assumes "sf_kind (sg p) = StageWorker" "\<And>q s0. \<exists>t f s2. run_call L H E (sg p) q s0 = (Inr (t, f), s2)"
  shows "\<exists>out s1. runStage L H R E W p prev vars s = Some (Inr out, s1)"
proof -
  obtain block s0 where o0: "openBlock E (sg p) (sg_name p) s = (block, s0)" by fastforce
  obtain t f s2 where c: "run_call L H E (sg p) (stage_prompt L E (sg p) prev vars s0) s0 = (Inr (t, f), s2)" using assms(2) by blast
  obtain out s1 where e: "finish_stage L E (sg p) prev vars block t f s2 = (out, s1)" by fastforce
  have "sf_kind (sg p) = StageAgent \<longrightarrow> ho_dispatch H \<noteq> None" "sf_kind (sg p) \<in> set run_kinds"
    using assms(1) by (simp_all add: run_kinds_def stage_kind_defs)
  moreover have k: "run_kind L H R E W p (stage_prompt L E (sg p) prev vars s0) prev vars s0 = Some (Inr (t, f), s2)"
    by (simp add: worker_kind(1) [OF assms(1)] c)
  ultimately show ?thesis using runStage_ok [OF o0 _ _ k e] by blast
qed

lemma echo_runs:
  assumes "sf_kind (sg p) = StageWorker" "stage_ModelOutput (sg p) = []"
  shows "\<exists>out s1. runStage L echo_host R E W p prev vars s = Some (Inr out, s1)"
proof (rule worker_runs [OF assms(1)])
  fix q s0
  obtain t s2 where "stage_call L echo_host E (sg p) s0 q = (Inr t, s2)"
    using echo_worker worker_kind(2) [OF assms(1)] by metis
  then show "\<exists>t f s2. run_call L echo_host E (sg p) q s0 = (Inr (t, f), s2)"
    using assms(2) by (simp add: run_call_def)
qed

lemma yes_decodes:
  "decodeStageOutput yes_lib t (stage_ModelOutput (sg (circle_stages ! 0))) = Inr [(''yes'', VBool True)]"
proof -
  have "stage_ModelOutput (sg (circle_stages ! 0)) = [PipelineField ''yes'' FieldBool [] [] False [] []]" by code_simp
  then show ?thesis
    by (simp add: decodeStageOutput_def yes_lib_def coerceField_def resolved_def outside_enum_def
        FieldBool_def FieldString_def FieldNumber_def)
qed

lemma circle_asks:
  "\<exists>t s2. run_call yes_lib echo_host E (sg (circle_stages ! 0)) q s0 = (Inr (t, [(''yes'', VBool True)]), s2)"
proof -
  let ?st = "sg (circle_stages ! 0)" and ?decl = "stage_ModelOutput (sg (circle_stages ! 0))"
  have decl: "?decl \<noteq> []" by code_simp
  obtain t s2 where "stage_call yes_lib echo_host E ?st s0 (q @ renderOutputContract ?decl) = (Inr t, s2)"
    using echo_worker worker_kind(2) [OF circle_parts(4)] by metis
  then have "runDeclaredOutput yes_lib (''stage '' @ sf_name ?st) ?decl q (stage_call yes_lib echo_host E ?st) None
      (\<lambda>s. ho_ctx echo_host (rn_now s)) s0 = ((Inr (t, [(''yes'', VBool True)]), []), s2)"
    by (simp add: runDeclaredOutput_def Let_def yes_decodes)
  with decl show ?thesis by (simp add: run_call_def)
qed

lemma circle_starts:
  "\<exists>out s1. runStage yes_lib echo_host R E W (circle_stages ! 0) prev vars s = Some (Inr out, s1) \<and> said_yes s1"
proof -
  obtain out s1 where r: "runStage yes_lib echo_host R E W (circle_stages ! 0) prev vars s = Some (Inr out, s1)"
    using worker_runs [OF circle_parts(4)] circle_asks by metis
  from runStage_records [OF r] obtain s0 s2 prompt flds0 where
    k: "run_kind yes_lib echo_host R E W (circle_stages ! 0) prompt prev vars s0 = Some (Inr flds0, s2)"
    "rn_outputs s1 = AList.update ''go'' \<lparr>so_text = out,
       so_fields = fill_stage yes_lib E (sg (circle_stages ! 0)) prev vars s2 (snd flds0)\<rparr> (rn_outputs s2)"
    unfolding circle_parts by blast
  have "snd flds0 = [(''yes'', VBool True)]"
    using k(1) circle_asks [of E prompt s0] by (auto simp: worker_kind(1) [OF circle_parts(4)])
  moreover have "stage_StaticFields (sg (circle_stages ! 0)) = []" by code_simp
  ultimately have "said_yes s1" using k(2) by (simp add: said_yes_def map_of_update_eq fill_stage_def)
  with r show ?thesis by blast
qed

lemma circle_turns:
  "said_yes s \<Longrightarrow> run_at n yes_lib echo_host R E circle_stages 1 prev vars s = None
     \<and> run_at n yes_lib echo_host R E circle_stages 2 prev vars s = None"
proof (induction n arbitrary: prev s)
  case (Suc n)
  have ctx: "ho_ctx echo_host w = None" for w by (simp add: echo_host_def)
  have branch: "run_at (Suc n) yes_lib echo_host R E circle_stages 2 prev vars s = None"
  proof -
    have "branchTaken (sg (circle_stages ! 2)) s"
      using Suc.prems by (auto simp: branchTaken_def circle_parts said_yes_def)
    then show ?thesis using Suc.IH [OF Suc.prems] circle_parts(8)
      by (simp add: run_at_branch [OF _ ctx circle_parts(2)] circle_parts Let_def)
  qed
  have k: "sf_kind (sg (circle_stages ! Suc 0)) \<noteq> StageBranch" "sf_kind (sg (circle_stages ! Suc 0)) \<noteq> StageLoop"
    using circle_parts(3) by (auto simp: stage_kind_defs)
  have "stage_ModelOutput (sg (circle_stages ! Suc 0)) = []" by code_simp
  from echo_runs [OF circle_parts(3) this] obtain out s1 where
    r: "runStage yes_lib echo_host R E (\<lambda>E1 body prev1 vars1 s1. run_at n yes_lib echo_host R E1 body 0 prev1 vars1 s1)
          (circle_stages ! Suc 0) prev vars s = Some (Inr out, s1)" by blast
  from plain_stage_records [OF r k(2)] Suc.prems have "said_yes s1"
    by (auto simp: circle_parts said_yes_def map_of_update_eq)
  from Suc.IH [OF this] have "run_at n yes_lib echo_host R E circle_stages 2 out vars s1 = None" by simp
  then have "run_at (Suc n) yes_lib echo_host R E circle_stages 1 prev vars s = None"
    by (simp add: run_at_stage [OF _ ctx k(1)] circle_parts r numeral_2_eq_2)
  with branch show ?case by blast
qed simp

text \<open>A pipeline can validate and never end: the circle's walk comes back to its earlier stage for ever, with a
  model that always answers and a context that is never cancelled, since no fuel is enough.\<close>

theorem a_padded_jump_can_walk_in_a_circle:
  "ValidatePipeline circle = None
   \<and> executePipelineHooks fuel yes_lib echo_host R circle inp [] sink tools w = None"
proof -
  let ?E = "start_env circle inp [] sink tools"
  have "run_at n yes_lib echo_host R ?E circle_stages 0 inp [] (start_state w) = None" for n
  proof (cases n)
    case (Suc m)
    have k: "sf_kind (sg (circle_stages ! 0)) \<noteq> StageBranch" using circle_parts(4) by (auto simp: stage_kind_defs)
    have ctx: "ho_ctx echo_host (rn_now (start_state w)) = None" by (simp add: echo_host_def)
    obtain out s1 where r: "runStage yes_lib echo_host R ?E (\<lambda>E1 body prev1 vars1 s1. run_at m yes_lib echo_host R E1 body 0 prev1 vars1 s1)
        (circle_stages ! 0) inp [] (start_state w) = Some (Inr out, s1)" "said_yes s1"
      using circle_starts by blast
    show ?thesis using circle_turns [OF r(2)] r(1)
      by (simp add: Suc run_at_stage [OF _ ctx k] circle_parts)
  qed simp
  moreover have "pd_stages circle = circle_stages" by (simp add: circle_def)
  ultimately show ?thesis using circle_valid by (simp add: executePipelineHooks_def runList_def)
qed

end
