(* ===== verification/PipelineBlocks.thy ===== *)
theory PipelineBlocks
  imports PipelineEnds
begin

text \<open>
  The transcript of a run. Its blocks nest like brackets: \<open>block_stack\<close> reads the events over the stack of
  open blocks, and a block's text, fields and failure go to the block opened last. \<open>well_nested\<close> is a
  \<open>stage_moves\<close> relation, so every stage kind keeps it; a stage keeps it when its kind can run, and a
  list when all its stages do. An agent stage of a run with no agents is the one that does not.
\<close>

section \<open>Reading a transcript\<close>

fun block_stack :: "pipe_event list \<Rightarrow> nat list \<Rightarrow> nat list option" where
  "block_stack [] st = Some st"
| "block_stack (EBlock n look title lay # evs) st = block_stack evs (n # st)"
| "block_stack (EDone n # evs) (m # st) = (if n = m then block_stack evs st else None)"
| "block_stack (EChunk n t # evs) (m # st) = (if n = m then block_stack evs (m # st) else None)"
| "block_stack (EFields n flds # evs) (m # st) = (if n = m then block_stack evs (m # st) else None)"
| "block_stack (EFailed n e # evs) (m # st) = (if n = m then block_stack evs (m # st) else None)"
| "block_stack (EMeta kv # evs) st = block_stack evs st"
| "block_stack _ [] = None"

fun opened :: "pipe_event list \<Rightarrow> nat list" where
  "opened [] = []"
| "opened (EBlock n look title lay # evs) = n # opened evs"
| "opened (_ # evs) = opened evs"

lemma block_stack_append: "block_stack (a @ b) st = Option.bind (block_stack a st) (block_stack b)"
  by (induction a st rule: block_stack.induct) auto

lemma opened_append: "opened (a @ b) = opened a @ opened b"
  by (induction a rule: opened.induct) auto

text \<open>What was emitted in between leaves the stack as it found it, and numbers its blocks in order.\<close>

definition nested :: "pipe_event list \<Rightarrow> nat \<Rightarrow> nat \<Rightarrow> bool" where
  "nested evs m n \<longleftrightarrow> (\<forall>st. block_stack evs st = Some st) \<and> opened evs = [Suc m ..< Suc n] \<and> m \<le> n"

definition well_nested :: "'w run_state \<Rightarrow> 'w run_state \<Rightarrow> bool" where
  "well_nested s s1 \<longleftrightarrow> (\<exists>evs. rn_events s1 = rn_events s @ evs \<and> nested evs (rn_seq s) (rn_seq s1))"

lemma nested_Nil: "nested [] n n"
  by (simp add: nested_def)

lemma nested_append: "nested a l m \<Longrightarrow> nested b m n \<Longrightarrow> nested (a @ b) l n"
  using upt_add_eq_append [of "Suc l" "Suc m" "n - m"]
  by (auto simp: nested_def block_stack_append opened_append)

lemma well_nested_refl: "rn_events s1 = rn_events s \<Longrightarrow> rn_seq s1 = rn_seq s \<Longrightarrow> well_nested s s1"
  by (simp add: well_nested_def nested_Nil)

lemma well_nested_trans: "well_nested a b \<Longrightarrow> well_nested b c \<Longrightarrow> well_nested a c"
  unfolding well_nested_def by (metis append_assoc nested_append)

text \<open>What a stage says in its own block, and of the run.\<close>

fun of_block :: "nat \<Rightarrow> pipe_event \<Rightarrow> bool" where
  "of_block n (EChunk k t) \<longleftrightarrow> k = n"
| "of_block n (EFields k flds) \<longleftrightarrow> k = n"
| "of_block n (EFailed k e) \<longleftrightarrow> k = n"
| "of_block n (EMeta kv) \<longleftrightarrow> True"
| "of_block n ev \<longleftrightarrow> False"

lemma own_stack: "list_all (of_block n) own \<Longrightarrow> block_stack (own @ [EDone n]) (n # st) = Some st"
  by (induction own rule: opened.induct) auto

lemma own_opened: "list_all (of_block n) own \<Longrightarrow> opened own = []"
  by (induction own rule: opened.induct) auto

text \<open>The events of one block: what is inside goes between its opening and its end.\<close>

lemma nested_block:
  assumes "nested inner (Suc n) m" "list_all (of_block (Suc n)) own"
  shows "nested (EBlock (Suc n) look title lay # inner @ own @ [EDone (Suc n)]) n m"
proof -
  have "n < m" "[Suc n ..< Suc m] = Suc n # [Suc (Suc n) ..< Suc m]"
    using assms(1) by (auto simp: nested_def upt_conv_Cons)
  with assms own_stack [OF assms(2)] own_opened [OF assms(2)] show ?thesis
    by (simp add: nested_def block_stack_append opened_append)
qed

interpretation blocks: stage_moves H well_nested for H :: "'w pipe_host"
proof
  fix E :: run_env and s :: "'w run_state" and flds c t look title lay
  assume "re_sink E"
  let ?n = "Suc (rn_seq s)" and ?own = "(if c then [EChunk (Suc (rn_seq s)) t] else []) @ [EFields (Suc (rn_seq s)) flds]"
  have "nested (EBlock ?n look title lay # [] @ ?own @ [EDone ?n]) (rn_seq s) ?n"
    by (rule nested_block) (simp_all add: nested_Nil)
  with \<open>re_sink E\<close> show "well_nested s (emit E (EDone ?n) (emit E (EFields ?n flds) ((if c then emit E (EChunk ?n t) else id)
      (emit E (EBlock ?n look title lay) (s\<lparr>rn_seq := ?n\<rparr>)))))"
    by (cases c) (auto simp: well_nested_def emit_def)
next
  show "well_nested s (join_branch s br)" if "well_nested (s\<lparr>rn_last := []\<rparr>) br" for s br
    using that by (auto simp: well_nested_def join_branch_def)
qed (auto intro: well_nested_refl well_nested_trans)

section \<open>Stages that can run\<close>

text \<open>A kind the walk knows, with agents there when it asks one, all through the bodies.\<close>

definition can_run :: "'w pipe_host \<Rightarrow> StageFields \<Rightarrow> bool" where
  "can_run H st \<longleftrightarrow> sf_kind st \<in> set run_kinds \<and> (sf_kind st = StageAgent \<longrightarrow> ho_dispatch H \<noteq> None)"

primrec all_run :: "'w pipe_host \<Rightarrow> PipelineStage \<Rightarrow> bool" where
  "all_run H (PipelineStage s body) \<longleftrightarrow>
     (sf_kind s = StageBranch \<or> can_run H s) \<and> list_all (\<lambda>b. b) (map (all_run H) body)"

lemma all_run_parts:
  "all_run H p \<longleftrightarrow> (sf_kind (sg p) = StageBranch \<or> can_run H (sg p)) \<and> (\<forall>q \<in> set (sg_body p). all_run H q)"
  by (cases p) (auto simp: list_all_iff)

lemma promote_events:
  "\<exists>evs. rn_events (promoteSessionMeta L E n flds s) = rn_events s @ evs
    \<and> (\<forall>n st. list_all (of_block n) evs \<and> block_stack evs st = Some st) \<and> opened evs = [] \<and> rn_seq (promoteSessionMeta L E n flds s) = rn_seq s"
  by (auto simp: promoteSessionMeta_def Let_def emit_def)

lemma block_of_stage:
  assumes "openBlock E st title s = (block, s0)" "well_nested s0 s2"
    and "rn_events s3 = rn_events s2 @ own" "rn_seq s3 = rn_seq s2"
    and "block = None \<Longrightarrow> nested own (rn_seq s2) (rn_seq s2)"
    and "\<And>n. block = Some n \<Longrightarrow> \<exists>mine. own = mine @ [EDone n]
      \<and> list_all (of_block n) mine"
  shows "well_nested s s3"
proof (cases block)
  case None
  then have "s0 = s" using assms(1) by (auto simp: openBlock_def Let_def split: if_splits prod.splits)
  with assms(2-5) None show ?thesis by (auto simp: well_nested_def intro: nested_append)
next
  case (Some n)
  with assms(1) obtain look lay where o: "n = Suc (rn_seq s)" "re_sink E"
    "s0 = emit E (EBlock n look title lay) (s\<lparr>rn_seq := n\<rparr>)"
    by (auto simp: openBlock_def Let_def split: if_splits prod.splits)
  from assms(2) obtain evs where e: "rn_events s2 = rn_events s0 @ evs" "nested evs n (rn_seq s2)"
    using o by (auto simp: well_nested_def emit_def)
  from assms(6) [OF Some] obtain mine where m: "own = mine @ [EDone n]"
    "list_all (of_block n) mine"
    by blast
  have "nested (EBlock n look title lay # evs @ mine @ [EDone n]) (rn_seq s) (rn_seq s2)"
    using nested_block [of evs "rn_seq s" "rn_seq s2" mine look title lay] e(2) m(2) o(1) by simp
  with e m o assms(3,4) show ?thesis by (simp add: well_nested_def emit_def)
qed

section \<open>The walk\<close>

lemma openBlock_sink: "openBlock E st title s = (Some n, s0) \<Longrightarrow> re_sink E"
  by (auto simp: openBlock_def split: if_splits)

lemma fail_events:
  assumes "openBlock E st title s = (block, s0)" "well_nested s0 s2"
  shows "well_nested s (failBlock E block e s2)"
proof (cases block)
  case None
  show ?thesis by (rule block_of_stage [OF assms, where own = "[]"]) (simp_all add: failBlock_def None nested_Nil)
next
  case (Some n)
  note sink = openBlock_sink [OF assms(1) [unfolded Some]]
  show ?thesis
    by (rule block_of_stage [OF assms, where own = "[EFailed n e] @ [EDone n]"])
      (simp_all add: failBlock_def Some emit_def sink)
qed

lemma finish_events:
  assumes "openBlock E st title s = (block, s0)" "well_nested s0 s2"
    and "finish_stage L E st1 prev vars block out flds s2 = (t, s3)"
  shows "well_nested s s3"
proof -
  define flds1 where "flds1 = fill_stage L E st1 prev vars s2 flds"
  define rec where "rec = s2\<lparr>rn_outputs := AList.update (sf_name st1)
      \<lparr>so_text = cite_stage st1 (trim_space out) (rn_srcs s2), so_fields = flds1\<rparr> (rn_outputs s2)\<rparr>"
  define s4 where "s4 = promoteSessionMeta L E (sf_name st1) flds1 rec"
  obtain evs where p: "rn_events s4 = rn_events s2 @ evs"
    "\<forall>n st. list_all (of_block n) evs \<and> block_stack evs st = Some st" "opened evs = []" "rn_seq s4 = rn_seq s2"
    using promote_events [of L E "sf_name st1" flds1 rec] by (auto simp: rec_def s4_def)
  obtain body where s3: "s3 = closeBlock E block body flds1 (s4\<lparr>rn_last := sf_name st1\<rparr>)"
    using assms(3) by (auto simp: finish_stage_def Let_def flds1_def rec_def s4_def)
  show ?thesis
  proof (cases block)
    case None
    show ?thesis
      by (rule block_of_stage [OF assms(1,2), where own = evs])
        (use p in \<open>simp_all add: s3 closeBlock_def None nested_def\<close>)
  next
    case (Some n)
    note sink = openBlock_sink [OF assms(1) [unfolded Some]]
    let ?mine = "evs @ (if body \<noteq> [] then [EChunk n body] else []) @ (if flds1 \<noteq> [] then [EFields n flds1] else [])"
    show ?thesis
      by (rule block_of_stage [OF assms(1,2), where own = "?mine @ [EDone n]"])
        (use p in \<open>simp_all add: s3 closeBlock_def Some emit_def sink\<close>)
  qed
qed

lemma runStage_nests:
  assumes "blocks.moving W (sg_body p)" "can_run H (sg p)" "runStage L H R E W p prev vars s = Some (r, s1)"
  shows "well_nested s s1"
proof -
  obtain block s0 where o0: "openBlock E (sg p) (sg_name p) s = (block, s0)" by fastforce
  have k: "well_nested s0 s2" if "run_kind L H R E W p prompt prev vars s0 = Some (r2, s2)" for prompt r2 s2
    by (rule blocks.M_run_kind [OF assms(1) that])
  have run: "\<not> (sf_kind (sg p) = StageAgent \<and> ho_dispatch H = None)" "\<not> sf_kind (sg p) \<notin> set run_kinds"
    using assms(2) by (auto simp: can_run_def)
  show ?thesis using assms(3) unfolding runStage_def Let_def o0 prod.case if_not_P [OF run(1)] if_not_P [OF run(2)]
    by (auto split: option.splits sum.splits prod.splits intro: fail_events [OF o0 k] finish_events [OF o0 k])
qed

lemma run_at_nests:
  "\<forall>p \<in> set stages. all_run H p \<Longrightarrow> run_at n L H R E stages i prev vars s = Some (r, s1) \<Longrightarrow> well_nested s s1"
proof (induction n arbitrary: E stages i prev vars s r s1)
  case (Suc n)
  let ?W = "\<lambda>E1 body prev1 vars1 s1. run_at n L H R E1 body 0 prev1 vars1 s1"
  consider "length stages \<le> i" | e where "i < length stages" "ho_ctx H (rn_now s) = Some e"
    | "i < length stages" "ho_ctx H (rn_now s) = None" "sf_kind (sg (stages ! i)) = StageBranch"
    | "i < length stages" "ho_ctx H (rn_now s) = None" "sf_kind (sg (stages ! i)) \<noteq> StageBranch"
    by (cases "ho_ctx H (rn_now s)") fastforce+
  then show ?case
  proof cases
    case 3
    show ?thesis using Suc.prems Suc.IH [OF Suc.prems(1)]
      by (auto simp: run_at_branch [OF 3] Let_def split: if_splits option.splits intro: well_nested_refl)
  next
    case 4
    have p: "all_run H (stages ! i)" using Suc.prems(1) 4(1) by simp
    then have mv: "blocks.moving ?W (sg_body (stages ! i))" and c: "can_run H (sg (stages ! i))"
      using Suc.IH 4(3) by (auto simp: blocks.moving_def all_run_parts [of H "stages ! i"])
    have st: "well_nested s s2" if "runStage L H R E ?W (stages ! i) prev vars s = Some (q, s2)" for q s2
      by (rule runStage_nests [OF mv c that])
    from Suc.prems(2) obtain q s2 where q: "runStage L H R E ?W (stages ! i) prev vars s = Some (q, s2)"
      unfolding run_at_stage [OF 4] by (auto split: option.splits)
    show ?thesis
    proof (cases q)
      case (Inr out)
      with Suc.prems(2) have "run_at n L H R E stages (i + 1) out vars s2 = Some (r, s1)"
        unfolding run_at_stage [OF 4] q by simp
      from well_nested_trans [OF st [OF q] Suc.IH [OF Suc.prems(1) this]] show ?thesis .
    qed (use Suc.prems(2) st [OF q] in \<open>simp add: run_at_stage [OF 4] q\<close>)
  qed (use Suc.prems in \<open>auto simp: run_at_over run_at_cancelled intro: well_nested_refl\<close>)
qed simp

text \<open>C3: In a pipeline whose stages, at every depth, are of kinds the walk knows, run where there are agents when a
  stage asks for one, the transcript reads as brackets however the run ends, with a text or with an error: every
  block opened has been closed, inside what was open around it, each write went to the block opened last, and the
  blocks carry the numbers 1, 2, 3 and so on, once each. Validation does not ask for either, and without agents a
  block stays open: see \<open>a_stage_without_agents_leaves_its_block_open\<close>.\<close>

theorem every_block_is_closed:
  assumes "executePipelineHooks fuel L H R d inp vars sink tools w = Some (r, s)" "\<forall>p \<in> set (pd_stages d). all_run H p"
  shows "block_stack (rn_events s) [] = Some [] \<and> opened (rn_events s) = [1 ..< Suc (rn_seq s)]"
proof -
  have "well_nested (start_state w) s"
    using assms(1) by (auto simp: executePipelineHooks_def runList_def well_nested_refl
        split: option.splits sum.splits prod.splits dest: run_at_nests [OF assms(2)])
  then show ?thesis by (auto simp: well_nested_def nested_def start_state_def)
qed

lemma two_stage_runs: "\<forall>p \<in> set (pd_stages two_stage). all_run echo_host p"
  by code_simp

theorem every_block_is_closed_witness:
  "\<exists>r s. executePipelineHooks 40 sample_lib echo_host no_readers two_stage ''in'' [] True [] 0 = Some (r, s)
    \<and> block_stack (rn_events s) [] = Some []"
proof -
  obtain r s where r: "executePipelineHooks 40 sample_lib echo_host no_readers two_stage ''in'' [] True [] 0 = Some (r, s)"
    using enough_fuel [OF two_stage_valid two_stage_fits, of sample_lib echo_host no_readers "''in''" "[]" True "[]" 0] by blast
  from every_block_is_closed [OF r two_stage_runs] r show ?thesis by blast
qed

section \<open>An agent stage without agents\<close>

definition agent_stage :: PipelineStage where
  "agent_stage = PipelineStage (zero_stage\<lparr>sf_name := ''ask'', sf_kind := StageAgent, sf_agent := ''scout'', sf_prompt := ''Go''\<rparr>) []"

definition agent_pipe :: PipelineDef where
  "agent_pipe = PipelineDef
     \<lparr>pd_id = [], pd_owner = [], pd_name = ''ask'', pd_description = [], pd_session_meta = [], pd_global = False,
      pd_created = 0, pd_updated = 0, pd_allowed_users = [], pd_editors = [], pd_published = False, pd_owning_app = []\<rparr>
     [agent_stage] [] None None"

text \<open>The early returns are outside that guarantee: a pipeline that validates, run where there are no agents,
  fails at its agent stage with the stage's block still open in the transcript, where every other failure
  closes it so that no card is left spinning.\<close>

theorem a_stage_without_agents_leaves_its_block_open:
  "ValidatePipeline agent_pipe = None
   \<and> (\<exists>s. executePipelineHooks 3 sample_lib echo_host no_readers agent_pipe inp [] True tools w = Some (Inl (SNoDispatch ''ask''), s)
        \<and> block_stack (rn_events s) [] = Some [1])"
proof -
  have v: "ValidatePipeline agent_pipe = None" by code_simp
  let ?E = "start_env agent_pipe inp [] True tools"
  have parts: "sf_name (sg agent_stage) = ''ask''" "sf_kind (sg agent_stage) = StageAgent"
    "sf_kind (sg agent_stage) \<noteq> StagePanel" "blockLook (sg agent_stage) = (StageAgent, [])"
    by code_simp+
  then have o0: "openBlock ?E (sg agent_stage) ''ask'' (start_state w)
      = (Some 1, emit ?E (EBlock 1 StageAgent ''ask'' []) (start_state w \<lparr>rn_seq := 1\<rparr>))"
    by (simp add: openBlock_def start_env_def start_state_def)
  have "runStage sample_lib echo_host no_readers ?E W agent_stage inp [] (start_state w)
      = Some (Inl (SNoDispatch ''ask''), emit ?E (EBlock 1 StageAgent ''ask'' []) (start_state w \<lparr>rn_seq := 1\<rparr>))" for W
    by (simp add: runStage_def Let_def parts o0 echo_host_def)
  moreover have "pd_stages agent_pipe = [agent_stage]" by (simp add: agent_pipe_def)
  moreover have "sf_kind (sg agent_stage) \<noteq> StageBranch" by (simp add: parts stage_kind_defs)
  moreover have "ho_ctx echo_host w1 = None" for w1 by (simp add: echo_host_def)
  ultimately show ?thesis using v
    by (simp add: executePipelineHooks_def runList_def numeral_3_eq_3 run_at.simps(2) emit_def start_env_def start_state_def)
qed

end
