(* ===== verification/PipelineEdit.thy ===== *)
theory PipelineEdit
  imports PipelineValidate MachineAdvice
begin

text \<open>
  Structural edits to a stored pipeline (core/pipeline_edit.go): \<open>RenameStage\<close> and what it rewrites,
  \<open>StageReferences\<close> and \<open>RemoveStage\<close>. The lemmas say what an edit does to the references of every prompt,
  argument and static field; two theorems show the references both edits leave out.
\<close>

section \<open>Renaming\<close>

definition body_mark :: string where
  "body_mark = [CHR '' '', CHR 0xE2, CHR 0x80, CHR 0xBA, CHR '' '']"

definition dotted :: "string \<Rightarrow> string \<Rightarrow> string" where
  "dotted n field = (if field = [] then n else n @ ''.'' @ field)"

text \<open>The rest of a template from the scan's position: what is written, and whether a reference was rewritten.\<close>

function rename_refs :: "string \<Rightarrow> string \<Rightarrow> string \<Rightarrow> string \<times> bool" where
  "rename_refs rest frm to1 =
     (case index_of rest stage_open of
        None \<Rightarrow> (rest, False)
      | Some i \<Rightarrow>
          (let head = take (i + 7) rest; rest1 = drop (i + 7) rest in
           case index_of rest1 ''}'' of
             None \<Rightarrow> (head @ rest1, False)
           | Some j \<Rightarrow>
               (let ref = take j rest1; (name, field) = SplitStageRef ref; hit = (trim_space name = frm);
                    (more, hit1) = rename_refs (drop (j + 1) rest1) frm to1
                in (head @ (if hit then dotted to1 field else ref) @ ''}'' @ more, hit \<or> hit1))))"
  by pat_completeness auto
termination
proof (relation "measure (\<lambda>(rest, _, _). length rest)")
  fix rest frm to1 head rest1 ref p name field hit :: string and i j
  assume "index_of rest stage_open = Some i" "rest1 = drop (i + 7) rest"
  moreover have "length stage_open = 7" by (simp add: stage_open_def)
  ultimately have "i + 7 \<le> length rest" using index_of_Some [of rest stage_open i] by simp
  then have "length (drop (j + 1) rest1) < length rest" using \<open>rest1 = _\<close> by simp
  then show "((drop (j + 1) rest1, frm, to1), (rest, frm, to1)) \<in> measure (\<lambda>(rest, _, _). length rest)" by simp
qed simp

declare rename_refs.simps [simp del]

definition renameTemplate :: "string \<Rightarrow> string \<Rightarrow> string \<Rightarrow> string \<times> bool" where
  "renameTemplate tmpl frm to1 =
     (if tmpl = [] \<or> \<not> contains tmpl stage_open then (tmpl, False) else rename_refs tmpl frm to1)"

definition ref_char :: "char \<Rightarrow> bool" where
  "ref_char c \<longleftrightarrow> c = CHR ''.'' \<or> c = CHR ''_'' \<or> c = CHR ''-'' \<or> letter_or_digit c"

definition renameBare :: "string \<Rightarrow> string \<Rightarrow> string \<Rightarrow> string \<times> bool" where
  "renameBare ref frm to1 =
     (let t = trim_space ref; head = takeWhile ref_char t; rest = dropWhile ref_char t in
      if t = [] then (ref, False)
      else case SplitStageRef head of (name, field) \<Rightarrow>
        if trim_space name \<noteq> frm then (ref, False) else (dotted to1 field @ rest, True))"

definition rename_from :: "string \<Rightarrow> string \<Rightarrow> PipelineField \<Rightarrow> PipelineField" where
  "rename_from frm to1 f = set_f_from (fst (renameTemplate (f_from f) frm to1)) f"

text \<open>A stage's own part, given whether the list is the top one; with it, whether a reference was rewritten.\<close>

definition rename_own :: "string \<Rightarrow> string \<Rightarrow> bool \<Rightarrow> StageFields \<Rightarrow> StageFields \<times> bool" where
  "rename_own frm to1 is_top s =
     (s\<lparr>sf_name := (if trim_space (sf_name s) = frm \<and> is_top then to1 else sf_name s),
        sf_prompt := fst (renameTemplate (sf_prompt s) frm to1),
        sf_fan_over := fst (renameBare (sf_fan_over s) frm to1),
        sf_until := fst (renameBare (sf_until s) frm to1),
        sf_when := fst (renameBare (sf_when s) frm to1),
        sf_skip_to := (if trim_space (sf_skip_to s) = frm then to1 else sf_skip_to s),
        sf_args := map (\<lambda>(k, v). (k, fst (renameTemplate v frm to1))) (sf_args s),
        sf_output := map (rename_from frm to1) (sf_output s)\<rparr>,
      snd (renameTemplate (sf_prompt s) frm to1) \<or> snd (renameBare (sf_fan_over s) frm to1)
      \<or> snd (renameBare (sf_until s) frm to1) \<or> snd (renameBare (sf_when s) frm to1) \<or> trim_space (sf_skip_to s) = frm
      \<or> (\<exists>e \<in> set (sf_args s). snd (renameTemplate (snd e) frm to1))
      \<or> (\<exists>f \<in> set (sf_output s). snd (renameTemplate (f_from f) frm to1)))"

text \<open>The labels of the stages touched, the bodies' before the stage's own, as the code marks them.\<close>

primrec rename_stage :: "string \<Rightarrow> string \<Rightarrow> PipelineStage \<Rightarrow> string \<Rightarrow> PipelineStage \<times> string list" where
  "rename_stage frm to1 (PipelineStage s body) = (\<lambda>lead.
     (let label = lead @ trim_space (sf_name s); (s1, changed) = rename_own frm to1 (lead = []) s;
          inner = map (\<lambda>g. g (label @ body_mark)) (map (rename_stage frm to1) body)
      in (PipelineStage s1 (map fst inner), concat (map snd inner) @ (if changed then [label] else []))))"

definition renameInStages :: "PipelineStage list \<Rightarrow> string \<Rightarrow> string \<Rightarrow> string \<Rightarrow> PipelineStage list \<times> string list" where
  "renameInStages stages frm to1 lead =
     (let rs = map (\<lambda>p. rename_stage frm to1 p lead) stages in (map fst rs, concat (map snd rs)))"

definition with_stages :: "PipelineDef \<Rightarrow> PipelineStage list \<Rightarrow> PipelineDef" where
  "with_stages d stages = PipelineDef (pd d) stages (pd_followups d) (pd_suggest d) (pd_previous d)"

definition RenameStage :: "PipelineDef \<Rightarrow> string \<Rightarrow> string \<Rightarrow> PipelineDef \<times> string list" where
  "RenameStage d from0 to0 =
     (let frm = trim_space from0; to1 = trim_space to0 in
      if frm = [] \<or> to1 = [] \<or> frm = to1 then (d, [])
      else case renameInStages (pd_stages d) frm to1 [] of
        (stages, touched) \<Rightarrow> (with_stages d stages, sort (remdups touched)))"

section \<open>References and removal\<close>

definition bare_char :: "char \<Rightarrow> bool" where
  "bare_char c \<longleftrightarrow> c = CHR ''_'' \<or> c = CHR ''-'' \<or> letter_or_digit c"

text \<open>\<open>bareRefPattern\<close>: two words with a dot between, leftmost and without overlaps.\<close>

function bare_matches :: "string \<Rightarrow> string list" where
  "bare_matches [] = []"
| "bare_matches (c # s) =
     (let w = takeWhile bare_char (c # s); r = dropWhile bare_char (c # s); w2 = takeWhile bare_char (tl r) in
      if w = [] then bare_matches s
      else if r \<noteq> [] \<and> hd r = CHR ''.'' \<and> w2 \<noteq> [] then (w @ ''.'' @ w2) # bare_matches (dropWhile bare_char (tl r))
      else bare_matches r)"
  by pat_completeness auto
termination
proof (relation "measure length")
  fix c :: char and s w r w2 :: string
  assume w: "w = takeWhile bare_char (c # s)" and r: "r = dropWhile bare_char (c # s)" "\<not> w = []"
  then have "bare_char c" by (simp split: if_splits)
  then have "length r \<le> length s" using r(1) by (simp add: length_dropWhile_le)
  then show "(r, c # s) \<in> measure length" by simp
  have "length (dropWhile bare_char (tl r)) \<le> length r"
    using length_dropWhile_le [of bare_char "tl r"] by simp
  with \<open>length r \<le> length s\<close> show "(dropWhile bare_char (tl r), c # s) \<in> measure length" by simp
qed simp_all

declare bare_matches.simps(2) [simp del]

definition bareNames :: "string \<Rightarrow> string list" where
  "bareNames raw =
     filter (\<lambda>n. n \<noteq> []) (map (\<lambda>m. trim_space (fst (SplitStageRef m))) (bare_matches raw))
     @ (let t = trim_space raw in if t \<noteq> [] \<and> \<not> contains_any t '' .{'' then [t] else [])"

definition ref_names :: "string \<Rightarrow> string \<Rightarrow> bool" where
  "ref_names name ref \<longleftrightarrow> trim_space (fst (SplitStageRef ref)) = name"

definition refers :: "string \<Rightarrow> string \<Rightarrow> bool" where
  "refers name tmpl \<longleftrightarrow> list_ex (ref_names name) (stageRefs tmpl)"

definition own_references :: "string \<Rightarrow> string \<Rightarrow> StageFields \<Rightarrow> string list" where
  "own_references name label s =
     map (\<lambda>w. label @ '' ('' @ w @ '')'')
       ((if refers name (sf_prompt s) then [''prompt''] else [])
        @ map fst (filter (\<lambda>(w, raw). name \<in> set (bareNames raw))
            [(''fan_over'', sf_fan_over s), (''until'', sf_until s), (''when'', sf_when s), (''skip_to'', sf_skip_to s)])
        @ map (\<lambda>(k, v). ''args.'' @ k) (filter (\<lambda>(k, v). refers name v) (sf_args s))
        @ map (\<lambda>f. ''output.'' @ f_name f) (filter (\<lambda>f. refers name (f_from f)) (sf_output s)))"

primrec references_in :: "string \<Rightarrow> PipelineStage \<Rightarrow> string \<Rightarrow> string list" where
  "references_in name (PipelineStage s body) = (\<lambda>lead.
     (let label = lead @ trim_space (sf_name s) in
      (if label = name then [] else own_references name label s)
      @ concat (map (\<lambda>g. g (label @ body_mark)) (map (references_in name) body))))"

definition StageReferences :: "PipelineDef \<Rightarrow> string \<Rightarrow> string list" where
  "StageReferences d name0 =
     (let name = trim_space name0 in
      if name = [] then [] else sort (concat (map (\<lambda>p. references_in name p []) (pd_stages d))))"

datatype remove_problem = RmNoName | RmInUse string "string list" | RmUnknown string

definition RemoveStage :: "PipelineDef \<Rightarrow> string \<Rightarrow> remove_problem + PipelineDef" where
  "RemoveStage d name0 =
     (let name = trim_space name0 in
      if name = [] then Inl RmNoName
      else if StageReferences d name \<noteq> [] then Inl (RmInUse name (StageReferences d name))
      else if name \<notin> (\<lambda>p. trim_space (sg_name p)) ` set (pd_stages d) then Inl (RmUnknown name)
      else Inr (with_stages d (filter (\<lambda>p. trim_space (sg_name p) \<noteq> name) (pd_stages d))))"

section \<open>What renaming writes\<close>

lemma index_of_head: "index_of s p = Some i \<Longrightarrow> index_of (take (i + length p) s @ x) p = Some i"
proof (induction s p arbitrary: i rule: index_of.induct)
  case (1 p)
  then have "p = []" "i = 0" by (auto split: if_splits)
  then show ?case by (simp add: index_of_prefix has_prefix_def)
next
  case (2 c s p)
  show ?case
  proof (cases "has_prefix (c # s) p")
    case True
    with "2.prems" have "i = 0" "take (length p) (c # s) = p" by (simp_all add: has_prefix_def)
    then show ?thesis by (simp add: index_of_prefix has_prefix_conv)
  next
    case False
    with "2.prems" obtain k where k: "index_of s p = Some k" "i = Suc k" by auto
    from index_of_Some [OF k(1)] have "length (take (k + length p) s) = k + length p" by simp
    then have "take (length p) (c # take (k + length p) s @ x) = take (length p) (c # s)"
      by (cases "length p") auto
    with False have "\<not> has_prefix (c # take (k + length p) s @ x) p" by (simp add: has_prefix_def)
    with "2.IH" [OF False k(1)] k(2) show ?thesis by simp
  qed
qed

lemma index_of_char: "c \<notin> set a \<Longrightarrow> index_of (a @ c # b) [c] = Some (length a)"
  by (induction a) (auto simp: has_prefix_def)

lemma index_of_before: "index_of s [c] = Some j \<Longrightarrow> c \<notin> set (take j s)"
proof (induction s arbitrary: j)
  case (Cons d s)
  then show ?case by (cases "d = c") (auto simp: has_prefix_def)
qed simp

lemma trimmed_conv:
  "trimmed s \<longleftrightarrow> \<not> starts_in space_runes s \<and> \<not> starts_in (map rev space_runes) (rev s)"
proof
  assume "trimmed s"
  then have s: "s = trim_right space_runes (trim_left space_runes s)" by (simp add: trimmed_def trim_space_def trim_runes_def)
  obtain u where "trim_left space_runes s = s @ u" using trim_right_prefix [of "trim_left space_runes s" space_runes] s by auto
  then have "\<not> starts_in space_runes s"
    using strip_stripped [of space_runes s] starts_in_append [of space_runes s u] by (auto simp: trim_left_def)
  moreover have "rev s = strip (map rev space_runes) (rev (trim_left space_runes s))"
    using s by (metis rev_rev_ident trim_right_def)
  ultimately show "\<not> starts_in space_runes s \<and> \<not> starts_in (map rev space_runes) (rev s)"
    using strip_stripped by metis
qed (simp add: trimmed_def trim_space_def trim_runes_def trim_right_def trim_left_def strip_id)

lemma no_dot_runes: "r \<in> set space_runes \<Longrightarrow> CHR ''.'' \<notin> set r"
  by (auto simp: space_runes_def ascii_spaces_def)

lemma starts_before_dot:
  assumes "\<forall>r \<in> set rs. CHR ''.'' \<notin> set r" "starts_in rs (a @ CHR ''.'' # b)"
  shows "starts_in rs a"
proof -
  from assms obtain r where r: "r \<in> set rs" "r \<noteq> []" "has_prefix (a @ CHR ''.'' # b) r" "CHR ''.'' \<notin> set r"
    by (auto simp: starts_in_def)
  have "length r \<le> length a"
  proof (rule ccontr)
    assume l: "\<not> length r \<le> length a"
    from r(3) obtain x where x: "a @ CHR ''.'' # b = r @ x" by (auto simp: has_prefix_conv)
    from l have "r ! length a = CHR ''.''" by (metis append_eq_conv_conj linorder_not_le nth_append nth_append_length x)
    with l r(4) show False by (metis linorder_not_le nth_mem)
  qed
  then have "has_prefix a r" using r(3) by (simp add: has_prefix_def)
  with r show ?thesis by (auto simp: starts_in_def)
qed

lemma dotted_trimmed:
  assumes "trimmed n" "trimmed (m @ CHR ''.'' # field)"
  shows "trimmed (n @ CHR ''.'' # field)"
proof -
  have "\<not> starts_in space_runes (n @ CHR ''.'' # field)"
    using starts_before_dot [of space_runes n field] assms(1) no_dot_runes by (auto simp: trimmed_conv)
  moreover have "\<not> starts_in (map rev space_runes) (rev field @ CHR ''.'' # rev n)"
    using starts_before_dot [of "map rev space_runes" "rev field" "rev n"] assms(2) no_dot_runes
      starts_in_append [of "map rev space_runes" "rev field" "CHR ''.'' # rev m"] by (auto simp: trimmed_conv)
  ultimately show ?thesis by (simp add: trimmed_conv)
qed

definition renamed_ref :: "string \<Rightarrow> string \<Rightarrow> string \<Rightarrow> string" where
  "renamed_ref frm to1 ref =
     (if trim_space (fst (SplitStageRef ref)) = frm then dotted to1 (snd (SplitStageRef ref)) else ref)"

lemma SplitStageRef_trim [simp]: "SplitStageRef (trim_space ref) = SplitStageRef ref"
  by (simp add: SplitStageRef_def)

lemma SplitStageRef_parts:
  assumes "snd (SplitStageRef ref) \<noteq> []"
  shows "trim_space ref = fst (SplitStageRef ref) @ CHR ''.'' # snd (SplitStageRef ref)"
proof -
  obtain i where i: "index_of (trim_space ref) ''.'' = Some i" "fst (SplitStageRef ref) = take i (trim_space ref)"
    "snd (SplitStageRef ref) = drop (i + 1) (trim_space ref)"
    using assms by (auto simp: SplitStageRef_def Let_def split: option.splits)
  from index_of_Some [OF i(1)] have "drop i (trim_space ref) = CHR ''.'' # drop (i + 1) (trim_space ref)"
    by (cases "drop i (trim_space ref)") (auto simp: drop_Suc simp flip: tl_drop)
  with i show ?thesis by (metis append_take_drop_id)
qed

lemma trim_dotted:
  assumes "trimmed to1"
  shows "trim_space (dotted to1 (snd (SplitStageRef ref))) = dotted to1 (snd (SplitStageRef ref))"
proof (cases "snd (SplitStageRef ref) = []")
  case False
  from SplitStageRef_parts [OF False] dotted_trimmed [OF assms] have "trimmed (to1 @ CHR ''.'' # snd (SplitStageRef ref))"
    by (metis trimmed_trim)
  then show ?thesis using False by (simp add: dotted_def trimmed_def)
qed (use assms in \<open>simp add: dotted_def trimmed_def\<close>)

lemma split_snd_chars: "set (snd (SplitStageRef ref)) \<subseteq> set ref"
proof -
  have strip_sub: "set (strip rs u) \<subseteq> set u" for rs u using strip_suffix [of u rs] by (metis Un_iff set_append subsetI)
  have "set (trim_space ref) \<subseteq> set ref"
    using strip_sub [of space_runes ref] strip_sub [of "map rev space_runes" "rev (strip space_runes ref)"]
    by (auto simp: trim_space_def trim_runes_def trim_right_def trim_left_def)
  then show ?thesis by (auto simp: SplitStageRef_def Let_def split: option.splits dest: in_set_dropD)
qed

lemma stageRefs_open:
  "index_of rest stage_open = Some i \<Longrightarrow> index_of (drop (i + 7) rest) ''}'' = Some j \<Longrightarrow>
     stageRefs rest = trim_space (take j (drop (i + 7) rest)) # stageRefs (drop (j + 1) (drop (i + 7) rest))"
  by (subst stageRefs.simps) (simp add: Let_def)

lemma stageRefs_shut:
  "index_of rest stage_open = None \<or> index_of (drop (the (index_of rest stage_open) + 7) rest) ''}'' = None \<Longrightarrow> stageRefs rest = []"
  by (subst stageRefs.simps) (auto simp: Let_def split: option.splits)

lemma stageRefs_written:
  assumes "index_of rest stage_open = Some i" "CHR ''}'' \<notin> set ref"
  shows "stageRefs (take (i + 7) rest @ ref @ ''}'' @ rest1) = trim_space ref # stageRefs rest1"
proof -
  have seven: "length stage_open = 7" by (simp add: stage_open_def)
  have "length (take (i + 7) rest) = i + 7" using index_of_Some [OF assms(1)] seven by simp
  moreover have "index_of (take (i + 7) rest @ ref @ ''}'' @ rest1) stage_open = Some i"
    using index_of_head [OF assms(1)] seven by simp
  ultimately show ?thesis
    using stageRefs_open [of "take (i + 7) rest @ ref @ ''}'' @ rest1" i "length ref"] index_of_char [OF assms(2), of rest1] by simp
qed

lemma rename_refs_stageRefs:
  assumes "trimmed to1" "CHR ''}'' \<notin> set to1"
  shows "stageRefs (fst (rename_refs rest frm to1)) = map (renamed_ref frm to1) (stageRefs rest)"
proof (induction "length rest" arbitrary: rest rule: less_induct)
  case less
  show ?case
  proof (cases "index_of rest stage_open = None \<or> index_of (drop (the (index_of rest stage_open) + 7) rest) ''}'' = None")
    case True
    then have "fst (rename_refs rest frm to1) = rest"
      by (subst rename_refs.simps) (auto simp: Let_def split: option.splits)
    with stageRefs_shut [OF True] show ?thesis by simp
  next
    case False
    then obtain i j where ij: "index_of rest stage_open = Some i" "index_of (drop (i + 7) rest) ''}'' = Some j" by auto
    let ?ref = "take j (drop (i + 7) rest)" and ?more = "drop (j + 1) (drop (i + 7) rest)"
    have shorter: "length ?more < length rest" using index_of_Some [OF ij(1)] by (auto simp: stage_open_def)
    define ref1 where "ref1 = (if trim_space (fst (SplitStageRef ?ref)) = frm then dotted to1 (snd (SplitStageRef ?ref)) else ?ref)"
    have w: "fst (rename_refs rest frm to1) = take (i + 7) rest @ ref1 @ ''}'' @ fst (rename_refs ?more frm to1)"
      by (subst rename_refs.simps) (simp add: ij Let_def ref1_def case_prod_beta)
    have plain: "CHR ''}'' \<notin> set ?ref" using index_of_before [OF ij(2)] by simp
    then have "CHR ''}'' \<notin> set ref1" using assms(2) split_snd_chars [of ?ref] by (auto simp: ref1_def dotted_def)
    moreover have "trim_space ref1 = renamed_ref frm to1 (trim_space ?ref)"
      by (simp add: ref1_def renamed_ref_def trim_dotted [OF assms(1)])
    ultimately show ?thesis
      using stageRefs_written [OF ij(1)] stageRefs_open [OF ij] less [OF shorter] by (simp add: w)
  qed
qed

lemma renameTemplate_stageRefs:
  assumes "trimmed to1" "CHR ''}'' \<notin> set to1"
  shows "stageRefs (fst (renameTemplate t frm to1)) = map (renamed_ref frm to1) (stageRefs t)"
proof (cases "t = [] \<or> \<not> contains t stage_open")
  case True
  then have "stageRefs t = []" by (intro stageRefs_shut) (auto simp: contains_def stage_open_def)
  with True show ?thesis by (auto simp: renameTemplate_def)
qed (use rename_refs_stageRefs [OF assms] in \<open>auto simp: renameTemplate_def\<close>)

text \<open>Every reference of a stage and its body: the prompt's, then the arguments', then the static fields'.\<close>

definition own_refs :: "StageFields \<Rightarrow> string list" where
  "own_refs s = stageRefs (sf_prompt s) @ concat (map (\<lambda>e. stageRefs (snd e)) (sf_args s))
     @ concat (map (\<lambda>f. stageRefs (f_from f)) (sf_output s))"

primrec all_refs :: "PipelineStage \<Rightarrow> string list" where
  "all_refs (PipelineStage s body) = own_refs s @ concat (map all_refs body)"

lemma rename_own_refs:
  assumes "trimmed to1" "CHR ''}'' \<notin> set to1"
  shows "own_refs (fst (rename_own frm to1 b s)) = map (renamed_ref frm to1) (own_refs s)"
proof -
  have args: "concat (map (\<lambda>e. stageRefs (snd e)) (map (\<lambda>(k, v). (k, fst (renameTemplate v frm to1))) es))
      = map (renamed_ref frm to1) (concat (map (\<lambda>e. stageRefs (snd e)) es))" for es :: "(string \<times> string) list"
    by (induction es) (auto simp: renameTemplate_stageRefs [OF assms])
  have fields: "concat (map (\<lambda>f. stageRefs (f_from f)) (map (rename_from frm to1) fs))
      = map (renamed_ref frm to1) (concat (map (\<lambda>f. stageRefs (f_from f)) fs))" for fs
    by (induction fs) (auto simp: renameTemplate_stageRefs [OF assms] rename_from_def set_f_from_def)
  show ?thesis
    by (simp add: own_refs_def rename_own_def renameTemplate_stageRefs [OF assms] args [simplified] fields [simplified])
qed

lemma rename_stage_refs:
  assumes "trimmed to1" "CHR ''}'' \<notin> set to1"
  shows "all_refs (fst (rename_stage frm to1 p lead)) = map (renamed_ref frm to1) (all_refs p)"
proof (induction p arbitrary: lead)
  case (PipelineStage s body)
  let ?lead = "(lead @ trim_space (sf_name s)) @ body_mark"
  have "concat (map all_refs (map (\<lambda>q. fst (rename_stage frm to1 q ?lead)) body)) = map (renamed_ref frm to1) (concat (map all_refs body))"
    using PipelineStage.IH [of _ ?lead] by (induction body) auto
  then show ?case
    by (simp add: Let_def case_prod_beta comp_def rename_own_refs [OF assms])
qed

text \<open>C31: Renaming a stage to a name without a closing brace rewrites every reference to it, in prompts, arguments and
  static fields at any depth, to the new name with the same field, and leaves every other reference as it was,
  in the same order. A name with one is not refused, and its references are cut short: see
  \<open>a_brace_in_the_new_name_loses_the_reference\<close>.\<close>

theorem renaming_rewrites_every_reference:
  assumes "trim_space frm \<noteq> []" "trim_space to1 \<noteq> []" "trim_space frm \<noteq> trim_space to1" "CHR ''}'' \<notin> set (trim_space to1)"
  shows "concat (map all_refs (pd_stages (fst (RenameStage d frm to1))))
    = map (renamed_ref (trim_space frm) (trim_space to1)) (concat (map all_refs (pd_stages d)))"
proof -
  have "concat (map all_refs (map (\<lambda>p. fst (rename_stage (trim_space frm) (trim_space to1) p [])) ps))
      = map (renamed_ref (trim_space frm) (trim_space to1)) (concat (map all_refs ps))" for ps
    by (induction ps) (auto simp: rename_stage_refs [OF _ assms(4)])
  then show ?thesis using assms(1-3)
    by (simp add: RenameStage_def Let_def renameInStages_def with_stages_def comp_def)
qed

text \<open>A stage read from a loop's body.\<close>

definition quoted_pipe :: PipelineDef where
  "quoted_pipe = with_stages two_stage
     [PipelineStage (zero_stage\<lparr>sf_name := ''plan'', sf_kind := StageWorker, sf_prompt := ''Plan''\<rparr>) [],
      PipelineStage (zero_stage\<lparr>sf_name := ''polish'', sf_kind := StageLoop, sf_count := 2\<rparr>)
        [PipelineStage (zero_stage\<lparr>sf_name := ''draft'', sf_kind := StageWorker, sf_prompt := ''Use {stage: plan.parts}''\<rparr>) []]]"

theorem renaming_rewrites_every_reference_witness:
  "concat (map all_refs (pd_stages (fst (RenameStage quoted_pipe ''plan'' ''outline'')))) = [''outline.parts'']"
proof -
  have h: "trim_space ''plan'' \<noteq> []" "trim_space ''outline'' \<noteq> []" "trim_space ''plan'' \<noteq> trim_space ''outline''"
    "CHR ''}'' \<notin> set (trim_space ''outline'')" by code_simp+
  show ?thesis unfolding renaming_rewrites_every_reference [OF h] by code_simp
qed

text \<open>
  Neither the rename nor validation refuses a closing brace in a stage's name. A reference ends at the
  first one, so after renaming \<open>plan\<close> to \<open>a}b\<close> what read \<open>plan\<close> reads a stage \<open>a\<close>, which is not there.
\<close>

definition braced_pipe :: PipelineDef where
  "braced_pipe = PipelineDef
     \<lparr>pd_id = [], pd_owner = [], pd_name = ''p'', pd_description = [], pd_session_meta = [], pd_global = False,
      pd_created = 0, pd_updated = 0, pd_allowed_users = [], pd_editors = [], pd_published = False, pd_owning_app = []\<rparr>
     [PipelineStage (zero_stage\<lparr>sf_name := ''plan'', sf_kind := StageWorker, sf_prompt := ''Plan''\<rparr>) [],
      PipelineStage (zero_stage\<lparr>sf_name := ''write'', sf_kind := StageWorker, sf_prompt := ''Use {stage:plan}''\<rparr>) []] [] None None"

theorem a_brace_in_the_new_name_loses_the_reference:
  "ValidatePipeline braced_pipe = None
    \<and> map sg_name (pd_stages (fst (RenameStage braced_pipe ''plan'' ''a}b''))) = [''a}b'', ''write'']
    \<and> concat (map all_refs (pd_stages (fst (RenameStage braced_pipe ''plan'' ''a}b'')))) = [''a'']
    \<and> ValidatePipeline (with_stages braced_pipe [hd (pd_stages (fst (RenameStage braced_pipe ''plan'' ''a}b'')))]) = None"
  by (intro conjI; code_simp)

section \<open>What removing promises\<close>

lemma own_references_empty:
  assumes "own_references name label s = []" "ref \<in> set (own_refs s)"
  shows "trim_space (fst (SplitStageRef ref)) \<noteq> name"
  using assms by (fastforce simp: own_references_def own_refs_def refers_def ref_names_def list_ex_iff filter_empty_conv split: if_splits)

lemma references_in_empty:
  assumes "\<not> contains name body_mark"
  shows "references_in name p lead = [] \<Longrightarrow> contains lead body_mark \<or> (lead = [] \<and> trim_space (sg_name p) \<noteq> name) \<Longrightarrow>
     ref \<in> set (all_refs p) \<Longrightarrow> trim_space (fst (SplitStageRef ref)) \<noteq> name"
proof (induction p arbitrary: lead)
  case (PipelineStage s body)
  let ?label = "lead @ trim_space (sf_name s)"
  have longer: "contains (lead @ x) body_mark" if "contains lead body_mark" for x
    using that unfolding contains_conv by (metis append.assoc)
  with PipelineStage.prems(2) assms have "?label \<noteq> name" by auto
  with PipelineStage.prems(1) have own: "own_references name ?label s = []"
    and inner: "\<forall>q \<in> set body. references_in name q (?label @ body_mark) = []" by (simp_all add: Let_def)
  have "contains (?label @ body_mark) body_mark" unfolding contains_conv by (metis append_Nil2)
  with PipelineStage.IH PipelineStage.prems(3) inner own_references_empty [OF own] show ?case by auto
qed

lemma sort_empty: "sort xs = [] \<longleftrightarrow> xs = []" for xs :: "string list"
  by (metis length_0_conv length_sort)

text \<open>A removal that succeeds takes out the stages of that name and nothing else, and only when no prompt, argument
  or static field of a stage that stays, at any depth, refers to it.\<close>

theorem removing_leaves_no_reference:
  assumes "RemoveStage d name = Inr d1" "\<not> contains (trim_space name) body_mark"
  shows "pd_stages d1 = filter (\<lambda>p. trim_space (sg_name p) \<noteq> trim_space name) (pd_stages d)
    \<and> length (pd_stages d1) < length (pd_stages d)
    \<and> list_all (\<lambda>ref. trim_space (fst (SplitStageRef ref)) \<noteq> trim_space name) (concat (map all_refs (pd_stages d1)))"
proof -
  from assms(1) have refs: "StageReferences d name = []" "trim_space name \<noteq> []"
    and found: "trim_space name \<in> (\<lambda>p. trim_space (sg_name p)) ` set (pd_stages d)"
    and stages: "pd_stages d1 = filter (\<lambda>p. trim_space (sg_name p) \<noteq> trim_space name) (pd_stages d)"
    by (auto simp: RemoveStage_def Let_def with_stages_def StageReferences_def split: if_splits)
  then have "\<forall>p \<in> set (pd_stages d). references_in (trim_space name) p [] = []"
    unfolding StageReferences_def Let_def by (simp add: sort_empty)
  with references_in_empty [OF assms(2)] have
    "list_all (\<lambda>ref. trim_space (fst (SplitStageRef ref)) \<noteq> trim_space name) (concat (map all_refs (pd_stages d1)))"
    unfolding stages by (fastforce simp: list_all_iff)
  moreover from found have "length (pd_stages d1) < length (pd_stages d)"
    unfolding stages by (auto intro!: length_filter_less)
  ultimately show ?thesis using stages by blast
qed

theorem removing_leaves_no_reference_witness:
  "\<exists>d1. RemoveStage quoted_pipe '' polish '' = Inr d1 \<and> length (pd_stages d1) < 2"
proof -
  have names: "trim_space '' polish '' = ''polish''" "trim_space ''polish'' = ''polish''" by code_simp+
  have refs: "(StageReferences quoted_pipe ''polish'' \<noteq> []) = False" by code_simp
  have all: "map (\<lambda>p. trim_space (sg_name p)) (pd_stages quoted_pipe) = [''plan'', ''polish'']" by code_simp
  have found: "(''polish'' \<notin> (\<lambda>p. trim_space (sg_name p)) ` set (pd_stages quoted_pipe)) = False"
    unfolding list.set_map [symmetric] all by simp
  obtain d1 where r: "RemoveStage quoted_pipe '' polish '' = Inr d1"
    unfolding RemoveStage_def Let_def names refs found by simp
  have n: "\<not> contains (trim_space '' polish '') body_mark" unfolding names by code_simp
  have "length (pd_stages quoted_pipe) = 2" by code_simp
  with removing_leaves_no_reference [OF r n] r show ?thesis by auto
qed

section \<open>What the edits leave out\<close>

text \<open>A verify stage names what it checks in its own field, which neither edit reads.\<close>

definition audit_stage :: PipelineStage where
  "audit_stage = PipelineStage (zero_stage\<lparr>sf_name := ''audit'', sf_kind := StageVerify, sf_check := ''draft''\<rparr>) []"

definition checked_pipe :: "string list \<Rightarrow> PipelineDef" where
  "checked_pipe names = PipelineDef ((pd two_stage)\<lparr>pd_session_meta := []\<rparr>)
     (map (\<lambda>n. PipelineStage (zero_stage\<lparr>sf_name := n, sf_kind := StageWorker, sf_prompt := ''Write''\<rparr>) []) names @ [audit_stage])
     [] None None"

text \<open>Neither edit sees what a verify stage checks: renaming the checked stage of a pipeline that validates reports
  no reference and leaves a pipeline that does not, and removing it succeeds with the same outcome.\<close>

theorem edits_miss_what_a_verify_checks:
  "ValidatePipeline (checked_pipe [''draft'']) = None
   \<and> RenameStage (checked_pipe [''draft'']) ''draft'' ''report'' = (checked_pipe [''report''], [])
   \<and> ValidatePipeline (checked_pipe [''report'']) \<noteq> None
   \<and> RemoveStage (checked_pipe [''draft'']) ''draft'' = Inr (checked_pipe [])
   \<and> ValidatePipeline (checked_pipe []) \<noteq> None"
proof (intro conjI)
  show "ValidatePipeline (checked_pipe [''draft'']) = None" by code_simp
  show "ValidatePipeline (checked_pipe [''report'']) \<noteq> None" by code_simp
  show "ValidatePipeline (checked_pipe []) \<noteq> None" by code_simp
  show "RenameStage (checked_pipe [''draft'']) ''draft'' ''report'' = (checked_pipe [''report''], [])" by code_simp
  have names: "trim_space ''draft'' = ''draft''" "trim_space ''audit'' = ''audit''" by code_simp+
  have "StageReferences (checked_pipe [''draft'']) ''draft'' = []" by code_simp
  then show "RemoveStage (checked_pipe [''draft'']) ''draft'' = Inr (checked_pipe [])"
    by (simp add: RemoveStage_def names checked_pipe_def audit_stage_def with_stages_def)
qed

end
