(* ===== verification/PipelineSteps.thy ===== *)
theory PipelineSteps
  imports PipelineEnds
begin

text \<open>
  The walk over a list as single steps. \<open>walk_step\<close> is the body of the code's loop as a relation between
  configurations, with no fuel; \<open>runList\<close> gives an answer exactly when the steps lead to it, so an invariant
  of the steps is an invariant of every run. The properties are about the configurations a run reaches: what
  each stage finds of the stages before it, what a jump does, and what is left when the list is through.
\<close>

section \<open>Steps\<close>

datatype 'w walk_pos = Ready nat string "'w run_state" | Answer "stage_err + string \<times> bool" "'w run_state"

definition stage_returns ::
    "golib \<Rightarrow> 'w pipe_host \<Rightarrow> readers \<Rightarrow> run_env \<Rightarrow> PipelineStage \<Rightarrow> string \<Rightarrow> subst \<Rightarrow> 'w run_state
      \<Rightarrow> (stage_err + string) \<Rightarrow> 'w run_state \<Rightarrow> bool" where
  "stage_returns L H R E p prev vars s r s1 \<longleftrightarrow>
     (\<exists>n. runStage L H R E (\<lambda>E1 body prev1 vars1 s1. run_at n L H R E1 body 0 prev1 vars1 s1) p prev vars s = Some (r, s1))"

inductive walk_step ::
    "golib \<Rightarrow> 'w pipe_host \<Rightarrow> readers \<Rightarrow> run_env \<Rightarrow> PipelineStage list \<Rightarrow> subst \<Rightarrow> 'w walk_pos \<Rightarrow> 'w walk_pos \<Rightarrow> bool"
  for L H R E stages vars where
    through: "length stages \<le> i \<Longrightarrow> walk_step L H R E stages vars (Ready i prev s) (Answer (Inr (prev, False)) s)"
  | cancelled: "i < length stages \<Longrightarrow> ho_ctx H (rn_now s) = Some e \<Longrightarrow>
      walk_step L H R E stages vars (Ready i prev s) (Answer (Inl (SCtx e)) s)"
  | not_taken: "i < length stages \<Longrightarrow> ho_ctx H (rn_now s) = None \<Longrightarrow> sf_kind (sg (stages ! i)) = StageBranch \<Longrightarrow>
      \<not> branchTaken (sg (stages ! i)) s \<Longrightarrow>
      walk_step L H R E stages vars (Ready i prev s) (Ready (i + 1) prev s)"
  | stopped: "i < length stages \<Longrightarrow> ho_ctx H (rn_now s) = None \<Longrightarrow> sf_kind (sg (stages ! i)) = StageBranch \<Longrightarrow>
      branchTaken (sg (stages ! i)) s \<Longrightarrow> trim_space (sf_skip_to (sg (stages ! i))) = [] \<Longrightarrow>
      walk_step L H R E stages vars (Ready i prev s) (Answer (Inr (prev, True)) s)"
  | lost: "i < length stages \<Longrightarrow> ho_ctx H (rn_now s) = None \<Longrightarrow> sf_kind (sg (stages ! i)) = StageBranch \<Longrightarrow>
      branchTaken (sg (stages ! i)) s \<Longrightarrow> trim_space (sf_skip_to (sg (stages ! i))) \<noteq> [] \<Longrightarrow>
      indexOfStage stages (sf_skip_to (sg (stages ! i))) = None \<Longrightarrow>
      walk_step L H R E stages vars (Ready i prev s)
        (Answer (Inl (SSkipTo (sg_name (stages ! i)) (sf_skip_to (sg (stages ! i))))) s)"
  | jumped: "i < length stages \<Longrightarrow> ho_ctx H (rn_now s) = None \<Longrightarrow> sf_kind (sg (stages ! i)) = StageBranch \<Longrightarrow>
      branchTaken (sg (stages ! i)) s \<Longrightarrow> trim_space (sf_skip_to (sg (stages ! i))) \<noteq> [] \<Longrightarrow>
      indexOfStage stages (sf_skip_to (sg (stages ! i))) = Some t \<Longrightarrow>
      walk_step L H R E stages vars (Ready i prev s) (Ready t prev s)"
  | failed: "i < length stages \<Longrightarrow> ho_ctx H (rn_now s) = None \<Longrightarrow> sf_kind (sg (stages ! i)) \<noteq> StageBranch \<Longrightarrow>
      stage_returns L H R E (stages ! i) prev vars s (Inl e) s1 \<Longrightarrow>
      walk_step L H R E stages vars (Ready i prev s) (Answer (Inl e) s1)"
  | ran: "i < length stages \<Longrightarrow> ho_ctx H (rn_now s) = None \<Longrightarrow> sf_kind (sg (stages ! i)) \<noteq> StageBranch \<Longrightarrow>
      stage_returns L H R E (stages ! i) prev vars s (Inr out) s1 \<Longrightarrow>
      walk_step L H R E stages vars (Ready i prev s) (Ready (i + 1) out s1)"

inductive_cases from_ready: "walk_step L H R E stages vars (Ready i prev s) c"
inductive_cases from_answer: "walk_step L H R E stages vars (Answer r s) c"

abbreviation walks ::
    "golib \<Rightarrow> 'w pipe_host \<Rightarrow> readers \<Rightarrow> run_env \<Rightarrow> PipelineStage list \<Rightarrow> subst \<Rightarrow> 'w walk_pos \<Rightarrow> 'w walk_pos \<Rightarrow> bool" where
  "walks L H R E stages vars \<equiv> (walk_step L H R E stages vars)\<^sup>*\<^sup>*"

lemma first_step: "walk_step L H R E stages vars x y \<Longrightarrow> walks L H R E stages vars y z \<Longrightarrow> walks L H R E stages vars x z"
  by (rule converse_rtranclp_into_rtranclp)

section \<open>A run is its steps\<close>

lemma deeper_walker:
  "n \<le> m \<Longrightarrow> walker_le (\<lambda>E1 body prev1 vars1 s1. run_at n L H R E1 body 0 prev1 vars1 s1)
     (\<lambda>E1 body prev1 vars1 s1. run_at m L H R E1 body 0 prev1 vars1 s1)"
  by (auto simp: walker_le_def intro: run_at_mono)

lemma stage_returns_deep:
  "stage_returns L H R E p prev vars s r s1 \<Longrightarrow>
     \<exists>n. \<forall>m \<ge> n. runStage L H R E (\<lambda>E1 body prev1 vars1 s1. run_at m L H R E1 body 0 prev1 vars1 s1) p prev vars s = Some (r, s1)"
  unfolding stage_returns_def using runStage_mono [OF deeper_walker] by blast

lemma run_at_walks:
  "run_at n L H R E stages i prev vars s = Some (r, s1) \<Longrightarrow> walks L H R E stages vars (Ready i prev s) (Answer r s1)"
proof (induction n arbitrary: i prev s)
  case (Suc n)
  let ?W = "\<lambda>E1 body prev1 vars1 s1. run_at n L H R E1 body 0 prev1 vars1 s1"
  consider "length stages \<le> i" | e where "i < length stages" "ho_ctx H (rn_now s) = Some e"
    | "i < length stages" "ho_ctx H (rn_now s) = None" "sf_kind (sg (stages ! i)) = StageBranch"
    | "i < length stages" "ho_ctx H (rn_now s) = None" "sf_kind (sg (stages ! i)) \<noteq> StageBranch"
    by (cases "ho_ctx H (rn_now s)") fastforce+
  then show ?case
  proof cases
    case 3
    note run = Suc.prems [unfolded run_at_branch [OF 3] Let_def]
    show ?thesis
    proof (cases "branchTaken (sg (stages ! i)) s")
      case False
      with run have "run_at n L H R E stages (i + 1) prev vars s = Some (r, s1)" by simp
      from first_step [OF not_taken [OF 3 False] Suc.IH [OF this]] show ?thesis .
    next
      case True
      note taken = run [simplified True, simplified]
      show ?thesis
      proof (cases "trim_space (sf_skip_to (sg (stages ! i))) = []")
        case stop: True
        with taken stopped [OF 3 True stop] show ?thesis by auto
      next
        case go: False
        then show ?thesis using taken lost [OF 3 True go] first_step [OF jumped [OF 3 True go] Suc.IH]
          by (cases "indexOfStage stages (sf_skip_to (sg (stages ! i)))") auto
      qed
    qed
  next
    case 4
    from Suc.prems obtain q s2 where q: "runStage L H R E ?W (stages ! i) prev vars s = Some (q, s2)"
      unfolding run_at_stage [OF 4] by (auto split: option.splits)
    then have q1: "stage_returns L H R E (stages ! i) prev vars s q s2" by (auto simp: stage_returns_def)
    show ?thesis
    proof (cases q)
      case (Inl e)
      with Suc.prems q failed [OF 4, of L R E prev vars e s2] q1 show ?thesis by (simp add: run_at_stage [OF 4] r_into_rtranclp)
    next
      case (Inr out)
      with Suc.prems q have "walks L H R E stages vars (Ready (i + 1) out s2) (Answer r s1)"
        by (intro Suc.IH) (simp add: run_at_stage [OF 4])
      with ran [OF 4, of L R E prev vars out s2] q1 Inr show ?thesis by (auto intro: converse_rtranclp_into_rtranclp)
    qed
  qed (use Suc.prems in \<open>auto simp: run_at_cases intro: walk_step.intros\<close>)
qed simp

lemma walks_run_at:
  assumes "walks L H R E stages vars (Ready i prev s) (Answer r s1)"
  shows "\<exists>n. run_at n L H R E stages i prev vars s = Some (r, s1)"
proof -
  have "c = Answer r s1 \<Longrightarrow> (case b of Ready i prev s \<Rightarrow> \<exists>n. run_at n L H R E stages i prev vars s = Some (r, s1)
      | Answer r2 s2 \<Rightarrow> r2 = r \<and> s2 = s1)"
    if "walks L H R E stages vars b c" for b c
    using that
  proof (induction rule: converse_rtranclp_induct)
    case (step x y)
    from step.hyps(1) step.IH [OF step.prems] show ?case
    proof (cases rule: walk_step.cases)
      case (ran i s prev out s2)
      from stage_returns_deep [OF ran(6)] obtain m where
        m: "k \<ge> m \<Longrightarrow> runStage L H R E (\<lambda>E1 body prev1 vars1 s1. run_at k L H R E1 body 0 prev1 vars1 s1) (stages ! i) prev vars s
            = Some (Inr out, s2)" for k by blast
      from step.IH [OF step.prems] ran(2) obtain n where "run_at n L H R E stages (i + 1) out vars s2 = Some (r, s1)" by auto
      then have "run_at (max m n) L H R E stages (i + 1) out vars s2 = Some (r, s1)" by (rule run_at_mono) simp
      with m [of "max m n"] have "run_at (Suc (max m n)) L H R E stages i prev vars s = Some (r, s1)"
        by (simp add: run_at_stage [OF ran(3-5)])
      then show ?thesis using ran(1) by auto
    next
      case (failed i s prev e s2)
      from stage_returns_deep [OF failed(6)] obtain m where
        "runStage L H R E (\<lambda>E1 body prev1 vars1 s1. run_at m L H R E1 body 0 prev1 vars1 s1) (stages ! i) prev vars s
            = Some (Inl e, s2)" by blast
      with step.IH [OF step.prems] failed(2) have "run_at (Suc m) L H R E stages i prev vars s = Some (r, s1)"
        by (auto simp: run_at_stage [OF failed(3-5)])
      then show ?thesis using failed(1) by auto
    next
      case (through i prev s)
      with step.IH [OF step.prems] run_at_over [of stages i 0 L H R E prev vars s] show ?thesis by auto
    next
      case (cancelled i s e prev)
      with step.IH [OF step.prems] run_at_cancelled [of i stages H s e 0 L R E prev vars] show ?thesis by auto
    qed (use step.IH [OF step.prems] in \<open>auto simp: run_at_branch Let_def intro: exI [where x = "Suc _"]\<close>)
  qed simp
  from this [OF assms] show ?thesis by simp
qed

text \<open>The code's walk of a list gives an answer, a text or an error, in a final state exactly when the single
  steps of its loop lead there: the fuel of the model neither adds a run nor loses one.\<close>

theorem a_run_is_its_steps:
  "(\<exists>n. runList n L H R E stages prev vars s = Some (r, s1)) \<longleftrightarrow> walks L H R E stages vars (Ready 0 prev s) (Answer r s1)"
  unfolding runList_def using run_at_walks walks_run_at by metis

section \<open>What a stage finds\<close>

lemma returned_keeps_outputs:
  assumes "stage_returns L H R E p prev vars s r s1" "map_of (rn_outputs s) n \<noteq> None"
  shows "map_of (rn_outputs s1) n \<noteq> None"
proof -
  from assms(1) obtain m where
    "runStage L H R E (\<lambda>E1 body prev1 vars1 s1. run_at m L H R E1 body 0 prev1 vars1 s1) p prev vars s = Some (r, s1)"
    by (auto simp: stage_returns_def)
  from outputs.M_runStage [OF _ this] outputs.M_run_at assms(2) show ?thesis
    unfolding outputs.moving_def by blast
qed

lemma returned_records:
  assumes "stage_returns L H R E p prev vars s (Inr out) s1"
  shows "\<exists>o1. map_of (rn_outputs s1) (sg_name p) = Some o1 \<and> so_text o1 = out" "rn_last s1 = sg_name p"
proof -
  from assms obtain m where
    "runStage L H R E (\<lambda>E1 body prev1 vars1 s1. run_at m L H R E1 body 0 prev1 vars1 s1) p prev vars s = Some (Inr out, s1)"
    by (auto simp: stage_returns_def)
  from runStage_records [OF this] show "\<exists>o1. map_of (rn_outputs s1) (sg_name p) = Some o1 \<and> so_text o1 = out"
    "rn_last s1 = sg_name p" by (auto simp: map_of_update_eq)
qed

text \<open>The record of what ran: an output for each stage passed, and the last one's text in hand.\<close>

definition on_record :: "PipelineStage list \<Rightarrow> 'w walk_pos \<Rightarrow> bool" where
  "on_record stages c \<longleftrightarrow>
     (case c of
        Answer r s \<Rightarrow> True
      | Ready k prev s \<Rightarrow>
          (\<forall>j < k. j < length stages \<longrightarrow> map_of (rn_outputs s) (sg_name (stages ! j)) \<noteq> None)
          \<and> (0 < k \<longrightarrow> k \<le> length stages
               \<longrightarrow> rn_last s = sg_name (stages ! (k - 1)) \<and> so_text (output_at s (rn_last s)) = prev))"

lemma on_record_step:
  assumes "walk_step L H R E stages vars c c1" "on_record stages c" "\<forall>p \<in> set stages. sf_kind (sg p) \<noteq> StageBranch"
  shows "on_record stages c1"
  using assms(1)
proof cases
  case (ran i s prev out s1)
  note rec = returned_records [OF ran(6)]
  have "map_of (rn_outputs s1) (sg_name (stages ! j)) \<noteq> None" if "j < i + 1" "j < length stages" for j
    using that rec(1) returned_keeps_outputs [OF ran(6)] assms(2) ran(1)
    by (cases "j = i") (auto simp: on_record_def)
  moreover obtain o1 where "map_of (rn_outputs s1) (sg_name (stages ! i)) = Some o1" "so_text o1 = out" using rec(1) by blast
  ultimately show ?thesis using ran(2) rec(2) by (simp add: on_record_def output_at_def)
qed (use assms(3) in \<open>auto simp: on_record_def\<close>)

lemma on_record_walks:
  assumes "walks L H R E stages vars c c1" "on_record stages c" "\<forall>p \<in> set stages. sf_kind (sg p) \<noteq> StageBranch"
  shows "on_record stages c1"
  using assms by (induction rule: rtranclp_induct) (auto intro: on_record_step)

lemma validated_refs_recorded:
  assumes "ValidatePipeline d = None" "k < length (pd_stages d)" "on_record (pd_stages d) (Ready k prev s)"
    and "ref \<in> set (stageRefs (sf_prompt (sg (pd_stages d ! k))))"
  shows "map_of (rn_outputs s) (fst (SplitStageRef ref)) \<noteq> None"
proof -
  note clean = Validate_clean(2) [OF assms(1)]
  note parts = stage_checks_parts [OF clean_list_stage(2) [OF clean assms(2)]]
  from ref_looks_back [OF clean assms(2) prompt_refs_ok [OF parts(5) assms(4)]] obtain j where
    "j < k" "sg_name (pd_stages d ! j) = fst (SplitStageRef ref)" by blast
  with assms(2,3) show ?thesis by (auto simp: on_record_def)
qed

text \<open>C12: In a pipeline that validates and has no branches, whatever the models, agents and tools answer, a stage that
  starts finds an output for every stage its prompt refers to, and \<open>{prev}\<close> is the text the stage right before
  it recorded: no reference of a prompt is left standing.\<close>

theorem a_stage_finds_what_it_refers_to:
  assumes "ValidatePipeline d = None" "\<forall>p \<in> set (pd_stages d). sf_kind (sg p) \<noteq> StageBranch"
    and "walks L H R E (pd_stages d) vars (Ready 0 inp s) (Ready k prev s1)" "k < length (pd_stages d)"
  shows "list_all (\<lambda>ref. map_of (rn_outputs s1) (fst (SplitStageRef ref)) \<noteq> None)
      (stageRefs (sf_prompt (sg (pd_stages d ! k))))
    \<and> prev = (if k = 0 then inp else so_text (output_at s1 (sg_name (pd_stages d ! (k - 1)))))"
proof -
  have r: "on_record (pd_stages d) (Ready k prev s1)"
    by (rule on_record_walks [OF assms(3) _ assms(2)]) (simp add: on_record_def)
  moreover have "prev = inp" if "k = 0"
  proof -
    have "c = Ready 0 prev s1 \<Longrightarrow> c = Ready 0 inp s" if "walks L H R E (pd_stages d) vars (Ready 0 inp s) c" for c
      using that
      by (induction rule: rtranclp_induct) (use assms(2) in \<open>auto elim!: walk_step.cases\<close>)
    from this [OF assms(3)] \<open>k = 0\<close> show ?thesis by simp
  qed
  ultimately show ?thesis using validated_refs_recorded [OF assms(1,4) r] assms(4)
    by (auto simp: list_all_iff on_record_def)
qed

text \<open>Two stages, the second reading the first.\<close>

definition relay :: PipelineDef where
  "relay = PipelineDef
     \<lparr>pd_id = [], pd_owner = [], pd_name = ''relay'', pd_description = [], pd_session_meta = [], pd_global = False,
      pd_created = 0, pd_updated = 0, pd_allowed_users = [], pd_editors = [], pd_published = False, pd_owning_app = []\<rparr>
     [ask_stage ''plan'' ''Plan {input}'', ask_stage ''answer'' ''Do {stage:plan}''] [] None None"

lemma relay_parts:
  "ValidatePipeline relay = None" "\<forall>p \<in> set (pd_stages relay). sf_kind (sg p) \<noteq> StageBranch"
  "length (pd_stages relay) = 2" "pd_stages relay ! 0 = ask_stage ''plan'' ''Plan {input}''"
  "stageRefs (sf_prompt (sg (pd_stages relay ! 1))) = [''plan'']" "fst (SplitStageRef ''plan'') = ''plan''"
  by code_simp+

lemma relay_starts:
  "\<exists>out s1. walk_step L echo_host R E (pd_stages relay) vars (Ready 0 inp s) (Ready 1 out s1)"
proof -
  have parts: "sf_kind (sg (pd_stages relay ! 0)) = StageWorker" "stage_ModelOutput (sg (pd_stages relay ! 0)) = []"
    "sf_kind (sg (pd_stages relay ! 0)) \<noteq> StageBranch"
    by code_simp+
  obtain out s1 where "runStage L echo_host R E (\<lambda>E1 body prev1 vars1 s1. run_at 0 L echo_host R E1 body 0 prev1 vars1 s1)
      (pd_stages relay ! 0) inp vars s = Some (Inr out, s1)"
    using echo_runs [OF parts(1,2)] by blast
  then have "stage_returns L echo_host R E (pd_stages relay ! 0) inp vars s (Inr out) s1"
    unfolding stage_returns_def by blast
  from ran [OF _ _ parts(3) this] show ?thesis by (auto simp: relay_parts(3) echo_host_def)
qed

theorem a_stage_finds_what_it_refers_to_witness:
  "\<exists>prev s1. walks sample_lib echo_host no_readers plain_env (pd_stages relay) [] (Ready 0 ''in'' (start_state 0)) (Ready 1 prev s1)
    \<and> map_of (rn_outputs s1) ''plan'' \<noteq> None \<and> prev = so_text (output_at s1 (sg_name (pd_stages relay ! 0)))"
proof -
  obtain prev s1 where w: "walks sample_lib echo_host no_readers plain_env (pd_stages relay) [] (Ready 0 ''in'' (start_state 0)) (Ready 1 prev s1)"
    using relay_starts by blast
  from a_stage_finds_what_it_refers_to [OF relay_parts(1,2) w] show ?thesis
    using w relay_parts(3,5,6) by auto
qed

section \<open>Jumps\<close>

lemma validated_step_forward:
  assumes "forward stages" "walk_step L H R E stages vars (Ready i prev s) (Ready j prev1 s1)"
  shows "i < j"
  using assms(2) assms(1) by (cases rule: walk_step.cases) (auto simp: forward_def)

lemma forward_walks:
  assumes "forward stages" "(walk_step L H R E stages vars)\<^sup>+\<^sup>+ (Ready i prev s) (Ready j prev1 s1)"
  shows "i < j"
proof -
  have "c = Ready j prev1 s1 \<Longrightarrow> i < j" if "(walk_step L H R E stages vars)\<^sup>+\<^sup>+ (Ready i prev s) c" for c j prev1 s1
    using that
  proof (induction arbitrary: j prev1 s1 rule: tranclp_induct)
    case (step y z)
    from step.hyps(2) step.prems obtain m prev2 s2 where "y = Ready m prev2 s2" by (auto elim: walk_step.cases)
    with step validated_step_forward [OF assms(1)] show ?case by (metis order.strict_trans)
  qed (use validated_step_forward [OF assms(1)] in blast)
  from this [OF assms(2)] show ?thesis by simp
qed

lemma stage_never_lost: "stage_returns L H R E p prev vars s (Inl e) s1 \<Longrightarrow> e \<noteq> SSkipTo n t"
proof -
  assume "stage_returns L H R E p prev vars s (Inl e) s1"
  then obtain W where r: "runStage L H R E W p prev vars s = Some (Inl e, s1)" by (auto simp: stage_returns_def)
  obtain block s0 where o0: "openBlock E (sg p) (sg_name p) s = (block, s0)" by fastforce
  from r show ?thesis unfolding runStage_def Let_def o0 prod.case
    by (auto split: if_splits option.splits sum.splits prod.splits)
qed

lemma validated_jump_lands:
  assumes "ValidatePipeline d = None" "k < length (pd_stages d)" "sf_kind (sg (pd_stages d ! k)) = StageBranch"
    and "trim_space (sf_skip_to (sg (pd_stages d ! k))) = sf_skip_to (sg (pd_stages d ! k))"
    and "sf_skip_to (sg (pd_stages d ! k)) \<noteq> []"
  shows "indexOfStage (pd_stages d) (sf_skip_to (sg (pd_stages d ! k))) \<noteq> None"
proof -
  note parts = stage_checks_parts [OF clean_list_stage(2) [OF Validate_clean(2) [OF assms(1)] assms(2)]]
  from branch_ok(3) [OF parts(3) [OF assms(3)]] assms(4,5) show ?thesis by auto
qed

text \<open>In a pipeline that validates, with jump targets written without white space around them, the walk only goes
  forward: no stage of the list runs twice, and no run fails for a jump target that is not there.\<close>

theorem a_validated_walk_goes_forward:
  assumes "ValidatePipeline d = None" "\<forall>p \<in> set (pd_stages d). trim_space (sf_skip_to (sg p)) = sf_skip_to (sg p)"
  shows "((walk_step L H R E (pd_stages d) vars)\<^sup>+\<^sup>+ (Ready i prev s) (Ready j prev1 s1) \<longrightarrow> i < j)
    \<and> \<not> walk_step L H R E (pd_stages d) vars (Ready i prev s) (Answer (Inl (SSkipTo n t)) s1)"
proof (intro conjI impI notI)
  show "i < j" if "(walk_step L H R E (pd_stages d) vars)\<^sup>+\<^sup>+ (Ready i prev s) (Ready j prev1 s1)"
    by (rule forward_walks [OF validated_forward [OF Validate_clean(2) [OF assms(1)]] that]) (use assms(2) in blast)
  assume "walk_step L H R E (pd_stages d) vars (Ready i prev s) (Answer (Inl (SSkipTo n t)) s1)"
  then show False
  proof cases
    case lost
    then show False using validated_jump_lands [OF assms(1)] assms(2) by auto
  qed (use stage_never_lost in blast)
qed

lemma two_stage_gate:
  "2 \<le> length (pd_stages two_stage)" "sf_kind (sg (pd_stages two_stage ! 1)) = StageBranch"
  "\<not> branchTaken (sg (pd_stages two_stage ! 1)) (start_state (0::nat))"
  "\<forall>p \<in> set (pd_stages two_stage). trim_space (sf_skip_to (sg p)) = sf_skip_to (sg p)"
  by code_simp+

theorem a_validated_walk_goes_forward_witness:
  "(walk_step sample_lib echo_host no_readers plain_env (pd_stages two_stage) [])\<^sup>+\<^sup>+
      (Ready 1 [] (start_state 0)) (Ready 2 [] (start_state 0)) \<and> (1::nat) < 2"
proof -
  have "walk_step sample_lib echo_host no_readers plain_env (pd_stages two_stage) []
      (Ready 1 [] (start_state 0)) (Ready (1 + 1) [] (start_state 0))"
    by (rule not_taken) (use two_stage_gate in \<open>simp_all add: echo_host_def\<close>)
  then have w: "(walk_step sample_lib echo_host no_readers plain_env (pd_stages two_stage) [])\<^sup>+\<^sup>+
      (Ready 1 [] (start_state 0)) (Ready 2 [] (start_state 0))"
    by (simp add: numeral_2_eq_2 tranclp.r_into_trancl)
  with a_validated_walk_goes_forward [OF two_stage_valid two_stage_gate(4), THEN conjunct1, rule_format, OF w]
  show ?thesis by blast
qed

end
