(* ===== verification/PipelineOutcomes.thy ===== *)
theory PipelineOutcomes
  imports PipelineSteps
begin

text \<open>
  What the stage kinds promise: the passes of a loop and when they stop, the tool a tool stage may call, the
  pages a gather picks and the numbers it gives them, the count a verify reports; and that a prompt's
  substitution depends on the order a Go map is walked in.
\<close>

section \<open>Loops\<close>

text \<open>
  The passes as they were made: each starts from the text of the one before, and only the last may have
  reached the stage's \<open>until\<close>.
\<close>

fun pass_chain ::
    "'w walker \<Rightarrow> run_env \<Rightarrow> PipelineStage \<Rightarrow> nat \<Rightarrow> nat \<Rightarrow> string \<Rightarrow> 'w run_state \<Rightarrow> string list \<Rightarrow> 'w run_state \<Rightarrow> bool" where
  "pass_chain W E p tot i carry s [] s1 \<longleftrightarrow> s1 = s"
| "pass_chain W E p tot i carry s (out # outs) s1 \<longleftrightarrow>
     (\<exists>b s2. W E (sg_body p) carry (pass_vars i tot) s = Some (Inr (out, b), s2)
       \<and> (outs \<noteq> [] \<longrightarrow> \<not> until_reached (sg p) s2) \<and> pass_chain W E p tot (i + 1) out s2 outs s1)"

lemma loop_passes_chain:
  "loop_passes left H E W p tot i carry passes s = Some (Inr (out, passes1), s1) \<Longrightarrow>
     \<exists>more. passes1 = passes @ more \<and> pass_chain W E p tot i carry s more s1 \<and> length more \<le> left
       \<and> (more = [] \<longleftrightarrow> left = 0) \<and> out = last (carry # more) \<and> (length more < left \<longrightarrow> until_reached (sg p) s1)"
proof (induction left arbitrary: i carry passes s)
  case (Suc left)
  from Suc.prems obtain o1 b s2 where w: "W E (sg_body p) carry (pass_vars i tot) s = Some (Inr (o1, b), s2)"
    by (auto split: option.splits sum.splits prod.splits)
  show ?case
  proof (cases "until_reached (sg p) s2")
    case True
    with Suc.prems w have "passes1 = passes @ [o1]" "out = o1" "s1 = s2" by (auto split: option.splits)
    with w True show ?thesis by (intro exI [of _ "[o1]"]) auto
  next
    case False
    with Suc.prems w have "loop_passes left H E W p tot (i + 1) o1 (passes @ [o1]) s2 = Some (Inr (out, passes1), s1)"
      by (auto split: option.splits)
    from Suc.IH [OF this] obtain more where m: "passes1 = passes @ o1 # more" "pass_chain W E p tot (i + 1) o1 s2 more s1"
      "length more \<le> left" "more = [] \<longleftrightarrow> left = 0" "out = last (o1 # more)" "length more < left \<longrightarrow> until_reached (sg p) s1"
      by auto
    with w False show ?thesis by (intro exI [of _ "o1 # more"]) auto
  qed
qed simp

text \<open>C22: A loop that returns made between one pass of its body and as many as its count, which lies between one and
  25, each from the text of the pass before; it stopped short of its count only after the first pass whose
  \<open>until\<close> field was true; and it returns the last pass, or all of them, each under its number.\<close>

theorem a_loop_makes_its_passes:
  assumes "runLoopStage L H E W p prev s = Some (Inr out, s1)"
  shows "\<exists>passes. pass_chain W E p (nat (resolveCount L E (sg p) loopMaxIterations s)) 1 prev s passes s1
    \<and> 1 \<le> length passes \<and> int (length passes) \<le> resolveCount L E (sg p) loopMaxIterations s
    \<and> 1 \<le> resolveCount L E (sg p) loopMaxIterations s \<and> resolveCount L E (sg p) loopMaxIterations s \<le> 25
    \<and> (int (length passes) < resolveCount L E (sg p) loopMaxIterations s \<longrightarrow> until_reached (sg p) s1)
    \<and> out = (if trim_space (sf_collect (sg p)) = ''all'' then trim_space (concat (map pass_block (numbered passes)))
             else last passes)"
proof -
  let ?n = "resolveCount L E (sg p) loopMaxIterations s"
  have n: "1 \<le> ?n" "?n \<le> 25" using resolveCount_bounds [of loopMaxIterations L E "sg p" s] by (simp_all add: loopMaxIterations_def)
  from assms obtain carry passes where
    l: "loop_passes (nat ?n) H E W p (nat ?n) 1 prev [] s = Some (Inr (carry, passes), s1)"
    and out: "out = (if trim_space (sf_collect (sg p)) = ''all'' then trim_space (concat (map pass_block (numbered passes))) else carry)"
    by (auto simp: runLoopStage_def Let_def split: option.splits sum.splits prod.splits)
  from loop_passes_chain [OF l] n have c: "pass_chain W E p (nat ?n) 1 prev s passes s1" "length passes \<le> nat ?n" "passes \<noteq> []"
    "carry = last passes" "length passes < nat ?n \<longrightarrow> until_reached (sg p) s1"
    by auto
  have "1 \<le> length passes" using c(3) by (cases passes) auto
  with c n out show ?thesis by auto
qed

text \<open>A body that says the first thing it is given, and a loop of three passes.\<close>

definition echo_walk :: "nat walker" where
  "echo_walk E stages prev vars s = Some (Inr (prev @ ''!'', False), s)"

definition loop_stage :: PipelineStage where
  "loop_stage = PipelineStage (zero_stage\<lparr>sf_name := ''polish'', sf_kind := StageLoop, sf_count := 3\<rparr>) [ask_stage ''draft'' ''p'']"

theorem a_loop_makes_its_passes_witness:
  "\<exists>passes. pass_chain echo_walk plain_env loop_stage 3 1 ''a'' (start_state 0) passes (start_state 0) \<and> length passes \<le> 3"
proof -
  have "resolveCount sample_lib plain_env (sg loop_stage) loopMaxIterations (start_state (0::nat)) = 3" by code_simp
  moreover have "\<not> until_reached (sg loop_stage) (start_state (0::nat))" by code_simp
  moreover have "trim_space (sf_collect (sg loop_stage)) = []" by code_simp
  ultimately have "runLoopStage sample_lib echo_host plain_env echo_walk loop_stage ''a'' (start_state 0) = Some (Inr ''a!!!'', start_state 0)"
    by (simp add: runLoopStage_def echo_walk_def echo_host_def numeral_3_eq_3)
  from a_loop_makes_its_passes [OF this] \<open>resolveCount _ _ _ _ _ = 3\<close> show ?thesis by auto
qed

section \<open>Tools\<close>

lemma openBlock_now: "openBlock E st t s = (b, s0) \<Longrightarrow> rn_now s0 = rn_now s"
  by (auto simp: openBlock_def Let_def emit_def split: if_splits prod.splits)

lemma find_first: "find P xs = Some x \<Longrightarrow> x \<in> set xs \<and> P x"
  by (induction xs) (auto split: if_splits)

definition guard_blocks :: "'w pipe_host \<Rightarrow> string \<Rightarrow> (string \<times> val) list \<Rightarrow> bool" where
  "guard_blocks H name args = (case ho_guard H of None \<Rightarrow> False | Some blocked \<Rightarrow> blocked (name @ '' '' @ ho_guard_args H args))"

lemma runToolStage_calls:
  assumes "runToolStage L H E st prev tools vars s = (r, s1)" "rn_now s1 \<noteq> rn_now s"
  shows "\<exists>td \<in> set tools. td_name td = trim_space (sf_tool st)
    \<and> (td_confirm td \<longrightarrow> \<not> guard_blocks H (trim_space (sf_tool st)) (tool_args L E st prev vars s))
    \<and> rn_now s1 = snd (ho_tool H (rn_now s) (trim_space (sf_tool st)) (tool_args L E st prev vars s))"
  using assms
  by (auto simp: runToolStage_def Let_def guard_blocks_def split: option.splits sum.splits prod.splits if_splits
      dest!: find_first)

text \<open>The world only moves by the calls; opening, recording and closing leave it.\<close>

definition same_now :: "'w run_state \<Rightarrow> 'w run_state \<Rightarrow> bool" where
  "same_now s s1 \<longleftrightarrow> rn_now s1 = rn_now s"

lemma emit_now: "rn_now (emit E ev s) = rn_now s"
  by (simp add: emit_def)

lemma fail_now: "rn_now (failBlock E block e s) = rn_now s"
  by (simp add: failBlock_def emit_now split: option.splits)

lemma finish_now: "finish_stage L E st prev vars block out flds s = (t, s1) \<Longrightarrow> rn_now s1 = rn_now s"
  by (auto simp: finish_stage_def Let_def closeBlock_def promoteSessionMeta_def emit_now split: option.splits)

lemma tool_stage_now:
  "rn_now (snd (tool_stage L H E st prev tools vars s)) = rn_now (snd (runToolStage L H E st prev tools vars s))"
  by (auto simp: tool_stage_def Let_def split: prod.splits sum.splits)

text \<open>C20: A tool stage reaches outside the run only by calling the one tool it names, a tool the agent that runs the
  pipeline has and the stage's own reach lets through; and a consequential tool only with arguments the
  agent's guardrail did not block.\<close>

theorem a_tool_stage_calls_what_it_may:
  assumes "runStage L H R E W p prev vars s = Some (r, s1)" "sf_kind (sg p) = StageTool" "rn_now s1 \<noteq> rn_now s"
  shows "\<exists>td args. td \<in> set (re_inherited E) \<and> td \<in> set (StageTools (sg p) (re_inherited E))
    \<and> td_name td = trim_space (sf_tool (sg p))
    \<and> (td_confirm td \<longrightarrow> \<not> guard_blocks H (td_name td) args)
    \<and> rn_now s1 = snd (ho_tool H (rn_now s) (td_name td) args)"
proof -
  obtain block s0 where o0: "openBlock E (sg p) (sg_name p) s = (block, s0)" by fastforce
  have k: "sf_kind (sg p) \<in> set run_kinds" "sf_kind (sg p) \<noteq> StageAgent" using assms(2)
    by (simp_all add: run_kinds_def stage_kind_defs)
  let ?tools = "StageTools (sg p) (re_inherited E)"
  have tools: "stage_tools_of E (sg p) = ?tools" using assms(2) by (simp add: stage_tools_of_def)
  have run: "run_kind L H R E W p prompt prev vars s0 = Some (tool_stage L H E (sg p) prev ?tools vars s0)" for prompt
    using assms(2) by (simp add: run_kind_def Let_def tools stage_kind_defs)
  obtain q s2 where t: "tool_stage L H E (sg p) prev ?tools vars s0 = (q, s2)" by fastforce
  have "rn_now s1 = rn_now s2"
  proof (cases q)
    case (Inl e)
    with assms(1) k show ?thesis by (auto simp: runStage_def Let_def o0 run t fail_now)
  next
    case (Inr of)
    with assms(1) k show ?thesis
      by (auto simp: runStage_def Let_def o0 run t split: prod.splits dest: finish_now)
  qed
  then have moved: "rn_now (snd (runToolStage L H E (sg p) prev ?tools vars s0)) = rn_now s1" "rn_now s0 = rn_now s"
    using tool_stage_now [of L H E "sg p" prev ?tools vars s0] t openBlock_now [OF o0] by simp_all
  obtain q3 s3 where r3: "runToolStage L H E (sg p) prev ?tools vars s0 = (q3, s3)" by fastforce
  from runToolStage_calls [OF r3] moved assms(3) r3 obtain td where
    "td \<in> set ?tools" "td_name td = trim_space (sf_tool (sg p))"
    "td_confirm td \<longrightarrow> \<not> guard_blocks H (trim_space (sf_tool (sg p))) (tool_args L E (sg p) prev vars s0)"
    "rn_now s1 = snd (ho_tool H (rn_now s) (trim_space (sf_tool (sg p))) (tool_args L E (sg p) prev vars s0))"
    by auto
  moreover have "set ?tools \<subseteq> set (re_inherited E)" by (rule stage_tools.narrow_subset)
  ultimately show ?thesis by (intro exI [of _ td] exI [of _ "tool_args L E (sg p) prev vars s0"]) auto
qed

text \<open>A host with one consequential tool, guarded, and a stage that calls it.\<close>

definition pay_tool :: AgentToolDef where
  "pay_tool = \<lparr>td_name = ''pay'', td_caps = [], td_confirm = True\<rparr>"

definition tool_host :: "nat pipe_host" where
  "tool_host = echo_host\<lparr>ho_tool := \<lambda>w n args. (Inr ''done'', w + 1), ho_guard := Some (\<lambda>t. contains t ''1000''),
     ho_guard_args := \<lambda>args. concat (map (\<lambda>(k, v). case v of VStr x \<Rightarrow> x | _ \<Rightarrow> []) args)\<rparr>"

definition pay_stage :: PipelineStage where
  "pay_stage = PipelineStage (zero_stage\<lparr>sf_name := ''buy'', sf_kind := StageTool, sf_tool := ''pay'',
     sf_args := [(''sum'', ''{input}'')]\<rparr>) []"

definition pay_env :: run_env where
  "pay_env = plain_env\<lparr>re_input := ''10'', re_inherited := [pay_tool], re_sink := False\<rparr>"

theorem a_tool_stage_calls_what_it_may_witness:
  "\<exists>td args. td \<in> set (re_inherited pay_env) \<and> td_name td = ''pay'' \<and> (td_confirm td \<longrightarrow> \<not> guard_blocks tool_host ''pay'' args)"
proof -
  have k: "sf_kind (sg pay_stage) = StageTool" "trim_space (sf_tool (sg pay_stage)) = ''pay''" by code_simp+
  have "map_option (\<lambda>x. rn_now (snd x)) (runStage sample_lib tool_host no_readers pay_env echo_walk pay_stage [] [] (start_state 0)) = Some 1"
    by code_simp
  then obtain r s1 where r: "runStage sample_lib tool_host no_readers pay_env echo_walk pay_stage [] [] (start_state 0) = Some (r, s1)"
    "rn_now s1 = 1" by auto
  have moved: "rn_now s1 \<noteq> rn_now (start_state (0::nat))" using r(2) by (simp add: start_state_def)
  from a_tool_stage_calls_what_it_may [OF r(1) k(1) moved] obtain td args where
    "td \<in> set (re_inherited pay_env)" "td_name td = trim_space (sf_tool (sg pay_stage))"
    "td_confirm td \<longrightarrow> \<not> guard_blocks tool_host (td_name td) args" by blast
  then show ?thesis unfolding k(2) by metis
qed

section \<open>Pages\<close>

text \<open>What a gather picks: no weak source, nothing claimed before, no page twice and at most two of a host.\<close>

definition picked_well :: "readers \<Rightarrow> url_parser \<Rightarrow> RunSources \<Rightarrow> picking \<Rightarrow> bool" where
  "picked_well R up rs pk \<longleftrightarrow>
     rev (pk_seen pk) = map (\<lambda>c. NormalizeURL up (ft_url (cn_page c))) (pk_picks pk) \<and> distinct (pk_seen pk)
     \<and> (\<forall>c \<in> set (pk_picks pk). NormalizeURL up (ft_url (cn_page c)) \<noteq> [] \<and> \<not> rd_weak R (ft_url (cn_page c))
          \<and> \<not> Claimed up (ft_url (cn_page c)) rs)
     \<and> (\<forall>h. length (filter (\<lambda>c. rd_host R (ft_url (cn_page c)) = h) (pk_picks pk)) = domain_count pk h \<and> domain_count pk h \<le> 2)"

lemma consider_picks_well: "picked_well R up rs pk \<Longrightarrow> picked_well R up rs (consider_page R up rs qf pk)"
  by (auto simp: picked_well_def consider_page_def Let_def domain_count_def map_of_update_eq gatherPerDomain_def
      split: prod.splits option.splits)

lemma fold_picks_well: "picked_well R up rs pk \<Longrightarrow> picked_well R up rs (fold (consider_page R up rs) qfs pk)"
  by (induction qfs arbitrary: pk) (auto intro: consider_picks_well)

text \<open>The pages a gather goes on to read are worth reading: none is a weak source, none was claimed or read in this
  run before, no two have the same key, and no host supplies more than two.\<close>

theorem gather_picks_fresh_pages:
  "let picks = pick_pages R up rs qs found in
     list_all (\<lambda>c. \<not> rd_weak R (ft_url (cn_page c)) \<and> \<not> Claimed up (ft_url (cn_page c)) rs) picks
     \<and> distinct (map (\<lambda>c. NormalizeURL up (ft_url (cn_page c))) picks)
     \<and> length (filter (\<lambda>c. rd_host R (ft_url (cn_page c)) = h) picks) \<le> 2"
proof -
  have distinct: "picked_well R up rs pk \<Longrightarrow> distinct (map (\<lambda>c. NormalizeURL up (ft_url (cn_page c))) (pk_picks pk))" for pk
    unfolding picked_well_def by (metis distinct_rev)
  have "picked_well R up rs (fold (consider_page R up rs) qfs \<lparr>pk_seen = [], pk_domain = [], pk_picks = []\<rparr>)" for qfs
    by (rule fold_picks_well) (simp add: picked_well_def domain_count_def)
  then obtain pk where pk: "pick_pages R up rs qs found = pk_picks pk" "picked_well R up rs pk"
    unfolding pick_pages_def by blast
  then show ?thesis using distinct [OF pk(2)] by (simp add: picked_well_def Let_def list_all_iff)
qed

text \<open>The pages read so far, each under the number of its key in the source list.\<close>

definition numbered_well :: "url_parser \<Rightarrow> gatheredPage list \<Rightarrow> RunSources \<Rightarrow> bool" where
  "numbered_well up read rs \<longleftrightarrow> reg_ok up (rs_reg rs)
     \<and> (\<forall>p \<in> set read. trim_url (gp_url p) \<noteq> [] \<longrightarrow>
          NormalizeURL up (trim_url (gp_url p)) \<in> set (reg_keys up (rs_reg rs))
          \<and> gp_n p = position (reg_keys up (rs_reg rs)) (NormalizeURL up (trim_url (gp_url p))))"

lemma numbered_well_grow:
  assumes "numbered_well up read rs" "reg_ok up (rs_reg rs1)" "reg_keys up (rs_reg rs1) = reg_keys up (rs_reg rs) @ ks"
  shows "numbered_well up read rs1"
  using assms by (auto simp: numbered_well_def position_append)

lemma note_page_numbers:
  assumes "numbered_well (ho_url H) read rs" "note_page H R qs c f (read, rs) = (read1, rs1)"
  shows "numbered_well (ho_url H) read1 rs1"
proof (cases "length (ft_text f) < minPageText")
  case True
  with assms show ?thesis by (simp add: note_page_def)
next
  case False
  define f1 where "f1 = (if trim_space (ft_title (cn_page c)) \<noteq> [] then f\<lparr>ft_title := ft_title (cn_page c)\<rparr> else f)"
  obtain n rs2 where add: "Add (ho_url H) f1 rs = (n, rs2)" by fastforce
  have ok: "reg_ok (ho_url H) (rs_reg rs)" using assms(1) by (simp add: numbered_well_def)
  obtain ks where ks: "reg_keys (ho_url H) (rs_reg rs2) = reg_keys (ho_url H) (rs_reg rs) @ ks"
    using Add_frame(3) [of "ho_url H" f1 rs] add by auto
  have ok2: "reg_ok (ho_url H) (rs_reg rs2)" using Add_frame(2) [OF ok, of f1] add by simp
  from assms(2) False add have r: "rs1 = rs2" "\<exists>ex q. read1 = read @ [\<lparr>gp_n = n, gp_title = ft_title f1, gp_url = ft_url f1, gp_excerpt = ex, gp_query = q\<rparr>]"
    by (auto simp: note_page_def Let_def f1_def [symmetric])
  from numbered_well_grow [OF assms(1) ok2 ks] Add_number [OF ok, of f1] add r show ?thesis
    by (auto simp: numbered_well_def)
qed

lemma note_pages_number:
  "numbered_well (ho_url H) read rs \<Longrightarrow> fold (note_page H R qs c) fs (read, rs) = (read1, rs1) \<Longrightarrow> numbered_well (ho_url H) read1 rs1"
proof (induction fs arbitrary: read rs)
  case (Cons f fs)
  obtain read2 rs2 where n: "note_page H R qs c f (read, rs) = (read2, rs2)" by fastforce
  from Cons.IH [OF note_page_numbers [OF Cons.prems(1) n]] Cons.prems(2) n show ?case by simp
qed simp

lemma read_page_numbers:
  assumes "numbered_well (ho_url H) read (rn_srcs s)" "read_page H R qs c (read, s) = (read1, s1)"
  shows "numbered_well (ho_url H) read1 (rn_srcs s1)"
proof -
  obtain b rs where c: "Claim (ho_url H) (ft_url (cn_page c)) (rn_srcs s) = (b, rs)" by fastforce
  then have w: "numbered_well (ho_url H) read rs" using Claim_frame [OF c] assms(1) by (simp add: numbered_well_def)
  have "numbered_well (ho_url H) read2 rs2" if "fold (note_page H R qs c) fs (read, rs) = (read2, rs2)" for fs read2 rs2
    by (rule note_pages_number [OF w that])
  with assms(2) w show ?thesis
    by (auto simp: read_page_def Let_def c split: bool.splits prod.splits sum.splits)
qed

lemma read_wave_numbers:
  "numbered_well (ho_url H) read (rn_srcs s) \<Longrightarrow> fold (read_page H R qs) cs (read, s) = (read1, s1) \<Longrightarrow>
     numbered_well (ho_url H) read1 (rn_srcs s1)"
proof (induction cs arbitrary: read s)
  case (Cons c cs)
  obtain read2 s2 where n: "read_page H R qs c (read, s) = (read2, s2)" by fastforce
  from Cons.IH [OF read_page_numbers [OF Cons.prems(1) n]] Cons.prems(2) n show ?case by simp
qed simp

lemma read_waves_number:
  "numbered_well (ho_url H) read (rn_srcs s) \<Longrightarrow> read_waves H R qs pages picks read s = (Inr read1, s1) \<Longrightarrow>
     numbered_well (ho_url H) read1 (rn_srcs s1)"
proof (induction "length picks" arbitrary: picks read s rule: less_induct)
  case less
  show ?case
  proof (cases "length read < pages \<and> picks \<noteq> []")
    case True
    obtain read2 s2 where f: "fold (read_page H R qs) (take (pages - length read) picks) (read, s) = (read2, s2)" by fastforce
    have d: "length (drop (pages - length read) picks) < length picks" using True by (cases picks) auto
    from less.prems(2) True f have "read_waves H R qs pages (drop (pages - length read) picks) read2 s2 = (Inr read1, s1)"
      by (simp add: read_waves.simps [of H R qs pages picks] Let_def split: option.splits)
    from less.hyps [OF d read_wave_numbers [OF less.prems(1) f] this] show ?thesis .
  next
    case False
    with less.prems(2) have "read1 = read \<and> s1 = s" by (subst (asm) read_waves.simps) auto
    with less.prems(1) show ?thesis by simp
  qed
qed

lemma search_all_srcs: "rn_srcs (snd (search_all H qs s)) = rn_srcs s"
  by (induction qs arbitrary: s) (auto simp: case_prod_beta)

text \<open>C23: A gather that returns has read at most the pages it was asked for, in the order of their numbers, and the
  number it shows with a page is the one the run's source list gives that page: a later stage that cites it
  cites what was read.\<close>

theorem gathered_pages_carry_their_source_numbers:
  assumes "gatherPages H R label qs pages tools s = (Inr read, s1)" "reg_ok (ho_url H) (rs_reg (rn_srcs s))"
    and "p \<in> set read" "trim_url (gp_url p) \<noteq> []"
  shows "length read \<le> pages \<and> sorted (map gp_n read) \<and> 1 \<le> gp_n p \<and> gp_n p \<le> Len (rn_srcs s1)
    \<and> reg_keys (ho_url H) (rs_reg (rn_srcs s1)) ! (gp_n p - 1) = NormalizeURL (ho_url H) (trim_url (gp_url p))"
proof -
  obtain found s2 where f: "search_all H qs s = (found, s2)" by fastforce
  let ?picks = "pick_pages R (ho_url H) (rn_srcs s2) qs found"
  have "read \<noteq> []" using assms(3) by auto
  with assms(1) f obtain all_read where w: "read_waves H R qs pages ?picks [] s2 = (Inr all_read, s1)" "read = sort_key gp_n (take pages all_read)"
    by (auto simp: gatherPages_def Let_def split: if_splits option.splits prod.splits sum.splits)
  have "numbered_well (ho_url H) [] (rn_srcs s2)"
    using assms(2) search_all_srcs [of H qs s] f by (simp add: numbered_well_def)
  from read_waves_number [OF this w(1)] have n: "numbered_well (ho_url H) all_read (rn_srcs s1)" .
  have "p \<in> set all_read" using assms(3) w(2) by (auto dest: in_set_takeD)
  with n assms(4) have "NormalizeURL (ho_url H) (trim_url (gp_url p)) \<in> set (reg_keys (ho_url H) (rs_reg (rn_srcs s1)))"
    "gp_n p = position (reg_keys (ho_url H) (rs_reg (rn_srcs s1))) (NormalizeURL (ho_url H) (trim_url (gp_url p)))"
    by (auto simp: numbered_well_def)
  with position_bounds have "1 \<le> gp_n p \<and> gp_n p \<le> length (reg_keys (ho_url H) (rs_reg (rn_srcs s1)))
    \<and> reg_keys (ho_url H) (rs_reg (rn_srcs s1)) ! (gp_n p - 1) = NormalizeURL (ho_url H) (trim_url (gp_url p))" by metis
  then show ?thesis using w(2) by (simp add: reg_keys_def Len_def sorted_sort_key)
qed

text \<open>A host whose search finds one page and whose fetch returns it in full.\<close>

definition found_page :: Fetched where
  "found_page = \<lparr>ft_title = ''X'', ft_url = ''https://a.org/x'', ft_text = replicate 400 (CHR ''t'')\<rparr>"

definition web_tool :: "string \<Rightarrow> AgentToolDef" where
  "web_tool n = \<lparr>td_name = n, td_caps = [], td_confirm = False\<rparr>"

definition web_host :: "nat pipe_host" where
  "web_host = echo_host\<lparr>ho_extract := \<lambda>_ _ _. [found_page], ho_url := sample_parser\<rparr>"

lemma found_page_read:
  "trim_url (ft_url found_page) \<noteq> []" "NormalizeURL sample_parser (ft_url found_page) = ''a.org/x''" "ft_url found_page \<noteq> []"
  by code_simp+

definition web_tools :: "AgentToolDef list" where
  "web_tools = [web_tool ''web_search'', web_tool ''fetch_url'']"

lemma web_gathers:
  "\<exists>ex s1. gatherPages web_host no_readers ''g'' [''q''] 1 web_tools (start_state 0)
     = (Inr [\<lparr>gp_n = 1, gp_title = ''X'', gp_url = ''https://a.org/x'', gp_excerpt = ex, gp_query = ''q''\<rparr>], s1)"
proof -
  have tool: "ho_tool web_host w n a = (Inr [], w)" "ho_extract web_host n a out = [found_page]" "ho_ctx web_host w = None"
    "ho_url web_host = sample_parser" for w n a out by (simp_all add: web_host_def echo_host_def)
  have title: "trim_space ''X'' = ''X''" "ft_title found_page = ''X''" "ft_url found_page = ''https://a.org/x''"
    "length (ft_text found_page) = 400" by (code_simp, simp_all add: found_page_def)
  have key: "trim_url ''https://a.org/x'' = ''https://a.org/x''" "NormalizeURL sample_parser ''https://a.org/x'' = ''a.org/x''"
    "trim_space ''https://a.org/x'' \<noteq> []" using sample_trims by simp_all
  let ?c = "\<lparr>cn_page = found_page, cn_query = ''q''\<rparr>"
  have picks: "pick_pages no_readers sample_parser NewRunSources [''q''] [[found_page]] = [?c]"
    by (simp add: pick_pages_def at_depth_def consider_page_def no_readers_def Claimed_def NewRunSources_def title key
        domain_count_def gatherPerDomain_def Let_def text_of_def minReadText_def)
  have claim: "Claim sample_parser ''https://a.org/x'' NewRunSources = (True, NewRunSources\<lparr>rs_claimed := [''a.org/x'']\<rparr>)"
    by (simp add: Claim_def Let_def key NewRunSources_def text_of_def minReadText_def empty_registry_def)
  obtain rs1 where add: "Add sample_parser (found_page\<lparr>ft_title := ''X''\<rparr>) (NewRunSources\<lparr>rs_claimed := [''a.org/x'']\<rparr>) = (1, rs1)"
    by (simp add: Add_def Let_def title key NewRunSources_def Register_def empty_registry_def keep_longer_def)
  have page: "\<exists>ex s1. read_page web_host no_readers [''q''] ?c ([], start_state 0)
      = ([\<lparr>gp_n = 1, gp_title = ''X'', gp_url = ''https://a.org/x'', gp_excerpt = ex, gp_query = ''q''\<rparr>], s1)"
    using add by (simp add: read_page_def Let_def tool title claim start_state_def note_page_def minPageText_def)
  then show ?thesis
    by (auto simp: gatherPages_def Let_def tool picks start_state_def read_waves.simps web_tools_def web_tool_def)
qed

theorem gathered_pages_carry_their_source_numbers_witness:
  "\<exists>s1. reg_keys sample_parser (rs_reg (rn_srcs (s1 :: nat run_state))) ! 0 = ''a.org/x''"
proof -
  obtain ex s1 where g: "gatherPages web_host no_readers ''g'' [''q''] 1 web_tools (start_state 0)
     = (Inr [\<lparr>gp_n = 1, gp_title = ''X'', gp_url = ''https://a.org/x'', gp_excerpt = ex, gp_query = ''q''\<rparr>], s1)"
    using web_gathers by blast
  have ok: "reg_ok (ho_url web_host) (rs_reg (rn_srcs (start_state (0::nat))))" by (simp add: start_state_def NewRunSources_def)
  have u: "trim_url (gp_url \<lparr>gp_n = 1, gp_title = ''X'', gp_url = ''https://a.org/x'', gp_excerpt = ex, gp_query = ''q''\<rparr>) \<noteq> []"
    by (simp add: sample_trims)
  from gathered_pages_carry_their_source_numbers [OF g ok _ u] show ?thesis
    by (intro exI [of _ s1]) (simp add: sample_trims web_host_def)
qed

section \<open>Verdicts\<close>

lemma check_all_length: "length (fst (check_all L H R cs s)) = length cs"
  by (induction cs arbitrary: s) (auto simp: case_prod_beta)

definition was_open :: "verdict \<Rightarrow> bool" where
  "was_open v \<longleftrightarrow> (case v of Unchecked _ \<Rightarrow> True | _ \<Rightarrow> False)"

lemma verdicts_add_up:
  "length claims = length vs \<Longrightarrow>
     length (filter (\<lambda>v. v = Supported) vs) + length (concat (map2 unsupported_line claims vs)) + length (filter was_open vs)
       = length claims"
  by (induction claims vs rule: list_induct2) (auto simp: unsupported_line_def was_open_def split: verdict.splits)

text \<open>A verify accounts for every claim it looked at, at most 20: what it supports, what it does not and what it
  could not check add up to them, the checked ones being the first two; and it passes exactly when it found
  nothing unsupported, no figure missing from the sources and no citation outside the run's source list.\<close>

theorem a_verify_adds_up:
  assumes "runVerifyStage L H R st s = (Inr (t, flds), s1)" "map_of (rn_outputs s) (sf_check st) = Some target"
  shows "\<exists>yes no open figures. map_of flds ''supported'' = Some (VInt (int yes)) \<and> map_of flds ''unsupported'' = Some (VList no)
    \<and> map_of flds ''unchecked'' = Some (VInt (int open)) \<and> map_of flds ''checked'' = Some (VInt (int (yes + length no)))
    \<and> yes + length no + open = length (take 20 (rd_claims R (verify_text (so_text target))))
    \<and> map_of flds ''unverified_figures'' = Some (VList figures)
    \<and> map_of flds ''passed'' = Some (VBool (no = [] \<and> figures = []
        \<and> list_all (\<lambda>n. 1 \<le> n \<and> n \<le> int (Len (rn_srcs s))) (Citations (verify_text (so_text target)))))"
proof -
  let ?claims = "take verifyMaxClaims (rd_claims R (verify_text (so_text target)))"
  obtain vs s2 where c: "check_all L H R ?claims s = (vs, s2)" by fastforce
  have len: "length ?claims = length vs" using check_all_length [of L H R ?claims s] c by simp
  let ?no = "concat (map2 unsupported_line ?claims vs)" and ?yes = "length (filter (\<lambda>v. v = Supported) vs)"
    and ?open = "length (filter was_open vs)" and ?figures = "rd_figures R (verify_text (so_text target)) (Texts (rn_srcs s))"
  let ?bad = "filter (\<lambda>n. n < 1 \<or> n > int (Len (rn_srcs s))) (Citations (verify_text (so_text target)))"
  note sum = verdicts_add_up [OF len]
  have open_eq: "filter (\<lambda>v. case v of Unchecked _ \<Rightarrow> True | _ \<Rightarrow> False) vs = filter was_open vs"
    by (rule filter_cong) (simp_all add: was_open_def)
  have bad: "?bad = [] \<longleftrightarrow> list_all (\<lambda>n. 1 \<le> n \<and> n \<le> int (Len (rn_srcs s))) (Citations (verify_text (so_text target)))"
    by (auto simp: filter_empty_conv list_all_iff)
  from assms c have ctx: "ho_ctx H (rn_now s2) = None"
    by (auto simp: runVerifyStage_def Let_def split: option.splits)
  have "length ?claims - ?open = ?yes + length ?no" using sum by simp
  with assms c ctx have f: "map_of flds ''supported'' = Some (VInt (int ?yes))" "map_of flds ''unsupported'' = Some (VList (map VStr ?no))"
    "map_of flds ''unchecked'' = Some (VInt (int ?open))" "map_of flds ''checked'' = Some (VInt (int (?yes + length ?no)))"
    "map_of flds ''unverified_figures'' = Some (VList (map VStr ?figures))"
    "map_of flds ''passed'' = Some (VBool (?no = [] \<and> ?bad = [] \<and> ?figures = []))"
    by (auto simp: runVerifyStage_def Let_def open_eq)
  show ?thesis
    by (rule exI [of _ ?yes], rule exI [of _ "map VStr ?no"], rule exI [of _ ?open], rule exI [of _ "map VStr ?figures"])
      (use f sum bad in \<open>auto simp: verifyMaxClaims_def\<close>)
qed

definition claim_readers :: readers where
  "claim_readers = no_readers\<lparr>rd_claims := \<lambda>t. [t]\<rparr>"

definition drafted :: "nat run_state" where
  "drafted = (start_state 0)\<lparr>rn_outputs := [(''draft'', \<lparr>so_text = ''Cats purr [7].'', so_fields = []\<rparr>)]\<rparr>"

theorem a_verify_adds_up_witness:
  "\<exists>flds s1 yes no open. snd (runVerifyStage sample_lib echo_host claim_readers (zero_stage\<lparr>sf_check := ''draft''\<rparr>) drafted) = s1
     \<and> map_of flds ''supported'' = Some (VInt (int yes)) \<and> map_of flds ''unsupported'' = Some (VList no)
     \<and> map_of flds ''unchecked'' = Some (VInt (int open)) \<and> yes + length no + open = 1"
proof -
  let ?run = "runVerifyStage sample_lib echo_host claim_readers (zero_stage\<lparr>sf_check := ''draft''\<rparr>) drafted"
  have "isl (fst ?run) = False" by code_simp
  then obtain t flds s1 where r: "?run = (Inr (t, flds), s1)" by (cases ?run; cases "fst ?run") auto
  have d: "map_of (rn_outputs drafted) (sf_check (zero_stage\<lparr>sf_check := ''draft''\<rparr>)) = Some \<lparr>so_text = ''Cats purr [7].'', so_fields = []\<rparr>"
    by (simp add: drafted_def)
  have c: "length (take 20 (rd_claims claim_readers (verify_text (so_text \<lparr>so_text = ''Cats purr [7].'', so_fields = []\<rparr>)))) = 1"
    by (simp add: claim_readers_def)
  show ?thesis using a_verify_adds_up [OF r d] c r by fastforce
qed

section \<open>Prompts\<close>

text \<open>A prompt's text is not always determined by what the stages produced: with an output whose own text reads as
  a reference, the two orders in which Go may walk the same map of outputs give two different prompts.\<close>

theorem a_prompt_depends_on_the_map_order:
  "let a = (''a'', \<lparr>so_text = ''{stage:b}'', so_fields = []\<rparr>); b = (''b'', \<lparr>so_text = ''B'', so_fields = []\<rparr>)
   in resolveStageTemplate L ''{stage:a}'' [] [] [a, b] = ''B'' \<and> resolveStageTemplate L ''{stage:a}'' [] [] [b, a] = ''{stage:b}''"
proof -
  have r: "replace_all ''{stage:a}'' ''{input}'' [] = ''{stage:a}''" "replace_all ''{stage:a}'' ''{prev}'' [] = ''{stage:a}''"
    "replace_all ''{stage:a}'' ''{stage:a}'' ''{stage:b}'' = ''{stage:b}''" "replace_all ''{stage:b}'' ''{stage:b}'' ''B'' = ''B''"
    "replace_all ''{stage:a}'' ''{stage:b}'' ''B'' = ''{stage:a}''"
    by code_simp+
  show ?thesis by (simp add: resolveStageTemplate_def subst_output_def r)
qed

end
