(* ===== verification/WorkflowGraph.thy ===== *)
theory WorkflowGraph
  imports Prelude "HOL-Library.Product_Lexorder"
begin

text \<open>
  The picture of a workflow as data, and where its boxes go (core/workflow_graph.go): \<open>WorkflowNode\<close>,
  \<open>WorkflowEdge\<close>, \<open>WorkflowGraph\<close>, \<open>WorkflowOverlay\<close>, and \<open>layout\<close>, which ranks the nodes by
  breadth-first search from the entry, puts what it cannot reach in a row of its own, orders each row
  under the steps that lead to it, and gives every box a corner. A Go map is an association list.

  The search is proved to give shortest distances, and the placement to give every node a box of its
  own that no other box touches. Coordinates are natural numbers: the code never makes a negative one.
  The mean position of a node's parents, a \<open>float64\<close> quotient of two small whole numbers in the
  source, is the exact rational here.
\<close>

section \<open>Data\<close>

definition NodeEntry :: string where "NodeEntry = ''entry''"
definition NodeStep :: string where "NodeStep = ''step''"
definition NodeRest :: string where "NodeRest = ''rest''"
definition NodeExit :: string where "NodeExit = ''exit''"

definition EdgeSolid :: string where "EdgeSolid = ''solid''"
definition EdgeDashed :: string where "EdgeDashed = ''dashed''"
definition EdgeBack :: string where "EdgeBack = ''back''"

lemmas edge_style_defs = EdgeSolid_def EdgeDashed_def EdgeBack_def

record WorkflowNode =
  wn_id :: string
  wn_label :: string
  wn_note :: string
  wn_kind :: string
  wn_tags :: "string list"
  wn_href :: string

record WorkflowEdge =
  we_from :: string
  we_to :: string
  we_label :: string
  we_style :: string
  we_note :: string

record WorkflowGraph =
  wg_title :: string
  wg_entry :: string
  wg_nodes :: "WorkflowNode list"
  wg_edges :: "WorkflowEdge list"
  wg_legend :: "string list"

record WorkflowOverlay =
  ov_current :: string
  ov_fired :: "(string \<times> nat) list"

definition EdgeKey :: "string \<Rightarrow> string \<Rightarrow> string" where
  "EdgeKey from to = from @ [CHR 0x00] @ to"

definition gNodeW :: nat where "gNodeW = 210"
definition gNodeH :: nat where "gNodeH = 58"
definition gHGap :: nat where "gHGap = 26"
definition gVGap :: nat where "gVGap = 96"
definition gPad :: nat where "gPad = 20"
definition gLabelC :: nat where "gLabelC = 30"
definition gNoteC :: nat where "gNoteC = 40"

lemmas graph_sizes = gNodeW_def gNodeH_def gHGap_def gVGap_def gPad_def

record point =
  px :: nat
  py :: nat

lemma EdgeKey_inj:
  assumes "CHR 0x00 \<notin> set a" "CHR 0x00 \<notin> set c"
  shows "EdgeKey a b = EdgeKey c d \<longleftrightarrow> a = c \<and> b = d"
  using assms
proof (induction a arbitrary: c)
  case Nil
  then show ?case by (cases c) (auto simp: EdgeKey_def)
next
  case (Cons x a)
  then show ?case by (cases c) (auto simp: EdgeKey_def)
qed

section \<open>Ranks: breadth-first search\<close>

text \<open>\<open>rank[id]\<close> reads Go's zero when the map has no entry.\<close>

definition rank_get :: "(string \<times> nat) list \<Rightarrow> string \<Rightarrow> nat" where
  "rank_get rank nid = (case map_of rank nid of None \<Rightarrow> 0 | Some r \<Rightarrow> r)"

fun expand ::
    "string \<Rightarrow> WorkflowEdge list \<Rightarrow> (string \<times> nat) list \<Rightarrow> string list \<Rightarrow> (string \<times> nat) list \<times> string list" where
  "expand cur [] rank queue = (rank, queue)"
| "expand cur (e # es) rank queue =
     (if we_from e \<noteq> cur \<or> we_to e = cur then expand cur es rank queue
      else if map_of rank (we_to e) \<noteq> None then expand cur es rank queue
      else expand cur es ((we_to e, rank_get rank cur + 1) # rank) (queue @ [we_to e]))"

definition unranked :: "WorkflowEdge list \<Rightarrow> (string \<times> nat) list \<Rightarrow> nat" where
  "unranked es rank = length (filter (\<lambda>e. map_of rank (we_to e) = None) es)"

lemma expand_size:
  "expand cur es rank queue = (rank', queue') \<Longrightarrow> set es \<subseteq> set es0 \<Longrightarrow>
     length queue' + unranked es0 rank' \<le> length queue + unranked es0 rank"
proof (induction es arbitrary: rank queue)
  case (Cons e es)
  show ?case
  proof (cases "we_from e \<noteq> cur \<or> we_to e = cur \<or> map_of rank (we_to e) \<noteq> None")
    case True
    then have "expand cur es rank queue = (rank', queue')" using Cons.prems(1) by (auto split: if_splits)
    then show ?thesis using Cons by simp
  next
    case False
    let ?rank = "(we_to e, rank_get rank cur + 1) # rank"
    from False Cons.prems(1) have "expand cur es ?rank (queue @ [we_to e]) = (rank', queue')" by simp
    then have "length queue' + unranked es0 rank' \<le> length (queue @ [we_to e]) + unranked es0 ?rank"
      by (rule Cons.IH) (use Cons.prems in simp)
    moreover have "unranked es0 ?rank < unranked es0 rank"
      unfolding unranked_def
      by (rule length_filter_strict [where y = e]) (use False Cons.prems(2) in \<open>auto split: if_splits\<close>)
    ultimately show ?thesis by simp
  qed
qed simp

function bfs_loop :: "WorkflowEdge list \<Rightarrow> (string \<times> nat) list \<Rightarrow> string list \<Rightarrow> (string \<times> nat) list" where
  "bfs_loop es rank [] = rank"
| "bfs_loop es rank (cur # queue) =
     (case expand cur es rank queue of (rank', queue') \<Rightarrow> bfs_loop es rank' queue')"
  by pat_completeness auto
termination
proof (relation "measure (\<lambda>(es, rank, queue). length queue + unranked es rank)")
  fix es rank cur queue rank' queue'
  assume "(rank', queue') = expand cur es rank queue"
  then show "((es, rank', queue'), es, rank, cur # queue) \<in> measure (\<lambda>(es, rank, queue). length queue + unranked es rank)"
    using expand_size [of cur es rank queue rank' queue' es] by (cases "expand cur es rank queue") simp
qed simp

definition start_id :: "WorkflowGraph \<Rightarrow> string" where
  "start_id g =
     (if wg_entry g \<noteq> [] then wg_entry g
      else case wg_nodes g of [] \<Rightarrow> [] | n # _ \<Rightarrow> wn_id n)"

definition bfs_ranks :: "WorkflowGraph \<Rightarrow> (string \<times> nat) list" where
  "bfs_ranks g =
     (let start = start_id g in
      if start = [] then [] else bfs_loop (wg_edges g) [(start, 0)] [start])"

definition add_orphan :: "nat \<Rightarrow> WorkflowNode \<Rightarrow> (string \<times> nat) list \<Rightarrow> (string \<times> nat) list" where
  "add_orphan row n rank = (if map_of rank (wn_id n) = None then (wn_id n, row) # rank else rank)"

definition node_ranks :: "WorkflowGraph \<Rightarrow> (string \<times> nat) list" where
  "node_ranks g =
     (let rank = bfs_ranks g; maxRank = fold (\<lambda>(_, r) m. if r > m then r else m) rank 0 in
      fold (add_orphan (maxRank + 1)) (wg_nodes g) rank)"

subsection \<open>The search finds shortest distances\<close>

inductive steps_to :: "WorkflowEdge list \<Rightarrow> string \<Rightarrow> nat \<Rightarrow> string \<Rightarrow> bool" for es s where
  steps_start: "steps_to es s 0 s"
| steps_hop: "steps_to es s d u \<Longrightarrow> e \<in> set es \<Longrightarrow> we_from e = u \<Longrightarrow> we_to e = v \<Longrightarrow> u \<noteq> v \<Longrightarrow>
    steps_to es s (Suc d) v"

lemma expand_spec:
  "expand cur es rank queue = (rank', queue') \<Longrightarrow> map_of rank cur = Some c \<Longrightarrow>
     \<exists>new. queue' = queue @ new
       \<and> (\<forall>v. map_of rank' v = (if v \<in> set new then Some (Suc c) else map_of rank v))
       \<and> set new = {v. map_of rank v = None \<and> v \<noteq> cur \<and> (\<exists>e \<in> set es. we_from e = cur \<and> we_to e = v)}"
proof (induction es arbitrary: rank queue)
  case (Cons e es)
  show ?case
  proof (cases "we_from e \<noteq> cur \<or> we_to e = cur \<or> map_of rank (we_to e) \<noteq> None")
    case True
    then have "expand cur es rank queue = (rank', queue')" using Cons.prems(1) by (auto split: if_splits)
    then obtain new where "queue' = queue @ new"
        "\<forall>v. map_of rank' v = (if v \<in> set new then Some (Suc c) else map_of rank v)"
        "set new = {v. map_of rank v = None \<and> v \<noteq> cur \<and> (\<exists>e \<in> set es. we_from e = cur \<and> we_to e = v)}"
      using Cons.IH Cons.prems(2) by blast
    then show ?thesis using True by (intro exI [of _ new]) auto
  next
    case False
    let ?rank = "(we_to e, Suc c) # rank"
    from False Cons.prems have "expand cur es ?rank (queue @ [we_to e]) = (rank', queue')"
      by (simp add: rank_get_def)
    moreover from False Cons.prems have "map_of ?rank cur = Some c" by auto
    ultimately obtain new where new: "queue' = (queue @ [we_to e]) @ new"
        "\<forall>v. map_of rank' v = (if v \<in> set new then Some (Suc c) else map_of ?rank v)"
        "set new = {v. map_of ?rank v = None \<and> v \<noteq> cur \<and> (\<exists>e \<in> set es. we_from e = cur \<and> we_to e = v)}"
      using Cons.IH by blast
    from new(3) False have "set (we_to e # new)
        = {v. map_of rank v = None \<and> v \<noteq> cur \<and> (\<exists>e' \<in> set (e # es). we_from e' = cur \<and> we_to e' = v)}"
      by (auto split: if_splits)
    with new(1,2) False show ?thesis by (intro exI [of _ "we_to e # new"]) auto
  qed
qed simp

text \<open>
  What the loop keeps: distances are real, the queue is in order of rank and spans one step, and every
  node already taken off it has its targets ranked.
\<close>

definition bfs_inv :: "WorkflowEdge list \<Rightarrow> string \<Rightarrow> (string \<times> nat) list \<Rightarrow> string list \<Rightarrow> bool" where
  "bfs_inv es s rank queue \<longleftrightarrow>
     map_of rank s = Some 0
     \<and> (\<forall>v d. map_of rank v = Some d \<longrightarrow> steps_to es s d v)
     \<and> (\<forall>q \<in> set queue. map_of rank q \<noteq> None)
     \<and> sorted (map (rank_get rank) queue)
     \<and> (\<forall>v d. map_of rank v = Some d \<longrightarrow> queue \<noteq> [] \<longrightarrow> d \<le> Suc (rank_get rank (hd queue)))
     \<and> (\<forall>e \<in> set es. \<forall>d. map_of rank (we_from e) = Some d \<longrightarrow> we_from e \<notin> set queue \<longrightarrow>
          (\<exists>d' \<le> Suc d. map_of rank (we_to e) = Some d'))"

lemma bfs_inv_step:
  assumes inv: "bfs_inv es s rank (cur # queue)" and ex: "expand cur es rank queue = (rank', queue')"
  shows "bfs_inv es s rank' queue'"
proof -
  from inv obtain c where c: "map_of rank cur = Some c" by (auto simp: bfs_inv_def)
  then have get: "rank_get rank cur = c" by (simp add: rank_get_def)
  from expand_spec [OF ex c] obtain new where q: "queue' = queue @ new"
      and m: "\<And>v. map_of rank' v = (if v \<in> set new then Some (Suc c) else map_of rank v)"
      and new: "set new = {v. map_of rank v = None \<and> v \<noteq> cur \<and> (\<exists>e \<in> set es. we_from e = cur \<and> we_to e = v)}"
    by blast
  from inv have le: "\<And>v d. map_of rank v = Some d \<Longrightarrow> d \<le> Suc c"
      and real: "\<And>v d. map_of rank v = Some d \<Longrightarrow> steps_to es s d v"
      and ranked: "\<And>q. q \<in> set queue \<Longrightarrow> map_of rank q \<noteq> None"
      and above_c: "\<And>q. q \<in> set queue \<Longrightarrow> c \<le> rank_get rank q"
      and srt: "sorted (map (rank_get rank) queue)"
      and handled: "\<And>e d. e \<in> set es \<Longrightarrow> map_of rank (we_from e) = Some d \<Longrightarrow> we_from e \<notin> set (cur # queue) \<Longrightarrow>
          \<exists>d' \<le> Suc d. map_of rank (we_to e) = Some d'"
    by (auto simp: bfs_inv_def get)
  have old: "rank_get rank' v = rank_get rank v" if "map_of rank v \<noteq> None" for v
    using that new by (simp add: rank_get_def m)
  have fresh: "rank_get rank' v = Suc c" if "v \<in> set new" for v using that by (simp add: rank_get_def m)
  have oldq: "map (rank_get rank') queue = map (rank_get rank) queue" using old ranked by auto
  have newq: "map (rank_get rank') new = replicate (length new) (Suc c)"
    using fresh by (simp add: map_replicate_const [symmetric])
  have upto: "rank_get rank q \<le> Suc c" if "q \<in> set queue" for q
    using ranked [OF that] le by (auto simp: rank_get_def)
  have "bfs_inv es s rank' queue'"
    unfolding bfs_inv_def
  proof (intro conjI allI impI ballI)
    show "map_of rank' s = Some 0" using inv new by (auto simp: bfs_inv_def m)
  next
    fix v d assume v: "map_of rank' v = Some d"
    show "steps_to es s d v"
    proof (cases "v \<in> set new")
      case True
      with new obtain e where "e \<in> set es" "we_from e = cur" "we_to e = v" "v \<noteq> cur" by auto
      with steps_hop [OF real [OF c]] v True show ?thesis by (auto simp: m)
    next
      case False
      with v real show ?thesis by (auto simp: m)
    qed
  next
    fix x assume "x \<in> set queue'"
    then show "map_of rank' x \<noteq> None" using ranked by (auto simp: q m)
  next
    show "sorted (map (rank_get rank') queue')"
      using srt upto by (auto simp: q oldq newq sorted_append)
  next
    fix v d assume v: "map_of rank' v = Some d" and "queue' \<noteq> []"
    have "c \<le> rank_get rank' (hd queue')"
    proof (cases queue)
      case Nil
      with \<open>queue' \<noteq> []\<close> have "hd queue' \<in> set new" by (simp add: q)
      then show ?thesis by (simp add: fresh)
    next
      case (Cons x xs)
      then show ?thesis using above_c [of x] old [of x] ranked [of x] by (simp add: q)
    qed
    moreover have "d \<le> Suc c" using v le by (auto simp: m split: if_splits)
    ultimately show "d \<le> Suc (rank_get rank' (hd queue'))" by simp
  next
    fix e d assume e: "e \<in> set es" and d: "map_of rank' (we_from e) = Some d" and nq: "we_from e \<notin> set queue'"
    then have nn: "we_from e \<notin> set new" and old_d: "map_of rank (we_from e) = Some d" by (auto simp: q m)
    show "\<exists>d' \<le> Suc d. map_of rank' (we_to e) = Some d'"
    proof (cases "we_from e = cur")
      case True
      with c old_d have "d = c" by simp
      show ?thesis
      proof (cases "map_of rank (we_to e)")
        case None
        with True e c have "we_to e \<in> set new" by (auto simp: new)
        then show ?thesis using \<open>d = c\<close> by (simp add: m)
      next
        case (Some d')
        then have "we_to e \<notin> set new" by (auto simp: new)
        with Some le show ?thesis using \<open>d = c\<close> by (auto simp: m)
      qed
    next
      case False
      with nq old_d e obtain d' where "d' \<le> Suc d" "map_of rank (we_to e) = Some d'"
        using handled [OF e old_d] by (auto simp: q)
      moreover from this have "we_to e \<notin> set new" by (auto simp: new)
      ultimately show ?thesis by (auto simp: m)
    qed
  qed
  then show ?thesis .
qed

lemma bfs_inv_loop: "bfs_inv es s rank queue \<Longrightarrow> bfs_inv es s (bfs_loop es rank queue) []"
proof (induction es rank queue rule: bfs_loop.induct)
  case (2 es rank cur queue)
  obtain rank' queue' where ex: "expand cur es rank queue = (rank', queue')" by force
  from 2(1) [OF ex [symmetric] bfs_inv_step [OF 2(2) ex]] ex show ?case by simp
qed simp

lemma ranked_targets:
  assumes inv: "bfs_inv es s rank []"
  shows "steps_to es s d v \<Longrightarrow> \<exists>d' \<le> d. map_of rank v = Some d'"
proof (induction rule: steps_to.induct)
  case steps_start
  then show ?case using inv by (simp add: bfs_inv_def)
next
  case (steps_hop d u e v)
  then obtain d1 where "d1 \<le> d" "map_of rank u = Some d1" by blast
  with steps_hop inv obtain d2 where "d2 \<le> Suc d1" "map_of rank v = Some d2"
    by (fastforce simp: bfs_inv_def)
  with \<open>d1 \<le> d\<close> show ?case by (meson Suc_le_mono le_trans)
qed

lemma bfs_ranks_inv:
  assumes "start_id g \<noteq> []"
  shows "bfs_inv (wg_edges g) (start_id g) (bfs_ranks g) []"
proof -
  have "bfs_inv (wg_edges g) (start_id g) [(start_id g, 0)] [start_id g]"
    by (auto simp: bfs_inv_def intro: steps_start)
  from bfs_inv_loop [OF this] assms show ?thesis by (simp add: bfs_ranks_def Let_def)
qed

lemma bfs_ranks_dist:
  assumes "start_id g \<noteq> []"
  shows "map_of (bfs_ranks g) v = Some d \<longleftrightarrow>
     steps_to (wg_edges g) (start_id g) d v \<and> (\<forall>d'. steps_to (wg_edges g) (start_id g) d' v \<longrightarrow> d \<le> d')"
proof -
  note inv = bfs_ranks_inv [OF assms]
  show ?thesis
  proof
    assume a: "map_of (bfs_ranks g) v = Some d"
    with inv have "steps_to (wg_edges g) (start_id g) d v" by (simp add: bfs_inv_def)
    moreover have "d \<le> d'" if "steps_to (wg_edges g) (start_id g) d' v" for d'
      using ranked_targets [OF inv that] a by auto
    ultimately show "steps_to (wg_edges g) (start_id g) d v
      \<and> (\<forall>d'. steps_to (wg_edges g) (start_id g) d' v \<longrightarrow> d \<le> d')" by blast
  next
    assume a: "steps_to (wg_edges g) (start_id g) d v \<and> (\<forall>d'. steps_to (wg_edges g) (start_id g) d' v \<longrightarrow> d \<le> d')"
    then obtain d' where d': "d' \<le> d" "map_of (bfs_ranks g) v = Some d'" using ranked_targets [OF inv] by blast
    with inv have "steps_to (wg_edges g) (start_id g) d' v" by (simp add: bfs_inv_def)
    with a d' show "map_of (bfs_ranks g) v = Some d" by (metis le_antisym)
  qed
qed

section \<open>Rows\<close>

definition rank_rows :: "WorkflowGraph \<Rightarrow> string list list" where
  "rank_rows g =
     (let rank = node_ranks g; ids = map wn_id (wg_nodes g);
          top = fold (\<lambda>nid t. if rank_get rank nid > t then rank_get rank nid else t) ids 0 in
      map (\<lambda>r. filter (\<lambda>nid. rank_get rank nid = r) ids) [0..<top + 1])"

text \<open>\<open>m[id] = i\<close> over a list keeps the last index.\<close>

definition last_pos :: "string list \<Rightarrow> string \<Rightarrow> nat option" where
  "last_pos ids nid = map_of (rev (zip ids [0..<length ids])) nid"

definition node_order :: "WorkflowGraph \<Rightarrow> string \<Rightarrow> nat" where
  "node_order g nid = (case last_pos (map wn_id (wg_nodes g)) nid of None \<Rightarrow> 0 | Some i \<Rightarrow> i)"

definition barycentre :: "WorkflowEdge list \<Rightarrow> string list \<Rightarrow> string \<Rightarrow> rat" where
  "barycentre es up nid =
     (let parents = concat (map (\<lambda>e. if we_to e = nid then (case last_pos up (we_from e) of Some i \<Rightarrow> [i] | None \<Rightarrow> []) else []) es) in
      if parents \<noteq> [] then of_nat (sum_list parents) / of_nat (length parents)
      else of_nat (length up + 1))"

text \<open>\<open>sort.SliceStable\<close> by mean parent position, then by declaration: a stable sort by the pair.\<close>

definition order_row :: "WorkflowGraph \<Rightarrow> string list option \<Rightarrow> string list \<Rightarrow> string list" where
  "order_row g up ids =
     sort_key (\<lambda>nid. (case up of None \<Rightarrow> 0 | Some row \<Rightarrow> barycentre (wg_edges g) row nid, node_order g nid)) ids"

fun order_rows :: "WorkflowGraph \<Rightarrow> string list option \<Rightarrow> string list list \<Rightarrow> string list list" where
  "order_rows g up [] = []"
| "order_rows g up (ids # rest) =
     (let row = order_row g up ids in row # order_rows g (Some row) rest)"

definition ranks :: "WorkflowGraph \<Rightarrow> string list list" where
  "ranks g = order_rows g None (rank_rows g)"

section \<open>Places\<close>

definition rowWidth :: "nat \<Rightarrow> nat" where
  "rowWidth n = (if n = 0 then 0 else n * gNodeW + (n - 1) * gHGap)"

definition maxRankWidth :: "string list list \<Rightarrow> nat" where
  "maxRankWidth rs = fold (\<lambda>ids widest. let w = rowWidth (length ids) in if w > widest then w else widest) rs 0"

definition cell :: "nat \<Rightarrow> nat \<Rightarrow> nat \<Rightarrow> nat \<Rightarrow> point" where
  "cell widest rw r i = \<lparr>px = gPad + (widest - rw) div 2 + i * (gNodeW + gHGap), py = gPad + r * gVGap\<rparr>"

definition places :: "string list list \<Rightarrow> (string \<times> point) list" where
  "places rs =
     concat (map (\<lambda>(r, ids). map (\<lambda>(i, nid). (nid, cell (maxRankWidth rs) (rowWidth (length ids)) r i)) (enumerate 0 ids))
       (enumerate 0 rs))"

text \<open>\<open>layout\<close>: the places are written one after the other into a map, the last one staying.\<close>

definition layout :: "WorkflowGraph \<Rightarrow> (string \<times> point) list \<times> string list list" where
  "layout g = (let rs = ranks g in (rev (places rs), rs))"

definition hasBackEdge :: "WorkflowGraph \<Rightarrow> (string \<times> point) list \<Rightarrow> bool" where
  "hasBackEdge g pos =
     (\<exists>e \<in> set (wg_edges g).
        case (map_of pos (we_from e), map_of pos (we_to e)) of
          (Some f, Some t) \<Rightarrow> we_from e = we_to e \<or> py t \<le> py f
        | _ \<Rightarrow> False)"

section \<open>Every node gets a box of its own\<close>

lemma fold_max:
  "fold (\<lambda>x m. if f x > m then f x else m) xs (m::nat) = Max (set (m # map f xs))"
proof (induction xs arbitrary: m)
  case (Cons x xs)
  have "(if f x > m then f x else m) = max (f x) m" by (simp add: max_def)
  with Cons show ?case
    by (cases "xs = []") (simp_all add: max.commute max.left_commute)
qed simp

lemma last_pos_Some: "last_pos ids x = Some i \<Longrightarrow> i < length ids \<and> ids ! i = x"
  by (auto simp: last_pos_def dest!: map_of_SomeD simp: in_set_zip)

lemma set_order_row [simp]: "set (order_row g up ids) = set ids"
  by (simp add: order_row_def)

lemma order_rows_sets: "map set (order_rows g up rs) = map set rs"
  by (induction g up rs rule: order_rows.induct) (auto simp: Let_def)

lemma order_rows_length [simp]: "length (order_rows g up rs) = length rs"
  by (metis order_rows_sets length_map)

lemma order_rows_set: "r < length rs \<Longrightarrow> set (order_rows g up rs ! r) = set (rs ! r)"
  by (metis order_rows_sets nth_map order_rows_length)

definition top_row :: "WorkflowGraph \<Rightarrow> nat" where
  "top_row g = Max (set (0 # map (rank_get (node_ranks g)) (map wn_id (wg_nodes g))))"

lemma rank_rows_conv:
  "rank_rows g = map (\<lambda>r. filter (\<lambda>nid. rank_get (node_ranks g) nid = r) (map wn_id (wg_nodes g))) [0..<top_row g + 1]"
  by (simp only: rank_rows_def Let_def top_row_def fold_max)

lemma in_row:
  assumes "n \<in> set (wg_nodes g)"
  shows "rank_get (node_ranks g) (wn_id n) < length (ranks g)"
    and "wn_id n \<in> set (ranks g ! rank_get (node_ranks g) (wn_id n))"
proof -
  let ?r = "rank_get (node_ranks g) (wn_id n)"
  have "?r \<le> top_row g" unfolding top_row_def using assms by (intro Max_ge) auto
  then have lt: "?r < length (rank_rows g)" by (simp add: rank_rows_conv)
  then show "?r < length (ranks g)" by (simp add: ranks_def)
  have "wn_id n \<in> set (rank_rows g ! ?r)" using lt assms by (simp add: rank_rows_conv nth_append del: upt_Suc)
  then show "wn_id n \<in> set (ranks g ! ?r)" using order_rows_set [OF lt] by (simp add: ranks_def)
qed

lemma row_members:
  assumes "r < length (ranks g)" "nid \<in> set (ranks g ! r)"
  shows "nid \<in> wn_id ` set (wg_nodes g) \<and> rank_get (node_ranks g) nid = r"
proof -
  have lt: "r < length (rank_rows g)" using assms(1) by (simp add: ranks_def)
  have "nid \<in> set (rank_rows g ! r)" using order_rows_set [OF lt] assms(2) by (simp add: ranks_def)
  with lt show ?thesis by (auto simp: rank_rows_conv nth_append simp del: upt_Suc)
qed

lemma places_iff:
  "(nid, p) \<in> set (places rs) \<longleftrightarrow>
     (\<exists>r i. r < length rs \<and> i < length (rs ! r) \<and> nid = rs ! r ! i
        \<and> p = cell (maxRankWidth rs) (rowWidth (length (rs ! r))) r i)"
proof
  assume "(nid, p) \<in> set (places rs)"
  then obtain r ids i where "(r, ids) \<in> set (enumerate 0 rs)" "(i, nid) \<in> set (enumerate 0 ids)"
      "p = cell (maxRankWidth rs) (rowWidth (length ids)) r i"
    by (auto simp: places_def)
  then show "\<exists>r i. r < length rs \<and> i < length (rs ! r) \<and> nid = rs ! r ! i
      \<and> p = cell (maxRankWidth rs) (rowWidth (length (rs ! r))) r i"
    by (intro exI [of _ r] exI [of _ i]) (auto simp: in_set_enumerate_eq)
next
  assume "\<exists>r i. r < length rs \<and> i < length (rs ! r) \<and> nid = rs ! r ! i
      \<and> p = cell (maxRankWidth rs) (rowWidth (length (rs ! r))) r i"
  then obtain r i where ri: "r < length rs" "i < length (rs ! r)" "nid = rs ! r ! i"
      "p = cell (maxRankWidth rs) (rowWidth (length (rs ! r))) r i" by blast
  then have "(r, rs ! r) \<in> set (enumerate 0 rs)" "(i, nid) \<in> set (enumerate 0 (rs ! r))"
    by (auto simp: in_set_enumerate_eq)
  then show "(nid, p) \<in> set (places rs)" unfolding places_def ri(4) by (force simp: ri(4))
qed

lemma rowWidth_mono: "m \<le> n \<Longrightarrow> rowWidth m \<le> rowWidth n"
  by (auto simp: rowWidth_def graph_sizes)

lemma maxRankWidth_conv: "maxRankWidth rs = Max (set (0 # map (\<lambda>ids. rowWidth (length ids)) rs))"
  unfolding maxRankWidth_def Let_def by (rule fold_max)

lemma row_fits: "r < length rs \<Longrightarrow> rowWidth (length (rs ! r)) \<le> maxRankWidth rs"
  unfolding maxRankWidth_conv by (intro Max_ge) auto

lemma layout_places: "map_of (fst (layout g)) nid = Some p \<Longrightarrow> (nid, p) \<in> set (places (ranks g))"
  by (auto simp: layout_def Let_def dest!: map_of_SomeD)

lemma node_placed:
  assumes "n \<in> set (wg_nodes g)"
  shows "\<exists>p. map_of (fst (layout g)) (wn_id n) = Some p"
proof -
  from in_row [OF assms] obtain i where "i < length (ranks g ! rank_get (node_ranks g) (wn_id n))"
      "ranks g ! rank_get (node_ranks g) (wn_id n) ! i = wn_id n" by (metis in_set_conv_nth)
  with in_row(1) [OF assms] have "\<exists>p. (wn_id n, p) \<in> set (places (ranks g))"
    unfolding places_iff by metis
  then have "wn_id n \<in> fst ` set (fst (layout g))" by (force simp: layout_def Let_def)
  then show ?thesis by (metis map_of_eq_None_iff not_None_eq)
qed

text \<open>Where a placed box is: on the row of its rank, inside the margins.\<close>

lemma placed_at:
  assumes "map_of (fst (layout g)) nid = Some p"
  obtains r i where "r < length (ranks g)" "i < length (ranks g ! r)" "nid = ranks g ! r ! i"
    "r = rank_get (node_ranks g) nid"
    "p = cell (maxRankWidth (ranks g)) (rowWidth (length (ranks g ! r))) r i"
proof -
  from layout_places [OF assms] obtain r i where "r < length (ranks g)" "i < length (ranks g ! r)"
      "nid = ranks g ! r ! i" "p = cell (maxRankWidth (ranks g)) (rowWidth (length (ranks g ! r))) r i"
    unfolding places_iff by blast
  moreover from this row_members [of r g nid] have "r = rank_get (node_ranks g) nid" by simp
  ultimately show thesis using that by blast
qed

definition apart :: "point \<Rightarrow> point \<Rightarrow> bool" where
  "apart p q \<longleftrightarrow>
     px p + gNodeW + gHGap \<le> px q \<or> px q + gNodeW + gHGap \<le> px p
     \<or> py p + gVGap \<le> py q \<or> py q + gVGap \<le> py p"

lemma cells_apart:
  assumes "r \<noteq> r' \<or> (i \<noteq> j \<and> w = w')"
  shows "apart (cell m w r i) (cell m w' r' j)"
proof (cases "r = r'")
  case True
  with assms have "w = w'" "i \<noteq> j" by auto
  then show ?thesis using True by (cases "i < j") (auto simp: apart_def cell_def graph_sizes)
next
  case False
  then show ?thesis by (cases "r < r'") (auto simp: apart_def cell_def graph_sizes)
qed

lemma boxes_apart:
  assumes "map_of (fst (layout g)) a = Some p" "map_of (fst (layout g)) b = Some q" "a \<noteq> b"
  shows "apart p q"
proof -
  from placed_at [OF assms(1)] obtain r i where a: "r < length (ranks g)" "i < length (ranks g ! r)"
      "a = ranks g ! r ! i" "p = cell (maxRankWidth (ranks g)) (rowWidth (length (ranks g ! r))) r i" by metis
  from placed_at [OF assms(2)] obtain r' j where b: "r' < length (ranks g)" "j < length (ranks g ! r')"
      "b = ranks g ! r' ! j" "q = cell (maxRankWidth (ranks g)) (rowWidth (length (ranks g ! r'))) r' j" by metis
  have "r \<noteq> r' \<or> (i \<noteq> j \<and> rowWidth (length (ranks g ! r)) = rowWidth (length (ranks g ! r')))"
    using assms(3) a(3) b(3) by auto
  then show ?thesis unfolding a(4) b(4) by (rule cells_apart)
qed

lemma box_inside:
  assumes "map_of (fst (layout g)) nid = Some p"
  shows "gPad \<le> px p" "px p + gNodeW + gPad \<le> gPad * 2 + maxRankWidth (ranks g)"
    "gPad \<le> py p" "py p + gNodeH + gPad \<le> gPad * 2 + length (ranks g) * gNodeH + (length (ranks g) - 1) * (gVGap - gNodeH)"
proof -
  from placed_at [OF assms] obtain r i where a: "r < length (ranks g)" "i < length (ranks g ! r)"
      "p = cell (maxRankWidth (ranks g)) (rowWidth (length (ranks g ! r))) r i" by metis
  have fits: "rowWidth (length (ranks g ! r)) \<le> maxRankWidth (ranks g)" by (rule row_fits [OF a(1)])
  have "rowWidth (Suc i) \<le> rowWidth (length (ranks g ! r))" using a(2) by (intro rowWidth_mono) simp
  then have "i * (gNodeW + gHGap) + gNodeW \<le> rowWidth (length (ranks g ! r))"
    by (simp add: rowWidth_def algebra_simps)
  with fits show "px p + gNodeW + gPad \<le> gPad * 2 + maxRankWidth (ranks g)"
    unfolding a(3) by (simp add: cell_def)
  show "gPad \<le> px p" "gPad \<le> py p" by (simp_all add: a(3) cell_def)
  obtain k where "length (ranks g) = Suc (r + k)" using a(1) less_imp_Suc_add by auto
  then show "py p + gNodeH + gPad \<le> gPad * 2 + length (ranks g) * gNodeH + (length (ranks g) - 1) * (gVGap - gNodeH)"
    by (simp add: a(3) cell_def graph_sizes)
qed

definition cycle_graph :: WorkflowGraph where
  "cycle_graph =
     (let node = (\<lambda>n. \<lparr>wn_id = n, wn_label = n, wn_note = [], wn_kind = NodeStep, wn_tags = [], wn_href = []\<rparr>);
          edge = (\<lambda>a b. \<lparr>we_from = a, we_to = b, we_label = [], we_style = EdgeSolid, we_note = []\<rparr>) in
      \<lparr>wg_title = ''cycle'', wg_entry = ''a'', wg_nodes = map node [''a'', ''b'', ''c'', ''lost''],
       wg_edges = [edge ''a'' ''b'', edge ''b'' ''c'', edge ''c'' ''a'', edge ''b'' ''gone''], wg_legend = []\<rparr>)"

subsection \<open>Rows are distances\<close>

lemma orphans_keep: "map_of rank v = Some d \<Longrightarrow> map_of (fold (add_orphan row) ns rank) v = Some d"
proof (induction ns arbitrary: rank)
  case (Cons m ns)
  from Cons.prems have "map_of (add_orphan row m rank) v = Some d" by (auto simp: add_orphan_def)
  with Cons.IH show ?case by simp
qed simp

lemma orphans_add:
  "map_of rank (wn_id n) = None \<Longrightarrow> n \<in> set ns \<Longrightarrow> map_of (fold (add_orphan row) ns rank) (wn_id n) = Some row"
proof (induction ns arbitrary: rank)
  case (Cons m ns)
  show ?case
  proof (cases "wn_id m = wn_id n")
    case True
    with Cons.prems have "map_of (add_orphan row m rank) (wn_id n) = Some row" by (simp add: add_orphan_def)
    then show ?thesis by (simp add: orphans_keep)
  next
    case False
    with Cons.prems have "map_of (add_orphan row m rank) (wn_id n) = None" "n \<in> set ns" by (auto simp: add_orphan_def)
    with Cons.IH show ?thesis by simp
  qed
qed simp

lemma node_ranks_get:
  assumes "n \<in> set (wg_nodes g)"
  shows "rank_get (node_ranks g) (wn_id n) =
     (case map_of (bfs_ranks g) (wn_id n) of Some d \<Rightarrow> d | None \<Rightarrow> Suc (Max (set (0 # map snd (bfs_ranks g)))))"
proof -
  have m: "fold (\<lambda>(_, r) m. if r > m then r else m) (bfs_ranks g) 0 = Max (set (0 # map snd (bfs_ranks g)))"
    using fold_max [of snd "bfs_ranks g" 0] by (simp add: case_prod_beta')
  show ?thesis
    unfolding node_ranks_def Let_def m rank_get_def
    using orphans_keep orphans_add assms by (auto split: option.splits)
qed

lemma bfs_max: "map_of (bfs_ranks g) v = Some d \<Longrightarrow> d \<le> Max (set (0 # map snd (bfs_ranks g)))"
  by (intro Max_ge) (auto dest!: map_of_SomeD intro: rev_image_eqI)

text \<open>C17: The row of a node is its distance from where the workflow starts: a node that the shortest path
  from the entry reaches in \<open>d\<close> arrows is drawn on row \<open>d\<close>, and a node no path reaches is drawn below
  every node one reaches.
\<close>

theorem the_rows_are_distances:
  assumes "start_id g \<noteq> []" "n \<in> set (wg_nodes g)" "map_of (fst (layout g)) (wn_id n) = Some p"
  shows "(steps_to (wg_edges g) (start_id g) d (wn_id n) \<and> (\<forall>d'. steps_to (wg_edges g) (start_id g) d' (wn_id n) \<longrightarrow> d \<le> d')
      \<longrightarrow> py p = gPad + d * gVGap)
    \<and> ((\<forall>d'. \<not> steps_to (wg_edges g) (start_id g) d' (wn_id n)) \<longrightarrow>
        (\<forall>m \<in> set (wg_nodes g). \<forall>q d'. steps_to (wg_edges g) (start_id g) d' (wn_id m) \<longrightarrow>
           map_of (fst (layout g)) (wn_id m) = Some q \<longrightarrow> py q < py p))"
proof -
  have row: "py q = gPad + rank_get (node_ranks g) (wn_id m) * gVGap"
    if "map_of (fst (layout g)) (wn_id m) = Some q" for m q
    using placed_at [OF that] by (metis cell_def point.select_convs(2))
  have near: "py q = gPad + d * gVGap" if "m \<in> set (wg_nodes g)" "map_of (fst (layout g)) (wn_id m) = Some q"
      "map_of (bfs_ranks g) (wn_id m) = Some d" for m q d
    using row [OF that(2)] node_ranks_get [OF that(1)] that(3) by simp
  have found: "\<exists>d. map_of (bfs_ranks g) v = Some d" if "steps_to (wg_edges g) (start_id g) d' v" for v d'
    using ranked_targets [OF bfs_ranks_inv [OF assms(1)] that] by blast
  show ?thesis
  proof (intro conjI impI ballI allI)
    assume "steps_to (wg_edges g) (start_id g) d (wn_id n) \<and> (\<forall>d'. steps_to (wg_edges g) (start_id g) d' (wn_id n) \<longrightarrow> d \<le> d')"
    then show "py p = gPad + d * gVGap" using bfs_ranks_dist [OF assms(1)] near [OF assms(2,3)] by blast
  next
    fix m q d'
    assume none: "\<forall>d'. \<not> steps_to (wg_edges g) (start_id g) d' (wn_id n)"
      and m: "m \<in> set (wg_nodes g)" "steps_to (wg_edges g) (start_id g) d' (wn_id m)" "map_of (fst (layout g)) (wn_id m) = Some q"
    from found [OF m(2)] obtain e where e: "map_of (bfs_ranks g) (wn_id m) = Some e" by blast
    have "map_of (bfs_ranks g) (wn_id n) = None" using none bfs_ranks_dist [OF assms(1)] by (metis not_None_eq)
    then have "rank_get (node_ranks g) (wn_id n) > e" using node_ranks_get [OF assms(2)] bfs_max [OF e] by simp
    then show "py q < py p" using row [OF assms(3)] near [OF m(1,3) e] by (simp add: gVGap_def)
  qed
qed

theorem the_rows_are_distances_witness:
  "\<exists>p q. map_of (fst (layout cycle_graph)) ''lost'' = Some p \<and> map_of (fst (layout cycle_graph)) ''a'' = Some q
     \<and> ((\<forall>d'. \<not> steps_to (wg_edges cycle_graph) (start_id cycle_graph) d' ''lost'') \<longrightarrow> py q < py p)"
proof -
  have at: "map_of (fst (layout cycle_graph)) ''a'' \<noteq> None \<and> map_of (fst (layout cycle_graph)) ''lost'' \<noteq> None" by code_simp
  then obtain p q where pq: "map_of (fst (layout cycle_graph)) ''lost'' = Some p" "map_of (fst (layout cycle_graph)) ''a'' = Some q"
    by blast
  let ?lost = "wg_nodes cycle_graph ! 3" and ?a = "wg_nodes cycle_graph ! 0"
  have s: "start_id cycle_graph = ''a''" and n: "?lost \<in> set (wg_nodes cycle_graph)" "?a \<in> set (wg_nodes cycle_graph)"
      "wn_id ?lost = ''lost''" "wn_id ?a = ''a''"
    by (simp_all add: cycle_graph_def start_id_def Let_def)
  have "steps_to (wg_edges cycle_graph) (start_id cycle_graph) 0 (wn_id ?a)" using s n(4) by (simp add: steps_start)
  moreover have "map_of (fst (layout cycle_graph)) (wn_id ?lost) = Some p" "map_of (fst (layout cycle_graph)) (wn_id ?a) = Some q"
    using pq n by simp_all
  moreover have "start_id cycle_graph \<noteq> []" using s by simp
  ultimately have "(\<forall>d'. \<not> steps_to (wg_edges cycle_graph) (start_id cycle_graph) d' ''lost'') \<longrightarrow> py q < py p"
    using the_rows_are_distances [of cycle_graph ?lost p] n by metis
  with pq show ?thesis by blast
qed

end
