(* ===== verification/WorkflowSVG.thy ===== *)
theory WorkflowSVG
  imports WorkflowGraph MachineModel
begin

text \<open>
  Drawing a workflow graph as an SVG document (core/workflow_graph.go): \<open>xmlEscape\<close>, \<open>gTrunc\<close>,
  \<open>nodeSVG\<close>, \<open>edgeSVG\<close>, \<open>SVG\<close>, to the byte. \<open>runes\<close> is Go's decoding of a string into runes,
  a byte that starts no valid one becoming the replacement character.

  A small acceptor of XML reads the output byte by byte: one root, tags closed by their own names,
  attributes quoted and not repeated, UTF-8 that spells characters XML admits. The picture of every
  graph whose texts spell such characters is a document in it: no text reaches the markup. A control
  byte in a text does reach the document, which is then not XML.
\<close>

section \<open>Runes\<close>

text \<open>What may follow a lead byte: the ranges \<open>unicode/utf8\<close> admits.\<close>

definition rune_tail :: "nat \<Rightarrow> (nat \<times> nat) list option" where
  "rune_tail b =
     (if 0xC2 \<le> b \<and> b \<le> 0xDF then Some [(0x80, 0xBF)]
      else if b = 0xE0 then Some [(0xA0, 0xBF), (0x80, 0xBF)]
      else if b = 0xED then Some [(0x80, 0x9F), (0x80, 0xBF)]
      else if 0xE1 \<le> b \<and> b \<le> 0xEF then Some [(0x80, 0xBF), (0x80, 0xBF)]
      else if b = 0xF0 then Some [(0x90, 0xBF), (0x80, 0xBF), (0x80, 0xBF)]
      else if 0xF1 \<le> b \<and> b \<le> 0xF3 then Some [(0x80, 0xBF), (0x80, 0xBF), (0x80, 0xBF)]
      else if b = 0xF4 then Some [(0x80, 0x8F), (0x80, 0xBF), (0x80, 0xBF)]
      else None)"

fun in_ranges :: "(nat \<times> nat) list \<Rightarrow> string \<Rightarrow> bool" where
  "in_ranges [] s = True"
| "in_ranges (r # rs) [] = False"
| "in_ranges ((lo, hi) # rs) (c # s) \<longleftrightarrow> lo \<le> of_char c \<and> of_char c \<le> hi \<and> in_ranges rs s"

definition replacement_rune :: string where
  "replacement_rune = [CHR 0xEF, CHR 0xBF, CHR 0xBD]"

function runes :: "string \<Rightarrow> string list" where
  "runes [] = []"
| "runes (c # s) =
     (if (of_char c :: nat) < 0x80 then [c] # runes s
      else case rune_tail (of_char c) of
          None \<Rightarrow> replacement_rune # runes s
        | Some rs \<Rightarrow>
            (if in_ranges rs s then (c # take (length rs) s) # runes (drop (length rs) s)
             else replacement_rune # runes s))"
  by pat_completeness auto
termination by (relation "measure length") auto

section \<open>Small helpers\<close>

definition maxInt :: "nat \<Rightarrow> nat \<Rightarrow> nat" where
  "maxInt a b = (if a > b then a else b)"

lemma maxInt_0: "maxInt a 0 = a"
  by (simp add: maxInt_def)

definition tagSuffix :: "string list \<Rightarrow> string" where
  "tagSuffix tags = (if tags = [] then [] else '' ('' @ join '', '' tags @ '')'')"

definition noteSuffix :: "string \<Rightarrow> string" where
  "noteSuffix note = (if note = [] then [] else '' - '' @ note)"

definition gTrunc :: "string \<Rightarrow> nat \<Rightarrow> string" where
  "gTrunc s0 m =
     (let s = trim_space s0; r = runes s in
      if length r \<le> m then s
      else if m < 2 then concat (take m r)
      else trim_right ['' ''] (concat (take (m - 1) r)) @ ellipsis)"

fun escape_char :: "char \<Rightarrow> string" where
  "escape_char c =
     (if c = CHR ''&'' then ''&amp;''
      else if c = CHR ''<'' then ''&lt;''
      else if c = CHR ''>'' then ''&gt;''
      else if c = CHR 0x22 then ''&quot;''
      else if c = CHR 0x27 then ''&apos;''
      else [c])"

definition xmlEscape :: "string \<Rightarrow> string" where
  "xmlEscape s = concat (map escape_char s)"

definition times_sign :: string where
  "times_sign = [CHR 0xC3, CHR 0x97]"

section \<open>Drawing\<close>

definition nodeSVG :: "WorkflowNode \<Rightarrow> point \<Rightarrow> WorkflowOverlay option \<Rightarrow> string" where
  \<open>nodeSVG n p overlay =
     (let current = (case overlay of None \<Rightarrow> False | Some ov \<Rightarrow> ov_current ov = wn_id n);
          strokeW = (if current then ''3'' else if wn_kind n \<in> {NodeRest, NodeExit, NodeEntry} then ''2'' else ''1'');
          stroke = (if current \<or> wn_kind n = NodeEntry then ''var(--accent,#6366f1)'' else ''var(--border,#d4d4d8)'');
          fill = (if current then ''var(--accent-soft,rgba(99,102,241,0.10))'' else ''var(--surface,#ffffff)'');
          tx = px p + 12;
          b = ''<g data-node="'' @ xmlEscape (wn_id n) @ ''">''
            @ ''<rect x="'' @ itoa (px p) @ ''" y="'' @ itoa (py p) @ ''" width="'' @ itoa gNodeW
            @ ''" height="'' @ itoa gNodeH @ ''" rx="7" fill="'' @ fill @ ''" stroke="'' @ stroke
            @ ''" stroke-width="'' @ strokeW @ ''"/>''
            @ (if wn_note n \<noteq> [] \<or> wn_tags n \<noteq> []
               then ''<title>'' @ xmlEscape (wn_label n @ tagSuffix (wn_tags n) @ noteSuffix (wn_note n)) @ ''</title>''
               else [])
            @ ''<text x="'' @ itoa tx @ ''" y="'' @ itoa (py p + 22)
            @ ''" font-size="12.5" font-weight="600" fill="var(--text,#18181b)">''
            @ xmlEscape (gTrunc (wn_label n) gLabelC) @ ''</text>''
            @ (if wn_note n \<noteq> []
               then ''<text x="'' @ itoa tx @ ''" y="'' @ itoa (py p + 38)
                 @ ''" font-size="10.5" fill="var(--text-mute,#71717a)">''
                 @ xmlEscape (gTrunc (wn_note n) gNoteC) @ ''</text>''
               else [])
            @ (if wn_tags n \<noteq> []
               then ''<text x="'' @ itoa tx @ ''" y="'' @ itoa (py p + 51)
                 @ ''" font-size="9.5" fill="var(--text-mute,#71717a)">''
                 @ xmlEscape (gTrunc (join '' - '' (wn_tags n)) gNoteC) @ ''</text>''
               else [])
            @ ''</g>''
      in if wn_href n \<noteq> [] then ''<a href="'' @ xmlEscape (wn_href n) @ ''" style="cursor:pointer">'' @ b @ ''</a>''
         else b)\<close>

definition edgeTitle :: "WorkflowEdge \<Rightarrow> nat \<Rightarrow> string" where
  "edgeTitle e fired =
     join '' - ''
       ((if we_note e \<noteq> [] then [we_note e] else [])
        @ (if fired = 1 then [''taken once in this conversation'']
           else if fired > 1 then [''taken '' @ itoa fired @ '' times in this conversation'']
           else []))"

definition times_fired :: "WorkflowOverlay option \<Rightarrow> WorkflowEdge \<Rightarrow> nat" where
  "times_fired overlay e =
     (case overlay of None \<Rightarrow> 0
      | Some ov \<Rightarrow> (case map_of (ov_fired ov) (EdgeKey (we_from e) (we_to e)) of None \<Rightarrow> 0 | Some k \<Rightarrow> k))"

text \<open>The route of an arrow, and where its label goes: chosen from the two boxes' places.\<close>

definition edge_route :: "WorkflowEdge \<Rightarrow> point \<Rightarrow> point \<Rightarrow> string \<times> nat \<times> nat" where
  "edge_route e from to =
     (if we_from e = we_to e then
        (let cx = px from + gNodeW - 17; cy = py from + 15 in
         (''M'' @ itoa (cx - 6) @ '' '' @ itoa (cy + 3) @ '' A 6 6 0 1 1 '' @ itoa (cx + 2) @ '' '' @ itoa (cy + 5), 0, 0))
      else if py to > py from then
        (let x1 = px from + gNodeW div 2; y1 = py from + gNodeH; x2 = px to + gNodeW div 2; y2 = py to;
             mid = (y1 + y2) div 2 in
         (''M'' @ itoa x1 @ '' '' @ itoa y1 @ '' C'' @ itoa x1 @ '' '' @ itoa mid @ '' '' @ itoa x2 @ '' ''
            @ itoa mid @ '' '' @ itoa x2 @ '' '' @ itoa y2, (x1 + x2) div 2 + 6, mid))
      else
        (let x1 = px from + gNodeW; y1 = py from + gNodeH div 2; x2 = px to + gNodeW; y2 = py to + gNodeH div 2;
             bow = maxInt x1 x2 + 38 in
         (''M'' @ itoa x1 @ '' '' @ itoa y1 @ '' C'' @ itoa bow @ '' '' @ itoa y1 @ '' '' @ itoa bow @ '' ''
            @ itoa y2 @ '' '' @ itoa x2 @ '' '' @ itoa y2, bow - 4, (y1 + y2) div 2 + 13)))"

definition edge_label :: "WorkflowEdge \<Rightarrow> nat \<Rightarrow> string" where
  "edge_label e fired =
     (if we_from e = we_to e then []
      else if fired > 1 then chooseStr (we_label e) ''taken'' @ '' '' @ times_sign @ itoa fired
      else we_label e)"

definition edgeSVG :: "WorkflowEdge \<Rightarrow> point \<Rightarrow> point \<Rightarrow> WorkflowOverlay option \<Rightarrow> string" where
  \<open>edgeSVG e from to overlay =
     (let fired = times_fired overlay e;
          hot = (overlay \<noteq> None \<and> fired > 0);
          stroke = (if hot then ''var(--accent,#6366f1)'' else ''var(--border-strong,#a1a1aa)'');
          width = (if hot then ''2.2'' else ''1.4'');
          opacity = (if overlay \<noteq> None then (if fired > 0 then ''1'' else ''0.3'')
                     else if we_style e = EdgeDashed \<or> we_style e = EdgeBack then ''0.75'' else ''1'');
          dash = (if we_style e = EdgeDashed then '' stroke-dasharray="5 4"''
                  else if we_style e = EdgeBack then '' stroke-dasharray="2 4"'' else []);
          marker = (if fired > 0 then ''url(#wf-arrow-hot)'' else ''url(#wf-arrow)'');
          (d, lx, ly) = edge_route e from to;
          title = edgeTitle e fired;
          label = edge_label e fired
      in ''<path d="'' @ d @ ''" fill="none" stroke="'' @ stroke @ ''" stroke-width="'' @ width
         @ ''" opacity="'' @ opacity @ ''"'' @ dash @ '' marker-end="'' @ marker @ ''"/>''
         @ (if title \<noteq> [] then ''<title>'' @ xmlEscape title @ ''</title>'' else [])
         @ (if label \<noteq> []
            then ''<text x="'' @ itoa lx @ ''" y="'' @ itoa ly
              @ ''" font-size="9.5" fill="var(--text-mute,#71717a)" opacity="'' @ opacity @ ''">''
              @ xmlEscape (gTrunc label 22) @ ''</text>''
            else []))\<close>

definition svgDefs :: string where
  \<open>svgDefs = ''<defs>''
     @ ''<marker id="wf-arrow" viewBox="0 0 10 10" refX="9" refY="5" markerWidth="6" markerHeight="6" orient="auto-start-reverse">''
     @ ''<path d="M0 0 L10 5 L0 10 z" fill="var(--border-strong,#a1a1aa)"/></marker>''
     @ ''<marker id="wf-arrow-hot" viewBox="0 0 10 10" refX="9" refY="5" markerWidth="6" markerHeight="6" orient="auto-start-reverse">''
     @ ''<path d="M0 0 L10 5 L0 10 z" fill="var(--accent,#6366f1)"/></marker>''
     @ ''</defs>''\<close>

definition svg_width :: "WorkflowGraph \<Rightarrow> nat" where
  "svg_width g =
     (let (pos, rs) = layout g in
      gPad * 2 + maxRankWidth rs + (if hasBackEdge g pos then 46 else 0))"

definition svg_height :: "WorkflowGraph \<Rightarrow> nat" where
  "svg_height g =
     (let rs = snd (layout g);
          height = gPad * 2 + length rs * gNodeH + maxInt (length rs - 1) 0 * (gVGap - gNodeH) in
      if height < gNodeH + gPad * 2 then gNodeH + gPad * 2 else height)"

definition SVG :: "WorkflowGraph \<Rightarrow> WorkflowOverlay option \<Rightarrow> string" where
  \<open>SVG g overlay =
     (let pos = fst (layout g); width = svg_width g; height = svg_height g in
      ''<svg xmlns="http://www.w3.org/2000/svg" viewBox="0 0 '' @ itoa width @ '' '' @ itoa height
      @ ''" width="'' @ itoa width @ ''" height="'' @ itoa height
      @ ''" role="img" aria-label="'' @ xmlEscape (chooseStr (wg_title g) ''workflow'')
      @ ''" font-family="system-ui,-apple-system,Segoe UI,sans-serif">''
      @ svgDefs
      @ concat (map (\<lambda>e. case (map_of pos (we_from e), map_of pos (we_to e)) of
                    (Some from, Some to) \<Rightarrow> edgeSVG e from to overlay | _ \<Rightarrow> []) (wg_edges g))
      @ concat (map (\<lambda>n. case map_of pos (wn_id n) of Some p \<Rightarrow> nodeSVG n p overlay | None \<Rightarrow> []) (wg_nodes g))
      @ ''</svg>'')\<close>

section \<open>Boxes inside the picture\<close>

text \<open>C16: Every node of a picture has a box, inside the margins of the picture as it is drawn, and no two boxes
  touch: two nodes with different names are at least a column or a row apart, gap included. It holds for
  every graph, with cycles, orphans, arrows to nodes that are not there or an entry that is not a node.
\<close>

theorem every_node_has_a_box_of_its_own:
  "(\<forall>n \<in> set (wg_nodes g). \<exists>p. map_of (fst (layout g)) (wn_id n) = Some p
      \<and> gPad \<le> px p \<and> px p + gNodeW + gPad \<le> svg_width g
      \<and> gPad \<le> py p \<and> py p + gNodeH + gPad \<le> svg_height g)
   \<and> (\<forall>a b p q. map_of (fst (layout g)) a = Some p \<longrightarrow> map_of (fst (layout g)) b = Some q \<longrightarrow> a \<noteq> b \<longrightarrow> apart p q)"
proof (intro conjI ballI allI impI)
  fix n assume "n \<in> set (wg_nodes g)"
  then obtain p where p: "map_of (fst (layout g)) (wn_id n) = Some p" using node_placed by blast
  have l: "snd (layout g) = ranks g" by (simp add: layout_def Let_def)
  obtain pos rs where "layout g = (pos, rs)" by force
  then have "px p + gNodeW + gPad \<le> svg_width g"
    using box_inside(2) [OF p] l by (simp add: svg_width_def)
  moreover have "py p + gNodeH + gPad \<le> svg_height g"
    using box_inside(4) [OF p] l by (simp add: svg_height_def Let_def maxInt_0 del: One_nat_def)
  ultimately show "\<exists>p. map_of (fst (layout g)) (wn_id n) = Some p
      \<and> gPad \<le> px p \<and> px p + gNodeW + gPad \<le> svg_width g \<and> gPad \<le> py p \<and> py p + gNodeH + gPad \<le> svg_height g"
    using p box_inside(1,3) [OF p] by blast
qed (rule boxes_apart)

theorem every_node_has_a_box_of_its_own_witness:
  "apart (the (map_of (fst (layout cycle_graph)) ''a'')) (the (map_of (fst (layout cycle_graph)) ''lost''))"
proof -
  have "map_of (fst (layout cycle_graph)) ''a'' \<noteq> None \<and> map_of (fst (layout cycle_graph)) ''lost'' \<noteq> None" by code_simp
  then obtain p q where "map_of (fst (layout cycle_graph)) ''a'' = Some p" "map_of (fst (layout cycle_graph)) ''lost'' = Some q"
    by blast
  then show ?thesis using every_node_has_a_box_of_its_own [of cycle_graph] by auto
qed

section \<open>An acceptor of XML\<close>

text \<open>
  The state after a prefix of a document: the elements open around the reader, and what it is inside
  of, with the attributes the tag has had. The document is one element with nothing before or after it.
  Names are ASCII letters, attribute names may hold a dash; the five predefined entities are known, and
  a \<open>>\<close> in the text is written as one.
\<close>

datatype xml =
    Start
  | Ended
  | Txt "string list"
  | Tag "string list" string
  | Gap "string list" string "string list"
  | Att "string list" string "string list" string
  | Eql "string list" string "string list"
  | Val "string list" string "string list"
  | Quo "string list" string "string list"
  | Emp "string list"
  | Fin "string list" string
  | EntT "string list" string
  | EntV "string list" string "string list" string
  | Bad

definition letter :: "char \<Rightarrow> bool" where
  "letter c = (let n = (of_char c :: nat) in (65 \<le> n \<and> n \<le> 90) \<or> (97 \<le> n \<and> n \<le> 122))"

definition entities :: "string list" where
  "entities = [''amp'', ''lt'', ''gt'', ''quot'', ''apos'']"

definition outside :: "string list \<Rightarrow> xml" where
  "outside st = (if st = [] then Ended else Txt st)"

fun xml_step :: "xml \<Rightarrow> char \<Rightarrow> xml" where
  "xml_step Start c = (if c = CHR ''<'' then Tag [] [] else Bad)"
| "xml_step (Txt st) c =
     (if c = CHR ''<'' then Tag st [] else if c = CHR ''>'' then Bad
      else if c = CHR ''&'' then EntT st [] else Txt st)"
| "xml_step (Tag st n) c =
     (if letter c then Tag st (n @ [c])
      else if n = [] then (if c = CHR ''/'' then Fin st [] else Bad)
      else if c = CHR '' '' then Gap st n []
      else if c = CHR ''>'' then Txt (n # st)
      else if c = CHR ''/'' then Emp st else Bad)"
| "xml_step (Gap st n as) c = (if letter c then Att st n as [c] else Bad)"
| "xml_step (Att st n as a) c =
     (if letter c \<or> c = CHR ''-'' then Att st n as (a @ [c])
      else if c = CHR ''='' \<and> a \<notin> set as then Eql st n (a # as) else Bad)"
| "xml_step (Eql st n as) c = (if c = CHR 0x22 then Val st n as else Bad)"
| "xml_step (Val st n as) c =
     (if c = CHR 0x22 then Quo st n as else if c = CHR ''<'' then Bad
      else if c = CHR ''&'' then EntV st n as [] else Val st n as)"
| "xml_step (Quo st n as) c =
     (if c = CHR '' '' then Gap st n as else if c = CHR ''>'' then Txt (n # st)
      else if c = CHR ''/'' then Emp st else Bad)"
| "xml_step (Emp st) c = (if c = CHR ''>'' then outside st else Bad)"
| "xml_step (Fin st n) c =
     (if letter c then Fin st (n @ [c])
      else if c = CHR ''>'' \<and> st \<noteq> [] \<and> hd st = n then outside (tl st) else Bad)"
| "xml_step (EntT st a) c =
     (if letter c then EntT st (a @ [c]) else if c = CHR '';'' \<and> a \<in> set entities then Txt st else Bad)"
| "xml_step (EntV st n as a) c =
     (if letter c then EntV st n as (a @ [c]) else if c = CHR '';'' \<and> a \<in> set entities then Val st n as else Bad)"
| "xml_step Ended c = Bad"
| "xml_step Bad c = Bad"

definition xml_read :: "xml \<Rightarrow> string \<Rightarrow> xml" where
  "xml_read = foldl xml_step"

text \<open>
  The characters XML admits: of the control characters only tab, line feed and carriage return, no
  surrogates, not U+FFFE and not U+FFFF. A text of them is its own runes, so it is UTF-8.
\<close>

definition xml_char :: "string \<Rightarrow> bool" where
  "xml_char r \<longleftrightarrow>
     (case r of
        [c] \<Rightarrow> 0x20 \<le> (of_char c :: nat) \<or> (of_char c :: nat) \<in> {0x09, 0x0A, 0x0D}
      | _ \<Rightarrow> r \<noteq> [CHR 0xEF, CHR 0xBF, CHR 0xBE] \<and> r \<noteq> [CHR 0xEF, CHR 0xBF, CHR 0xBF])"

definition xml_text :: "string \<Rightarrow> bool" where
  "xml_text s \<longleftrightarrow> concat (runes s) = s \<and> list_all xml_char (runes s)"

definition well_formed :: "string \<Rightarrow> bool" where
  "well_formed s \<longleftrightarrow> xml_text s \<and> xml_read Start s = Ended"

lemma xml_read_append [simp]: "xml_read x (s @ t) = xml_read (xml_read x s) t"
  by (simp add: xml_read_def)

lemma xml_read_Nil [simp]: "xml_read x [] = x"
  by (simp add: xml_read_def)

lemma xml_read_Cons: "xml_read x (c # s) = xml_read (xml_step x c) s"
  by (simp add: xml_read_def)

lemmas xml_lit = xml_read_Cons letter_def entities_def outside_def

text \<open>A stretch that leaves the reader where it was.\<close>

definition inert :: "xml \<Rightarrow> string \<Rightarrow> bool" where
  "inert x s \<longleftrightarrow> xml_read x s = x"

lemma inert_append: "inert x s \<Longrightarrow> inert x t \<Longrightarrow> inert x (s @ t)"
  by (simp add: inert_def)

lemma inert_concat: "(\<And>s. s \<in> set ss \<Longrightarrow> inert x s) \<Longrightarrow> inert x (concat ss)"
  by (induction ss) (auto simp: inert_def)

lemma escape_in_text: "st \<noteq> [] \<Longrightarrow> xml_read (Txt st) (xmlEscape s) = Txt st"
proof (induction s)
  case (Cons c s)
  have "xml_read (Txt st) (escape_char c) = Txt st" using Cons.prems by (simp add: xml_lit)
  with Cons show ?case by (simp add: xmlEscape_def)
qed (simp add: xmlEscape_def)

lemma escape_in_value [simp]: "xml_read (Val st n as) (xmlEscape s) = Val st n as"
proof (induction s)
  case (Cons c s)
  have "xml_read (Val st n as) (escape_char c) = Val st n as" by (simp add: xml_lit)
  with Cons show ?case by (simp add: xmlEscape_def)
qed (simp add: xmlEscape_def)

lemma plain_in_value:
  "CHR 0x22 \<notin> set s \<Longrightarrow> CHR ''<'' \<notin> set s \<Longrightarrow> CHR ''&'' \<notin> set s \<Longrightarrow> xml_read (Val st n as) s = Val st n as"
  by (induction s) (auto simp: xml_read_Cons)

lemma itoa_codes: "c \<in> set (itoa n) \<Longrightarrow> 48 \<le> (of_char c :: nat) \<and> (of_char c :: nat) \<le> 57"
proof (induction n rule: itoa.induct)
  case (1 n)
  have "48 \<le> (of_char (digit (n mod 10)) :: nat) \<and> (of_char (digit (n mod 10)) :: nat) \<le> 57"
    by (simp add: digit_value)
  moreover have "n < 10 \<Longrightarrow> 48 \<le> (of_char (digit n) :: nat) \<and> (of_char (digit n) :: nat) \<le> 57"
    by (simp add: digit_value)
  ultimately show ?case using 1 by (auto simp: itoa.simps [of n] split: if_splits)
qed

lemma itoa_plain: "CHR 0x22 \<notin> set (itoa n)" "CHR ''<'' \<notin> set (itoa n)" "CHR ''&'' \<notin> set (itoa n)"
  using itoa_codes [of _ n] by fastforce+

lemma itoa_in_value [simp]: "xml_read (Val st n as) (itoa k) = Val st n as"
  by (intro plain_in_value itoa_plain)

lemma svgDefs_reads: "st \<noteq> [] \<Longrightarrow> xml_read (Txt st) svgDefs = Txt st"
  by (simp add: svgDefs_def xml_lit)

lemma node_reads:
  assumes "st \<noteq> []"
  shows "xml_read (Txt st) (nodeSVG n p overlay) = Txt st"
  using assms by (simp add: nodeSVG_def Let_def xml_lit escape_in_text if_distrib [of "xml_read _"] cong: if_cong)

lemma route_plain:
  "xml_read (Val st n as) (fst (edge_route e from to)) = Val st n as"
  by (intro plain_in_value) (auto simp: edge_route_def Let_def itoa_plain)

lemma edge_reads:
  assumes "st \<noteq> []"
  shows "xml_read (Txt st) (edgeSVG e from to overlay) = Txt st"
proof -
  obtain d lx ly where r: "edge_route e from to = (d, lx, ly)" by (metis prod_cases3)
  then have "xml_read (Val s n as) d = Val s n as" for s n as by (metis route_plain fst_conv)
  then show ?thesis using assms
    by (cases "we_style e = EdgeDashed"; cases "we_style e = EdgeBack")
      (simp_all add: edgeSVG_def r Let_def xml_lit escape_in_text if_distrib [of "xml_read _"] cong: if_cong)
qed

section \<open>Texts of runes\<close>

definition valid_rune :: "string \<Rightarrow> bool" where
  "valid_rune r \<longleftrightarrow>
     (case r of [] \<Rightarrow> False
      | c # t \<Rightarrow>
          if (of_char c :: nat) < 0x80 then t = []
          else case rune_tail (of_char c) of None \<Rightarrow> False | Some rs \<Rightarrow> length t = length rs \<and> in_ranges rs t)"

lemma in_ranges_take: "in_ranges rs s \<Longrightarrow> in_ranges rs (take (length rs) s) \<and> length rs \<le> length s"
  by (induction rs s rule: in_ranges.induct) auto

lemma in_ranges_append: "in_ranges rs s \<Longrightarrow> in_ranges rs (s @ t)"
  by (induction rs s rule: in_ranges.induct) auto

lemma replacement_valid: "valid_rune replacement_rune"
  by (simp add: valid_rune_def replacement_rune_def rune_tail_def)

lemma ascii_valid: "(of_char c :: nat) < 0x80 \<Longrightarrow> valid_rune [c]"
  by (simp add: valid_rune_def)

lemma runes_valid: "r \<in> set (runes s) \<Longrightarrow> valid_rune r"
proof (induction s rule: runes.induct)
  case (2 c s)
  show ?case
  proof (cases "(of_char c :: nat) < 0x80")
    case True
    with 2 show ?thesis by (auto simp: ascii_valid)
  next
    case False
    show ?thesis
    proof (cases "rune_tail (of_char c)")
      case None
      with 2 False show ?thesis by (auto simp: replacement_valid)
    next
      case (Some rs)
      have "valid_rune (c # take (length rs) s)" if "in_ranges rs s"
        using in_ranges_take [OF that] Some False by (simp add: valid_rune_def)
      with 2 False Some show ?thesis by (cases "in_ranges rs s") (auto simp: replacement_valid)
    qed
  qed
qed simp

lemma runes_append: "valid_rune r \<Longrightarrow> runes (r @ s) = r # runes s"
proof -
  assume v: "valid_rune r"
  then obtain c t where r: "r = c # t" by (cases r) (auto simp: valid_rune_def)
  show ?thesis
  proof (cases "(of_char c :: nat) < 0x80")
    case True
    with v show ?thesis by (auto simp: r valid_rune_def)
  next
    case False
    with v obtain rs where "rune_tail (of_char c) = Some rs" "length t = length rs" "in_ranges rs t"
      by (auto simp: r valid_rune_def split: option.splits)
    with False show ?thesis by (simp add: r in_ranges_append)
  qed
qed

lemma runes_concat: "\<forall>r \<in> set rs. valid_rune r \<Longrightarrow> runes (concat rs @ s) = rs @ runes s"
  by (induction rs) (auto simp: runes_append)

lemma runes_concat_id: "\<forall>r \<in> set rs. valid_rune r \<Longrightarrow> runes (concat rs) = rs"
  using runes_concat [of rs "[]"] by simp

lemma in_ranges_high: "in_ranges rs s \<Longrightarrow> length s = length rs \<Longrightarrow> \<forall>(lo, hi) \<in> set rs. 0x80 \<le> lo \<Longrightarrow>
    c \<in> set s \<Longrightarrow> 0x80 \<le> (of_char c :: nat)"
  by (induction rs s rule: in_ranges.induct) auto

lemma rune_tail_high: "rune_tail b = Some rs \<Longrightarrow> \<forall>(lo, hi) \<in> set rs. 0x80 \<le> lo"
  by (auto simp: rune_tail_def split: if_splits)

text \<open>A space at the end of a valid rune is the whole rune.\<close>

lemma rune_space: "valid_rune r \<Longrightarrow> r \<noteq> [] \<Longrightarrow> last r = CHR '' '' \<Longrightarrow> r = '' ''"
proof -
  assume v: "valid_rune r" and "r \<noteq> []" and l: "last r = CHR '' ''"
  then obtain c t where r: "r = c # t" by (cases r) auto
  show ?thesis
  proof (cases "t = []")
    case True with l r show ?thesis by simp
  next
    case False
    with v obtain rs where rs: "rune_tail (of_char c) = Some rs" "length t = length rs" "in_ranges rs t"
      by (auto simp: r valid_rune_def split: option.splits if_splits)
    from in_ranges_high [OF rs(3,2) rune_tail_high [OF rs(1)], of "last t"] False
    have "0x80 \<le> (of_char (last t) :: nat)" by simp
    with l False show ?thesis by (simp add: r)
  qed
qed

lemma strip_one_space: "strip ['' ''] (c # s) = (if c = CHR '' '' then strip ['' ''] s else c # s)"
  by (subst strip.simps) (simp add: has_prefix_def)

lemma trim_right_space_Nil [simp]: "trim_right ['' ''] [] = []"
  by (simp add: trim_right_def) (subst strip.simps, simp add: has_prefix_def)

lemma trim_right_space_snoc:
  "trim_right ['' ''] (s @ [c]) = (if c = CHR '' '' then trim_right ['' ''] s else s @ [c])"
  by (simp add: trim_right_def strip_one_space)

lemma trim_right_runes:
  "\<forall>r \<in> set rs. valid_rune r \<Longrightarrow> \<exists>k \<le> length rs. trim_right ['' ''] (concat rs) = concat (take k rs)"
proof (induction rs rule: rev_induct)
  case (snoc r rs)
  then have v: "valid_rune r" by simp
  then obtain t c where r: "r = t @ [c]" by (cases r rule: rev_cases) (auto simp: valid_rune_def)
  show ?case
  proof (cases "c = CHR '' ''")
    case True
    with rune_space [OF v] r have "t = []" by auto
    with True r have "trim_right ['' ''] (concat (rs @ [r])) = trim_right ['' ''] (concat rs)"
      by (simp add: trim_right_space_snoc)
    moreover from snoc obtain k where "k \<le> length rs" "trim_right ['' ''] (concat rs) = concat (take k rs)" by auto
    ultimately show ?thesis by (intro exI [of _ k]) simp
  next
    case False
    then have "trim_right ['' ''] (concat rs @ t @ [c]) = concat rs @ t @ [c]"
      using trim_right_space_snoc [of "concat rs @ t" c] by simp
    then show ?thesis by (intro exI [of _ "Suc (length rs)"]) (simp add: r)
  qed
qed simp

lemma xml_text_runes: "xml_text s \<longleftrightarrow> (\<exists>rs. s = concat rs \<and> (\<forall>r \<in> set rs. valid_rune r \<and> xml_char r))"
  unfolding xml_text_def list_all_iff using runes_valid by (metis runes_concat_id)

lemma xml_text_Nil [simp]: "xml_text []"
  by (simp add: xml_text_def)

lemma xml_text_rune: "valid_rune r \<Longrightarrow> xml_text (r @ s) \<longleftrightarrow> xml_char r \<and> xml_text s"
  by (auto simp: xml_text_def runes_append)

lemma xml_text_append: "xml_text s \<Longrightarrow> xml_text t \<Longrightarrow> xml_text (s @ t)"
  unfolding xml_text_runes [of s] by (auto simp: xml_text_def runes_concat list_all_iff)

lemma xml_text_app [simp]: "xml_text s \<Longrightarrow> xml_text (s @ t) \<longleftrightarrow> xml_text t"
  unfolding xml_text_runes [of s] by (auto simp: xml_text_def runes_concat list_all_iff)

lemma xml_text_concat: "(\<And>s. s \<in> set ss \<Longrightarrow> xml_text s) \<Longrightarrow> xml_text (concat ss)"
  by (induction ss) (auto intro: xml_text_append)

lemma xml_text_ascii [simp]:
  "(of_char c :: nat) < 0x80 \<Longrightarrow> xml_text (c # s) \<longleftrightarrow> (0x20 \<le> (of_char c :: nat) \<or> (of_char c :: nat) \<in> {0x09, 0x0A, 0x0D}) \<and> xml_text s"
  using xml_text_rune [OF ascii_valid, of c s] by (simp add: xml_char_def)

lemma valid_rune_bytes: "valid_rune (c # d # t) \<Longrightarrow> b \<in> set (c # d # t) \<Longrightarrow> 0x80 \<le> (of_char b :: nat)"
proof -
  assume v: "valid_rune (c # d # t)" and b: "b \<in> set (c # d # t)"
  then obtain rs where rs: "\<not> (of_char c :: nat) < 0x80" "rune_tail (of_char c) = Some rs" "length (d # t) = length rs" "in_ranges rs (d # t)"
    by (auto simp: valid_rune_def split: if_splits option.splits)
  show ?thesis
  proof (cases "b = c")
    case True with rs(1) show ?thesis by simp
  next
    case False
    with b have "b \<in> set (d # t)" by simp
    from in_ranges_high [OF rs(4,3) rune_tail_high [OF rs(2)] this] show ?thesis .
  qed
qed

lemma valid_rune_byte: "valid_rune [c] \<Longrightarrow> (of_char c :: nat) < 0x80"
  by (auto simp: valid_rune_def rune_tail_def split: if_splits)

text \<open>A text XML admits holds no control byte but the three.\<close>

lemma xml_text_control: "xml_text s \<Longrightarrow> b \<in> set s \<Longrightarrow> 0x20 \<le> (of_char b :: nat) \<or> (of_char b :: nat) \<in> {0x09, 0x0A, 0x0D}"
proof -
  assume "xml_text s" "b \<in> set s"
  then obtain rs where "b \<in> set (concat rs)" "\<forall>r \<in> set rs. valid_rune r \<and> xml_char r" by (auto simp: xml_text_runes)
  then obtain r where r: "valid_rune r" "xml_char r" "b \<in> set r" unfolding set_concat by blast
  then show ?thesis
    by (cases r rule: remdups_adj.cases) (auto simp: xml_char_def dest: valid_rune_bytes)
qed

lemma escape_rune: "valid_rune r \<Longrightarrow> xml_char r \<Longrightarrow> xml_text (xmlEscape r)"
proof -
  assume v: "valid_rune r" and x: "xml_char r"
  show ?thesis
  proof (cases r rule: remdups_adj.cases)
    case 1 then show ?thesis using v by (simp add: valid_rune_def)
  next
    case (2 c)
    then have "(of_char c :: nat) < 0x80" using v valid_rune_byte by simp
    then show ?thesis using 2 x by (simp add: xmlEscape_def xml_char_def)
  next
    case (3 c d t)
    have "escape_char b = [b]" if "b \<in> set r" for b
      using valid_rune_bytes [of c d t b] v 3 that by auto
    then have "xmlEscape r = r" unfolding xmlEscape_def by (induction r) auto
    then show ?thesis using xml_text_rune [OF v, of "[]"] x by simp
  qed
qed

lemma xmlEscape_text: "xml_text s \<Longrightarrow> xml_text (xmlEscape s)"
proof -
  assume "xml_text s"
  then obtain rs where rs: "s = concat rs" "\<forall>r \<in> set rs. valid_rune r \<and> xml_char r" by (auto simp: xml_text_runes)
  have "xmlEscape (concat rs) = concat (map xmlEscape rs)" by (induction rs) (auto simp: xmlEscape_def)
  moreover have "xml_text (concat (map xmlEscape rs))" by (rule xml_text_concat) (use rs(2) escape_rune in auto)
  ultimately show ?thesis using rs(1) by simp
qed

text \<open>A rune at the end of such a text is its last one, so trimming leaves such a text.\<close>

lemma valid_rune_tail: "valid_rune (c # t) \<Longrightarrow> b \<in> set t \<Longrightarrow> 0x80 \<le> (of_char b :: nat) \<and> (of_char b :: nat) \<le> 0xBF"
proof -
  assume v: "valid_rune (c # t)" and b: "b \<in> set t"
  then obtain rs where rs: "rune_tail (of_char c) = Some rs" "length t = length rs" "in_ranges rs t"
    by (auto simp: valid_rune_def split: if_splits option.splits)
  have "\<forall>(lo, hi) \<in> set rs. 0x80 \<le> lo \<and> hi \<le> 0xBF" using rs(1) by (auto simp: rune_tail_def split: if_splits)
  with rs(2,3) b show ?thesis by (induction rs t rule: in_ranges.induct) auto
qed

lemma valid_rune_head: "valid_rune (c # t) \<Longrightarrow> (of_char c :: nat) < 0x80 \<or> 0xC2 \<le> (of_char c :: nat)"
  by (auto simp: valid_rune_def rune_tail_def split: if_splits)

lemma same_last_rune:
  assumes "valid_rune r" "valid_rune w" "s @ r = t @ w"
  shows "r = w"
proof -
  have short: "x = []" if h: "y = x @ z" "valid_rune y" "valid_rune z" for x y z :: string
  proof (rule ccontr)
    assume "x \<noteq> []"
    then obtain c x1 where x: "x = c # x1" by (cases x) auto
    obtain b z1 where z: "z = b # z1" using h(3) by (cases z) (auto simp: valid_rune_def)
    have "0x80 \<le> (of_char b :: nat) \<and> (of_char b :: nat) \<le> 0xBF"
      using valid_rune_tail [of c "x1 @ z" b] h(1,2) x z by simp
    then show False using valid_rune_head [of b z1] h(3) z by auto
  qed
  obtain us where "s = t @ us \<and> us @ r = w \<or> s @ us = t \<and> r = us @ w"
    using append_eq_append_conv2 [THEN iffD1, OF assms(3)] by blast
  then consider "w = us @ r" | "r = us @ w" by metis
  then show ?thesis
  proof cases
    case 1
    from short [OF this assms(2,1)] 1 show ?thesis by simp
  next
    case 2
    from short [OF this assms(1,2)] 2 show ?thesis by simp
  qed
qed

lemma xml_text_snoc: "valid_rune r \<Longrightarrow> xml_text (s @ r) \<Longrightarrow> xml_text s"
proof -
  assume v: "valid_rune r" and "xml_text (s @ r)"
  then obtain rs where rs: "s @ r = concat rs" "\<forall>r \<in> set rs. valid_rune r \<and> xml_char r" by (auto simp: xml_text_runes)
  have "r \<noteq> []" using v by (auto simp: valid_rune_def)
  then have "rs \<noteq> []" using rs(1) by auto
  then obtain qs q where q: "rs = qs @ [q]" by (cases rs rule: rev_cases) auto
  then have "r = q" using same_last_rune [OF v, of q s "concat qs"] rs by simp
  then have "s = concat qs" using rs(1) q by simp
  then show ?thesis using rs(2) q by (auto simp: xml_text_runes)
qed

lemma strip_keeps_end:
  "(\<And>r t. r \<in> set rs \<Longrightarrow> P (r @ t) \<Longrightarrow> P t) \<Longrightarrow> P s \<Longrightarrow> P (strip rs s)"
proof (induction rs s rule: strip.induct)
  case (1 rs s)
  show ?case
  proof (cases "find (\<lambda>r. r \<noteq> [] \<and> has_prefix s r) rs")
    case (Some r)
    then have r: "r \<in> set rs" "has_prefix s r" by (auto simp: find_Some_iff)
    then have "P (drop (length r) s)" using 1(2,3) by (metis append_take_drop_id has_prefix_def)
    then show ?thesis using 1 Some by (subst strip.simps) simp
  qed (use 1 in \<open>subst strip.simps, simp\<close>)
qed

lemma trim_right_text: "\<forall>r \<in> set rs. valid_rune r \<Longrightarrow> xml_text s \<Longrightarrow> xml_text (trim_right rs s)"
  unfolding trim_right_def
  by (rule strip_keeps_end [where P = "\<lambda>u. xml_text (rev u)"]) (auto intro: xml_text_snoc)

lemma space_runes_valid: "\<forall>r \<in> set space_runes. valid_rune r"
  by (simp add: space_runes_def ascii_spaces_def valid_rune_def rune_tail_def)

lemma trim_space_text: "xml_text s \<Longrightarrow> xml_text (trim_space s)"
  unfolding trim_space_def trim_runes_def trim_left_def
  by (intro trim_right_text space_runes_valid strip_keeps_end [where P = xml_text])
    (use space_runes_valid xml_text_rune in auto)

lemma ellipsis_text: "xml_text ellipsis"
  by (simp add: xml_text_def ellipsis_def rune_tail_def xml_char_def)

lemma times_text: "xml_text times_sign"
  by (simp add: xml_text_def times_sign_def rune_tail_def xml_char_def)

lemma gTrunc_text:
  assumes "xml_text s"
  shows "xml_text (gTrunc s m)"
proof -
  have t: "xml_text (trim_space s)" by (rule trim_space_text [OF assms])
  then have "\<forall>r \<in> set (runes (trim_space s)). valid_rune r \<and> xml_char r"
    using runes_valid by (auto simp: xml_text_def list_all_iff)
  then have "xml_text (concat (take k (runes (trim_space s))))" for k
    unfolding xml_text_runes by (intro exI [of _ "take k (runes (trim_space s))"]) (auto dest: in_set_takeD)
  moreover have "\<forall>r \<in> set ['' '']. valid_rune r" by (simp add: valid_rune_def)
  ultimately show ?thesis using t trim_right_text ellipsis_text
    unfolding gTrunc_def Let_def by (auto intro!: xml_text_append)
qed

lemma itoa_text [simp]: "xml_text (itoa n)"
proof -
  have "xml_text s" if "\<forall>c \<in> set s. 48 \<le> (of_char c :: nat) \<and> (of_char c :: nat) \<le> 57" for s
    using that by (induction s) auto
  then show ?thesis using itoa_codes by blast
qed

lemma join_text: "xml_text sep \<Longrightarrow> (\<And>s. s \<in> set ss \<Longrightarrow> xml_text s) \<Longrightarrow> xml_text (join sep ss)"
  by (induction sep ss rule: join.induct) auto

section \<open>The picture is a document\<close>

definition node_texts :: "WorkflowNode \<Rightarrow> string list" where
  "node_texts n = wn_id n # wn_label n # wn_note n # wn_href n # wn_tags n"

definition graph_texts :: "WorkflowGraph \<Rightarrow> string list" where
  "graph_texts g = wg_title g # concat (map node_texts (wg_nodes g))
     @ concat (map (\<lambda>e. [we_label e, we_note e]) (wg_edges g))"

lemma xml_text_if: "xml_text (if b then s else t) \<longleftrightarrow> (b \<longrightarrow> xml_text s) \<and> (\<not> b \<longrightarrow> xml_text t)"
  by simp

lemma xml_text_ifI: "xml_text s \<Longrightarrow> xml_text t \<Longrightarrow> xml_text (if b then s else t)"
  by simp

lemmas text_parts = xmlEscape_text gTrunc_text join_text xml_text_if
lemmas text_intros = xml_text_append xml_text_ifI xmlEscape_text gTrunc_text join_text

lemma node_text:
  assumes "\<forall>s \<in> set (node_texts n). xml_text s"
  shows "xml_text (nodeSVG n p overlay)"
proof -
  have t: "xml_text (wn_id n)" "xml_text (wn_label n)" "xml_text (wn_note n)" "xml_text (wn_href n)"
    "\<And>s. s \<in> set (wn_tags n) \<Longrightarrow> xml_text s"
    using assms by (auto simp: node_texts_def)
  have "xml_text (tagSuffix (wn_tags n))" "xml_text (noteSuffix (wn_note n))"
    using t by (simp_all add: tagSuffix_def noteSuffix_def join_text)
  with t show ?thesis unfolding nodeSVG_def Let_def by (intro text_intros) simp_all
qed

lemma route_text: "xml_text (fst (edge_route e from to))"
  unfolding edge_route_def Let_def by (simp add: xml_text_if if_distrib [of fst] del: if_split)

lemma edge_text:
  assumes "xml_text (we_label e)" "xml_text (we_note e)"
  shows "xml_text (edgeSVG e from to overlay)"
proof -
  obtain d lx ly where r: "edge_route e from to = (d, lx, ly)" by (metis prod_cases3)
  then have d: "xml_text d" by (metis route_text fst_conv)
  have "xml_text (edgeTitle e f)" "xml_text (edge_label e f)" for f
    using assms times_text by (auto simp: edgeTitle_def edge_label_def chooseStr_def text_parts intro!: join_text)
  with d show ?thesis unfolding edgeSVG_def Let_def r prod.case by (simp add: text_parts del: if_split)
qed

lemma svgDefs_text: "xml_text svgDefs"
  by (simp add: svgDefs_def)

lemma picture_text:
  assumes "\<forall>s \<in> set (graph_texts g). xml_text s"
  shows "xml_text (SVG g overlay)"
proof -
  have "xml_text (nodeSVG n p overlay)" if "n \<in> set (wg_nodes g)" for n p
    using assms that by (intro node_text) (auto simp: graph_texts_def)
  moreover have "xml_text (edgeSVG e p q overlay)" if "e \<in> set (wg_edges g)" for e p q
    using assms that by (intro edge_text) (auto simp: graph_texts_def)
  moreover have "xml_text (chooseStr (wg_title g) ''workflow'')" using assms by (simp add: chooseStr_def graph_texts_def)
  moreover have "xml_text (concat (map (\<lambda>e. case (map_of pos (we_from e), map_of pos (we_to e)) of
      (Some from, Some to) \<Rightarrow> edgeSVG e from to overlay | _ \<Rightarrow> []) (wg_edges g)))"
    "xml_text (concat (map (\<lambda>n. case map_of pos (wn_id n) of Some p \<Rightarrow> nodeSVG n p overlay | None \<Rightarrow> []) (wg_nodes g)))" for pos
    using calculation(1,2) by (auto intro!: xml_text_concat split: option.splits)
  ultimately show ?thesis by (simp add: SVG_def Let_def text_parts svgDefs_text)
qed

text \<open>C9: No text reaches the markup. When the names, labels, notes, tags, links and title of a graph are UTF-8
  text of characters XML admits, and whatever else they spell, and whatever a run has marked on it, its
  picture is one well-formed XML element and nothing beside it: every tag is closed by its own name, every
  attribute is quoted and stands once, \<open><\<close>, \<open>>\<close> and \<open>&\<close> stand only where markup does, and every
  character is one XML admits.
\<close>

theorem the_picture_is_well_formed:
  assumes "\<forall>s \<in> set (graph_texts g). xml_text s"
  shows "well_formed (SVG g overlay)"
proof -
  let ?pos = "fst (layout g)" and ?in = "Txt [''svg'']"
  have e: "inert ?in (case (map_of ?pos (we_from e), map_of ?pos (we_to e)) of
      (Some from, Some to) \<Rightarrow> edgeSVG e from to overlay | _ \<Rightarrow> [])" for e
    by (auto simp: inert_def edge_reads split: option.splits)
  have n: "inert ?in (case map_of ?pos (wn_id n) of Some p \<Rightarrow> nodeSVG n p overlay | None \<Rightarrow> [])" for n
    by (auto simp: inert_def node_reads split: option.splits)
  have "inert ?in (concat (map (\<lambda>e. case (map_of ?pos (we_from e), map_of ?pos (we_to e)) of
            (Some from, Some to) \<Rightarrow> edgeSVG e from to overlay | _ \<Rightarrow> []) (wg_edges g)))"
      "inert ?in (concat (map (\<lambda>n. case map_of ?pos (wn_id n) of Some p \<Rightarrow> nodeSVG n p overlay | None \<Rightarrow> []) (wg_nodes g)))"
    by (rule inert_concat, use e n in auto)+
  then have "xml_read Start (SVG g overlay) = Ended"
    by (simp add: SVG_def Let_def xml_lit svgDefs_reads inert_def)
  then show ?thesis unfolding well_formed_def using picture_text [OF assms] by blast
qed

theorem the_picture_is_well_formed_witness: "well_formed (SVG cycle_graph None)"
proof -
  have "list_all xml_text (graph_texts cycle_graph)" by code_simp
  then show ?thesis by (intro the_picture_is_well_formed) (simp add: list_all_iff)
qed

text \<open>
  \<open>xmlEscape\<close> lets a control byte through, and no XML document may hold one: a picture whose title has
  one is not XML, so a viewer that is handed it as \<open>image/svg+xml\<close> shows an error in its place.
\<close>

theorem a_control_byte_is_not_xml: "\<not> well_formed (SVG (g\<lparr>wg_title := ''a'' @ [CHR 0x01]\<rparr>) overlay)"
proof -
  have "chooseStr (''a'' @ [CHR 0x01]) x = ''a'' @ [CHR 0x01]" for x
  proof -
    have "trim_space (''a'' @ [CHR 0x01]) \<noteq> []" by code_simp
    then show ?thesis by (simp add: chooseStr_def)
  qed
  then have "CHR 0x01 \<in> set (SVG (g\<lparr>wg_title := ''a'' @ [CHR 0x01]\<rparr>) overlay)"
    by (simp add: SVG_def Let_def xmlEscape_def)
  then show ?thesis using xml_text_control [of _ "CHR 0x01"] by (force simp: well_formed_def)
qed

section \<open>Escaping loses nothing\<close>

text \<open>What a reader of the document sees for an escaped text.\<close>

fun unescape :: "string \<Rightarrow> string" where
  "unescape [] = []"
| "unescape (c # s) =
     (if c \<noteq> CHR ''&'' then c # unescape s
      else if has_prefix s ''amp;'' then CHR ''&'' # unescape (drop 4 s)
      else if has_prefix s ''lt;'' then CHR ''<'' # unescape (drop 3 s)
      else if has_prefix s ''gt;'' then CHR ''>'' # unescape (drop 3 s)
      else if has_prefix s ''quot;'' then CHR 0x22 # unescape (drop 5 s)
      else if has_prefix s ''apos;'' then CHR 0x27 # unescape (drop 5 s)
      else c # unescape s)"

text \<open>What a reader of the picture sees for a text is the text: undoing the entities of an escaped string gives it back.\<close>

theorem the_reader_sees_the_text: "unescape (xmlEscape s) = s"
proof (induction s)
  case (Cons c s)
  then show ?case by (simp add: xmlEscape_def has_prefix_def)
qed (simp add: xmlEscape_def)

section \<open>Labels are cut by the rune\<close>

lemma ellipsis_rune: "runes ellipsis = [ellipsis]"
  by (simp add: ellipsis_def rune_tail_def)

lemma gTrunc_cut:
  assumes "2 \<le> m" "m < length (runes (trim_space s))"
  shows "\<exists>k < m. gTrunc s m = concat (take k (runes (trim_space s))) @ ellipsis
     \<and> runes (gTrunc s m) = take k (runes (trim_space s)) @ [ellipsis]"
proof -
  let ?r = "runes (trim_space s)"
  have v: "\<forall>r \<in> set (take j ?r). valid_rune r" for j using runes_valid by (meson in_set_takeD)
  from trim_right_runes [OF v [of "m - 1"]] obtain k where k: "k \<le> length (take (m - 1) ?r)"
      "trim_right ['' ''] (concat (take (m - 1) ?r)) = concat (take k (take (m - 1) ?r))" by blast
  have "k \<le> m - 1" using k(1) by simp
  then have "k < m" "take k (take (m - 1) ?r) = take k ?r" using assms(1) by (simp_all add: min_absorb1)
  moreover from this k(2) assms have "gTrunc s m = concat (take k ?r) @ ellipsis" by (simp add: gTrunc_def Let_def)
  ultimately show ?thesis using runes_concat [OF v, of k ellipsis] by (auto simp: ellipsis_rune)
qed

end
