(* ===== verification/MachineGraph.thy ===== *)
theory MachineGraph
  imports WorkflowSVG MachineChecks
begin

text \<open>
  The picture of a machine (core/machine_graph.go): \<open>Graph\<close>, which draws a box per step and an arrow
  per handoff, guard and allowed exit, \<open>phaseTags\<close>, and \<open>Overlay\<close>, the marks a session's cursor
  leaves on it. The picture is proved against what the machine does: the arrows that are not a guard's
  or an exit's are the answers \<open>NextPhase\<close> can give.
\<close>

section \<open>Boxes\<close>

definition routingTargets :: "MachinePhase \<Rightarrow> string list" where
  "routingTargets p = RoutingChoices p"

definition ID :: "MachinePhase \<Rightarrow> string" where
  "ID p = ph_name p"

definition arrow_sign :: string where
  "arrow_sign = [CHR 0xE2, CHR 0x86, CHR 0x92, CHR '' '']"

definition tier_tags :: "string \<Rightarrow> string list" where
  "tier_tags model =
     (let m = to_lower (trim_space model) in if m = ''lead'' \<or> m = ''worker'' then [m] else [])"

definition think_tags :: "string \<Rightarrow> string list" where
  "think_tags mode = (if mode = ''on'' then [''thinks''] else if mode = ''off'' then [''no thinking''] else [])"

definition tool_tags :: "'a list \<Rightarrow> string list" where
  "tool_tags ts = (if ts \<noteq> [] then [itoa (length ts) @ '' tools''] else [])"

definition output_tags :: "PipelineField list \<Rightarrow> string list" where
  "output_tags fs = (if fs \<noteq> [] then [arrow_sign @ join '', '' (map f_name fs)] else [])"

definition phaseTags :: "MachinePhase \<Rightarrow> string list" where
  "phaseTags p =
     (let tool = trim_space (ph_tool p) in
      if tool \<noteq> [] then [''calls '' @ tool, ''no model'']
      else tier_tags (ph_model p)
        @ think_tags (to_lower (trim_space (ph_think p)))
        @ tool_tags (ph_tools p)
        @ output_tags (ph_output p)
        @ (if trim_space (ph_guard p) \<noteq> [] then [''guarded''] else [])
        @ (if trim_space (ph_agent p) \<noteq> [] then [''delegated''] else []))"

definition phase_node :: "string \<Rightarrow> MachinePhase \<Rightarrow> WorkflowNode" where
  "phase_node start p =
     \<lparr>wn_id = ID p, wn_label = ph_name p, wn_note = ph_desc p,
      wn_kind = (if ph_name p = start then NodeEntry else if ph_resident p then NodeRest else NodeStep),
      wn_tags = phaseTags p, wn_href = []\<rparr>"

section \<open>Arrows\<close>

fun known_phases :: "MachineDef \<Rightarrow> string list \<Rightarrow> MachinePhase list" where
  "known_phases d [] = []"
| "known_phases d (name # names) =
     (case Phase d (trim_space name) of
        Some t \<Rightarrow> t # known_phases d names
      | None \<Rightarrow> known_phases d names)"

definition route_targets :: "MachineDef \<Rightarrow> MachinePhase \<Rightarrow> MachinePhase list" where
  "route_targets d p =
     (let declared = routingTargets p in
      if declared \<noteq> [] then known_phases d declared
      else md_phases d)"

definition routed_edge :: "MachinePhase \<Rightarrow> MachinePhase \<Rightarrow> WorkflowEdge" where
  "routed_edge p t =
     \<lparr>we_from = ph_name p, we_to = ph_name t,
      we_label = (if ph_name t = ph_next p then ''? - fallback'' else ''?''),
      we_style = EdgeDashed,
      we_note = ''routed at run time by '' @ ph_name p @ ''.'' @ RoutesBy p
        @ (if ph_name t = ph_next p
           then ''; also where it goes when '' @ RoutesBy p @ '' names no phase that exists'' else [])\<rparr>"

definition routed_edges :: "MachineDef \<Rightarrow> MachinePhase \<Rightarrow> WorkflowEdge list" where
  "routed_edges d p =
     (let targets = route_targets d p in
      map (routed_edge p) (filter (\<lambda>t. ph_name t \<noteq> ph_name p) targets)
      @ (if ph_next p \<noteq> [] \<and> \<not> (\<exists>t \<in> set targets. ph_name t = ph_next p)
         then [\<lparr>we_from = ph_name p, we_to = ph_next p, we_label = ''fallback'', we_style = EdgeSolid,
                we_note = ''taken when '' @ ph_next_from p @ '' names no phase that exists''\<rparr>]
         else []))"

definition handoff_edges :: "MachineDef \<Rightarrow> MachinePhase \<Rightarrow> WorkflowEdge list" where
  "handoff_edges d p =
     (if RoutesBy p \<noteq> [] then routed_edges d p
      else if ph_next p \<noteq> [] then
        [\<lparr>we_from = ph_name p, we_to = ph_next p,
          we_label = (if ph_resident p then ''after one turn'' else []), we_style = EdgeSolid,
          we_note = (if ph_resident p then ''this phase replies once, then control moves on'' else [])\<rparr>]
      else if ph_resident p then
        [\<lparr>we_from = ph_name p, we_to = ph_name p, we_label = ''stays'', we_style = EdgeSolid,
          we_note = ''user turns land here until something moves them''\<rparr>]
      else [])"

definition guard_edges :: "MachineDef \<Rightarrow> string \<Rightarrow> MachinePhase \<Rightarrow> WorkflowEdge list" where
  "guard_edges d start p =
     (if trim_space (ph_guard p) \<noteq> [] then
        (let target = (if trim_space (ph_guard_to p) = [] then start else trim_space (ph_guard_to p)) in
         if Phase d target \<noteq> None \<and> target \<noteq> ph_name p then
           [\<lparr>we_from = ph_name p, we_to = target, we_label = ''guard'', we_style = EdgeBack,
             we_note = ''guard: '' @ ph_guard p\<rparr>]
         else [])
      else [])"

fun exit_edges :: "MachineDef \<Rightarrow> MachinePhase \<Rightarrow> string list \<Rightarrow> string list \<Rightarrow> WorkflowEdge list" where
  "exit_edges d p drawn [] = []"
| "exit_edges d p drawn (t0 # ts) =
     (if \<not> ph_resident p then []
      else
        (let t = trim_space t0 in
         if t = [] \<or> t = ph_name p \<or> t \<in> set drawn \<or> t = trim_space (ph_next p) then exit_edges d p drawn ts
         else if Phase d t = None then exit_edges d p drawn ts
         else \<lparr>we_from = ph_name p, we_to = t, we_label = ''may exit'', we_style = EdgeBack,
                we_note = ''this phase may be moved to '' @ t @ '', and, because it lists its exits, nowhere else''\<rparr>
              # exit_edges d p (t # drawn) ts))"

definition step_edges :: "MachineDef \<Rightarrow> MachinePhase \<Rightarrow> WorkflowEdge list" where
  "step_edges d p =
     (let guards = guard_edges d (StartPhase d) p in
      handoff_edges d p @ guards @ exit_edges d p (map we_to guards) (ph_exits_to p))"

definition machine_legend :: "MachineDef \<Rightarrow> string list" where
  \<open>machine_legend d =
     (if length (md_phases d) > 1 then
        (let bounded = map ph_name (filter (\<lambda>p. ph_exits_to p \<noteq> []) (md_phases d)) in
         if bounded = [] then
           [''Any phase can move to any other with change_phase: not drawn, because it connects everything to everything.'']
         else if length bounded < length (md_phases d) then
           [''"'' @ join ''", "'' bounded @ ''" may only move where their dotted arrows go. ''
            @ ''Any other phase can move to any other with change_phase, which is not drawn.'']
         else [''Every phase lists where it may move to, so the arrows are the whole story.''])
      else [])
     @ [''Solid: an unconditional handoff. Dashed: decided at run time. Dotted: a guard, or an exit this phase allows.'']\<close>

definition md_Graph :: "MachineDef \<Rightarrow> WorkflowGraph" where
  "md_Graph d =
     \<lparr>wg_title = md_name d, wg_entry = StartPhase d,
      wg_nodes = map (phase_node (StartPhase d)) (md_phases d),
      wg_edges = concat (map (step_edges d) (md_phases d)),
      wg_legend = machine_legend d\<rparr>"

section \<open>Overlay\<close>

definition count_hop :: "PhaseHop \<Rightarrow> (string \<times> nat) list \<Rightarrow> (string \<times> nat) list" where
  "count_hop hop fired =
     (let k = EdgeKey (hop_from hop) (hop_to hop) in AList.update k (rank_get fired k + 1) fired)"

definition Overlay :: "MachineCursor \<Rightarrow> WorkflowOverlay" where
  "Overlay c = \<lparr>ov_current = cur_phase c, ov_fired = fold count_hop (cur_log c) []\<rparr>"

lemma fired_count:
  "rank_get (fold count_hop hs m) k =
     rank_get m k + length (filter (\<lambda>h. EdgeKey (hop_from h) (hop_to h) = k) hs)"
proof (induction hs arbitrary: m)
  case (Cons h hs)
  have "rank_get (count_hop h m) k = rank_get m k + (if EdgeKey (hop_from h) (hop_to h) = k then 1 else 0)"
    by (auto simp: count_hop_def Let_def rank_get_def map_of_update_eq)
  with Cons show ?case by simp
qed simp

lemma overlay_times:
  "times_fired (Some (Overlay c)) e =
     length (filter (\<lambda>h. EdgeKey (hop_from h) (hop_to h) = EdgeKey (we_from e) (we_to e)) (cur_log c))"
  using fired_count [of "cur_log c" "[]" "EdgeKey (we_from e) (we_to e)"]
  by (simp add: times_fired_def Overlay_def rank_get_def)

text \<open>
  An arrow's hover text says how often it was taken in the conversation; the log it counts keeps the
  last fifty moves, so that is where the count stops.
\<close>

lemma the_count_stops_with_the_log:
  "length (cur_log c) \<le> maxPhaseLog \<Longrightarrow> times_fired (Some (Overlay c)) e \<le> 50"
  unfolding overlay_times by (rule order_trans [OF length_filter_le]) (simp add: maxPhaseLog_def)

section \<open>The picture and the machine\<close>




definition well_named :: "MachineDef \<Rightarrow> bool" where
  "well_named d \<longleftrightarrow> distinct (PhaseNames d) \<and> (\<forall>p \<in> set (md_phases d). trimmed (ph_name p) \<and> ph_name p \<noteq> [])"

lemma well_named_Phase:
  assumes "well_named d" "q \<in> set (md_phases d)"
  shows "Phase d (ph_name q) = Some q"
proof -
  have "trim_space (ph_name q) = ph_name q" using assms by (simp add: well_named_def trimmed_def)
  then obtain r where r: "Phase d (ph_name q) = Some r" using Phase_exists [of "ph_name q" d] assms(2) by (auto simp: PhaseNames_def)
  then have "r \<in> set (md_phases d)" "ph_name r = ph_name q" using Phase_Some [OF r] assms by (auto simp: well_named_def trimmed_def)
  with assms r show ?thesis by (metis well_named_def PhaseNames_def distinct_map inj_on_eq_iff)
qed

lemma well_named_unique:
  "well_named d \<Longrightarrow> p \<in> set (md_phases d) \<Longrightarrow> q \<in> set (md_phases d) \<Longrightarrow> ph_name p = ph_name q \<Longrightarrow> p = q"
  by (metis well_named_Phase option.inject)

lemma routed_edge_ends [simp]:
  "we_from (routed_edge p t) = ph_name p" "we_to (routed_edge p t) = ph_name t" "we_style (routed_edge p t) = EdgeDashed"
  by (simp_all add: routed_edge_def)


lemma guard_edges_back: "e \<in> set (guard_edges d start p) \<Longrightarrow> we_style e = EdgeBack \<and> we_from e = ph_name p \<and> Phase d (we_to e) \<noteq> None"
  by (auto simp: guard_edges_def Let_def split: if_splits)

lemma exit_edges_back:
  "e \<in> set (exit_edges d p drawn ts) \<Longrightarrow> we_style e = EdgeBack \<and> we_from e = ph_name p \<and> Phase d (we_to e) \<noteq> None"
  by (induction d p drawn ts rule: exit_edges.induct) (auto simp: Let_def split: if_splits)

lemma handoff_edges_style: "e \<in> set (handoff_edges d p) \<Longrightarrow> we_style e \<noteq> EdgeBack \<and> we_from e = ph_name p"
  by (auto simp: handoff_edges_def routed_edges_def edge_style_defs Let_def split: if_splits)



lemma handoff_targets:
  assumes "well_named d" "n \<noteq> ph_name p"
  shows "(\<exists>e \<in> set (handoff_edges d p). we_to e = n) \<longleftrightarrow>
     (if RoutesBy p \<noteq> [] then (\<exists>t \<in> set (route_targets d p). ph_name t = n) \<or> (n = ph_next p \<and> n \<noteq> [])
      else n = ph_next p \<and> n \<noteq> [])"
proof (cases "RoutesBy p = []")
  case True
  then show ?thesis using assms(2) by (auto simp: handoff_edges_def)
next
  case False
  let ?ts = "route_targets d p"
  have "(\<exists>e \<in> set (handoff_edges d p). we_to e = n) \<longleftrightarrow>
      (\<exists>t \<in> set ?ts. ph_name t \<noteq> ph_name p \<and> ph_name t = n)
      \<or> (ph_next p \<noteq> [] \<and> \<not> (\<exists>t \<in> set ?ts. ph_name t = ph_next p) \<and> ph_next p = n)"
    using False by (simp add: handoff_edges_def routed_edges_def Let_def bex_Un) blast
  moreover have "(\<exists>t \<in> set ?ts. ph_name t \<noteq> ph_name p \<and> ph_name t = n) \<longleftrightarrow> (\<exists>t \<in> set ?ts. ph_name t = n)"
    using assms(2) by metis
  ultimately show ?thesis using False by (cases "n = ph_next p") (simp_all, blast)
qed





text \<open>
  Validation compares names as written and the decoder of a reply does not look at case: with a step
  named \<open>talk\<close> and one named \<open>Talk\<close>, a step that declares \<open>talk\<close> alone can be answered \<open>Talk\<close> and hands
  off to a step no arrow leads to.
\<close>

definition two_spellings :: MachineDef where
  "two_spellings = zero_machine\<lparr>md_name := ''case'',
     md_phases :=
      [zero_phase\<lparr>ph_name := ''sort'', ph_prompt := ''Sort.'', ph_choices := [''talk''], ph_next := ''talk''\<rparr>,
       zero_phase\<lparr>ph_name := ''talk'', ph_resident := True, ph_prompt := ''Talk.''\<rparr>,
       zero_phase\<lparr>ph_name := ''Talk'', ph_resident := True, ph_prompt := ''Talk loudly.''\<rparr>]\<rparr>"

theorem a_choice_in_another_case_has_no_arrow:
  "problems [] two_spellings = []
    \<and> containsFold (routingTargets (hd (md_phases two_spellings))) ''Talk''
    \<and> fst (NextPhase two_spellings (hd (md_phases two_spellings)) [(''next_step'', VStr ''Talk'')]) = ''Talk''
    \<and> filter (\<lambda>e. we_to e = ''Talk'' \<and> we_from e = ''sort'') (wg_edges (md_Graph two_spellings)) = []"
proof (intro conjI)
  show "containsFold (routingTargets (hd (md_phases two_spellings))) ''Talk''"
    unfolding containsFold_def Bex_def by (rule exI [of _ "''talk''"]) code_simp
qed code_simp+

subsection \<open>The exits of a step that holds the conversation\<close>

lemma exit_targets:
  "ph_resident p \<Longrightarrow>
     (\<exists>e \<in> set (exit_edges d p drawn ts). we_to e = n) \<longleftrightarrow>
       n \<in> trim_space ` set ts \<and> n \<noteq> [] \<and> n \<noteq> ph_name p \<and> n \<notin> set drawn \<and> n \<noteq> trim_space (ph_next p)
       \<and> Phase d n \<noteq> None"
  by (induction d p drawn ts rule: exit_edges.induct) (auto simp: Let_def)

lemma step_edges_from: "e \<in> set (step_edges d p) \<Longrightarrow> we_from e = ph_name p"
  using guard_edges_back exit_edges_back handoff_edges_style unfolding step_edges_def Let_def set_append by blast

lemma graph_step_edges:
  assumes "well_named d" "p \<in> set (md_phases d)"
  shows "(e \<in> set (wg_edges (md_Graph d)) \<and> we_from e = ph_name p) \<longleftrightarrow> e \<in> set (step_edges d p)"
  using assms step_edges_from well_named_unique [OF assms(1)]
  by (auto simp: md_Graph_def) metis

text \<open>
  A step that holds the conversation and lists its exits may be moved exactly where its arrows go.
  With no route of its own and no guard, the steps \<open>MayExitTo\<close> lets it move to are those one of its arrows
  leads to.
\<close>

theorem the_arrows_are_the_exits:
  assumes "well_named d" "p \<in> set (md_phases d)" "ph_resident p" "ph_exits_to p \<noteq> []" "RoutesBy p = []"
    and "trimmed (ph_next p)" "trim_space (ph_guard p) = []" "trim_space (ph_guard_to p) = []"
    and "q \<in> set (md_phases d)" "q \<noteq> p"
  shows "MayExitTo p (ph_name q) \<longleftrightarrow>
     (\<exists>e \<in> set (wg_edges (md_Graph d)). we_from e = ph_name p \<and> we_to e = ph_name q)"
proof -
  let ?n = "ph_name q"
  have n: "Phase d ?n \<noteq> None" "trim_space ?n = ?n" "?n \<noteq> []" "?n \<noteq> ph_name p"
    using well_named_Phase [OF assms(1,9)] well_named_unique [OF assms(1,2,9)] assms(1,9,10)
    by (auto simp: well_named_def trimmed_def)
  have "(\<exists>e \<in> set (wg_edges (md_Graph d)). we_from e = ph_name p \<and> we_to e = ?n) \<longleftrightarrow>
      (\<exists>e \<in> set (step_edges d p). we_to e = ?n)"
    using graph_step_edges [OF assms(1,2)] by blast
  also have "\<dots> \<longleftrightarrow> ?n = ph_next p \<or> ?n \<in> trim_space ` set (ph_exits_to p)"
    using handoff_targets [OF assms(1) n(4)] exit_targets [OF assms(3), of d "[]" "ph_exits_to p" ?n] n assms(5,6,7)
    by (auto simp: step_edges_def Let_def bex_Un guard_edges_def trimmed_def)
  also have "\<dots> \<longleftrightarrow> MayExitTo p ?n"
    using n assms(4,6,8) by (simp add: MayExitTo_def Let_def trimmed_def image_iff) metis
  finally show ?thesis by simp
qed

section \<open>Where the picture and the code part\<close>

text \<open>
  \<open>Phase\<close> trims the name it is asked for and the arrow keeps the text as written: a step whose
  \<open>next\<close> has white space around it hands off in the run and loses its arrow in the picture. The
  machine has no problems.
\<close>

definition padded_next_machine :: MachineDef where
  "padded_next_machine = zero_machine\<lparr>md_name := ''pad'',
     md_phases :=
      [zero_phase\<lparr>ph_name := ''ask'', ph_prompt := ''Ask.'', ph_next := ''talk ''\<rparr>,
       zero_phase\<lparr>ph_name := ''talk'', ph_resident := True, ph_prompt := ''Talk.''\<rparr>]\<rparr>"

theorem a_padded_next_has_no_arrow:
  "problems [] padded_next_machine = []
    \<and> map_option ph_name (Phase padded_next_machine
          (fst (NextPhase padded_next_machine (hd (md_phases padded_next_machine)) []))) = Some ''talk''
    \<and> filter (\<lambda>e. we_from e = ''ask'' \<and> map_of (fst (layout (md_Graph padded_next_machine))) (we_to e) \<noteq> None)
        (wg_edges (md_Graph padded_next_machine)) = []"
  by code_simp

text \<open>
  The note on a fallback arrow names the routing field by \<open>NextFrom\<close>, which is empty for a step that
  routes by the choices it lists.
\<close>

definition choice_machine :: MachineDef where
  "choice_machine = zero_machine\<lparr>md_name := ''pick'',
     md_phases :=
      [zero_phase\<lparr>ph_name := ''sort'', ph_prompt := ''Sort.'', ph_choices := [''talk''], ph_next := ''rest''\<rparr>,
       zero_phase\<lparr>ph_name := ''talk'', ph_resident := True, ph_prompt := ''Talk.''\<rparr>,
       zero_phase\<lparr>ph_name := ''rest'', ph_resident := True, ph_prompt := ''Rest.''\<rparr>]\<rparr>"

lemma choice_machine_step: "hd (md_phases choice_machine) \<in> set (md_phases choice_machine)"
  by (simp add: choice_machine_def)

theorem the_fallback_note_names_no_field:
  "problems [] choice_machine = []
    \<and> RoutesBy (hd (md_phases choice_machine)) = ''next_step''
    \<and> (\<exists>e \<in> set (wg_edges (md_Graph choice_machine)).
          we_label e = ''fallback'' \<and> we_note e = ''taken when '' @ [] @ '' names no phase that exists'')"
proof (intro conjI)
  let ?p = "hd (md_phases choice_machine)"
  show "problems [] choice_machine = []" by code_simp
  show r: "RoutesBy ?p = ''next_step''" by code_simp
  have n: "ph_next ?p = ''rest''" "ph_next_from ?p = []" by (simp_all add: choice_machine_def zero_phase_def)
  have t: "list_all (\<lambda>t. ph_name t \<noteq> ''rest'') (route_targets choice_machine ?p)" by code_simp
  have "\<exists>e \<in> set (handoff_edges choice_machine ?p).
      we_label e = ''fallback'' \<and> we_note e = ''taken when '' @ [] @ '' names no phase that exists''"
    unfolding handoff_edges_def routed_edges_def Let_def r n using t by (auto simp: bex_Un n list_all_iff)
  then show "\<exists>e \<in> set (wg_edges (md_Graph choice_machine)).
      we_label e = ''fallback'' \<and> we_note e = ''taken when '' @ [] @ '' names no phase that exists''"
    using choice_machine_step by (auto simp: md_Graph_def step_edges_def Let_def)
qed

text \<open>
  The legend says a step with exits may only move along its dotted arrows. A step that does not hold
  the conversation gets none, because exits are inert there.
\<close>

definition inert_exits_machine :: MachineDef where
  "inert_exits_machine = zero_machine\<lparr>md_name := ''inert'',
     md_phases :=
      [zero_phase\<lparr>ph_name := ''ask'', ph_prompt := ''Ask.'', ph_next := ''talk'', ph_exits_to := [''talk'']\<rparr>,
       zero_phase\<lparr>ph_name := ''talk'', ph_resident := True, ph_prompt := ''Talk.''\<rparr>]\<rparr>"

theorem the_legend_promises_arrows_that_are_not_there:
  \<open>hd (wg_legend (md_Graph inert_exits_machine))
      = ''"ask" may only move where their dotted arrows go. Any other phase can move to any other with change_phase, which is not drawn.''
    \<and> (\<forall>e \<in> set (wg_edges (md_Graph inert_exits_machine)). we_style e \<noteq> EdgeBack)\<close>
proof (intro conjI)
  show \<open>hd (wg_legend (md_Graph inert_exits_machine))
      = ''"ask" may only move where their dotted arrows go. Any other phase can move to any other with change_phase, which is not drawn.''\<close>
    by code_simp
  show "\<forall>e \<in> set (wg_edges (md_Graph inert_exits_machine)). we_style e \<noteq> EdgeBack" by code_simp
qed

end
