(* ===== verification/PipelineGraph.thy ===== *)
theory PipelineGraph
  imports MachineGraph PipelineEdit
begin

text \<open>
  The picture of a pipeline (core/pipeline_graph.go): \<open>Graph\<close>, the arrows out of one stage, a loop drawn
  as a hub around its body, the tags and the legend. Every arrow of every pipeline joins two boxes that
  are drawn, and in a pipeline whose names are unique each box stands for one stage.
\<close>

section \<open>Tags and notes\<close>

definition chFirstNonEmpty :: "string \<Rightarrow> string \<Rightarrow> string" where
  "chFirstNonEmpty a b = (if trim_space a \<noteq> [] then a else b)"

definition loopStopNote :: "StageFields \<Rightarrow> string" where
  "loopStopNote s =
     (let u = trim_space (sf_until s) in
      join '', '' ([''up to '' @ itoa_int (sf_count s) @ '' passes'']
        @ (if u \<noteq> [] then [''stopping early when '' @ u] else [])))"

definition kind_tags :: "StageFields \<Rightarrow> string list" where
  "kind_tags s =
     (let k = trim_space (sf_kind s) in
      if k = StageAgent then [''delegated'']
      else if k = StageFanout then
        [times_sign @ '' each '' @ (let over = trim_space (sf_fan_over s) in if over = [] then ''a list'' else over)]
      else if k = StageLoop then [''loop '' @ times_sign @ itoa_int (sf_count s)]
      else if k = StageBranch then [''no model call'']
      else if k = StageTool then [''tool: '' @ chFirstNonEmpty (sf_tool s) ''(unnamed)'']
      else [])"

definition stageTags :: "StageFields \<Rightarrow> string list" where
  "stageTags s =
     kind_tags s @ tier_tags (sf_model s) @ think_tags (StageThinkMode s) @ tool_tags (sf_tools s)
     @ output_tags (stage_ModelOutput s)"

definition pipelineLegend :: "golib \<Rightarrow> PipelineDef \<Rightarrow> string list" where
  "pipelineLegend L d =
     (if length (filter (\<lambda>p. trim_space (sf_kind (sg p)) = StageFanout) (pd_stages d)) > 0 then
        [''A fanout is ONE box and many calls: it runs its prompt once per element of the list it fans over, in parallel, then collects them into one block.'']
      else [])
     @ map (\<lambda>p. ''Branch '' @ quote L (trim_space (sg_name p))
            @ '' ENDS the pipeline when it fires: its arrow onward is the case where it does not.'')
         (filter (\<lambda>p. trim_space (sf_kind (sg p)) = StageBranch \<and> trim_space (sf_skip_to (sg p)) = []) (pd_stages d))"

section \<open>Arrows\<close>

definition stageEdges :: "PipelineStage \<Rightarrow> string \<Rightarrow> string \<Rightarrow> string list \<Rightarrow> WorkflowEdge list" where
  "stageEdges p name nxt known =
     (let s = sg p; kind = trim_space (sf_kind s) in
      if kind = StageBranch then
        (let cond = trim_space (sf_when s); to = trim_space (sf_skip_to s) in
         (if to \<noteq> [] \<and> to \<in> set known then
            [\<lparr>we_from = name, we_to = to, we_label = ''when '' @ cond, we_style = EdgeDashed,
              we_note = ''skips ahead when '' @ cond @ '' is true''\<rparr>]
          else [])
         @ (if nxt \<noteq> [] then
              [\<lparr>we_from = name, we_to = nxt, we_label = ''otherwise'', we_style = EdgeSolid,
                we_note = ''taken when '' @ cond @ '' is false''\<rparr>]
            else []))
      else if kind = StageLoop \<and> sg_body p \<noteq> [] then []
      else if nxt \<noteq> [] then
        [\<lparr>we_from = name, we_to = nxt, we_label = [], we_style = EdgeSolid, we_note = []\<rparr>]
      else [])"

definition body_id :: "string \<Rightarrow> string \<Rightarrow> string" where
  "body_id name inner = name @ body_mark @ trim_space inner"

text \<open>The walk along a loop's body: its boxes, the arrows between them, the first and the last.\<close>

fun body_chain ::
    "string \<Rightarrow> PipelineStage list \<Rightarrow> string \<Rightarrow> string
      \<Rightarrow> WorkflowNode list \<times> WorkflowEdge list \<times> string \<times> string" where
  "body_chain name [] first0 last0 = ([], [], first0, last0)"
| "body_chain name (b # bs) first0 last0 =
     (let inner = trim_space (sg_name b) in
      if inner = [] then body_chain name bs first0 last0
      else
        (let nid = body_id name inner;
             node = \<lparr>wn_id = nid, wn_label = inner, wn_note = [], wn_kind = NodeStep, wn_tags = stageTags (sg b), wn_href = []\<rparr>;
             step = (if first0 = [] then []
                     else [\<lparr>we_from = last0, we_to = nid, we_label = [], we_style = EdgeSolid, we_note = []\<rparr>]);
             (nodes, edges, first1, last1) = body_chain name bs (if first0 = [] then nid else first0) nid
         in (node # nodes, step @ edges, first1, last1)))"

definition appendLoopBody :: "PipelineStage \<Rightarrow> string \<Rightarrow> string \<Rightarrow> WorkflowNode list \<times> WorkflowEdge list" where
  "appendLoopBody p name nxt =
     (if trim_space (sf_kind (sg p)) \<noteq> StageLoop \<or> sg_body p = [] then ([], [])
      else case body_chain name (sg_body p) [] [] of (nodes, edges, first1, last1) \<Rightarrow>
        if first1 = [] then (nodes, edges)
        else
          (nodes,
           edges
           @ [\<lparr>we_from = name, we_to = first1, we_label = ''each pass'', we_style = EdgeSolid,
               we_note = ''the body runs once per pass, each pass seeing the last''\<rparr>,
              \<lparr>we_from = last1, we_to = name, we_label = ''again'', we_style = EdgeBack, we_note = loopStopNote (sg p)\<rparr>]
           @ (if nxt \<noteq> [] then
                [\<lparr>we_from = name, we_to = nxt, we_label = ''when it stops'', we_style = EdgeSolid,
                  we_note = loopStopNote (sg p)\<rparr>]
              else [])))"

definition stage_kind_of_box :: "nat \<Rightarrow> nat \<Rightarrow> string" where
  "stage_kind_of_box n i = (if i = 0 then NodeEntry else if i = n - 1 then NodeExit else NodeStep)"

definition stage_picture ::
    "PipelineStage list \<Rightarrow> string list \<Rightarrow> nat \<times> PipelineStage \<Rightarrow> WorkflowNode list \<times> WorkflowEdge list" where
  "stage_picture stages known ip =
     (let (i, p) = ip; name = trim_space (sg_name p) in
      if name = [] then ([], [])
      else
        (let nxt = (if i + 1 < length stages then trim_space (sg_name (stages ! (i + 1))) else []);
             (body_nodes, body_edges) = appendLoopBody p name nxt
         in (\<lparr>wn_id = name, wn_label = name, wn_note = [], wn_kind = stage_kind_of_box (length stages) i,
               wn_tags = stageTags (sg p), wn_href = []\<rparr> # body_nodes,
             stageEdges p name nxt known @ body_edges)))"

definition real_names :: "PipelineStage list \<Rightarrow> string list" where
  "real_names stages = filter (\<lambda>n. n \<noteq> []) (map (\<lambda>p. trim_space (sg_name p)) stages)"

definition pd_Graph :: "golib \<Rightarrow> PipelineDef \<Rightarrow> WorkflowGraph" where
  "pd_Graph L d =
     (let stages = pd_stages d in
      if stages = [] then
        \<lparr>wg_title = pd_name (pd d), wg_entry = [], wg_nodes = [], wg_edges = [], wg_legend = []\<rparr>
      else
        (let parts = map (stage_picture stages (real_names stages)) (enumerate 0 stages) in
         \<lparr>wg_title = pd_name (pd d), wg_entry = trim_space (sg_name (hd stages)),
          wg_nodes = concat (map fst parts), wg_edges = concat (map snd parts),
          wg_legend = pipelineLegend L d
            @ [''Solid: the next stage. Dashed: a branch decided at run time. Dotted: a loop going round again.'']\<rparr>))"

section \<open>Every arrow joins two boxes\<close>

lemma body_id_nonempty [simp]: "body_id name inner \<noteq> []"
  by (simp add: body_id_def body_mark_def)

lemma body_chain_ends:
  "body_chain name bs first0 last0 = (nodes, edges, first1, last1) \<Longrightarrow> (first0 = [] \<longleftrightarrow> last0 = []) \<Longrightarrow>
     (\<forall>e \<in> set edges. we_from e \<in> insert last0 (wn_id ` set nodes) \<and> we_to e \<in> wn_id ` set nodes \<and> we_from e \<noteq> [])
     \<and> (first1 = [] \<longleftrightarrow> last1 = [])
     \<and> first1 \<in> insert first0 (wn_id ` set nodes) \<and> last1 \<in> insert last0 (wn_id ` set nodes)
     \<and> (first0 \<noteq> [] \<longrightarrow> first1 = first0)"
proof (induction bs arbitrary: first0 last0 nodes edges first1 last1)
  case (Cons b bs)
  let ?inner = "trim_space (sg_name b)"
  let ?nid = "body_id name ?inner"
  show ?case
  proof (cases "?inner = []")
    case True
    with Cons show ?thesis by (simp add: Let_def)
  next
    case False
    obtain ns es f l where rest: "body_chain name bs (if first0 = [] then ?nid else first0) ?nid = (ns, es, f, l)"
      by (metis prod_cases4)
    have some: "(if first0 = [] then ?nid else first0) = [] \<longleftrightarrow> ?nid = []" by simp
    from Cons.IH [OF rest some] have ih:
      "\<forall>e \<in> set es. we_from e \<in> insert ?nid (wn_id ` set ns) \<and> we_to e \<in> wn_id ` set ns \<and> we_from e \<noteq> []"
      "f = [] \<longleftrightarrow> l = []" "f \<in> insert (if first0 = [] then ?nid else first0) (wn_id ` set ns)"
      "l \<in> insert ?nid (wn_id ` set ns)" "f = (if first0 = [] then ?nid else first0)"
      by (auto split: if_splits)
    from False rest Cons.prems(1) have eq: "first1 = f" "last1 = l"
      "nodes = \<lparr>wn_id = ?nid, wn_label = ?inner, wn_note = [], wn_kind = NodeStep, wn_tags = stageTags (sg b), wn_href = []\<rparr> # ns"
      "edges = (if first0 = [] then []
                else [\<lparr>we_from = last0, we_to = ?nid, we_label = [], we_style = EdgeSolid, we_note = []\<rparr>]) @ es"
      by (auto simp: Let_def)
    have "\<forall>e \<in> set edges. we_from e \<in> insert last0 (wn_id ` set nodes) \<and> we_to e \<in> wn_id ` set nodes \<and> we_from e \<noteq> []"
      using ih(1) Cons.prems(2) by (auto simp: eq)
    moreover have "first1 = [] \<longleftrightarrow> last1 = []" "first1 \<in> insert first0 (wn_id ` set nodes)"
        "last1 \<in> insert last0 (wn_id ` set nodes)" "first0 \<noteq> [] \<longrightarrow> first1 = first0"
      using ih by (auto simp: eq split: if_splits)
    ultimately show ?thesis by blast
  qed
qed auto

definition joins :: "string set \<Rightarrow> WorkflowEdge \<Rightarrow> bool" where
  "joins ids e \<longleftrightarrow> we_from e \<in> ids \<and> we_to e \<in> ids"

lemma loop_body_joins:
  assumes "appendLoopBody p name nxt = (nodes, edges)" "e \<in> set edges"
  shows "joins (insert name (if nxt = [] then {} else {nxt}) \<union> wn_id ` set nodes) e"
proof -
  have loop: "\<not> (trim_space (sf_kind (sg p)) \<noteq> StageLoop \<or> sg_body p = [])"
  proof
    assume "trim_space (sf_kind (sg p)) \<noteq> StageLoop \<or> sg_body p = []"
    then have "appendLoopBody p name nxt = ([], [])" by (simp add: appendLoopBody_def)
    with assms show False by simp
  qed
  obtain ns es f l where chain: "body_chain name (sg_body p) [] [] = (ns, es, f, l)" by (metis prod_cases4)
  note ends = body_chain_ends [OF chain, simplified]
  from loop chain assms(1) have ns: "nodes = ns" by (auto simp: appendLoopBody_def split: if_splits)
  show ?thesis
  proof (cases "e \<in> set es")
    case True
    with ends show ?thesis by (auto simp: joins_def ns)
  next
    case False
    with loop chain assms ends show ?thesis
      by (auto simp: appendLoopBody_def joins_def ns split: if_splits)
  qed
qed

lemma real_names_iff: "n \<in> set (real_names stages) \<longleftrightarrow> n \<noteq> [] \<and> (\<exists>p \<in> set stages. trim_space (sg_name p) = n)"
  by (auto simp: real_names_def)

lemma picture_joins:
  assumes "stage_picture stages known (i, p) = (nodes, edges)" "e \<in> set edges"
    and "i < length stages" "p = stages ! i" "set known = set (real_names stages)"
  shows "joins (set (real_names stages) \<union> wn_id ` set nodes) e"
proof -
  let ?name = "trim_space (sg_name p)"
  let ?nxt = "if i + 1 < length stages then trim_space (sg_name (stages ! (i + 1))) else []"
  from assms(1,2) have name: "?name \<noteq> []" by (auto simp: stage_picture_def)
  obtain bn be where body: "appendLoopBody p ?name ?nxt = (bn, be)" by force
  from assms(1) name body have parts: "bn = tl nodes" "nodes \<noteq> []" "edges = stageEdges p ?name ?nxt known @ be"
    by (auto simp: stage_picture_def Let_def)
  have nxt: "?nxt \<noteq> [] \<Longrightarrow> ?nxt \<in> set (real_names stages)"
    unfolding real_names_iff using nth_mem [of "i + 1" stages] by (auto split: if_splits)
  have here: "?name \<in> set (real_names stages)"
    unfolding real_names_iff using name assms(3,4) nth_mem by blast
  from assms(2) parts(3) consider "e \<in> set (stageEdges p ?name ?nxt known)" | "e \<in> set be" by auto
  then show ?thesis
  proof cases
    case 1
    then show ?thesis using here nxt assms(5)
      by (auto simp: stageEdges_def joins_def Let_def split: if_splits)
  next
    case 2
    have "wn_id ` set bn \<subseteq> wn_id ` set nodes" using parts(1,2) by (cases nodes) auto
    with loop_body_joins [OF body 2] here nxt show ?thesis by (auto simp: joins_def split: if_splits)
  qed
qed

lemma named_stage_drawn:
  assumes "i < length stages" "trim_space (sg_name (stages ! i)) \<noteq> []"
  shows "\<exists>n \<in> set (fst (stage_picture stages known (i, stages ! i))). wn_id n = trim_space (sg_name (stages ! i))"
  using assms by (auto simp: stage_picture_def Let_def split: prod.splits)

text \<open>The picture of a pipeline hangs together. Whatever the pipeline, validated or not, every arrow of
  its picture starts and ends at a box that is drawn and has a place: the renderer skips none.
\<close>

theorem every_pipeline_arrow_is_drawn:
  "list_all (\<lambda>e. map_of (fst (layout (pd_Graph L d))) (we_from e) \<noteq> None
       \<and> map_of (fst (layout (pd_Graph L d))) (we_to e) \<noteq> None)
     (wg_edges (pd_Graph L d))"
  unfolding list_all_iff
proof
  fix e assume e: "e \<in> set (wg_edges (pd_Graph L d))"
  let ?s = "pd_stages d" and ?ids = "wn_id ` set (wg_nodes (pd_Graph L d))"
  from e have ne: "?s \<noteq> []" by (auto simp: pd_Graph_def Let_def)
  have nodes: "set (wg_nodes (pd_Graph L d)) = (\<Union>i < length ?s. set (fst (stage_picture ?s (real_names ?s) (i, ?s ! i))))"
    using ne by (force simp: pd_Graph_def Let_def in_set_enumerate_eq)
  from e ne obtain i where i: "i < length ?s" "e \<in> set (snd (stage_picture ?s (real_names ?s) (i, ?s ! i)))"
    by (auto simp: pd_Graph_def Let_def in_set_enumerate_eq)
  obtain ns es where pic: "stage_picture ?s (real_names ?s) (i, ?s ! i) = (ns, es)" by force
  from picture_joins [OF pic _ i(1) refl refl] i(2) pic
  have j: "joins (set (real_names ?s) \<union> wn_id ` set ns) e" by simp
  have "wn_id ` set ns \<subseteq> ?ids" unfolding nodes using i(1) pic by force
  moreover have "set (real_names ?s) \<subseteq> ?ids"
  proof
    fix n assume "n \<in> set (real_names ?s)"
    then obtain k where k: "k < length ?s" "trim_space (sg_name (?s ! k)) = n" "n \<noteq> []"
      unfolding real_names_iff by (metis in_set_conv_nth)
    with named_stage_drawn [OF k(1), of "real_names ?s"] show "n \<in> ?ids" unfolding nodes by force
  qed
  ultimately have "we_from e \<in> ?ids" "we_to e \<in> ?ids" using j by (auto simp: joins_def)
  then show "map_of (fst (layout (pd_Graph L d))) (we_from e) \<noteq> None
      \<and> map_of (fst (layout (pd_Graph L d))) (we_to e) \<noteq> None"
    using node_placed by fastforce
qed

end
