(* ===== verification/PipelinePlan.thy ===== *)
theory PipelinePlan
  imports PipelineEnds PipelineGraph
begin

text \<open>
  What a pipeline will do, worked out from its definition (core/pipeline_plan.go): \<open>Plan\<close>, its walk and
  its arithmetic, what each stage reads, and \<open>Summary\<close>. Costs and page counts are natural numbers: the
  code never makes a negative one.

  PipelineCost proves what the figures promise about a run, and shows where they fall short.
\<close>

section \<open>Words\<close>

definition orPlaceholder :: "string \<Rightarrow> string \<Rightarrow> string" where
  "orPlaceholder s fallback = (let t = trim_space s in if t \<noteq> [] then t else fallback)"

definition plural_s :: "nat \<Rightarrow> string" where
  "plural_s n = (if n = 1 then [] else ''s'')"

definition tierWord :: "StageFields \<Rightarrow> string" where
  "tierWord s = (if equal_fold (trim_space (sf_model s)) ''lead'' then ''on the lead tier'' else ''on the worker'')"

definition thinkWord :: "StageFields \<Rightarrow> string" where
  "thinkWord s =
     (let m = StageThinkMode s in
      if m = ''on'' then '', thinking'' else if m = ''off'' then '', not thinking'' else [])"

definition boundedRounds :: "int \<Rightarrow> nat" where
  "boundedRounds n = nat (if n < 1 then 1 else if n > panelMaxRounds then panelMaxRounds else n)"

definition branchNote :: "StageFields \<Rightarrow> string" where
  "branchNote s =
     (let to = trim_space (sf_skip_to s) in
      if to \<noteq> [] then ''skips ahead to '' @ to @ '' when it holds''
      else ''ENDS the run when it holds: nothing after this stage happens'')"

text \<open>\<open>stageRefsIn\<close>, the references of a prompt without the empty ones.\<close>

definition stageRefsIn :: "string \<Rightarrow> string list" where
  "stageRefsIn p = filter (\<lambda>r. r \<noteq> []) (stageRefs p)"

definition stageReads :: "StageFields \<Rightarrow> string list" where
  "stageReads s =
     (if sf_kind s = StageTool \<or> sf_kind s = StageBranch then []
      else
        (let p = sf_prompt s in
         (if contains p ''{input}'' then [''the run'' @ [CHR 0x27] @ ''s input''] else [])
         @ (if contains p ''{prev}'' then [''the previous stage''] else [])
         @ (if contains p ''{item}'' then [''the current item''] else [])
         @ (if contains p ''{panel}'' then [''what the other voices said''] else [])
         @ map (\<lambda>ref. ''stage '' @ ref) (stageRefsIn p)))"

section \<open>The plan\<close>

record PipelinePlanStep =
  pl_depth :: nat
  pl_name :: string
  pl_kind :: string
  pl_run_by :: string
  pl_reads :: "string list"
  pl_min :: nat
  pl_max :: nat
  pl_note :: string

record PipelinePlan =
  pp_steps :: "PipelinePlanStep list"
  pp_min :: nat
  pp_max :: nat
  pp_at_least :: bool

definition plan_pages :: "StageFields \<Rightarrow> nat" where
  "plan_pages s = nat (if sf_count s < 1 then gatherDefaultPages else sf_count s)"

definition plan_passes :: "StageFields \<Rightarrow> nat" where
  "plan_passes s = nat (if sf_count s < 1 then 1 else sf_count s)"

text \<open>The calls a stage is put down for: at least and at most, from those of one pass through its body.\<close>

definition stage_calls :: "StageFields \<Rightarrow> bool \<Rightarrow> nat \<Rightarrow> nat \<Rightarrow> nat \<times> nat" where
  "stage_calls s has_body bodyMin bodyMax =
     (let k = sf_kind s in
      if k = StageBranch \<or> k = StageTool \<or> k = StageGather then (0, 0)
      else if k = StageVerify then (0, verifyMaxClaims)
      else if k = StagePanel then
        (let n = length (sf_panel s) * boundedRounds (sf_count s) in
         if sf_research s > 0 then (2 * n, 2 * n) else (n, n))
      else if k = StageFanout then
        (if has_body then (bodyMin, bodyMax * fanoutMaxItems) else (1, fanoutMaxItems))
      else if k = StageLoop then (bodyMin, bodyMax * plan_passes s)
      else (1, 1))"

definition run_by :: "StageFields \<Rightarrow> string" where
  "run_by s =
     (let k = sf_kind s in
      if k = StageBranch then ''no model: reads '' @ orPlaceholder (sf_when s) ''a condition'' @ '' and decides''
      else if k = StageTool then ''no model: calls '' @ orPlaceholder (sf_tool s) ''a tool'' @ '' directly''
      else if k = StageAgent then ''agent '' @ orPlaceholder (sf_agent s) ''(unnamed)''
      else if k = StageGather then
        ''no model: searches the web and reads up to '' @ itoa (plan_pages s) @ '' page'' @ plural_s (plan_pages s)
      else if k = StageVerify then
        ''checks '' @ orPlaceholder (sf_check s) ''an earlier stage'' @ '' against what the run read''
      else if k = StageMachine then ''machine '' @ orPlaceholder (sf_machine s) ''(unnamed)''
      else if k = StagePanel then
        itoa (length (sf_panel s)) @ '' voices '' @ times_sign @ '' '' @ itoa (boundedRounds (sf_count s))
        @ '' round'' @ plural_s (boundedRounds (sf_count s))
      else if k = StageFanout then
        ''once per item of '' @ orPlaceholder (sf_fan_over s) ''an earlier list''
        @ '', in parallel, up to '' @ itoa fanoutMaxItems
      else if k = StageLoop then ''its body, up to '' @ itoa (plan_passes s) @ '' time'' @ plural_s (plan_passes s)
      else ''one model call, '' @ tierWord s @ thinkWord s)"

definition plan_note :: "StageFields \<Rightarrow> string" where
  "plan_note s =
     (let k = sf_kind s in
      if k = StageBranch then branchNote s
      else if k = StageAgent then ''an agent turn is at least one call, and its own tools may add more''
      else if k = StageVerify then ''one model call per cited claim, up to '' @ itoa verifyMaxClaims
      else if k = StageMachine then ''a machine runs its own steps; the cost is whatever it does''
      else if k = StagePanel then
        (if sf_research s > 0 then
           ''each voice looks things up first, reading up to '' @ itoa (nat (sf_research s)) @ '' page''
           @ plural_s (nat (sf_research s)) @ '' a round''
         else [])
      else if k = StageFanout then
        ''the item count is not known until '' @ orPlaceholder (sf_fan_over s) ''that stage'' @ '' runs''
      else if k = StageLoop then
        (if trim_space (sf_until s) \<noteq> [] then
           ''stops early when '' @ sf_until s @ '' says so, so one pass is the floor''
         else [])
      else [])"

definition uncounted :: "PipelinePlanStep \<Rightarrow> PipelinePlanStep" where
  "uncounted b = b\<lparr>pl_min := 0, pl_max := 0\<rparr>"

text \<open>
  \<open>walk\<close> on one stage: its own step and those of its body, which are recorded and not counted again.
  \<open>bodyCost\<close> is the sum over a walk of the body.
\<close>

primrec walk_stage :: "PipelineStage \<Rightarrow> nat \<Rightarrow> PipelinePlanStep list" where
  "walk_stage (PipelineStage s body) = (\<lambda>depth.
     (let walks = map walk_stage body;
          inner = concat (map (\<lambda>walk. walk 0) walks);
          (lo, hi) = stage_calls s (body \<noteq> []) (sum_list (map pl_min inner)) (sum_list (map pl_max inner)) in
      \<lparr>pl_depth = depth, pl_name = sf_name s, pl_kind = sf_kind s, pl_run_by = run_by s, pl_reads = stageReads s,
        pl_min = lo, pl_max = hi, pl_note = plan_note s\<rparr>
      # map uncounted (concat (map (\<lambda>walk. walk (depth + 1)) walks))))"

definition bodyCost :: "PipelineStage list \<Rightarrow> nat \<times> nat" where
  "bodyCost body =
     (let steps = concat (map (\<lambda>p. walk_stage p 0) body) in
      (sum_list (map pl_min steps), sum_list (map pl_max steps)))"

definition Plan :: "PipelineDef \<Rightarrow> PipelinePlan" where
  "Plan d =
     (let steps = concat (map (\<lambda>p. walk_stage p 0) (pd_stages d)) in
      \<lparr>pp_steps = steps, pp_min = sum_list (map pl_min steps), pp_max = sum_list (map pl_max steps),
       pp_at_least = (\<exists>p \<in> set (pd_stages d). sf_kind (sg p) = StageAgent \<or> sf_kind (sg p) = StageMachine)\<rparr>)"

definition en_dash :: string where
  "en_dash = [CHR 0xE2, CHR 0x80, CHR 0x93]"

definition Summary :: "PipelinePlan \<Rightarrow> string" where
  "Summary p =
     (if pp_steps p = [] then ''No stages yet.''
      else
        (let calls = (if pp_max p \<noteq> pp_min p then itoa (pp_min p) @ en_dash @ itoa (pp_max p) else itoa (pp_min p));
             least = (if pp_at_least p then '' at least'' else []) in
         itoa (length (pp_steps p)) @ '' stage'' @ plural_s (length (pp_steps p)) @ '','' @ least @ '' '' @ calls
         @ '' model call'' @ plural_s (pp_max p) @ '' per run.''))"

section \<open>The arithmetic\<close>

definition plan_max :: "PipelineStage \<Rightarrow> nat" where
  "plan_max p = pl_max (hd (walk_stage p 0))"

definition plan_min :: "PipelineStage \<Rightarrow> nat" where
  "plan_min p = pl_min (hd (walk_stage p 0))"

lemma walk_stage_own: "\<exists>rest. walk_stage p d = (hd (walk_stage p 0))\<lparr>pl_depth := d\<rparr> # map uncounted rest"
  by (cases p) (auto simp: Let_def split: prod.splits)

lemma sum_uncounted: "sum_list (map pl_max (map uncounted xs)) = 0" "sum_list (map pl_min (map uncounted xs)) = 0"
  by (induction xs) (auto simp: uncounted_def)

lemma walk_stage_max: "sum_list (map pl_max (walk_stage p d)) = plan_max p"
proof -
  obtain rest where "walk_stage p d = (hd (walk_stage p 0))\<lparr>pl_depth := d\<rparr> # map uncounted rest"
    using walk_stage_own by blast
  then show ?thesis using sum_uncounted [of rest] by (simp add: plan_max_def)
qed

lemma walk_stage_min: "sum_list (map pl_min (walk_stage p d)) = plan_min p"
proof -
  obtain rest where "walk_stage p d = (hd (walk_stage p 0))\<lparr>pl_depth := d\<rparr> # map uncounted rest"
    using walk_stage_own by blast
  then show ?thesis using sum_uncounted [of rest] by (simp add: plan_min_def)
qed

lemma sum_concat_map: "sum_list (map f (concat xss)) = sum_list (map (\<lambda>xs. sum_list (map f xs)) xss)"
  for f :: "'a \<Rightarrow> nat"
  by (induction xss) auto

lemma bodyCost_sum: "bodyCost body = (sum_list (map plan_min body), sum_list (map plan_max body))"
  by (simp add: bodyCost_def Let_def sum_concat_map o_def walk_stage_max walk_stage_min)

lemma plan_calls:
  "(plan_min p, plan_max p) = stage_calls (sg p) (sg_body p \<noteq> []) (fst (bodyCost (sg_body p))) (snd (bodyCost (sg_body p)))"
proof (cases p)
  case (PipelineStage s body)
  then show ?thesis
    by (auto simp: plan_min_def plan_max_def Let_def bodyCost_def o_def map_map split: prod.splits)
qed

text \<open>The plan's total is the sum over the stages of the list, bodies counted inside their own stage.\<close>

lemma Plan_max: "pp_max (Plan d) = sum_list (map plan_max (pd_stages d))"
  by (simp add: Plan_def Let_def sum_concat_map o_def walk_stage_max)

lemma Plan_min: "pp_min (Plan d) = sum_list (map plan_min (pd_stages d))"
  by (simp add: Plan_def Let_def sum_concat_map o_def walk_stage_min)

end
