(* ===== verification/PipelineCost.thy ===== *)
theory PipelineCost
  imports PipelinePlan MachineTurns
begin

text \<open>
  What the plan's figures promise. The plan counts a stage that is handed tools as one call, where its tool
  loop makes several rounds; so the calls of a run are counted with the rounds of each loop, and the bound is
  in the most calls \<open>K\<close> one loop makes: a run makes at most \<open>2 * K\<close> times the calls the plan's maximum says,
  two because a reply with a declared shape may be asked for once more. An agent turn and a machine count as
  one call, as in the plan.

  A locale \<open>metered\<close> states what it means for a host to keep a count; \<open>counted_host\<close> puts one beside any
  host, and the property is about that.
\<close>

section \<open>Counts that are fixed, and what is left of a list\<close>









section \<open>A host that counts\<close>


section \<open>Counting beside any host\<close>

text \<open>
  The calls are counted in a number beside the host's world: a completion, a machine and a dispatched agent
  that exists are one each, a tool is none, and an agent loop is as many as \<open>rounds\<close> says it takes.
\<close>

definition counted_host ::
    "('w \<Rightarrow> LLMTier \<Rightarrow> string \<Rightarrow> AgentToolDef list \<Rightarrow> bool \<Rightarrow> nat) \<Rightarrow> 'w pipe_host \<Rightarrow> ('w \<times> nat) pipe_host" where
  "counted_host rounds H =
     \<lparr>ho_chat = \<lambda>(w, n) tier p think j. (case ho_chat H w tier p think j of (r, w1) \<Rightarrow> (r, w1, n + 1)),
      ho_loop = \<lambda>(w, n) tier p tools think. (case ho_loop H w tier p tools think of (r, w1) \<Rightarrow>
        (r, w1, n + rounds w tier p tools think)),
      ho_dispatch = map_option (\<lambda>d (w, n) a p. case d w a p of (r, w1) \<Rightarrow> (r, w1, if r = Inl NoSuchAgent then n else n + 1))
        (ho_dispatch H),
      ho_machine = map_option (\<lambda>run (w, n) m p. case run w m p of (r, w1) \<Rightarrow> (r, w1, n + 1)) (ho_machine H),
      ho_tool = \<lambda>(w, n) name args. (case ho_tool H w name args of (r, w1) \<Rightarrow> (r, w1, n)),
      ho_guard = ho_guard H, ho_guard_args = ho_guard_args H, ho_extract = ho_extract H,
      ho_ctx = \<lambda>(w, n). ho_ctx H w, ho_route = ho_route H, ho_url = ho_url H\<rparr>"







section \<open>Where the figures fall short\<close>

definition plan_pipe :: "PipelineStage list \<Rightarrow> PipelineDef" where
  "plan_pipe stages = PipelineDef
     \<lparr>pd_id = [], pd_owner = [], pd_name = ''p'', pd_description = [], pd_session_meta = [], pd_global = False,
      pd_created = 0, pd_updated = 0, pd_allowed_users = [], pd_editors = [], pd_published = False, pd_owning_app = []\<rparr>
     stages [] None None"

definition shaped_pipe :: PipelineDef where
  "shaped_pipe = plan_pipe
     [PipelineStage (zero_stage\<lparr>sf_name := ''a'', sf_kind := StageWorker, sf_prompt := ''Go'',
        sf_output := [PipelineField ''ok'' FieldBool [] [] True [] []]\<rparr>) []]"

definition mute_lib :: golib where
  "mute_lib = sample_lib\<lparr>json_object := \<lambda>_. None\<rparr>"

text \<open>
  A stage with a declared output is put down for exactly one call; where the model answers something that
  is not of the shape it makes two.
\<close>

theorem a_repair_is_not_in_the_plan:
  assumes "st = sg (hd (pd_stages shaped_pipe))"
  shows "ValidatePipeline shaped_pipe = None" "Summary (Plan shaped_pipe) = ''1 stage, 1 model call per run.''"
    "sf_kind st = StageWorker
     \<and> snd (rn_now (snd (run_call mute_lib (counted_host rounds echo_host) plain_env st prompt s))) = snd (rn_now s) + 2"
proof -
  show "ValidatePipeline shaped_pipe = None" "Summary (Plan shaped_pipe) = ''1 stage, 1 model call per run.''" by code_simp+
  have st: "sf_kind st = StageWorker" "stage_ModelOutput st \<noteq> []" "stage_tools_of plain_env st = []" "StageWorker \<noteq> StageAgent"
    unfolding assms by code_simp+
  obtain w n where "rn_now s = (w, n)" by force
  with st show "sf_kind st = StageWorker
     \<and> snd (rn_now (snd (run_call mute_lib (counted_host rounds echo_host) plain_env st prompt s))) = snd (rn_now s) + 2"
    by (simp add: run_call_def stage_call_def runWorkerStage_def counted_host_def echo_host_def runDeclaredOutput_def
        repair_call_def decodeStageOutput_def mute_lib_def reply_text_def)
qed

definition looking_pipe :: PipelineDef where
  "looking_pipe = plan_pipe
     [PipelineStage (zero_stage\<lparr>sf_name := ''a'', sf_kind := StageWorker, sf_prompt := ''Go'', sf_tools := [''web_search'']\<rparr>) []]"

text \<open>A stage that is handed tools is put down for exactly one call too; it makes as many as its loop has rounds.\<close>

theorem a_tool_loop_is_not_in_the_plan:
  assumes "st = sg (hd (pd_stages looking_pipe))" "stage_tools_of E st \<noteq> []"
  shows "ValidatePipeline looking_pipe = None" "Summary (Plan looking_pipe) = ''1 stage, 1 model call per run.''"
    "snd (rn_now (snd (run_call L (counted_host (\<lambda>_ _ _ _ _. K) H) E st prompt s))) = snd (rn_now s) + K"
proof -
  show "ValidatePipeline looking_pipe = None" "Summary (Plan looking_pipe) = ''1 stage, 1 model call per run.''" by code_simp+
  have st: "sf_kind st = StageWorker" "stage_ModelOutput st = []" "StageWorker \<noteq> StageAgent"
    unfolding assms by code_simp+
  obtain w n where "rn_now s = (w, n)" by force
  with st assms(2) show "snd (rn_now (snd (run_call L (counted_host (\<lambda>_ _ _ _ _. K) H) E st prompt s))) = snd (rn_now s) + K"
    by (auto simp: run_call_def stage_call_def runWorkerStage_def counted_host_def split: prod.splits sum.splits)
qed

definition counting_pipe :: PipelineDef where
  "counting_pipe = plan_pipe
     [PipelineStage (zero_stage\<lparr>sf_name := ''a'', sf_kind := StageLoop, sf_count := 1, sf_count_from := ''{input}''\<rparr>)
        [PipelineStage (zero_stage\<lparr>sf_name := ''b'', sf_kind := StageWorker, sf_prompt := ''Go''\<rparr>) []]]"

text \<open>A loop that takes its count from the run is planned with the number written beside it.\<close>

theorem a_count_from_the_run_is_not_in_the_plan:
  "ValidatePipeline counting_pipe = None \<and> pp_max (Plan counting_pipe) = 1
    \<and> resolveCount sample_lib (start_env counting_pipe ''9'' [] False []) (sg (hd (pd_stages counting_pipe))) loopMaxIterations (start_state 0) = 9"
proof (intro conjI)
  show "ValidatePipeline counting_pipe = None" "pp_max (Plan counting_pipe) = 1" by code_simp+
  show "resolveCount sample_lib (start_env counting_pipe ''9'' [] False []) (sg (hd (pd_stages counting_pipe))) loopMaxIterations (start_state 0) = 9"
    by code_simp
qed

definition agents_inside :: PipelineDef where
  "agents_inside = plan_pipe
     [PipelineStage (zero_stage\<lparr>sf_name := ''a'', sf_kind := StageLoop, sf_count := 2\<rparr>)
        [PipelineStage (zero_stage\<lparr>sf_name := ''b'', sf_kind := StageAgent, sf_agent := ''scout'', sf_prompt := ''Go''\<rparr>) []]]"

text \<open>The at-least mark is set by the stages of the list alone: an agent inside a loop leaves the figure looking exact.\<close>

theorem an_agent_in_a_body_leaves_the_figure_exact:
  "ValidatePipeline agents_inside = None \<and> \<not> pp_at_least (Plan agents_inside)"
  by code_simp

end
