(* ===== verification/PathScopes.thy ===== *)
theory PathScopes
  imports GoValue
begin

text \<open>
  Path scopes (core/path_scope.go): a tool parameter limited to a registered root is proved to lie in it
  by that root's resolver, on every dispatch, before a tool sees it.

  The registered kinds, the reference sources' kinds and the attachment check are an environment
  \<open>scope_env\<close>. A resolver belongs to the app that owns the roots: it is a function of the user, the root
  and the value that may read and change a world of its own, and its lister one of the user and the root;
  what they answer is not constrained. A refusal is a constructor holding what its sentence names.
\<close>

section \<open>Registry\<close>

datatype scope_error =
    UnknownKind string
  | TrustedCallersOnly string
  | NotLinked string
  | ResolverRefused string

record PathScopeRoot =
  sr_ref :: string
  sr_label :: string
  sr_detail :: string

type_synonym 'w resolver = "string \<Rightarrow> string \<Rightarrow> string \<Rightarrow> 'w \<Rightarrow> (string + string) \<times> 'w"

record 'w PathScope =
  ps_resolve :: "'w resolver option"
  ps_values :: "(string \<Rightarrow> string \<Rightarrow> string list) option"
  ps_roots :: "(string \<Rightarrow> PathScopeRoot list) option"
  ps_trusted_only :: bool

record 'w scope_env =
  se_kinds :: "(string \<times> 'w PathScope) list"
  se_sources :: "string list"
  se_holds :: "(string \<Rightarrow> string \<Rightarrow> string \<Rightarrow> string \<Rightarrow> bool) option"

definition RegisterPathScope ::
    "string \<Rightarrow> 'w PathScope \<Rightarrow> (string \<times> 'w PathScope) list \<Rightarrow> (string \<times> 'w PathScope) list" where
  "RegisterPathScope kind sc kinds =
     (if trim_space kind = [] \<or> ps_resolve sc = None then kinds else AList.update kind sc kinds)"

text \<open>\<open>sort.Slice\<close> may exchange roots of the same reference; here it keeps their order.\<close>

definition PathScopeRoots :: "(string \<times> 'w PathScope) list \<Rightarrow> string \<Rightarrow> PathScopeRoot list" where
  "PathScopeRoots kinds user =
     concat (map (\<lambda>k. case map_of kinds k of
                     None \<Rightarrow> []
                   | Some sc \<Rightarrow>
                       (case ps_roots sc of
                          None \<Rightarrow> []
                        | Some roots \<Rightarrow> if ps_trusted_only sc then [] else sort_key sr_ref (roots user)))
       (sort (keys kinds)))"

definition SplitPathScopeRef :: "string \<Rightarrow> string \<times> string" where
  "SplitPathScopeRef ref0 =
     (let ref = trim_space ref0 in
      case index_of ref '':'' of
        Some i \<Rightarrow> (trim_space (take i ref), trim_space (drop (i + 1) ref))
      | None \<Rightarrow> (ref, []))"

definition ReferenceSourceKnown :: "string list \<Rightarrow> string \<Rightarrow> bool" where
  "ReferenceSourceKnown sources kind \<longleftrightarrow> kind \<in> set sources"

section \<open>Resolving\<close>

definition ResolvePathScope ::
    "'w scope_env \<Rightarrow> string \<Rightarrow> string \<Rightarrow> string \<Rightarrow> string \<Rightarrow> bool \<Rightarrow> 'w \<Rightarrow> (scope_error + string) \<times> 'w" where
  "ResolvePathScope E user agent ref value trusted w =
     (let (kind, name) = SplitPathScopeRef ref in
      case map_of (se_kinds E) kind of
        None \<Rightarrow> (Inl (UnknownKind kind), w)
      | Some sc \<Rightarrow>
          if ps_trusted_only sc \<and> \<not> trusted then (Inl (TrustedCallersOnly ref), w)
          else if agent \<noteq> [] \<and> ReferenceSourceKnown (se_sources E) kind
                  \<and> (case se_holds E of None \<Rightarrow> False | Some holds \<Rightarrow> \<not> holds user agent kind name)
          then (Inl (NotLinked ref), w)
          else case ps_resolve sc of
              None \<Rightarrow> (Inl (ResolverRefused []), w)
            | Some resolve \<Rightarrow>
                (case resolve user name value w of
                   (Inl why, w1) \<Rightarrow> (Inl (ResolverRefused why), w1)
                 | (Inr path, w1) \<Rightarrow> (Inr path, w1)))"

definition PathScopeChoices :: "(string \<times> 'w PathScope) list \<Rightarrow> string \<Rightarrow> string \<Rightarrow> string list" where
  "PathScopeChoices kinds user ref =
     (let (kind, name) = SplitPathScopeRef ref in
      case map_of kinds kind of
        None \<Rightarrow> []
      | Some sc \<Rightarrow> (case ps_values sc of None \<Rightarrow> [] | Some values \<Rightarrow> sort (values user name)))"

definition PathScopeKnown :: "(string \<times> 'w PathScope) list \<Rightarrow> string \<Rightarrow> bool" where
  "PathScopeKnown kinds ref \<longleftrightarrow> map_of kinds (fst (SplitPathScopeRef ref)) \<noteq> None"

text \<open>
  \<open>params\<close> holds each parameter's \<open>PathScope\<close> text. The walk visits the parameters in sorted order and
  writes the resolved path into a copy of the arguments.
\<close>

fun resolve_args ::
    "golib \<Rightarrow> 'w scope_env \<Rightarrow> string \<Rightarrow> string \<Rightarrow> (string \<times> string) list \<Rightarrow> (string \<times> val) list \<Rightarrow> bool
      \<Rightarrow> string list \<Rightarrow> (string \<times> val) list \<Rightarrow> string list \<Rightarrow> 'w
      \<Rightarrow> ((string \<times> scope_error) + (string \<times> val) list \<times> string list) \<times> 'w" where
  "resolve_args L E user agent params args trusted [] out resolved w = (Inr (out, resolved), w)"
| "resolve_args L E user agent params args trusted (name # names) out resolved w =
     (let ref = trim_space (case map_of params name of Some r \<Rightarrow> r | None \<Rightarrow> []) in
      if ref = [] then resolve_args L E user agent params args trusted names out resolved w
      else case map_of args name of
          None \<Rightarrow> resolve_args L E user agent params args trusted names out resolved w
        | Some raw \<Rightarrow>
            if trim_space (fmt_sprint L raw) = []
            then resolve_args L E user agent params args trusted names out resolved w
            else case ResolvePathScope E user agent ref (fmt_sprint L raw) trusted w of
                (Inl err, w1) \<Rightarrow> (Inl (name, err), w1)
              | (Inr path, w1) \<Rightarrow>
                  resolve_args L E user agent params args trusted names
                    (AList.update name (VStr path) out) (resolved @ [path]) w1)"

definition ResolveScopedArgs ::
    "golib \<Rightarrow> 'w scope_env \<Rightarrow> string \<Rightarrow> string \<Rightarrow> (string \<times> string) list \<Rightarrow> (string \<times> val) list \<Rightarrow> bool \<Rightarrow> 'w
      \<Rightarrow> ((string \<times> scope_error) + (string \<times> val) list \<times> string list) \<times> 'w" where
  "ResolveScopedArgs L E user agent params args trusted w =
     resolve_args L E user agent params args trusted (sort (keys params)) args [] w"

section \<open>What a tool is given\<close>

text \<open>An argument the walk must resolve: its parameter is scoped and it is present and not blank.\<close>

definition scoped_arg :: "golib \<Rightarrow> (string \<times> string) list \<Rightarrow> (string \<times> val) list \<Rightarrow> string \<Rightarrow> bool" where
  "scoped_arg L params args name \<longleftrightarrow>
     (\<exists>ref raw. map_of params name = Some ref \<and> trim_space ref \<noteq> []
        \<and> map_of args name = Some raw \<and> trim_space (fmt_sprint L raw) \<noteq> [])"

text \<open>A path some resolver call proved, with everything the call required.\<close>

definition proved ::
    "golib \<Rightarrow> 'w scope_env \<Rightarrow> string \<Rightarrow> string \<Rightarrow> (string \<times> string) list \<Rightarrow> (string \<times> val) list \<Rightarrow> bool
      \<Rightarrow> string \<Rightarrow> string \<Rightarrow> bool" where
  "proved L E user agent params args trusted name path \<longleftrightarrow>
     (\<exists>ref raw kind root sc resolve w w1.
        map_of params name = Some ref \<and> map_of args name = Some raw
        \<and> SplitPathScopeRef ref = (kind, root) \<and> map_of (se_kinds E) kind = Some sc
        \<and> ps_resolve sc = Some resolve
        \<and> (ps_trusted_only sc \<longrightarrow> trusted)
        \<and> (agent \<noteq> [] \<longrightarrow> kind \<in> set (se_sources E) \<longrightarrow>
             (case se_holds E of None \<Rightarrow> True | Some holds \<Rightarrow> holds user agent kind root))
        \<and> resolve user root (fmt_sprint L raw) w = (Inr path, w1))"

lemma Split_trim [simp]: "SplitPathScopeRef (trim_space ref) = SplitPathScopeRef ref"
  by (simp add: SplitPathScopeRef_def)

lemma ResolvePathScope_proved:
  assumes "ResolvePathScope E user agent (trim_space ref) (fmt_sprint L raw) trusted w = (Inr path, w1)"
    and "map_of params name = Some ref" "map_of args name = Some raw"
  shows "proved L E user agent params args trusted name path"
proof -
  obtain kind root where s: "SplitPathScopeRef ref = (kind, root)" by force
  from assms(1) s obtain sc where sc: "map_of (se_kinds E) kind = Some sc"
    by (auto simp: ResolvePathScope_def split: option.splits)
  with assms(1) s have ok: "ps_trusted_only sc \<longrightarrow> trusted"
    and linked: "\<not> (agent \<noteq> [] \<and> ReferenceSourceKnown (se_sources E) kind
      \<and> (case se_holds E of None \<Rightarrow> False | Some holds \<Rightarrow> \<not> holds user agent kind root))"
    by (auto simp: ResolvePathScope_def split: if_splits)
  with assms(1) s sc obtain resolve where "ps_resolve sc = Some resolve"
      "resolve user root (fmt_sprint L raw) w = (Inr path, w1)"
    by (auto simp: ResolvePathScope_def split: if_splits option.splits prod.splits sum.splits)
  with assms(2,3) s sc ok linked show ?thesis
    unfolding proved_def ReferenceSourceKnown_def by (auto split: option.splits)
qed

lemma resolve_args_spec:
  "resolve_args L E user agent params args trusted names out0 resolved0 w = (Inr (out, resolved), w') \<Longrightarrow>
     distinct names \<Longrightarrow>
     (\<forall>n. n \<in> set names \<and> scoped_arg L params args n \<longrightarrow>
        (\<exists>path \<in> set resolved. map_of out n = Some (VStr path) \<and> proved L E user agent params args trusted n path))
     \<and> (\<forall>n. \<not> (n \<in> set names \<and> scoped_arg L params args n) \<longrightarrow> map_of out n = map_of out0 n)
     \<and> set resolved0 \<subseteq> set resolved
     \<and> length resolved = length resolved0 + length (filter (scoped_arg L params args) names)"
proof (induction names arbitrary: out0 resolved0 w)
  case (Cons name names)
  show ?case
  proof (cases "scoped_arg L params args name")
    case False
    with Cons.prems(1) have "resolve_args L E user agent params args trusted names out0 resolved0 w = (Inr (out, resolved), w')"
      by (auto simp: scoped_arg_def Let_def split: option.splits if_splits)
    from Cons.IH [OF this] Cons.prems(2) False show ?thesis by auto
  next
    case True
    then obtain ref raw where r: "map_of params name = Some ref" "trim_space ref \<noteq> []"
        "map_of args name = Some raw" "trim_space (fmt_sprint L raw) \<noteq> []" by (auto simp: scoped_arg_def)
    with Cons.prems(1) obtain path w1 where
        p: "ResolvePathScope E user agent (trim_space ref) (fmt_sprint L raw) trusted w = (Inr path, w1)"
      and rest: "resolve_args L E user agent params args trusted names (AList.update name (VStr path) out0)
          (resolved0 @ [path]) w1 = (Inr (out, resolved), w')"
      by (auto simp: Let_def split: prod.splits sum.splits)
    note ok = ResolvePathScope_proved [OF p r(1,3)]
    from Cons.IH [OF rest] Cons.prems(2) have ih:
      "\<And>n. n \<in> set names \<Longrightarrow> scoped_arg L params args n \<Longrightarrow>
        \<exists>path \<in> set resolved. map_of out n = Some (VStr path) \<and> proved L E user agent params args trusted n path"
      "\<And>n. \<not> (n \<in> set names \<and> scoped_arg L params args n) \<Longrightarrow>
        map_of out n = map_of (AList.update name (VStr path) out0) n"
      "set (resolved0 @ [path]) \<subseteq> set resolved"
      "length resolved = length resolved0 + 1 + length (filter (scoped_arg L params args) names)"
      by auto
    have here: "map_of out name = Some (VStr path)"
      using ih(2) [of name] Cons.prems(2) by (simp add: map_of_update_eq)
    show ?thesis
      using ih here ok True by (auto simp: map_of_update_eq)
  qed
qed simp

text \<open>C8: A scoped argument reaches a tool only as a path its root's resolver proved. When the arguments
  are accepted, every present argument of a scoped parameter was replaced by the path the resolver of a
  registered kind answered for it, with the caller trusted where the kind asks it and the agent linked
  where the kind is attachable; every other argument is as it was; and the paths handed on for reading
  are one per scoped argument.
\<close>

theorem scoped_arguments_are_proved:
  assumes "ResolveScopedArgs L E user agent params args trusted w = (Inr (out, resolved), w')"
    and "distinct (keys params)"
  shows "(\<forall>n. scoped_arg L params args n \<longrightarrow>
        (\<exists>path \<in> set resolved. map_of out n = Some (VStr path) \<and> proved L E user agent params args trusted n path))
     \<and> (\<forall>n. \<not> scoped_arg L params args n \<longrightarrow> map_of out n = map_of args n)
     \<and> length resolved = length (filter (scoped_arg L params args) (sort (keys params)))"
proof -
  have d: "distinct (sort (keys params))" using assms(2) by simp
  have k: "scoped_arg L params args n \<Longrightarrow> n \<in> set (sort (keys params))" for n
    by (auto simp: scoped_arg_def dest: map_of_in_keys)
  from resolve_args_spec [OF assms(1) [unfolded ResolveScopedArgs_def] d] k show ?thesis by auto
qed

definition files_env :: "nat scope_env" where
  "files_env =
     \<lparr>se_kinds = RegisterPathScope ''files''
        \<lparr>ps_resolve = Some (\<lambda>user root v w. if contains v ''..'' then (Inl ''outside'', w) else (Inr (''/srv/'' @ root @ ''/'' @ v), w + 1)),
         ps_values = None, ps_roots = None, ps_trusted_only = True\<rparr> [],
      se_sources = [''files''], se_holds = Some (\<lambda>user agent kind item. item = ''notes'')\<rparr>"

definition text_lib :: golib where
  "text_lib = \<lparr>json_marshal = \<lambda>_. None, json_indent = \<lambda>_. None, json_object = \<lambda>_. None, json_array = \<lambda>_. None,
     fmt_sprint = (\<lambda>v. case v of VStr s \<Rightarrow> s | _ \<Rightarrow> []), format_float = \<lambda>_. [], parse_float = \<lambda>_. None, quote = \<lambda>s. s\<rparr>"

theorem scoped_arguments_are_proved_witness:
  "map_of (fst (projr (fst (ResolveScopedArgs text_lib files_env ''ann'' ''a1'' [(''dir'', '' files : notes'')]
       [(''dir'', VStr ''inbox''), (''n'', VStr ''3'')] True 0)))) ''n'' = Some (VStr ''3'')"
proof -
  let ?r = "ResolveScopedArgs text_lib files_env ''ann'' ''a1'' [(''dir'', '' files : notes'')]
       [(''dir'', VStr ''inbox''), (''n'', VStr ''3'')] True 0"
  have r: "?r = (Inr ([(''dir'', VStr ''/srv/notes/inbox''), (''n'', VStr ''3'')], [''/srv/notes/inbox'']), 1)"
    by code_simp
  have n: "\<not> scoped_arg text_lib [(''dir'', '' files : notes'')] [(''dir'', VStr ''inbox''), (''n'', VStr ''3'')] ''n''"
    by (simp add: scoped_arg_def)
  show ?thesis using scoped_arguments_are_proved [OF r] n by (simp add: r)
qed

text \<open>A refused argument names the parameter and leaves nothing to run with.\<close>

lemma an_escape_is_refused:
  "fst (ResolveScopedArgs text_lib files_env ''ann'' ''a1'' [(''dir'', ''files:notes'')] [(''dir'', VStr ''../x'')] True 0)
     = Inl (''dir'', ResolverRefused ''outside'')
   \<and> fst (ResolveScopedArgs text_lib files_env ''ann'' ''a1'' [(''dir'', ''files:notes'')] [(''dir'', VStr ''x'')] False 0)
     = Inl (''dir'', TrustedCallersOnly ''files:notes'')
   \<and> fst (ResolveScopedArgs text_lib files_env ''ann'' ''a1'' [(''dir'', ''files:other'')] [(''dir'', VStr ''x'')] True 0)
     = Inl (''dir'', NotLinked ''files:other'')"
  by code_simp

text \<open>
  The registry stores a kind as it is given and every lookup trims what it asks for, so a kind
  registered with white space around it passes the check for an empty one and is never found.
\<close>

theorem a_padded_kind_is_never_found:
  assumes "trim_space kind \<noteq> kind" "\<not> PathScopeKnown kinds ref"
  shows "\<not> PathScopeKnown (RegisterPathScope kind sc kinds) ref"
proof -
  have "trimmed (fst (SplitPathScopeRef ref))"
    by (auto simp: SplitPathScopeRef_def Let_def split: option.splits)
  then have "fst (SplitPathScopeRef ref) \<noteq> kind" using assms(1) by (auto simp: trimmed_def)
  with assms(2) show ?thesis by (simp add: PathScopeKnown_def RegisterPathScope_def map_of_update_eq)
qed

end
