(* ===== verification/AgentBudget.thy ===== *)
theory AgentBudget
  imports MachineReach
begin

text \<open>
  What an agent run may spend (core/agent_loop_budget.go, the prices of core/cost.go): the actions it may
  run in 24 hours and the dollars it may cost, each kept per budget as a list of dated entries in a table.

  A budget of a run is its own or one it shares. The key-value store is an association list per table, or
  None where there is none; the clock's reading is an argument and an operation reads it once. Dollars are
  rationals, where the code adds in 64-bit floating point. A round of the agent loop is stepped through
  as far as the quota sees it: every call of it is checked before any of them runs, and its charges are
  taken one after another or, as the code starts them, at once, each a read and a write of its own.
\<close>

section \<open>Budgets\<close>

definition actionQuotaTable :: string where "actionQuotaTable = ''agent_action_quota''"
definition spendLedgerTable :: string where "spendLedgerTable = ''agent_spend_ledger''"

definition go_hour :: int where "go_hour = 3600000000000"
definition go_minute :: int where "go_minute = 60000000000"

definition actionQuotaWindow :: int where "actionQuotaWindow = 24 * go_hour"

definition actionQuotaName :: "string \<Rightarrow> (string \<times> val) list \<Rightarrow> string" where
  "actionQuotaName tool args =
     (case map_of args ''action'' of
        Some (VStr a0) \<Rightarrow> (let a = trim_space a0 in if a \<noteq> [] then tool @ ''/'' @ a else tool)
      | _ \<Rightarrow> tool)"

record SharedBudget =
  sb_key :: string
  sb_label :: string
  sb_quotas :: "(string \<times> int) list"
  sb_daily :: rat

text \<open>The fields of an \<open>AgentLoopConfig\<close> that say what its run is held to.\<close>

record AgentLoopConfig =
  ac_key :: string
  ac_quotas :: "(string \<times> int) list"
  ac_daily :: rat
  ac_shared :: "SharedBudget list"

definition runBudgets :: "AgentLoopConfig \<Rightarrow> SharedBudget list" where
  "runBudgets cfg =
     (if trim_space (ac_key cfg) \<noteq> []
      then [\<lparr>sb_key = ac_key cfg, sb_label = [], sb_quotas = ac_quotas cfg, sb_daily = ac_daily cfg\<rparr>] else [])
     @ filter (\<lambda>b. trim_space (sb_key b) \<noteq> []) (ac_shared cfg)"

section \<open>Action quotas\<close>

definition actionQuotaLimit :: "(string \<times> int) list \<Rightarrow> string \<Rightarrow> (string \<times> val) list \<Rightarrow> string \<times> int" where
  "actionQuotaLimit quotas tool args =
     (if quotas = [] then ([], 0)
      else
        (let action = actionQuotaName tool args;
             limit_of = (\<lambda>k. case map_of quotas k of Some n \<Rightarrow> if n > 0 then n else 0 | None \<Rightarrow> 0) in
         if limit_of action > 0 then (action, limit_of action)
         else if limit_of tool > 0 then (tool, limit_of tool)
         else ([], 0)))"

definition pruneQuotaStamps :: "int \<Rightarrow> int list \<Rightarrow> int list" where
  "pruneQuotaStamps now stamps = sort (filter (\<lambda>t. t > now - actionQuotaWindow) stamps)"

type_synonym quota_db = "(string \<times> int list) list option"

definition quota_key :: "string \<Rightarrow> string \<Rightarrow> string" where
  "quota_key key action = key @ ''|'' @ action"

definition stamps_at :: "(string \<times> int list) list \<Rightarrow> string \<Rightarrow> int list" where
  "stamps_at m k = (case map_of m k of Some ts \<Rightarrow> ts | None \<Rightarrow> [])"

definition actionQuotaUsage :: "quota_db \<Rightarrow> int \<Rightarrow> string \<Rightarrow> string \<Rightarrow> nat \<times> int option" where
  "actionQuotaUsage db now key action =
     (case db of
        None \<Rightarrow> (0, None)
      | Some m \<Rightarrow>
          (case pruneQuotaStamps now (stamps_at m (quota_key key action)) of
             [] \<Rightarrow> (0, None)
           | t # ts \<Rightarrow> (length (t # ts), Some t)))"

text \<open>\<open>d.Round\<close> takes halves away from zero; below half a unit the words do not tell a negative wait from none.\<close>

definition shortDurationWords :: "int \<Rightarrow> string" where
  "shortDurationWords d =
     (if d \<ge> go_hour then
        (let h = (d + go_hour div 2) div go_hour in if h = 1 then ''an hour'' else itoa_int h @ '' hours'')
      else
        (let m = (d + go_minute div 2) div go_minute in if m \<le> 1 then ''a minute'' else itoa_int m @ '' minutes''))"

definition quota_refusal_text :: "SharedBudget \<Rightarrow> string \<Rightarrow> nat \<Rightarrow> int \<Rightarrow> string \<Rightarrow> string" where
  "quota_refusal_text b action used limit when =
     ''STOP: '' @ [CHR 0x27] @ action @ [CHR 0x27] @ '' was NOT called. It has already run '' @ itoa used
     @ '' time(s) in the last 24 hours, which is its allowance of '' @ itoa_int limit @ ''.''
     @ (if sb_label b \<noteq> []
        then '' The allowance is shared by '' @ sb_label b @ '', and their runs count toward it.'' else [])
     @ '' This is enforced by the framework, not a rule you are asked to keep: further calls will be refused until the window frees up, ''
     @ when @ ''. Do NOT try to reach the same action another way. Finish with what you have and say plainly that the allowance is spent.''"

fun budget_refusal ::
    "quota_db \<Rightarrow> int \<Rightarrow> SharedBudget list \<Rightarrow> string \<Rightarrow> (string \<times> val) list \<Rightarrow> string \<times> string \<times> int" where
  "budget_refusal db now [] tool args = ([], [], 0)"
| "budget_refusal db now (b # bs) tool args =
     (let (action, limit) = actionQuotaLimit (sb_quotas b) tool args in
      if limit \<le> 0 then budget_refusal db now bs tool args
      else
        (let (used, oldest) = actionQuotaUsage db now (sb_key b) action in
         if int used < limit then budget_refusal db now bs tool args
         else
           (let when = (case oldest of
                None \<Rightarrow> ''later today''
              | Some t \<Rightarrow>
                  (let free = t + actionQuotaWindow - now in
                   if free > 0 then ''in about '' @ shortDurationWords free else ''later today''))
            in (quota_refusal_text b action used limit when, action, limit))))"

definition actionQuotaRefusal ::
    "quota_db \<Rightarrow> int \<Rightarrow> AgentLoopConfig \<Rightarrow> string \<Rightarrow> (string \<times> val) list \<Rightarrow> string \<times> string \<times> int" where
  "actionQuotaRefusal db now cfg tool args = budget_refusal db now (runBudgets cfg) tool args"

definition charge_budget ::
    "int \<Rightarrow> string \<Rightarrow> (string \<times> val) list \<Rightarrow> SharedBudget \<Rightarrow> (string \<times> int list) list \<Rightarrow> (string \<times> int list) list" where
  "charge_budget now tool args b m =
     (let (action, limit) = actionQuotaLimit (sb_quotas b) tool args; k = quota_key (sb_key b) action in
      if limit \<le> 0 then m
      else AList.update k (pruneQuotaStamps now (stamps_at m k) @ [now]) m)"

definition chargeActionQuota ::
    "int \<Rightarrow> AgentLoopConfig \<Rightarrow> string \<Rightarrow> (string \<times> val) list \<Rightarrow> quota_db \<Rightarrow> quota_db" where
  "chargeActionQuota now cfg tool args db = map_option (fold (charge_budget now tool args) (runBudgets cfg)) db"

section \<open>Prices\<close>

record CostRates =
  cr_worker_in :: rat
  cr_worker_out :: rat
  cr_lead_in :: rat
  cr_lead_out :: rat
  cr_search :: rat
  cr_image :: rat
  cr_read_mult :: rat
  cr_write_mult :: rat

record UsageDiff =
  ud_worker_in :: int
  ud_worker_out :: int
  ud_lead_in :: int
  ud_lead_out :: int
  ud_worker_read :: int
  ud_worker_write :: int
  ud_lead_read :: int
  ud_lead_write :: int
  ud_searches :: int
  ud_images :: int

definition no_usage :: UsageDiff where
  "no_usage = \<lparr>ud_worker_in = 0, ud_worker_out = 0, ud_lead_in = 0, ud_lead_out = 0, ud_worker_read = 0,
     ud_worker_write = 0, ud_lead_read = 0, ud_lead_write = 0, ud_searches = 0, ud_images = 0\<rparr>"

definition defaultCacheReadMultiplier :: rat where "defaultCacheReadMultiplier = 1 / 10"
definition defaultCacheWriteMultiplier :: rat where "defaultCacheWriteMultiplier = 5 / 4"
definition extendedCacheWriteMultiplier :: rat where "extendedCacheWriteMultiplier = 2"

definition cacheReadMultiplier :: "CostRates \<Rightarrow> rat" where
  "cacheReadMultiplier r = (if cr_read_mult r > 0 then cr_read_mult r else defaultCacheReadMultiplier)"

text \<open>Whether the one-hour prompt cache is on is an argument.\<close>

definition cacheWriteMultiplier :: "bool \<Rightarrow> CostRates \<Rightarrow> rat" where
  "cacheWriteMultiplier cache1h r =
     (if cr_write_mult r > 0 then cr_write_mult r
      else if cache1h then extendedCacheWriteMultiplier
      else defaultCacheWriteMultiplier)"

definition per1k :: "int \<Rightarrow> rat" where
  "per1k n = of_int n / 1000"

definition Estimate :: "bool \<Rightarrow> CostRates \<Rightarrow> UsageDiff \<Rightarrow> rat" where
  "Estimate cache1h r d =
     per1k (ud_worker_in d) * cr_worker_in r
     + per1k (ud_worker_out d) * cr_worker_out r
     + per1k (ud_lead_in d) * cr_lead_in r
     + per1k (ud_lead_out d) * cr_lead_out r
     + per1k (ud_worker_read d) * cr_worker_in r * cacheReadMultiplier r
     + per1k (ud_worker_write d) * cr_worker_in r * cacheWriteMultiplier cache1h r
     + per1k (ud_lead_read d) * cr_lead_in r * cacheReadMultiplier r
     + per1k (ud_lead_write d) * cr_lead_in r * cacheWriteMultiplier cache1h r
     + of_int (ud_searches d) * cr_search r
     + of_int (ud_images d) * cr_image r"

text \<open>The parts of a provider's \<open>Response\<close> a price depends on. Rates never set are None.\<close>

record Response =
  rp_tier :: LLMTier
  rp_in :: int
  rp_out :: int
  rp_cache_read :: int
  rp_cache_write :: int

definition RatesConfigured :: "CostRates option \<Rightarrow> bool" where
  "RatesConfigured rates \<longleftrightarrow> rates \<noteq> None"

definition round_usage :: "Response \<Rightarrow> UsageDiff" where
  "round_usage resp =
     (if rp_tier resp = LEAD then
        no_usage\<lparr>ud_lead_in := rp_in resp, ud_lead_out := rp_out resp, ud_lead_read := rp_cache_read resp,
          ud_lead_write := rp_cache_write resp\<rparr>
      else
        no_usage\<lparr>ud_worker_in := rp_in resp, ud_worker_out := rp_out resp, ud_worker_read := rp_cache_read resp,
          ud_worker_write := rp_cache_write resp\<rparr>)"

definition roundCostUSD :: "bool \<Rightarrow> CostRates option \<Rightarrow> Response \<Rightarrow> rat" where
  "roundCostUSD cache1h rates resp =
     (case rates of None \<Rightarrow> 0 | Some r \<Rightarrow> Estimate cache1h r (round_usage resp))"

section \<open>The daily spend ceiling\<close>

record spendEntry =
  se_at :: int
  se_usd :: rat

type_synonym ledger = "(string \<times> spendEntry list) list option"

definition spendWhose :: "string \<Rightarrow> string" where
  "spendWhose label = (if label = [] then [] else '', shared by '' @ label)"

definition entries_at :: "(string \<times> spendEntry list) list \<Rightarrow> string \<Rightarrow> spendEntry list" where
  "entries_at m k = (case map_of m k of Some es \<Rightarrow> es | None \<Rightarrow> [])"

definition dailySpend :: "ledger \<Rightarrow> int \<Rightarrow> string \<Rightarrow> rat \<times> spendEntry list" where
  "dailySpend db now key =
     (if trim_space key = [] then (0, [])
      else case db of
          None \<Rightarrow> (0, [])
        | Some m \<Rightarrow>
            (let kept = filter (\<lambda>e. se_at e > now - actionQuotaWindow) (entries_at m key) in
             (sum_list (map se_usd kept), kept)))"

definition appendSpend :: "int \<Rightarrow> string \<Rightarrow> rat \<Rightarrow> (string \<times> spendEntry list) list \<Rightarrow> rat \<times> (string \<times> spendEntry list) list" where
  "appendSpend now key cost m =
     (let (before, entries) = dailySpend (Some m) now key in
      (before, AList.update key (entries @ [\<lparr>se_at = now, se_usd = cost\<rparr>]) m))"

fun budgetsOverDailySpend :: "ledger \<Rightarrow> int \<Rightarrow> SharedBudget list \<Rightarrow> bool \<times> rat \<times> rat \<times> string" where
  "budgetsOverDailySpend db now [] = (False, 0, 0, [])"
| "budgetsOverDailySpend db now (b # bs) =
     (if sb_daily b \<le> 0 then budgetsOverDailySpend db now bs
      else
        (let s = fst (dailySpend db now (sb_key b)) in
         if s \<ge> sb_daily b then (True, s, sb_daily b, sb_label b)
         else budgetsOverDailySpend db now bs))"

definition OverDailySpend :: "ledger \<Rightarrow> int \<Rightarrow> SharedBudget list \<Rightarrow> bool \<times> rat \<times> rat \<times> string" where
  "OverDailySpend db now budgets = budgetsOverDailySpend db now budgets"

definition overDailySpend :: "ledger \<Rightarrow> int \<Rightarrow> AgentLoopConfig \<Rightarrow> bool \<times> rat \<times> rat \<times> string" where
  "overDailySpend db now cfg = budgetsOverDailySpend db now (runBudgets cfg)"

text \<open>What a round reports: the total, the ceiling, whose it is and whether the round crossed it; and whether it has reported.\<close>

type_synonym spend_report = "rat \<times> rat \<times> string \<times> bool \<times> bool"

definition report_spend :: "SharedBudget \<Rightarrow> rat \<Rightarrow> rat \<Rightarrow> spend_report \<Rightarrow> spend_report" where
  "report_spend b before after rep =
     (case rep of (spent, limit, label, crossed, reported) \<Rightarrow>
        if \<not> crossed \<and> before < sb_daily b \<and> after \<ge> sb_daily b then (after, sb_daily b, sb_label b, True, True)
        else if \<not> reported then (after, sb_daily b, sb_label b, crossed, True)
        else rep)"

fun charge_each ::
    "int \<Rightarrow> rat \<Rightarrow> SharedBudget list \<Rightarrow> (string \<times> spendEntry list) list \<Rightarrow> spend_report
      \<Rightarrow> spend_report \<times> (string \<times> spendEntry list) list" where
  "charge_each now cost [] m rep = (rep, m)"
| "charge_each now cost (b # bs) m rep =
     (if sb_daily b \<le> 0 then charge_each now cost bs m rep
      else if cost \<le> 0 then ((0, 0, [], False, False), m)
      else
        (let (before, m1) = appendSpend now (sb_key b) cost m in
         charge_each now cost bs m1 (report_spend b before (before + cost) rep)))"

definition chargeDailySpend ::
    "int \<Rightarrow> bool \<Rightarrow> CostRates option \<Rightarrow> AgentLoopConfig \<Rightarrow> Response option \<Rightarrow> ledger
      \<Rightarrow> (rat \<times> rat \<times> string \<times> bool) \<times> ledger" where
  "chargeDailySpend now cache1h rates cfg resp db =
     (case (resp, db) of
        (Some r, Some m) \<Rightarrow>
          (case charge_each now (roundCostUSD cache1h rates r) (runBudgets cfg) m (0, 0, [], False, False) of
             ((spent, limit, label, crossed, reported), m1) \<Rightarrow> ((spent, limit, label, crossed), Some m1))
      | _ \<Rightarrow> ((0, 0, [], False), db))"

section \<open>The quota in a round of the loop\<close>

text \<open>
  The calls of a round that every other guard lets through, as the agent loop handles them: each is checked
  against the table as it stands before any has run (\<open>toolRoundPlanCalls\<close>), the rest run, and each that
  succeeds is charged (\<open>dispatchTools\<close>). Here they run one after another, as the calls of a round do when one
  of them writes.
\<close>

record round_call =
  rc_tool :: string
  rc_args :: "(string \<times> val) list"
  rc_ok :: bool

definition allowed_calls :: "quota_db \<Rightarrow> int \<Rightarrow> AgentLoopConfig \<Rightarrow> round_call list \<Rightarrow> round_call list" where
  "allowed_calls db now cfg calls =
     filter (\<lambda>c. fst (actionQuotaRefusal db now cfg (rc_tool c) (rc_args c)) = []) calls"

definition charge_call :: "int \<Rightarrow> AgentLoopConfig \<Rightarrow> round_call \<Rightarrow> quota_db \<Rightarrow> quota_db" where
  "charge_call now cfg c db =
     (if rc_ok c then chargeActionQuota now cfg (rc_tool c) (rc_args c) db else db)"

definition quota_round :: "int \<Rightarrow> AgentLoopConfig \<Rightarrow> round_call list \<Rightarrow> quota_db \<Rightarrow> round_call list \<times> quota_db" where
  "quota_round now cfg calls db =
     (let run = allowed_calls db now cfg calls in (run, fold (charge_call now cfg) run db))"

section \<open>Charges at once\<close>

text \<open>
  A round that only reads runs its calls at once, and a charge reads the table, then writes it, with no lock
  in between. The charges of a round are stepped through here: one is the keys it has still to write, in the
  order of the run's budgets, and, when it has read the first of them, the stamps it is about to write.
\<close>

type_synonym stamp_table = "(string \<times> int list) list"

definition charge_keys :: "AgentLoopConfig \<Rightarrow> round_call \<Rightarrow> string list" where
  "charge_keys cfg c =
     map (\<lambda>b. quota_key (sb_key b) (fst (actionQuotaLimit (sb_quotas b) (rc_tool c) (rc_args c))))
       (filter (\<lambda>b. snd (actionQuotaLimit (sb_quotas b) (rc_tool c) (rc_args c)) > 0) (runBudgets cfg))"

definition charge_key :: "int \<Rightarrow> string \<Rightarrow> stamp_table \<Rightarrow> stamp_table" where
  "charge_key now k m = AList.update k (pruneQuotaStamps now (stamps_at m k) @ [now]) m"

record charge =
  cg_keys :: "string list"
  cg_read :: "int list option"

inductive charge_step :: "int \<Rightarrow> stamp_table \<times> charge list \<Rightarrow> stamp_table \<times> charge list \<Rightarrow> bool" for now where
  read_stamps: "charge_step now
     (m, cs @ \<lparr>cg_keys = k # ks, cg_read = None\<rparr> # ds)
     (m, cs @ \<lparr>cg_keys = k # ks, cg_read = Some (pruneQuotaStamps now (stamps_at m k) @ [now])\<rparr> # ds)"
| write_stamps: "charge_step now
     (m, cs @ \<lparr>cg_keys = k # ks, cg_read = Some ts\<rparr> # ds)
     (AList.update k ts m, cs @ \<lparr>cg_keys = ks, cg_read = None\<rparr> # ds)"

inductive_cases charge_stepE: "charge_step now (m, cs) (m1, ds)"

definition waiting :: "string list \<Rightarrow> charge" where
  "waiting ks = \<lparr>cg_keys = ks, cg_read = None\<rparr>"

definition at_once :: "int \<Rightarrow> string list list \<Rightarrow> stamp_table \<Rightarrow> stamp_table \<Rightarrow> bool" where
  "at_once now kss m m1 \<longleftrightarrow>
     (charge_step now)\<^sup>*\<^sup>* (m, map waiting kss) (m1, map (\<lambda>_. waiting []) kss)"

definition in_order :: "int \<Rightarrow> string list list \<Rightarrow> stamp_table \<Rightarrow> stamp_table \<Rightarrow> bool" where
  "in_order now kss m m1 \<longleftrightarrow> m1 = fold (fold (charge_key now)) kss m"

lemma charge_budgets_keys:
  "fold (charge_budget now (rc_tool c) (rc_args c)) bs m =
     fold (charge_key now)
       (map (\<lambda>b. quota_key (sb_key b) (fst (actionQuotaLimit (sb_quotas b) (rc_tool c) (rc_args c))))
         (filter (\<lambda>b. snd (actionQuotaLimit (sb_quotas b) (rc_tool c) (rc_args c)) > 0) bs)) m"
  by (induction bs arbitrary: m) (auto simp: charge_budget_def charge_key_def Let_def split: prod.splits)

lemma quota_round_in_order:
  "quota_round now cfg calls (Some m) = (went, db1) \<longleftrightarrow>
     went = allowed_calls (Some m) now cfg calls
     \<and> (\<exists>m1. db1 = Some m1 \<and> in_order now (map (charge_keys cfg) (filter rc_ok went)) m m1)"
proof -
  have "fold (charge_call now cfg) cs (Some m) = Some (fold (fold (charge_key now)) (map (charge_keys cfg) (filter rc_ok cs)) m)" for cs m
    by (induction cs arbitrary: m)
      (auto simp: charge_call_def chargeActionQuota_def charge_keys_def charge_budgets_keys)
  then show ?thesis by (auto simp: quota_round_def Let_def in_order_def)
qed

text \<open>One after another is one of the ways the charges can fall.\<close>

lemma one_charge:
  "(charge_step now)\<^sup>*\<^sup>* (m, cs @ waiting ks # ds) (fold (charge_key now) ks m, cs @ waiting [] # ds)"
proof (induction ks arbitrary: m)
  case (Cons k ks)
  have "charge_step now (m, cs @ waiting (k # ks) # ds)
      (m, cs @ \<lparr>cg_keys = k # ks, cg_read = Some (pruneQuotaStamps now (stamps_at m k) @ [now])\<rparr> # ds)"
    unfolding waiting_def by (rule read_stamps)
  moreover have "charge_step now (m, cs @ \<lparr>cg_keys = k # ks, cg_read = Some (pruneQuotaStamps now (stamps_at m k) @ [now])\<rparr> # ds)
      (charge_key now k m, cs @ waiting ks # ds)"
    unfolding waiting_def charge_key_def by (rule write_stamps)
  ultimately show ?case using Cons.IH [of "charge_key now k m"] by (metis (no_types) converse_rtranclp_into_rtranclp fold_simps(2))
qed simp

lemma in_order_at_once: "in_order now kss m m1 \<Longrightarrow> at_once now kss m m1"
proof -
  have "(charge_step now)\<^sup>*\<^sup>* (m, cs @ map waiting kss) (fold (fold (charge_key now)) kss m, cs @ map (\<lambda>_. waiting []) kss)" for cs
  proof (induction kss arbitrary: m cs)
    case (Cons ks kss)
    from one_charge [of now m cs ks "map waiting kss"] Cons.IH [of "fold (charge_key now) ks m" "cs @ [waiting []]"]
    show ?case by (simp add: rtranclp_trans)
  qed simp
  from this [of "[]"] show "in_order now kss m m1 \<Longrightarrow> at_once now kss m m1" by (simp add: in_order_def at_once_def)
qed

text \<open>Two charges of one action that both read before either writes leave one stamp: a run is not counted.\<close>

theorem charges_at_once_are_lost:
  "at_once 7 [[''a1|post''], [''a1|post'']] [] [(''a1|post'', [7])] \<and> in_order 7 [[''a1|post''], [''a1|post'']] [] [(''a1|post'', [7, 7])]"
proof
  let ?c = "\<lparr>cg_keys = [''a1|post''], cg_read = None\<rparr>"
  let ?d = "\<lparr>cg_keys = [''a1|post''], cg_read = Some [7]\<rparr>"
  let ?e = "\<lparr>cg_keys = [], cg_read = None\<rparr>"
  have read: "pruneQuotaStamps 7 (stamps_at [] ''a1|post'') @ [7] = [7]" by code_simp
  have s1: "charge_step 7 ([], [?c, ?c]) ([], [?d, ?c])" using read_stamps [of 7 "[]" "[]" "''a1|post''" "[]" "[?c]"] read by simp
  have s2: "charge_step 7 ([], [?d, ?c]) ([], [?d, ?d])" using read_stamps [of 7 "[]" "[?d]" "''a1|post''" "[]" "[]"] read by simp
  have s3: "charge_step 7 ([], [?d, ?d]) ([(''a1|post'', [7])], [?e, ?d])"
    using write_stamps [of 7 "[]" "[]" "''a1|post''" "[]" "[7]" "[?d]"] by simp
  have s4: "charge_step 7 ([(''a1|post'', [7])], [?e, ?d]) ([(''a1|post'', [7])], [?e, ?e])"
    using write_stamps [of 7 "[(''a1|post'', [7])]" "[?e]" "''a1|post''" "[]" "[7]" "[]"] by simp
  from s1 s2 s3 s4 show "at_once 7 [[''a1|post''], [''a1|post'']] [] [(''a1|post'', [7])]"
    unfolding at_once_def waiting_def list.map by (blast intro: converse_rtranclp_into_rtranclp)
  show "in_order 7 [[''a1|post''], [''a1|post'']] [] [(''a1|post'', [7, 7])]" unfolding in_order_def by code_simp
qed

section \<open>An allowance over a day\<close>

text \<open>
  The rounds of the runs that draw on one table, at the moments they happen, each under the configuration of its
  run; a round is over before the next is checked. The log is what ran and succeeded.
\<close>

type_synonym run_log = "(int \<times> AgentLoopConfig \<times> round_call list) list"

inductive quota_rounds ::
    "(int \<Rightarrow> string list list \<Rightarrow> stamp_table \<Rightarrow> stamp_table \<Rightarrow> bool) \<Rightarrow> run_log \<Rightarrow> stamp_table \<Rightarrow> run_log \<Rightarrow> stamp_table \<Rightarrow> bool"
  for charged where
  no_rounds: "quota_rounds charged [] m [] m"
| a_round: "done1 = filter rc_ok (allowed_calls (Some m) now cfg calls) \<Longrightarrow>
     charged now (map (charge_keys cfg) done1) m m1 \<Longrightarrow> quota_rounds charged rounds m1 went m2 \<Longrightarrow>
     quota_rounds charged ((now, cfg, calls) # rounds) m ((now, cfg, done1) # went) m2"

text \<open>How many of the calls counted under a key ran in the 24 hours up to a moment.\<close>

definition counted :: "string \<Rightarrow> AgentLoopConfig \<Rightarrow> round_call list \<Rightarrow> nat" where
  "counted k cfg calls = length (filter (\<lambda>c. k \<in> set (charge_keys cfg c)) calls)"

definition tally :: "string \<Rightarrow> run_log \<Rightarrow> (int \<times> nat) list" where
  "tally k went = map (\<lambda>(at1, cfg, calls). (at1, counted k cfg calls)) went"

definition total :: "(int \<Rightarrow> bool) \<Rightarrow> (nat \<Rightarrow> nat) \<Rightarrow> (int \<times> nat) list \<Rightarrow> nat" where
  "total P w xs = sum_list (map (\<lambda>(at1, j). if P at1 then w j else 0) xs)"

definition in_day :: "int \<Rightarrow> int \<Rightarrow> bool" where
  "in_day t at1 \<longleftrightarrow> t - actionQuotaWindow < at1 \<and> at1 \<le> t"

definition ran_within :: "string \<Rightarrow> int \<Rightarrow> run_log \<Rightarrow> nat" where
  "ran_within k t went = total (in_day t) (\<lambda>j. j) (tally k went)"

text \<open>Every budget of a run that counts a call under the key allows at most \<open>n\<close>.\<close>

definition caps :: "string \<Rightarrow> nat \<Rightarrow> AgentLoopConfig \<Rightarrow> bool" where
  "caps k n cfg \<longleftrightarrow>
     (\<forall>b \<in> set (runBudgets cfg). \<forall>a limit. map_of (sb_quotas b) a = Some limit \<and> limit > 0 \<and> quota_key (sb_key b) a = k
        \<longrightarrow> limit \<le> int n)"

definition young :: "int \<Rightarrow> int list \<Rightarrow> nat" where
  "young x ts = length (filter (\<lambda>t. t > x) ts)"

lemma limit_is_declared:
  "actionQuotaLimit quotas tool args = (a, n) \<Longrightarrow> n > 0 \<Longrightarrow> map_of quotas a = Some n"
  by (auto simp: actionQuotaLimit_def Let_def split: if_splits option.splits)

lemma allowed_below_limit:
  "fst (budget_refusal db now bs tool args) = [] \<Longrightarrow> b \<in> set bs \<Longrightarrow>
     actionQuotaLimit (sb_quotas b) tool args = (a, n) \<Longrightarrow> n > 0 \<Longrightarrow>
     int (fst (actionQuotaUsage db now (sb_key b) a)) < n"
proof (induction bs)
  case (Cons b0 bs)
  show ?case
  proof (cases "b = b0")
    case True
    with Cons.prems show ?thesis
      by (auto simp: Let_def quota_refusal_text_def split: if_splits prod.splits)
  next
    case False
    with Cons show ?thesis by (auto simp: Let_def quota_refusal_text_def split: if_splits prod.splits)
  qed
qed simp

lemma young_prune:
  assumes "x \<ge> now - actionQuotaWindow"
  shows "young x (pruneQuotaStamps now ts) = young x ts"
proof -
  have "length (filter (\<lambda>t. t > x) (sort us)) = length (filter (\<lambda>t. t > x) us)" for us :: "int list"
    by (metis filter_sort length_sort)
  moreover have "filter (\<lambda>t. t > x) (filter (\<lambda>t. t > now - actionQuotaWindow) ts) = filter (\<lambda>t. t > x) ts"
    using assms by (induction ts) auto
  ultimately show ?thesis by (simp add: pruneQuotaStamps_def young_def)
qed

lemma young_charge: "x \<ge> now - actionQuotaWindow \<Longrightarrow> x < now \<Longrightarrow> young x (pruneQuotaStamps now ts @ [now]) = young x ts + 1"
  using young_prune [of now x ts] by (simp add: young_def)

lemma usage_counts:
  "fst (actionQuotaUsage (Some m) now k a) = young (now - actionQuotaWindow) (stamps_at m (quota_key k a))"
proof -
  have "fst (actionQuotaUsage (Some m) now k a) = length (pruneQuotaStamps now (stamps_at m (quota_key k a)))"
    by (simp add: actionQuotaUsage_def split: list.splits)
  then show ?thesis by (simp add: pruneQuotaStamps_def young_def)
qed

lemma stamps_at_update: "stamps_at (AList.update k ts m) k' = (if k' = k then ts else stamps_at m k')"
  by (simp add: stamps_at_def map_of_update_eq)

text \<open>A call that is let through under a key finds the key's stamps below every cap.\<close>

lemma let_through_below:
  assumes "caps k n cfg" "c \<in> set (allowed_calls (Some m) now cfg calls)" "k \<in> set (charge_keys cfg c)"
  shows "young (now - actionQuotaWindow) (stamps_at m k) < n"
proof -
  obtain b where b: "b \<in> set (runBudgets cfg)" "snd (actionQuotaLimit (sb_quotas b) (rc_tool c) (rc_args c)) > 0"
      "k = quota_key (sb_key b) (fst (actionQuotaLimit (sb_quotas b) (rc_tool c) (rc_args c)))"
    using assms(3) by (auto simp: charge_keys_def)
  obtain a l where l: "actionQuotaLimit (sb_quotas b) (rc_tool c) (rc_args c) = (a, l)" by force
  have r: "fst (budget_refusal (Some m) now (runBudgets cfg) (rc_tool c) (rc_args c)) = []"
    using assms(2) by (simp add: allowed_calls_def actionQuotaRefusal_def)
  have "int (young (now - actionQuotaWindow) (stamps_at m k)) < l"
    using allowed_below_limit [OF r b(1) l] b(2,3) l by (simp add: usage_counts)
  moreover have "l \<le> int n" using assms(1) b limit_is_declared [OF l] l by (auto simp: caps_def)
  ultimately show ?thesis by simp
qed

lemma total_append: "total P w (xs @ ys) = total P w xs + total P w ys"
  by (simp add: total_def)

lemma total_mono: "(\<And>at1 j. (at1, j) \<in> set xs \<Longrightarrow> P at1 \<Longrightarrow> Q at1) \<Longrightarrow> total P w xs \<le> total Q w xs"
  unfolding total_def by (rule sum_list_mono) auto

lemma total_none: "\<forall>(at1, j) \<in> set xs. \<not> P at1 \<Longrightarrow> total P w xs = 0"
  by (induction xs) (auto simp: total_def)

text \<open>
  What a way of charging a round promises: of the calls counted under a key, at least \<open>left\<close> of their number
  stay in the table as stamps, beside the stamps that were there.
\<close>

locale charging =
  fixes charged :: "int \<Rightarrow> string list list \<Rightarrow> stamp_table \<Rightarrow> stamp_table \<Rightarrow> bool" and left :: "nat \<Rightarrow> nat"
  assumes stamps_left: "charged now kss m m1 \<Longrightarrow> now - actionQuotaWindow \<le> x \<Longrightarrow> x < now \<Longrightarrow>
      young x (stamps_at m k) + left (length (filter (\<lambda>ks. k \<in> set ks) kss)) \<le> young x (stamps_at m1 k)"
    and none_left: "left 0 = 0"
begin

lemma a_round_keeps:
  assumes cap: "caps k n cfg" and few: "counted k cfg calls \<le> u0" "\<forall>j \<le> u0. left j \<le> u" "0 < u"
    and stamps: "\<forall>x \<ge> now - actionQuotaWindow. total ((<) x) left pre \<le> young x (stamps_at m k)"
    and past: "\<forall>(at1, j) \<in> set pre. at1 \<le> now"
    and bound: "\<forall>t. total (in_day t) left pre \<le> n + u - 1"
    and done1: "done1 = filter rc_ok (allowed_calls (Some m) now cfg calls)"
    and charge: "charged now (map (charge_keys cfg) done1) m m1"
  shows "\<forall>x \<ge> now - actionQuotaWindow. total ((<) x) left (pre @ [(now, counted k cfg done1)]) \<le> young x (stamps_at m1 k)"
    and "\<forall>t. total (in_day t) left (pre @ [(now, counted k cfg done1)]) \<le> n + u - 1"
proof -
  let ?j = "counted k cfg done1"
  have j: "length (filter (\<lambda>ks. k \<in> set ks) (map (charge_keys cfg) done1)) = ?j"
    by (simp add: counted_def filter_map comp_def)
  show "\<forall>x \<ge> now - actionQuotaWindow. total ((<) x) left (pre @ [(now, ?j)]) \<le> young x (stamps_at m1 k)"
  proof (intro allI impI)
    fix x assume x: "now - actionQuotaWindow \<le> x"
    show "total ((<) x) left (pre @ [(now, ?j)]) \<le> young x (stamps_at m1 k)"
    proof (cases "x < now")
      case True
      have "total ((<) x) left pre + left ?j \<le> young x (stamps_at m1 k)"
        using stamps_left [OF charge x True, of k] stamps x j by fastforce
      then show ?thesis using True by (simp add: total_append total_def)
    next
      case False
      then have "total ((<) x) left (pre @ [(now, ?j)]) = 0" using past by (intro total_none) auto
      then show ?thesis by simp
    qed
  qed
  have "counted k cfg done1 \<le> counted k cfg calls"
    unfolding counted_def done1 allowed_calls_def by (induction calls) auto
  then have uj: "left ?j \<le> u" using few by simp
  show "\<forall>t. total (in_day t) left (pre @ [(now, ?j)]) \<le> n + u - 1"
  proof
    fix t
    show "total (in_day t) left (pre @ [(now, ?j)]) \<le> n + u - 1"
    proof (cases "in_day t now \<and> ?j \<noteq> 0")
      case False
      then have "total (in_day t) left [(now, ?j)] = 0" using none_left by (auto simp: total_def)
      then show ?thesis using bound by (simp add: total_append)
    next
      case True
      then have "filter (\<lambda>c. k \<in> set (charge_keys cfg c)) done1 \<noteq> []" by (auto simp: counted_def)
      then obtain c where "c \<in> set done1" "k \<in> set (charge_keys cfg c)" by (auto simp: filter_empty_conv)
      then have "young (now - actionQuotaWindow) (stamps_at m k) < n"
        using let_through_below [OF cap] done1 by auto
      then have "total ((<) (now - actionQuotaWindow)) left pre < n" using stamps by (meson le_less_trans order_refl)
      moreover have "total (in_day t) left pre \<le> total ((<) (now - actionQuotaWindow)) left pre"
        by (rule total_mono) (use True in \<open>auto simp: in_day_def\<close>)
      moreover have "total (in_day t) left [(now, ?j)] \<le> u" using uj by (simp add: total_def)
      ultimately show ?thesis using few(3) by (simp add: total_append)
    qed
  qed
qed

lemma rounds_keep:
  assumes "quota_rounds charged rounds m went m2"
    and "\<forall>(now, cfg, calls) \<in> set rounds. caps k n cfg \<and> counted k cfg calls \<le> u0" "\<forall>j \<le> u0. left j \<le> u" "0 < u"
    and "sorted (map fst rounds)" "rounds \<noteq> [] \<longrightarrow> final \<le> fst (hd rounds)"
    and "\<forall>x \<ge> final - actionQuotaWindow. total ((<) x) left pre \<le> young x (stamps_at m k)"
    and "\<forall>(at1, j) \<in> set pre. at1 \<le> final" "\<forall>t. total (in_day t) left pre \<le> n + u - 1"
  shows "total (in_day t) left (pre @ tally k went) \<le> n + u - 1"
  using assms
proof (induction arbitrary: pre final rule: quota_rounds.induct)
  case (no_rounds m)
  then show ?case by (simp add: tally_def)
next
  case (a_round done1 m now cfg calls m1 rounds went m2)
  have now: "final \<le> now" using a_round.prems(5) by simp
  note keep = a_round_keeps [OF _ _ a_round.prems(2,3) _ _ a_round.prems(8) a_round.hyps(1,2)]
  have pre: "\<forall>x \<ge> now - actionQuotaWindow. total ((<) x) left pre \<le> young x (stamps_at m k)" "\<forall>(at1, j) \<in> set pre. at1 \<le> now"
    using a_round.prems(6,7) now by fastforce+
  have here: "caps k n cfg" "counted k cfg calls \<le> u0" using a_round.prems(1) by auto
  have "total (in_day t) left ((pre @ [(now, counted k cfg done1)]) @ tally k went) \<le> n + u - 1"
  proof (rule a_round.IH)
    show "\<forall>(now, cfg, calls) \<in> set rounds. caps k n cfg \<and> counted k cfg calls \<le> u0" using a_round.prems(1) by simp
    show "sorted (map fst rounds)" using a_round.prems(4) by simp
    show "rounds \<noteq> [] \<longrightarrow> now \<le> fst (hd rounds)" using a_round.prems(4) by (cases rounds) auto
    show "\<forall>x \<ge> now - actionQuotaWindow. total ((<) x) left (pre @ [(now, counted k cfg done1)]) \<le> young x (stamps_at m1 k)"
      using keep(1) [OF here pre] .
    show "\<forall>t. total (in_day t) left (pre @ [(now, counted k cfg done1)]) \<le> n + u - 1" using keep(2) [OF here pre] .
    show "\<forall>(at1, j) \<in> set (pre @ [(now, counted k cfg done1)]). at1 \<le> now" using pre(2) by auto
  qed (use a_round.prems(2,3) in auto)
  then show ?case by (simp add: tally_def)
qed

lemma a_day_keeps:
  assumes "quota_rounds charged rounds m went m2"
    and "\<forall>(now, cfg, calls) \<in> set rounds. caps k n cfg \<and> counted k cfg calls \<le> u0" "\<forall>j \<le> u0. left j \<le> u" "0 < u"
    and "sorted (map fst rounds)"
  shows "total (in_day t) left (tally k went) \<le> n + u - 1"
proof -
  let ?first = "if rounds = [] then 0 else fst (hd rounds)"
  have "total (in_day t) left ([] @ tally k went) \<le> n + u - 1"
    by (rule rounds_keep [OF assms, where final = ?first]) (auto simp: total_def)
  then show ?thesis by simp
qed

end

interpretation ordered: charging in_order "\<lambda>j. j"
proof
  fix now :: int and kss m m1 x k
  assume "in_order now kss m m1" and x: "now - actionQuotaWindow \<le> x" "x < now"
  have key: "young x (stamps_at (charge_key now k1 m) k) = young x (stamps_at m k) + (if k = k1 then 1 else 0)" for k1 m
    using young_charge [OF x] by (simp add: charge_key_def stamps_at_update)
  have call: "young x (stamps_at m k) + (if k \<in> set ks then 1 else 0) \<le> young x (stamps_at (fold (charge_key now) ks m) k)" for ks m
  proof (induction ks arbitrary: m)
    case (Cons k1 ks)
    from Cons.IH [of "charge_key now k1 m"] key [of k1 m] show ?case by (auto split: if_splits)
  qed simp
  have "young x (stamps_at m k) + length (filter (\<lambda>ks. k \<in> set ks) kss) \<le> young x (stamps_at (fold (fold (charge_key now)) kss m) k)"
  proof (induction kss arbitrary: m)
    case (Cons ks kss)
    from Cons.IH [of "fold (charge_key now) ks m"] call [of m ks] show ?case by auto
  qed simp
  then show "young x (stamps_at m k) + length (filter (\<lambda>ks. k \<in> set ks) kss) \<le> young x (stamps_at m1 k)"
    using \<open>in_order now kss m m1\<close> by (simp add: in_order_def)
qed simp

text \<open>
  While charges fall in any order, a list that is about to be written under the key holds the stamps the
  table had and one more; so once one has been written the table does too.
\<close>

definition some_stay :: "int \<Rightarrow> string \<Rightarrow> nat \<Rightarrow> nat \<Rightarrow> stamp_table \<times> charge list \<Rightarrow> bool" where
  "some_stay x k before asked = (\<lambda>(m, cs).
     (\<forall>ks ts. \<lparr>cg_keys = k # ks, cg_read = Some ts\<rparr> \<in> set cs \<longrightarrow> before < young x ts)
     \<and> (before < young x (stamps_at m k)
        \<or> (before \<le> young x (stamps_at m k) \<and> length (filter (\<lambda>c. k \<in> set (cg_keys c)) cs) = asked)))"

lemma some_stay_step:
  assumes "now - actionQuotaWindow \<le> x" "x < now" "charge_step now s s1" "some_stay x k before asked s"
  shows "some_stay x k before asked s1"
  using assms(3,4)
proof (cases rule: charge_step.cases)
  case (read_stamps m cs k1 ks ds)
  have "young x (pruneQuotaStamps now (stamps_at m k) @ [now]) = young x (stamps_at m k) + 1" by (rule young_charge [OF assms(1,2)])
  with assms(4) show ?thesis unfolding read_stamps some_stay_def by auto
next
  case (write_stamps m cs k1 ks ts ds)
  show ?thesis
  proof (cases "k1 = k")
    case True
    with assms(4) have "before < young x ts" unfolding write_stamps some_stay_def by auto
    with True assms(4) show ?thesis unfolding write_stamps some_stay_def by (auto simp: stamps_at_update)
  next
    case False
    with assms(4) show ?thesis unfolding write_stamps some_stay_def by (auto simp: stamps_at_update)
  qed
qed

interpretation racing: charging at_once "\<lambda>j. min j 1"
proof
  fix now :: int and kss m m1 x k
  assume a: "at_once now kss m m1" and x: "now - actionQuotaWindow \<le> x" "x < now"
  let ?before = "young x (stamps_at m k)" and ?asked = "length (filter (\<lambda>ks. k \<in> set ks) kss)"
  have start: "some_stay x k ?before ?asked (m, map waiting kss)"
    by (auto simp: some_stay_def waiting_def filter_map comp_def)
  have "some_stay x k ?before ?asked s" if "(charge_step now)\<^sup>*\<^sup>* (m, map waiting kss) s" for s
    using that by (induction rule: rtranclp_induct) (use start some_stay_step [OF x] in auto)
  then have e: "some_stay x k ?before ?asked (m1, map (\<lambda>_. waiting []) kss)" using a by (simp add: at_once_def)
  have "filter (\<lambda>c. k \<in> set (cg_keys c)) (map (\<lambda>_. waiting []) kss) = []" by (simp add: filter_empty_conv waiting_def)
  with e have "?before < young x (stamps_at m1 k) \<or> (?before \<le> young x (stamps_at m1 k) \<and> ?asked = 0)"
    by (simp add: some_stay_def)
  then show "?before + min ?asked 1 \<le> young x (stamps_at m1 k)" by auto
qed simp

lemma total_times: "\<forall>(at1, j) \<in> set xs. v j \<le> u * w j \<Longrightarrow> total P v xs \<le> u * total P w xs"
  unfolding total_def by (induction xs) (auto simp: distrib_left intro!: add_mono)

lemma done_of_rounds:
  "quota_rounds charged rounds m went m2 \<Longrightarrow>
     (at1, cfg, done1) \<in> set went \<Longrightarrow> \<exists>calls. (at1, cfg, calls) \<in> set rounds \<and> counted k cfg done1 \<le> counted k cfg calls"
proof (induction rule: quota_rounds.induct)
  case (a_round done2 m now cfg1 calls m1 rounds went m2)
  have "counted k cfg1 done2 \<le> counted k cfg1 calls"
    unfolding counted_def a_round.hyps(1) allowed_calls_def by (induction calls) auto
  with a_round show ?case by auto
qed simp

text \<open>C33: An action keeps its allowance over a day, but for what one round asks for at once. The rounds of all
  the runs that draw on a budget are taken as they come, each checked when the one before is over, each
  under the configuration of its own run, and the clock does not go back. Where no budget allows more than
  \<open>n\<close> of the calls it counts under a key of the table, the calls counted there that run and succeed within any
  24 hours are at most \<open>n\<close>, as long as no round holds two of them. With up to \<open>k\<close> of them in a round they are at
  most \<open>n + k - 1\<close> if a round's calls run one after another, and at most \<open>n * k\<close> if they run at once, however
  the reads and writes of their charges fall between each other.
\<close>

theorem an_action_keeps_its_allowance:
  assumes "\<forall>(now, cfg, calls) \<in> set rounds. caps key n cfg \<and> counted key cfg calls \<le> k" "0 < k"
    and "sorted (map fst rounds)"
  shows "(quota_rounds in_order rounds m went m1 \<longrightarrow> ran_within key t went \<le> n + k - 1)
    \<and> (quota_rounds at_once rounds m went m1 \<longrightarrow> ran_within key t went \<le> n * k)"
proof (intro conjI impI)
  show "ran_within key t went \<le> n + k - 1" if "quota_rounds in_order rounds m went m1"
    unfolding ran_within_def by (rule ordered.a_day_keeps [OF that assms(1) _ assms(2,3)]) simp
  show "ran_within key t went \<le> n * k" if r: "quota_rounds at_once rounds m went m1"
  proof -
    have "total (in_day t) (\<lambda>j. min j 1) (tally key went) \<le> n + 1 - 1"
      by (rule racing.a_day_keeps [OF r assms(1) _ _ assms(3)]) auto
    moreover have "total (in_day t) (\<lambda>j. j) (tally key went) \<le> k * total (in_day t) (\<lambda>j. min j 1) (tally key went)"
    proof (rule total_times, intro ballI, clarify)
      fix at1 j assume "(at1, j) \<in> set (tally key went)"
      then obtain cfg done1 where e: "(at1, cfg, done1) \<in> set went" "j = counted key cfg done1" by (auto simp: tally_def)
      from done_of_rounds [OF r e(1), of key] obtain calls where "(at1, cfg, calls) \<in> set rounds"
          "counted key cfg done1 \<le> counted key cfg calls" by blast
      then have "j \<le> k" using assms(1) e(2) by force
      then show "j \<le> k * min j 1" by (cases j) auto
    qed
    ultimately show ?thesis by (simp add: ran_within_def) (metis mult.commute mult_le_mono2 order_trans)
  qed
qed

definition posts :: AgentLoopConfig where
  "posts = \<lparr>ac_key = ''a1'', ac_quotas = [(''moltbook/create_post'', 2)], ac_daily = 0, ac_shared = []\<rparr>"

definition post :: "string \<Rightarrow> round_call" where
  "post text = \<lparr>rc_tool = ''moltbook'', rc_args = [(''action'', VStr ''create_post''), (''text'', VStr text)], rc_ok = True\<rparr>"

lemma posts_budget:
  "runBudgets posts = [\<lparr>sb_key = ''a1'', sb_label = [], sb_quotas = [(''moltbook/create_post'', 2)], sb_daily = 0\<rparr>]"
  by (simp add: runBudgets_def posts_def) code_simp

lemma posts_rounds:
  "quota_rounds in_order [(1, posts, [post ''x'', post ''y'']), (2, posts, [post ''z''])] []
     [(1, posts, [post ''x'', post ''y'']), (2, posts, [])] [(''a1|moltbook/create_post'', [1, 1])]"
proof (rule a_round)
  show "[post ''x'', post ''y''] = filter rc_ok (allowed_calls (Some []) 1 posts [post ''x'', post ''y''])" by code_simp
  show "in_order 1 (map (charge_keys posts) [post ''x'', post ''y'']) [] [(''a1|moltbook/create_post'', [1, 1])]"
    unfolding in_order_def by code_simp
  show "quota_rounds in_order [(2, posts, [post ''z''])] [(''a1|moltbook/create_post'', [1, 1])] [(2, posts, [])]
      [(''a1|moltbook/create_post'', [1, 1])]"
  proof (rule a_round [OF _ _ no_rounds])
    show "[] = filter rc_ok (allowed_calls (Some [(''a1|moltbook/create_post'', [1, 1])]) 2 posts [post ''z''])" by code_simp
  qed (simp add: in_order_def)
qed

theorem an_action_keeps_its_allowance_witness:
  "ran_within ''a1|moltbook/create_post'' 9 [(1, posts, [post ''x'', post ''y'']), (2, posts, [])] \<le> 3"
proof -
  have "caps ''a1|moltbook/create_post'' 2 posts"
    by (auto simp: caps_def posts_budget quota_key_def split: if_splits)
  moreover have "counted ''a1|moltbook/create_post'' posts [post ''x'', post ''y''] = 2"
    "counted ''a1|moltbook/create_post'' posts [post ''z''] = 1" by code_simp+
  ultimately have few: "\<forall>(now, cfg, calls) \<in> set [(1, posts, [post ''x'', post ''y'']), (2, posts, [post ''z''])].
      caps ''a1|moltbook/create_post'' 2 cfg \<and> counted ''a1|moltbook/create_post'' cfg calls \<le> 2" by simp
  have "sorted (map fst [(1::int, posts, [post ''x'', post ''y'']), (2, posts, [post ''z''])])" by simp
  from an_action_keeps_its_allowance [OF few _ this] posts_rounds show ?thesis by auto
qed

text \<open>Three posts asked for in one round all run on an allowance of two; asked for one after another the third is refused.\<close>

theorem a_round_runs_past_the_allowance:
  "length (fst (quota_round 1 posts [post ''x'', post ''y'', post ''z''] (Some []))) = 3
   \<and> (let (ran1, db1) = quota_round 1 posts [post ''x''] (Some []);
          (ran2, db2) = quota_round 2 posts [post ''y''] db1;
          (ran3, db3) = quota_round 3 posts [post ''z''] db2
      in length (ran1 @ ran2) = 2 \<and> ran3 = [])"
  by code_simp

section \<open>What is billed\<close>

lemma per1k_add: "per1k (x + y) = per1k x + per1k y"
  by (simp add: per1k_def add_divide_distrib)

definition add_usage :: "UsageDiff \<Rightarrow> UsageDiff \<Rightarrow> UsageDiff" where
  "add_usage d e =
     \<lparr>ud_worker_in = ud_worker_in d + ud_worker_in e, ud_worker_out = ud_worker_out d + ud_worker_out e,
      ud_lead_in = ud_lead_in d + ud_lead_in e, ud_lead_out = ud_lead_out d + ud_lead_out e,
      ud_worker_read = ud_worker_read d + ud_worker_read e, ud_worker_write = ud_worker_write d + ud_worker_write e,
      ud_lead_read = ud_lead_read d + ud_lead_read e, ud_lead_write = ud_lead_write d + ud_lead_write e,
      ud_searches = ud_searches d + ud_searches e, ud_images = ud_images d + ud_images e\<rparr>"

text \<open>Pricing rounds one at a time or their usage together comes to the same.\<close>

lemma Estimate_adds_up: "Estimate cache1h r (add_usage d e) = Estimate cache1h r d + Estimate cache1h r e"
  by (simp add: Estimate_def add_usage_def per1k_add distrib_right)

definition spent_in :: "ledger \<Rightarrow> int \<Rightarrow> string \<Rightarrow> rat" where
  "spent_in db now key = fst (dailySpend db now key)"

lemma appendSpend_spends:
  assumes "trim_space key \<noteq> []" "appendSpend now key cost m = (before, m1)"
  shows "before = spent_in (Some m) now key"
    "spent_in (Some m1) now k = (if k = key then before + cost else spent_in (Some m) now k)"
proof -
  let ?kept = "filter (\<lambda>e. se_at e > now - actionQuotaWindow) (entries_at m key)"
  have d: "dailySpend (Some m) now key = (sum_list (map se_usd ?kept), ?kept)"
    using assms(1) by (simp add: dailySpend_def Let_def)
  then have m1: "before = sum_list (map se_usd ?kept)" "m1 = AList.update key (?kept @ [\<lparr>se_at = now, se_usd = cost\<rparr>]) m"
    using assms(2) by (auto simp: appendSpend_def)
  show "before = spent_in (Some m) now key" using d m1 by (simp add: spent_in_def)
  have "filter (\<lambda>e. se_at e > now - actionQuotaWindow) (?kept @ [\<lparr>se_at = now, se_usd = cost\<rparr>]) = ?kept @ [\<lparr>se_at = now, se_usd = cost\<rparr>]"
    by (simp add: actionQuotaWindow_def go_hour_def)
  then have here: "spent_in (Some m1) now key = before + cost"
    using assms(1) by (simp add: spent_in_def dailySpend_def entries_at_def map_of_update_eq m1 Let_def)
  have "k \<noteq> key \<Longrightarrow> spent_in (Some m1) now k = spent_in (Some m) now k"
    by (simp add: spent_in_def dailySpend_def entries_at_def map_of_update_eq m1)
  with here show "spent_in (Some m1) now k = (if k = key then before + cost else spent_in (Some m) now k)" by simp
qed

text \<open>A budget that this round pushes over its line.\<close>

definition crosses :: "ledger \<Rightarrow> int \<Rightarrow> rat \<Rightarrow> SharedBudget \<Rightarrow> bool" where
  "crosses db now cost b \<longleftrightarrow>
     sb_daily b > 0 \<and> spent_in db now (sb_key b) < sb_daily b \<and> spent_in db now (sb_key b) + cost \<ge> sb_daily b"

lemma charge_each_spends:
  assumes "cost > 0" "distinct (map sb_key bs)" "\<forall>b \<in> set bs. trim_space (sb_key b) \<noteq> []"
    and "charge_each now cost bs m rep = ((spent, limit, label, crossed, reported), m1)"
  shows "(\<forall>k. spent_in (Some m1) now k =
        spent_in (Some m) now k + (if \<exists>b \<in> set bs. sb_key b = k \<and> sb_daily b > 0 then cost else 0))
     \<and> (crossed \<longleftrightarrow> fst (snd (snd (snd rep))) \<or> (\<exists>b \<in> set bs. crosses (Some m) now cost b))"
  using assms(2-)
proof (induction bs arbitrary: m rep)
  case (Cons b bs)
  show ?case
  proof (cases "sb_daily b \<le> 0")
    case True
    then have step: "charge_each now cost bs m rep = ((spent, limit, label, crossed, reported), m1)"
      and no: "\<not> crosses (Some m) now cost b" using Cons.prems(3) by (simp_all add: crosses_def)
    from Cons.IH [OF _ _ step] Cons.prems True no show ?thesis by auto
  next
    case False
    obtain before m2 where a: "appendSpend now (sb_key b) cost m = (before, m2)" by force
    note sp = appendSpend_spends [OF _ a]
    have key: "trim_space (sb_key b) \<noteq> []" "sb_key b \<notin> sb_key ` set bs" using Cons.prems by auto
    obtain s0 l0 la0 c0 r0 where rep: "rep = (s0, l0, la0, c0, r0)" by (metis prod_cases5)
    let ?rep = "report_spend b before (before + cost) rep"
    have crossed: "fst (snd (snd (snd ?rep))) \<longleftrightarrow> c0 \<or> crosses (Some m) now cost b"
      using False sp(1) [OF key(1)] by (auto simp: report_spend_def rep crosses_def)
    have later: "crosses (Some m2) now cost b' \<longleftrightarrow> crosses (Some m) now cost b'" if "b' \<in> set bs" for b'
    proof -
      have "sb_key b' \<noteq> sb_key b" using that key(2) by (metis image_eqI)
      then show ?thesis by (simp add: crosses_def sp(2) [OF key(1)])
    qed
    have step: "charge_each now cost bs m2 ?rep = ((spent, limit, label, crossed, reported), m1)"
      using Cons.prems(3) False assms(1) a by simp
    from Cons.IH [OF _ _ step] Cons.prems(1,2)
    have ih: "\<forall>k. spent_in (Some m1) now k =
          spent_in (Some m2) now k + (if \<exists>b \<in> set bs. sb_key b = k \<and> sb_daily b > 0 then cost else 0)"
      "crossed \<longleftrightarrow> fst (snd (snd (snd ?rep))) \<or> (\<exists>b \<in> set bs. crosses (Some m2) now cost b)" by auto
    have "\<not> (\<exists>b' \<in> set bs. sb_key b' = sb_key b \<and> sb_daily b' > 0)" using key(2) by (metis image_eqI)
    then have "spent_in (Some m1) now k =
        spent_in (Some m) now k + (if \<exists>b' \<in> set (b # bs). sb_key b' = k \<and> sb_daily b' > 0 then cost else 0)" for k
      using ih(1) sp [OF key(1)] False by (cases "k = sb_key b") auto
    moreover have "crossed \<longleftrightarrow> c0 \<or> (\<exists>b' \<in> set (b # bs). crosses (Some m) now cost b')"
      using ih(2) crossed later by auto
    ultimately show ?thesis by (simp add: rep)
  qed
qed simp

lemma over_iff:
  "fst (budgetsOverDailySpend db now bs) \<longleftrightarrow> (\<exists>b \<in> set bs. sb_daily b > 0 \<and> spent_in db now (sb_key b) \<ge> sb_daily b)"
  by (induction bs) (auto simp: spent_in_def Let_def)

lemma runBudgets_keys: "b \<in> set (runBudgets cfg) \<Longrightarrow> trim_space (sb_key b) \<noteq> []"
  by (auto simp: runBudgets_def split: if_splits)

text \<open>C36: A round is billed to every budget with a ceiling, once, and to no other, and the ceiling holds from the
  next turn on. When a priced round is charged, each such budget's 24-hour total rises by its cost; the round
  reports a crossing exactly when it takes a budget from under its ceiling to it or over; and a run under the
  same budgets is refused from then exactly when one of the totals has reached its ceiling.
\<close>

theorem a_round_is_billed_to_every_budget:
  assumes "distinct (map sb_key (runBudgets cfg))" "roundCostUSD cache1h rates resp > 0"
    and "chargeDailySpend now cache1h rates cfg (Some resp) (Some m) = ((spent, limit, label, crossed), db1)"
  shows "(\<forall>k. spent_in db1 now k = spent_in (Some m) now k
        + (if \<exists>b \<in> set (runBudgets cfg). sb_key b = k \<and> sb_daily b > 0 then roundCostUSD cache1h rates resp else 0))
     \<and> (crossed \<longleftrightarrow> (\<exists>b \<in> set (runBudgets cfg). crosses (Some m) now (roundCostUSD cache1h rates resp) b))
     \<and> (fst (overDailySpend db1 now cfg) \<longleftrightarrow>
          (\<exists>b \<in> set (runBudgets cfg). sb_daily b > 0
             \<and> spent_in (Some m) now (sb_key b) + roundCostUSD cache1h rates resp \<ge> sb_daily b))"
proof -
  let ?cost = "roundCostUSD cache1h rates resp" and ?bs = "runBudgets cfg"
  obtain reported m1 where e: "charge_each now ?cost ?bs m (0, 0, [], False, False) = ((spent, limit, label, crossed, reported), m1)"
      "db1 = Some m1"
    using assms(3) by (auto simp: chargeDailySpend_def split: prod.splits)
  from charge_each_spends [OF assms(2,1) _ e(1)] runBudgets_keys
  have c: "\<forall>k. spent_in db1 now k = spent_in (Some m) now k
        + (if \<exists>b \<in> set ?bs. sb_key b = k \<and> sb_daily b > 0 then ?cost else 0)"
    "crossed \<longleftrightarrow> (\<exists>b \<in> set ?bs. crosses (Some m) now ?cost b)" by (auto simp: e(2))
  have "fst (overDailySpend db1 now cfg) \<longleftrightarrow>
      (\<exists>b \<in> set ?bs. sb_daily b > 0 \<and> spent_in (Some m) now (sb_key b) + ?cost \<ge> sb_daily b)"
    unfolding overDailySpend_def over_iff
  proof (rule bex_cong [OF refl], rule conj_cong [OF refl])
    fix b assume "b \<in> set ?bs" "sb_daily b > 0"
    then have "\<exists>b' \<in> set ?bs. sb_key b' = sb_key b \<and> sb_daily b' > 0" by blast
    with c(1) show "(spent_in db1 now (sb_key b) \<ge> sb_daily b) \<longleftrightarrow> (spent_in (Some m) now (sb_key b) + ?cost \<ge> sb_daily b)" by simp
  qed
  with c show ?thesis by blast
qed

definition capped :: AgentLoopConfig where
  "capped = \<lparr>ac_key = ''a1'', ac_quotas = [], ac_daily = 3,
     ac_shared = [\<lparr>sb_key = ''team'', sb_label = ''Writer'', sb_quotas = [], sb_daily = 5\<rparr>]\<rparr>"

definition flat_rates :: CostRates where
  "flat_rates = \<lparr>cr_worker_in = 1, cr_worker_out = 2, cr_lead_in = 1, cr_lead_out = 2, cr_search = 0, cr_image = 0,
     cr_read_mult = 0, cr_write_mult = 0\<rparr>"

definition long_reply :: Response where
  "long_reply = \<lparr>rp_tier = LEAD, rp_in = 1000, rp_out = 1000, rp_cache_read = 0, rp_cache_write = 0\<rparr>"

theorem a_round_is_billed_to_every_budget_witness:
  "spent_in (snd (chargeDailySpend 5 False (Some flat_rates) capped (Some long_reply) (Some []))) 5 ''team'' = 3
   \<and> fst (overDailySpend (snd (chargeDailySpend 5 False (Some flat_rates) capped (Some long_reply) (Some []))) 5 capped)"
proof -
  obtain spent limit label crossed db1 where
    e: "chargeDailySpend 5 False (Some flat_rates) capped (Some long_reply) (Some []) = ((spent, limit, label, crossed), db1)"
    by (metis prod_cases5 surj_pair)
  have bs: "runBudgets capped = [\<lparr>sb_key = ''a1'', sb_label = [], sb_quotas = [], sb_daily = 3\<rparr>,
      \<lparr>sb_key = ''team'', sb_label = ''Writer'', sb_quotas = [], sb_daily = 5\<rparr>]"
    unfolding runBudgets_def capped_def by simp code_simp
  have cost: "roundCostUSD False (Some flat_rates) long_reply = 3"
    by (simp add: roundCostUSD_def Estimate_def round_usage_def long_reply_def flat_rates_def no_usage_def per1k_def)
  have z: "spent_in (Some []) 5 k = 0" for k
    by (simp add: spent_in_def dailySpend_def entries_at_def)
  from a_round_is_billed_to_every_budget [OF _ _ e] show ?thesis
    by (simp add: bs cost e z)
qed

end
