(* ===== verification/GoTime.thy ===== *)
theory GoTime
  imports GoValue "HOL-Library.Word"
begin

text \<open>
  What the scheduling code uses of Go's \<open>time\<close> package. A time is the number of nanoseconds since the zero
  time, midnight of 1 January of year 1, read on the clock of the location it is in: the locations modelled
  are those whose offset does not change. \<open>civil\<close> takes a day apart the way the package does, through cycles of
  400, 100, 4 and 1 years; the lemmas show it inverse to the counting of days, that a year begins after the one
  before it and that a month and day name one day of a year.
\<close>

section \<open>Counting days\<close>

definition is_leap :: "int \<Rightarrow> bool" where
  "is_leap y \<longleftrightarrow> y mod 4 = 0 \<and> (y mod 100 \<noteq> 0 \<or> y mod 400 = 0)"

definition days_before_year :: "int \<Rightarrow> int" where
  "days_before_year y = 365 * (y - 1) + (y - 1) div 4 - (y - 1) div 100 + (y - 1) div 400"

definition leap_day :: "int \<Rightarrow> int" where
  "leap_day y = (if is_leap y then 1 else 0)"

definition days_before_month :: "int \<Rightarrow> int \<Rightarrow> int" where
  "days_before_month l m =
     (if m \<le> 1 then 0 else if m = 2 then 31
      else l + (if m = 3 then 59 else if m = 4 then 90 else if m = 5 then 120 else if m = 6 then 151
        else if m = 7 then 181 else if m = 8 then 212 else if m = 9 then 243 else if m = 10 then 273
        else if m = 11 then 304 else 334))"

definition days_in :: "int \<Rightarrow> int \<Rightarrow> int" where
  "days_in y m = (if m = 2 then 28 + leap_day y else if m \<in> {4, 6, 9, 11} then 30 else 31)"

text \<open>The day of a date, with the month carried into the year the way \<open>time.Date\<close> does and any day of it.\<close>

definition day_number :: "int \<Rightarrow> int \<Rightarrow> int \<Rightarrow> int" where
  "day_number y m d =
     (let y1 = y + (m - 1) div 12; m1 = (m - 1) mod 12 + 1
      in days_before_year y1 + days_before_month (leap_day y1) m1 + d - 1)"

definition year_part :: "int \<Rightarrow> int \<times> int" where
  "year_part n =
     (let a = n div 146097; r = n mod 146097;
          b = min 3 (r div 36524); r1 = r - 36524 * b;
          c = r1 div 1461; r2 = r1 mod 1461;
          e = min 3 (r2 div 365)
      in (400 * a + 100 * b + 4 * c + e + 1, r2 - 365 * e))"

definition month_part :: "int \<Rightarrow> int \<Rightarrow> int \<times> int" where
  "month_part l n =
     (if n < 31 then (1, n + 1) else if n < 59 + l then (2, n - 30) else
      let k = n - l in
      if k < 90 then (3, k - 58) else if k < 120 then (4, k - 89) else if k < 151 then (5, k - 119)
      else if k < 181 then (6, k - 150) else if k < 212 then (7, k - 180) else if k < 243 then (8, k - 211)
      else if k < 273 then (9, k - 242) else if k < 304 then (10, k - 272) else if k < 334 then (11, k - 303)
      else (12, k - 333))"

definition civil :: "int \<Rightarrow> int \<times> int \<times> int" where
  "civil n = (case year_part n of (y, k) \<Rightarrow> (y, month_part (leap_day y) k))"

section \<open>Dates and days\<close>

lemma succ_mod:
  fixes q :: int
  assumes "0 \<le> r" "r < q"
  shows "(q * a + r + 1) mod q = 0 \<longleftrightarrow> r = q - 1"
proof (cases "r = q - 1")
  case True
  then have "q * a + r + 1 = q * (a + 1)" by (simp add: algebra_simps)
  then show ?thesis using True by simp
next
  case False
  then have "(q * a + r + 1) mod q = r + 1" using assms by (intro int_mod_pos_eq [of _ _ a]) auto
  then show ?thesis using False assms by simp
qed

lemma div_step:
  fixes q :: int
  assumes "0 < q"
  shows "y div q = (y - 1) div q + (if y mod q = 0 then 1 else 0)"
proof -
  let ?a = "(y - 1) div q" and ?r = "(y - 1) mod q"
  have r: "0 \<le> ?r" "?r < q" and y: "y = q * ?a + ?r + 1" using assms by (simp_all add: algebra_simps)
  show ?thesis
  proof (cases "?r = q - 1")
    case True
    then have "y = q * ?a + q + 0" using y by linarith
    then have "y = q * (?a + 1) + 0" by (simp add: distrib_left)
    then have "y div q = ?a + 1" "y mod q = 0" using assms by (auto intro: int_div_pos_eq int_mod_pos_eq)
    then show ?thesis by simp
  next
    case False
    then have "y div q = ?a" using y r by (intro int_div_pos_eq [of _ _ _ "?r + 1"]) auto
    moreover have "y mod q \<noteq> 0" using succ_mod [OF r, of ?a] y False by simp
    ultimately show ?thesis by simp
  qed
qed

lemma leap_day_cases:
  "leap_day y = (if y mod 4 = 0 then 1 else 0) - (if y mod 100 = 0 then 1 else 0) + (if y mod 400 = 0 then 1 else 0)"
proof -
  have "(400::int) dvd y \<Longrightarrow> 100 dvd y" "(100::int) dvd y \<Longrightarrow> 4 dvd y"
    by (erule dvd_trans [rotated], simp)+
  then show ?thesis
    by (cases "4 dvd y"; cases "100 dvd y"; cases "400 dvd y") (simp_all add: leap_day_def is_leap_def mod_eq_0_iff_dvd)
qed

lemma next_year: "days_before_year (y + 1) = days_before_year y + 365 + leap_day y"
proof -
  have sum: "365 * y + p - u + w = 365 * (y - 1) + q - v + x + 365 + (a - b + c)"
    if "p = q + a" "u = v + b" "w = x + c" for p q u v w x a b c :: int
    using that by simp
  show ?thesis
    using sum [OF div_step [of 4 y] div_step [of 100 y] div_step [of 400 y]]
    by (simp only: days_before_year_def leap_day_cases add_diff_cancel_right' zero_less_numeral simp_thms)
qed

lemma leap_day_bounds: "0 \<le> leap_day y" "leap_day y \<le> 1"
  by (simp_all add: leap_day_def)

lemma year_cycles:
  assumes "0 \<le> b" "b \<le> 3" "0 \<le> c" "c \<le> 24" "0 \<le> e" "e \<le> 3"
  shows "days_before_year (400 * a + 100 * b + 4 * c + e + 1) = 146097 * a + 36524 * b + 1461 * c + 365 * e"
    and "is_leap (400 * a + 100 * b + 4 * c + e + 1) \<longleftrightarrow> e = 3 \<and> (c \<noteq> 24 \<or> b = 3)"
proof -
  let ?x = "400 * a + 100 * b + 4 * c + e"
  have "?x div 4 = 100 * a + 25 * b + c" by (rule int_div_pos_eq [where r = e]) (use assms in simp_all)
  moreover have "?x div 100 = 4 * a + b" by (rule int_div_pos_eq [where r = "4 * c + e"]) (use assms in simp_all)
  moreover have "?x div 400 = a" by (rule int_div_pos_eq [where r = "100 * b + 4 * c + e"]) (use assms in simp_all)
  ultimately show "days_before_year (400 * a + 100 * b + 4 * c + e + 1) = 146097 * a + 36524 * b + 1461 * c + 365 * e"
    by (simp add: days_before_year_def)
  have "4 * c + e = 99 \<longleftrightarrow> e = 3 \<and> c = 24" "100 * b + 4 * c + e = 399 \<longleftrightarrow> e = 3 \<and> c = 24 \<and> b = 3"
    using assms by linarith+
  then have "(?x + 1) mod 4 = 0 \<longleftrightarrow> e = 3" "(?x + 1) mod 100 = 0 \<longleftrightarrow> e = 3 \<and> c = 24"
    "(?x + 1) mod 400 = 0 \<longleftrightarrow> e = 3 \<and> c = 24 \<and> b = 3"
    using succ_mod [of e 4 "100 * a + 25 * b + c"] succ_mod [of "4 * c + e" 100 "4 * a + b"]
      succ_mod [of "100 * b + 4 * c + e" 400 a] assms by (simp_all add: algebra_simps)
  then show "is_leap (400 * a + 100 * b + 4 * c + e + 1) \<longleftrightarrow> e = 3 \<and> (c \<noteq> 24 \<or> b = 3)"
    by (auto simp: is_leap_def)
qed

lemma min_div:
  fixes q :: int
  assumes "0 \<le> r" "0 < q" "b = min 3 (r div q)"
  shows "0 \<le> b" "b \<le> 3" "q * b \<le> r" "b = 3 \<or> r < q * b + q"
proof -
  let ?d = "r div q"
  have d: "0 \<le> ?d" "q * ?d \<le> r" "r < q * ?d + q"
    using assms by (simp_all add: pos_imp_zdiv_nonneg_iff) (metis add.commute mult_div_mod_eq pos_mod_sign le_add_same_cancel1, metis add_less_cancel_left mult_div_mod_eq pos_mod_bound)
  show "0 \<le> b" "b \<le> 3" using assms(3) d(1) by simp_all
  show "q * b \<le> r"
  proof (cases "?d \<le> 3")
    case False
    then have "q * 3 \<le> q * ?d" using assms(2) by (intro mult_left_mono) simp_all
    then show ?thesis using d(2) False assms(3) by simp
  qed (use d assms(3) in simp)
  show "b = 3 \<or> r < q * b + q" using d(3) assms(3) by (auto simp: min_def)
qed

lemma year_part_bounds:
  assumes "year_part n = (y, k)"
  shows "n = days_before_year y + k" "0 \<le> k" "k < 365 + leap_day y"
proof -
  define a r b r1 c r2 e where defs: "a = n div 146097" "r = n mod 146097" "b = min 3 (r div 36524)" "r1 = r - 36524 * b"
    "c = r1 div 1461" "r2 = r1 mod 1461" "e = min 3 (r2 div 365)"
  have "year_part n = (400 * a + 100 * b + 4 * c + e + 1, r2 - 365 * e)" by (simp only: year_part_def Let_def defs)
  then have y: "y = 400 * a + 100 * b + 4 * c + e + 1" and k: "k = r2 - 365 * e" using assms by simp_all
  have n: "n = 146097 * a + r" "0 \<le> r" "r < 146097" by (simp_all add: defs)
  note b = min_div [OF n(2) _ defs(3), simplified]
  have r1: "0 \<le> r1" "r1 \<le> 36524" "b \<noteq> 3 \<longrightarrow> r1 < 36524" using b n unfolding defs(4) by auto
  have c: "r1 = 1461 * c + r2" "0 \<le> c" "c \<le> 24" "0 \<le> r2" "r2 < 1461"
    using r1 unfolding defs(5,6) by simp_all
  note e = min_div [OF c(4) _ defs(7), simplified]
  note cyc = year_cycles [OF b(1,2) c(2,3) e(1,2), of a]
  show "n = days_before_year y + k" unfolding y k cyc using n c(1) defs(4) by simp
  show "0 \<le> k" using e k by simp
  show "k < 365 + leap_day y"
  proof (cases "e = 3 \<and> (c \<noteq> 24 \<or> b = 3)")
    case True
    then show ?thesis using e k c(5) cyc(2) by (simp add: leap_day_def y)
  next
    case False
    then have "k < 365" using e k c r1 by auto
    then show ?thesis using leap_day_bounds(1) [of y] by simp
  qed
qed

lemma years_grow: "days_before_year y + 365 + leap_day y + 365 * int n \<le> days_before_year (y + 1 + int n)"
proof (induction n)
  case 0
  show ?case using next_year [of y] by simp
next
  case (Suc n)
  then show ?case using next_year [of "y + 1 + int n"] leap_day_bounds(1) [of "y + 1 + int n"] by (simp add: algebra_simps)
qed

lemma year_before: "y < y1 \<Longrightarrow> days_before_year y + 365 + leap_day y \<le> days_before_year y1"
  using years_grow [of y "nat (y1 - y - 1)"] by simp

lemma year_part_unique:
  assumes "n = days_before_year y + k" "0 \<le> k" "k < 365 + leap_day y"
  shows "year_part n = (y, k)"
proof -
  obtain y1 k1 where p: "year_part n = (y1, k1)" by (cases "year_part n")
  note b = year_part_bounds [OF p]
  have "\<not> y < y1" "\<not> y1 < y" using year_before [of y y1] year_before [of y1 y] b assms by linarith+
  then show ?thesis using p b assms by simp
qed

lemma month_part_bounds:
  assumes "month_part l n = (m, d)" "0 \<le> n" "n < 365 + l" "l = 0 \<or> l = 1"
  shows "1 \<le> m" "m \<le> 12" "1 \<le> d" "n = days_before_month l m + d - 1"
  using assms by (auto simp: month_part_def days_before_month_def Let_def split: if_splits)

lemma month_part_unique:
  assumes "1 \<le> m" "m \<le> 12" "1 \<le> d" "d \<le> days_in y m"
  shows "month_part (leap_day y) (days_before_month (leap_day y) m + d - 1) = (m, d)"
    and "days_before_month (leap_day y) m + d - 1 < 365 + leap_day y" and "0 \<le> days_before_month (leap_day y) m + d - 1"
proof -
  have m: "m = 1 \<or> m = 2 \<or> m = 3 \<or> m = 4 \<or> m = 5 \<or> m = 6 \<or> m = 7 \<or> m = 8 \<or> m = 9 \<or> m = 10 \<or> m = 11 \<or> m = 12"
    using assms(1,2) by presburger
  then show "month_part (leap_day y) (days_before_month (leap_day y) m + d - 1) = (m, d)"
    "days_before_month (leap_day y) m + d - 1 < 365 + leap_day y" "0 \<le> days_before_month (leap_day y) m + d - 1"
    using assms(3,4) leap_day_bounds [of y]
    by (elim disjE; simp add: month_part_def days_before_month_def days_in_def Let_def)+
qed

lemma civil_day_number:
  assumes "1 \<le> m" "m \<le> 12" "1 \<le> d" "d \<le> days_in y m"
  shows "civil (day_number y m d) = (y, m, d)"
proof -
  have m: "(m - 1) div 12 = 0" "(m - 1) mod 12 = m - 1" using assms by simp_all
  note month_part_unique [OF assms]
  then have "year_part (day_number y m d) = (y, days_before_month (leap_day y) m + d - 1)"
    by (intro year_part_unique) (simp_all add: day_number_def Let_def m)
  then show ?thesis using month_part_unique(1) [OF assms] by (simp add: civil_def)
qed

lemma month_part_day:
  assumes "month_part l n = (m, d)" "0 \<le> n" "n < 365 + l" "l = leap_day y"
  shows "d \<le> days_in y m"
proof -
  have "l = 0 \<or> l = 1" using assms(4) by (auto simp: leap_day_def)
  then show ?thesis using assms by (auto simp: month_part_def days_in_def Let_def split: if_splits)
qed

lemma day_number_civil:
  assumes "civil n = (y, m, d)"
  shows "day_number y m d = n" "1 \<le> m" "m \<le> 12" "1 \<le> d" "d \<le> days_in y m"
proof -
  obtain k where p: "year_part n = (y, k)" and q: "month_part (leap_day y) k = (m, d)"
    using assms by (auto simp: civil_def split: prod.splits)
  note b = year_part_bounds [OF p]
  have l: "leap_day y = 0 \<or> leap_day y = 1" by (simp add: leap_day_def)
  note c = month_part_bounds [OF q b(2,3) l]
  show "1 \<le> m" "m \<le> 12" "1 \<le> d" using c by simp_all
  show "d \<le> days_in y m" using month_part_day [OF q b(2,3) refl] .
  have m: "(m - 1) div 12 = 0" "(m - 1) mod 12 = m - 1" using c by simp_all
  show "day_number y m d = n" using b c by (simp add: day_number_def Let_def m)
qed

lemma day_number_mono:
  assumes "y < y1" "1 \<le> m" "m \<le> 12" "1 \<le> d" "d \<le> days_in y m" "1 \<le> m1" "m1 \<le> 12" "1 \<le> d1" "d1 \<le> days_in y1 m1"
  shows "day_number y m d < day_number y1 m1 d1"
proof -
  have e: "(m - 1) div 12 = 0" "(m - 1) mod 12 = m - 1" "(m1 - 1) div 12 = 0" "(m1 - 1) mod 12 = m1 - 1"
    using assms by simp_all
  show ?thesis
    using month_part_unique(2) [OF assms(2-5)] month_part_unique(3) [OF assms(6-9)] year_before [OF assms(1)]
    by (simp add: day_number_def Let_def e)
qed

section \<open>Times\<close>

definition second :: int where "second = 1000000000"
definition minute :: int where "minute = 60 * second"
definition hour :: int where "hour = 60 * minute"
definition day_ns :: int where "day_ns = 24 * hour"

type_synonym go_time = int

definition day_of :: "go_time \<Rightarrow> int" where "day_of t = t div day_ns"

definition Year :: "go_time \<Rightarrow> int" where "Year t = fst (civil (day_of t))"
definition Month :: "go_time \<Rightarrow> int" where "Month t = fst (snd (civil (day_of t)))"
definition Day :: "go_time \<Rightarrow> int" where "Day t = snd (snd (civil (day_of t)))"
definition Hour :: "go_time \<Rightarrow> int" where "Hour t = t mod day_ns div hour"
definition Minute :: "go_time \<Rightarrow> int" where "Minute t = t mod hour div minute"

text \<open>Sunday is 0; the zero time is a Monday.\<close>

definition Weekday :: "go_time \<Rightarrow> int" where "Weekday t = (day_of t + 1) mod 7"

definition Date :: "int \<Rightarrow> int \<Rightarrow> int \<Rightarrow> int \<Rightarrow> int \<Rightarrow> go_time" where
  "Date y m d h mi = day_number y m d * day_ns + h * hour + mi * minute"

definition AddDate :: "go_time \<Rightarrow> int \<Rightarrow> int \<Rightarrow> int \<Rightarrow> go_time" where
  "AddDate t years months days =
     day_number (Year t + years) (Month t + months) (Day t + days) * day_ns + t mod day_ns"

text \<open>\<open>time.Duration\<close> is a signed 64-bit count of nanoseconds, and a product of two wraps.\<close>

definition duration :: "int \<Rightarrow> int" where
  "duration d = sint (word_of_int d :: 64 word)"

lemma duration_fits: "- (2 ^ 63) \<le> d \<Longrightarrow> d < 2 ^ 63 \<Longrightarrow> duration d = d"
  by (simp add: duration_def sint_sbintrunc' signed_take_bit_int_eq_self)

lemma units: "0 < second" "0 < minute" "0 < hour" "0 < day_ns" "day_ns = 86400 * second" "hour = 3600 * second" "minute = 60 * second"
  by (simp_all add: second_def minute_def hour_def day_ns_def)

lemma civil_of: "civil (day_of t) = (Year t, Month t, Day t)"
  by (simp add: Year_def Month_def Day_def)

lemma date_of: "day_number (Year t) (Month t) (Day t) = day_of t"
  using day_number_civil(1) [OF civil_of] .

lemma day_number_shift: "day_number y m (d + i) = day_number y m d + i"
  by (simp add: day_number_def Let_def)

lemma AddDate_days [simp]: "AddDate t 0 0 i = t + i * day_ns"
proof -
  have "AddDate t 0 0 i = (day_of t + i) * day_ns + t mod day_ns"
    by (simp add: AddDate_def day_number_shift date_of)
  then show ?thesis by (simp add: day_of_def algebra_simps)
qed

lemma Date_of: "Date (Year t) (Month t) (Day t) h mi = day_of t * day_ns + h * hour + mi * minute"
  by (simp add: Date_def date_of)

lemma day_of_at: "0 \<le> x \<Longrightarrow> x < day_ns \<Longrightarrow> day_of (n * day_ns + x) = n"
  using units by (simp add: day_of_def)

lemma Weekday_at: "0 \<le> x \<Longrightarrow> x < day_ns \<Longrightarrow> Weekday (n * day_ns + x) = (n + 1) mod 7"
  by (simp add: Weekday_def day_of_at)

lemma day_split: "t = day_of t * day_ns + t mod day_ns" "0 \<le> t mod day_ns" "t mod day_ns < day_ns"
  using units by (simp_all add: day_of_def)

lemma Weekday_bounds: "0 \<le> Weekday t" "Weekday t < 7"
  by (simp_all add: Weekday_def)

end
