(* ===== verification/Timing.thy ===== *)
theory Timing
  imports GoTime
begin

unbundle bit_operations_syntax

text \<open>
  When something on the scheduler fires (core/timing/timing.go): a \<open>Spec\<close> says on which days, how often on those,
  inside which daily window, and until when; \<open>Next\<close> is the one rule for the next time it fires. Days are a mask in
  a byte, an interval is multiplied out in the 64-bit \<open>Duration\<close> it wraps in, and the numbers a random schedule
  draws are an argument: \<open>rnd i lo spread\<close> is what Go gets from \<open>lo\<close> plus the \<open>i\<close>-th draw times \<open>spread\<close>, cut to a
  whole number. The old cron-like forms are read into a \<open>Spec\<close> and a label says one in words.
\<close>

section \<open>Specifications\<close>

record Spec =
  sp_days :: "8 word"
  sp_how :: string
  sp_times :: "int list"
  sp_month :: int
  sp_day :: int
  sp_every :: int
  sp_perDay :: int
  sp_minGap :: int
  sp_maxGap :: int
  sp_hasWindow :: bool
  sp_from :: int
  sp_to :: int
  sp_stopAt :: go_time
  sp_maxRuns :: int

definition zero_spec :: Spec where
  "zero_spec = \<lparr>sp_days = 0, sp_how = [], sp_times = [], sp_month = 0, sp_day = 0, sp_every = 0, sp_perDay = 0,
     sp_minGap = 0, sp_maxGap = 0, sp_hasWindow = False, sp_from = 0, sp_to = 0, sp_stopAt = 0, sp_maxRuns = 0\<rparr>"

definition HowDaily :: string where "HowDaily = ''daily''"
definition HowTimes :: string where "HowTimes = ''times''"
definition HowEvery :: string where "HowEvery = ''every''"
definition HowRandomCount :: string where "HowRandomCount = ''random_count''"
definition HowRandomGap :: string where "HowRandomGap = ''random_gap''"
definition HowYearly :: string where "HowYearly = ''yearly''"
definition HowMonthly :: string where "HowMonthly = ''monthly''"

lemmas how_defs = HowDaily_def HowTimes_def HowEvery_def HowRandomCount_def HowRandomGap_def HowYearly_def HowMonthly_def

definition AllDays :: "8 word" where "AllDays = 0x7f"
definition Weekdays :: "8 word" where "Weekdays = 0x3e"
definition Weekends :: "8 word" where "Weekends = 0x41"

definition is_set :: "Spec \<Rightarrow> bool" where "is_set s \<longleftrightarrow> sp_how s \<noteq> []"

definition runsOn :: "Spec \<Rightarrow> int \<Rightarrow> bool" where
  "runsOn s d \<longleftrightarrow> sp_days s = 0 \<or> bit (sp_days s) (nat d)"

definition dayOf :: "go_time \<Rightarrow> go_time" where
  "dayOf t = Date (Year t) (Month t) (Day t) 0 0"

definition minuteOf :: "go_time \<Rightarrow> int" where
  "minuteOf t = Hour t * 60 + Minute t"

section \<open>Validation\<close>

datatype timing_err =
    TUnknownDay | TNoDay | TWindow | TNoTimes | TOneTime | TNotATime int | TInterval | TPerDay | TShortWindow | TGap
  | TNoMonth | TNoSuchDay int int | TYearTime | TMonthDay | TMonthTime | THowOften | TUnknownHow string | TNoFire

definition daysInMonth :: "int \<Rightarrow> int" where
  "daysInMonth m = (if m = 2 then 29 else if m \<in> {4, 6, 9, 11} then 30 else 31)"

definition windowMinutes :: "Spec \<Rightarrow> int" where
  "windowMinutes s = (if sp_hasWindow s then sp_to s - sp_from s else 24 * 60)"

definition windowStart :: "Spec \<Rightarrow> int" where
  "windowStart s = (if sp_hasWindow s then sp_from s else 0)"

definition not_a_time :: "int \<Rightarrow> bool" where
  "not_a_time m \<longleftrightarrow> m < 0 \<or> 24 * 60 \<le> m"

definition one_time :: "int list \<Rightarrow> bool" where
  "one_time ts \<longleftrightarrow> length ts = 1 \<and> \<not> not_a_time (hd ts)"

definition how_problem :: "Spec \<Rightarrow> timing_err option" where
  "how_problem s =
     (let how = sp_how s in
      if how = HowDaily \<or> how = HowTimes then
        (if sp_times s = [] then Some TNoTimes
         else if how = HowDaily \<and> length (sp_times s) \<noteq> 1 then Some TOneTime
         else map_option TNotATime (find not_a_time (sp_times s)))
      else if how = HowEvery then (if sp_every s < 1 then Some TInterval else None)
      else if how = HowRandomCount then
        (if sp_perDay s < 1 \<or> 96 < sp_perDay s then Some TPerDay
         else if windowMinutes s div sp_perDay s < 1 then Some TShortWindow else None)
      else if how = HowRandomGap then
        (if sp_minGap s < 1 \<or> sp_maxGap s \<le> sp_minGap s then Some TGap else None)
      else if how = HowYearly then
        (if sp_month s < 1 \<or> 12 < sp_month s then Some TNoMonth
         else if sp_day s < 1 \<or> daysInMonth (sp_month s) < sp_day s then Some (TNoSuchDay (sp_month s) (sp_day s))
         else if \<not> one_time (sp_times s) then Some TYearTime else None)
      else if how = HowMonthly then
        (if sp_day s = 0 \<or> 31 < sp_day s \<or> sp_day s < -7 then Some TMonthDay
         else if \<not> one_time (sp_times s) then Some TMonthTime else None)
      else if how = [] then Some THowOften
      else Some (TUnknownHow how))"

definition ValidateSpec :: "Spec \<Rightarrow> timing_err option" where
  "ValidateSpec s =
     (if sp_days s AND NOT AllDays \<noteq> 0 then Some TUnknownDay
      else if sp_days s \<noteq> 0 \<and> sp_days s AND AllDays = 0 then Some TNoDay
      else if sp_hasWindow s \<and> (sp_from s < 0 \<or> 24 * 60 < sp_to s \<or> sp_to s \<le> sp_from s) then Some TWindow
      else how_problem s)"

section \<open>The next time\<close>

definition mins :: "int \<Rightarrow> int" where "mins m = duration (m * minute)"
definition secs :: "int \<Rightarrow> int" where "secs n = duration (n * second)"

definition is_open :: "Spec \<Rightarrow> go_time \<Rightarrow> bool" where
  "is_open s t \<longleftrightarrow> runsOn s (Weekday t) \<and>
     (\<not> sp_hasWindow s \<or> sp_from s \<le> minuteOf t \<and> minuteOf t < sp_to s)"

fun first_some :: "('a \<Rightarrow> 'b option) \<Rightarrow> 'a list \<Rightarrow> 'b option" where
  "first_some f [] = None"
| "first_some f (x # xs) = (case f x of Some y \<Rightarrow> Some y | None \<Rightarrow> first_some f xs)"

text \<open>\<open>t\<close> when it may fire then, else the next opening, and whether it moved.\<close>

definition nextOpening :: "Spec \<Rightarrow> go_time \<Rightarrow> go_time \<times> bool" where
  "nextOpening s t =
     (if is_open s t then (t, False)
      else
        (let day = dayOf t; start = day + mins (windowStart s) in
         if runsOn s (Weekday t) \<and> t < start then (start, True)
         else case first_some (\<lambda>i. let d = AddDate day 0 0 i in
                if runsOn s (Weekday d) then Some (d + mins (windowStart s)) else None) [1 .. 8] of
           Some u \<Rightarrow> (u, True)
         | None \<Rightarrow> (t, False)))"

definition monthDay :: "Spec \<Rightarrow> go_time \<Rightarrow> int" where
  "monthDay s first =
     (let final = Day (AddDate first 0 1 (- 1)) in
      if sp_day s < 0 then final + 1 + sp_day s else min (sp_day s) final)"

definition next_yearly :: "Spec \<Rightarrow> go_time \<Rightarrow> go_time option" where
  "next_yearly s frm =
     first_some (\<lambda>y. let c = Date y (sp_month s) (sp_day s) 0 0 + mins (hd (sp_times s)) in
       if Month c \<noteq> sp_month s \<or> Day c \<noteq> sp_day s then None else if frm < c then Some c else None)
     [Year frm .. Year frm + 8]"

definition next_monthly :: "Spec \<Rightarrow> go_time \<Rightarrow> go_time option" where
  "next_monthly s frm =
     first_some (\<lambda>i. let first = Date (Year frm) (Month frm + i) 1 0 0;
                         c = AddDate first 0 0 (monthDay s first - 1) + mins (hd (sp_times s)) in
       if frm < c then Some c else None) [0 .. 2]"

definition next_at_times :: "Spec \<Rightarrow> go_time \<Rightarrow> go_time option" where
  "next_at_times s frm =
     first_some (\<lambda>i. let d = AddDate (dayOf frm) 0 0 i in
       if \<not> runsOn s (Weekday d) then None
       else find (\<lambda>c. frm < c) (map (\<lambda>m. d + mins m) (sort (sp_times s)))) [0 .. 8]"

type_synonym draws = "nat \<Rightarrow> int \<Rightarrow> int \<Rightarrow> int"

definition next_gap :: "Spec \<Rightarrow> draws \<Rightarrow> go_time \<Rightarrow> go_time" where
  "next_gap s rnd frm =
     (let spread = sp_maxGap s - sp_minGap s;
          c = frm + secs (rnd 1 (sp_minGap s) spread);
          (t, moved) = nextOpening s c
      in if moved then
           (let off = secs (rnd 2 0 spread); lim = mins (windowMinutes s)
            in t + (if off \<ge> lim then lim div 2 else off))
         else t)"

definition slot_width :: "Spec \<Rightarrow> int" where
  "slot_width s = mins (windowMinutes s) div sp_perDay s"

definition pick :: "Spec \<Rightarrow> draws \<Rightarrow> go_time \<Rightarrow> int \<Rightarrow> go_time" where
  "pick s rnd d k = d + mins (windowStart s) + (k * slot_width s + rnd 1 0 (slot_width s))"

definition later_pick :: "Spec \<Rightarrow> draws \<Rightarrow> go_time \<Rightarrow> go_time option" where
  "later_pick s rnd day =
     first_some (\<lambda>i. let d = AddDate day 0 0 i in
       if runsOn s (Weekday d) then Some (pick s rnd d 0) else None) [1 .. 8]"

definition next_count :: "Spec \<Rightarrow> draws \<Rightarrow> go_time \<Rightarrow> go_time option" where
  "next_count s rnd frm =
     (let day = dayOf frm; since = frm - (day + mins (windowStart s)); k = since div slot_width s + 1;
          later = later_pick s rnd day
      in if runsOn s (Weekday frm) then
           (if since < 0 then Some (pick s rnd day 0) else if k < sp_perDay s then Some (pick s rnd day k) else later)
         else later)"

definition Next :: "Spec \<Rightarrow> draws \<Rightarrow> go_time \<Rightarrow> timing_err + go_time" where
  "Next s rnd frm =
     (case ValidateSpec s of
        Some e \<Rightarrow> Inl e
      | None \<Rightarrow>
          (let how = sp_how s;
               found = (if how = HowYearly then next_yearly s frm
                 else if how = HowMonthly then next_monthly s frm
                 else if how = HowDaily \<or> how = HowTimes then next_at_times s frm
                 else if how = HowEvery then Some (fst (nextOpening s (frm + secs (sp_every s))))
                 else if how = HowRandomGap then Some (next_gap s rnd frm)
                 else if how = HowRandomCount then next_count s rnd frm else None)
           in case found of Some t \<Rightarrow> Inr t | None \<Rightarrow> Inl TNoFire))"

definition Done :: "Spec \<Rightarrow> go_time \<Rightarrow> int \<Rightarrow> bool" where
  "Done s now runs \<longleftrightarrow> sp_stopAt s \<noteq> 0 \<and> sp_stopAt s \<le> now \<or> 0 < sp_maxRuns s \<and> sp_maxRuns s \<le> runs"

section \<open>In words\<close>

text \<open>The label of a specification that validates: its month is one, and a yearly or monthly one has its time.\<close>

definition dayShort :: "string list" where
  "dayShort = [''Sun'', ''Mon'', ''Tue'', ''Wed'', ''Thu'', ''Fri'', ''Sat'']"

definition DaysLabel :: "8 word \<Rightarrow> string" where
  "DaysLabel days =
     (if days = 0 \<or> days = AllDays then ''every day''
      else if days = Weekdays then ''weekdays''
      else if days = Weekends then ''weekends''
      else join '', '' (map (\<lambda>d. dayShort ! d) (filter (bit days) [1, 2, 3, 4, 5, 6, 0])))"

definition two_digits :: "int \<Rightarrow> string" where
  "two_digits n = (if 0 \<le> n \<and> n < 10 then ''0'' @ itoa_int n else itoa_int n)"

definition HHMM :: "int \<Rightarrow> string" where
  "HHMM m = two_digits (m div 60) @ '':'' @ two_digits (m mod 60)"

definition plural :: "int \<Rightarrow> string \<Rightarrow> string" where
  "plural n unit = (if n = 1 then unit else itoa_int n @ '' '' @ unit @ ''s'')"

definition durationWords :: "int \<Rightarrow> string" where
  "durationWords n =
     (if n mod 86400 = 0 then plural (n div 86400) ''day''
      else if n mod 3600 = 0 then plural (n div 3600) ''hour''
      else if n mod 60 = 0 then plural (n div 60) ''minute''
      else plural n ''second'')"

definition gapWords :: "int \<Rightarrow> int \<Rightarrow> string" where
  "gapWords lo hi =
     (if lo mod 3600 = 0 \<and> hi mod 3600 = 0 then itoa_int (lo div 3600) @ ''-'' @ itoa_int (hi div 3600) @ '' hours''
      else if lo mod 60 = 0 \<and> hi mod 60 = 0 then itoa_int (lo div 60) @ ''-'' @ itoa_int (hi div 60) @ '' minutes''
      else itoa_int lo @ ''-'' @ itoa_int hi @ '' seconds'')"

definition ordinal :: "int \<Rightarrow> string" where
  "ordinal n =
     itoa_int n @
     (if n mod 100 < 11 \<or> 13 < n mod 100 then
        (if n mod 10 = 1 then ''st'' else if n mod 10 = 2 then ''nd'' else if n mod 10 = 3 then ''rd'' else ''th'')
      else ''th'')"

definition MonthDayWords :: "int \<Rightarrow> string" where
  "MonthDayWords d =
     (if d = -1 then ''the last day''
      else if d < 0 then ''the '' @ ordinal (- d) @ '' to last day''
      else ''the '' @ ordinal d)"

definition monthNames :: "string list" where
  "monthNames = [''January'', ''February'', ''March'', ''April'', ''May'', ''June'', ''July'', ''August'',
     ''September'', ''October'', ''November'', ''December'']"

definition month_short :: "int \<Rightarrow> string" where
  "month_short m = take 3 (monthNames ! nat (m - 1))"

definition how_words :: "Spec \<Rightarrow> string" where
  "how_words s =
     (let how = sp_how s in
      if how = HowDaily \<or> how = HowTimes then
        DaysLabel (sp_days s) @ '' at '' @ join '', '' (map HHMM (sort (sp_times s)))
      else if how = HowEvery then ''every '' @ durationWords (sp_every s)
      else if how = HowRandomCount then
        (if sp_perDay s = 1 then ''once a day at random'' else itoa_int (sp_perDay s) @ '' times a day at random'')
      else if how = HowRandomGap then ''at random, every '' @ gapWords (sp_minGap s) (sp_maxGap s)
      else if how = HowYearly then
        ''every year on '' @ month_short (sp_month s) @ '' '' @ itoa_int (sp_day s) @ '' at '' @ HHMM (hd (sp_times s))
      else ''every month on '' @ MonthDayWords (sp_day s) @ '' at '' @ HHMM (hd (sp_times s)))"

definition Label :: "Spec \<Rightarrow> string" where
  "Label s =
     (let how = sp_how s in
      if how \<notin> {HowDaily, HowTimes, HowEvery, HowRandomCount, HowRandomGap, HowYearly, HowMonthly} then ''(no schedule)''
      else
        how_words s @
        (if how \<notin> {HowDaily, HowTimes, HowYearly, HowMonthly} then
           (if sp_hasWindow s then '' between '' @ HHMM (sp_from s) @ '' and '' @ HHMM (sp_to s) else []) @
           (if sp_days s \<noteq> 0 \<and> sp_days s \<noteq> AllDays then '', '' @ DaysLabel (sp_days s) else [])
         else []) @
        (if sp_stopAt s \<noteq> 0 then
           (let final = sp_stopAt s - second in '', until '' @ month_short (Month final) @ '' '' @ itoa_int (Day final))
         else []) @
        (if 0 < sp_maxRuns s then '', '' @ plural (sp_maxRuns s) ''run'' @ '' in all'' else []))"

section \<open>The old forms\<close>

text \<open>\<open>strings.Fields\<close>, \<open>time.Parse\<close> with the layout \<open>15:04\<close> and \<open>fmt.Sscanf\<close> with \<open>%d\<close> on text without white space.\<close>

function split_fields :: "string \<Rightarrow> string \<Rightarrow> string list" where
  "split_fields [] cur = (if cur = [] then [] else [cur])"
| "split_fields (c # s) cur =
     (case find (\<lambda>r. has_prefix (c # s) r) space_runes of
        Some r \<Rightarrow> (if cur = [] then [] else [cur]) @ split_fields (drop (length r - 1) s) []
      | None \<Rightarrow> split_fields s (cur @ [c]))"
  by pat_completeness auto
termination by (relation "measure (\<lambda>(s, _). length s)") auto

definition Fields :: "string \<Rightarrow> string list" where "Fields s = split_fields s []"

definition digit_at :: "string \<Rightarrow> nat \<Rightarrow> bool" where
  "digit_at s i \<longleftrightarrow> i < length s \<and> is_digit (s ! i)"

definition digit_int :: "char \<Rightarrow> int" where "digit_int c = of_char c - 48"

definition getnum :: "bool \<Rightarrow> string \<Rightarrow> (int \<times> string) option" where
  "getnum fixed s =
     (if \<not> digit_at s 0 then None
      else if \<not> digit_at s 1 then (if fixed then None else Some (digit_int (s ! 0), drop 1 s))
      else Some (digit_int (s ! 0) * 10 + digit_int (s ! 1), drop 2 s))"

definition parse_clock :: "string \<Rightarrow> (int \<times> int) option" where
  "parse_clock s =
     (case getnum False s of
        None \<Rightarrow> None
      | Some (h, r) \<Rightarrow>
          (if 24 \<le> h \<or> \<not> has_prefix r '':'' then None
           else case getnum True (drop 1 r) of
             None \<Rightarrow> None
           | Some (m, rest) \<Rightarrow> (if 60 \<le> m \<or> rest \<noteq> [] then None else Some (h, m))))"

definition scan_int :: "string \<Rightarrow> int option" where
  "scan_int s =
     (let neg = has_prefix s ''-'';
          ds = takeWhile is_digit (if has_prefix s ''-'' \<or> has_prefix s ''+'' then drop 1 s else s)
      in if ds = [] then None else Atoi ((if neg then ''-'' else []) @ ds))"

definition weekdayNames :: "(string \<times> nat) list" where
  "weekdayNames = [(''sun'', 0), (''sunday'', 0), (''mon'', 1), (''monday'', 1), (''tue'', 2), (''tuesday'', 2),
     (''wed'', 3), (''wednesday'', 3), (''thu'', 4), (''thursday'', 4), (''fri'', 5), (''friday'', 5),
     (''sat'', 6), (''saturday'', 6)]"

fun split_commas :: "string \<Rightarrow> string list" where
  "split_commas [] = [[]]"
| "split_commas (c # s) =
     (if c = CHR '','' then [] # split_commas s
      else case split_commas s of [] \<Rightarrow> [[c]] | p # ps \<Rightarrow> (c # p) # ps)"

definition month_is :: "string \<Rightarrow> int \<Rightarrow> bool" where
  "month_is name m \<longleftrightarrow> (let full = to_lower (monthNames ! nat (m - 1)) in name = full \<or> name = take 3 full)"

definition month_named :: "string \<Rightarrow> int" where
  "month_named name = (case find (month_is name) [1 .. 12] of Some m \<Rightarrow> m | None \<Rightarrow> 0)"

definition month_day :: "string \<Rightarrow> (int \<times> int) option" where
  "month_day tok =
     (case index_of tok ''-'' of
        None \<Rightarrow> None
      | Some i \<Rightarrow>
          (if i = 0 then None
           else (let m = month_named (to_lower (take i tok)) in
             if m = 0 then None else map_option (\<lambda>d. (m, d)) (scan_int (drop (i + 1) tok)))))"

definition monthlyDay :: "string \<Rightarrow> int option" where
  "monthlyDay tok =
     (let t0 = to_lower tok in
      if \<not> has_prefix t0 ''monthly-'' then None
      else
        (let t1 = drop 8 t0; back = has_prefix t1 ''last''; t2 = (if back then drop 4 t1 else t1) in
         if back \<and> t2 = [] then Some (-1)
         else case scan_int t2 of
           None \<Rightarrow> None
         | Some n \<Rightarrow> (if itoa_int n \<noteq> t2 \<or> n < 1 then None else Some (if back then - n else n))))"

definition MonthlyCron :: "int \<Rightarrow> int \<Rightarrow> string" where
  "MonthlyCron d at0 =
     (if d = -1 then ''MONTHLY-LAST''
      else if d < 0 then ''MONTHLY-LAST'' @ itoa_int (- d)
      else ''MONTHLY-'' @ itoa_int d) @ '' '' @ HHMM at0"

fun day_mask :: "string list \<Rightarrow> 8 word \<Rightarrow> 8 word option" where
  "day_mask [] w = Some w"
| "day_mask (tok # toks) w =
     (case map_of weekdayNames (to_lower (trim_space tok)) of
        None \<Rightarrow> None
      | Some d \<Rightarrow> day_mask toks (w OR push_bit d 1))"

definition FromCron :: "string \<Rightarrow> Spec option" where
  "FromCron spec =
     (case Fields (trim_space spec) of
        [part0, part1] \<Rightarrow>
          (case parse_clock part1 of
             None \<Rightarrow> None
           | Some (h, m) \<Rightarrow>
               (let at0 = h * 60 + m; checked = (\<lambda>s. if ValidateSpec s = None then Some s else None) in
                case monthlyDay part0 of
                  Some d \<Rightarrow> checked (zero_spec\<lparr>sp_how := HowMonthly, sp_day := d, sp_times := [at0]\<rparr>)
                | None \<Rightarrow>
                    (case month_day part0 of
                       Some (mon, d) \<Rightarrow> checked (zero_spec\<lparr>sp_how := HowYearly, sp_month := mon, sp_day := d, sp_times := [at0]\<rparr>)
                     | None \<Rightarrow>
                         (let s = zero_spec\<lparr>sp_how := HowDaily, sp_times := [at0]\<rparr>; days = to_lower part0 in
                          if days = ''daily'' \<or> days = ''everyday'' then Some s
                          else if days = ''weekdays'' then Some (s\<lparr>sp_days := Weekdays\<rparr>)
                          else if days = ''weekends'' then Some (s\<lparr>sp_days := Weekends\<rparr>)
                          else map_option (\<lambda>w. s\<lparr>sp_days := w\<rparr>) (day_mask (split_commas part0) 0)))))
      | _ \<Rightarrow> None)"

end
