(* ===== verification/ToolArgs.thy ===== *)
theory ToolArgs
  imports Timing MachineWalk
begin

text \<open>
  The arguments of a tool call (core/llm.go): \<open>parseToolArgs\<close>, which unwraps values a model has written as a
  schema and repairs values that swallowed the parameters after them; the readers \<open>StringArg\<close>, \<open>IntArg\<close>,
  \<open>BoolArg\<close> and \<open>SliceArg\<close>; and \<open>formatArgs\<close> (core/agent_loop.go), the text a call is recognised by.

  A decoded argument map is an association list. Beyond \<open>golib\<close> the code uses \<open>json.Unmarshal\<close> into any
  value, the \<open>%g\<close> form of a number, and the conversion of a number that does not fit an integer, which Go
  leaves to the platform: they are the fields of \<open>arglib\<close>.

  What the repair means to find is said apart from its walks: \<open>says\<close>, what a value says under a schema's
  wrapping, \<open>markup_tail\<close>, a grammar of the parameters a text may end in, and \<open>swallowed\<close>, the first place such
  a tail starts. The code's searches are shown to find just these.
\<close>

record arglib = golib +
  json_value :: "string \<Rightarrow> val option"
  sprint_g :: "float64 \<Rightarrow> string"
  big_whole :: "float64 \<Rightarrow> int option"
  big_int :: "float64 \<Rightarrow> int"

section \<open>Values written as a schema\<close>

definition unwrapSchemaEchoAny :: "(string \<times> val) list \<Rightarrow> val" where
  "unwrapSchemaEchoAny m =
     (case map_of m ''value'' of
        Some inner \<Rightarrow> inner
      | None \<Rightarrow>
          if map_of m ''type'' \<noteq> None \<and> length m = 2
          then (case find (\<lambda>kv. fst kv \<noteq> ''type'') m of Some kv \<Rightarrow> snd kv | None \<Rightarrow> VObj m)
          else VObj m)"

definition cleanArg :: "val \<Rightarrow> val" where
  "cleanArg v = (case v of VObj m \<Rightarrow> unwrapSchemaEchoAny m | _ \<Rightarrow> v)"

section \<open>Parameters swallowed by a value\<close>

definition pPrefix :: string where "pPrefix = ''<parameter=''"
definition pClose :: string where "pClose = ''</parameter>''"

definition coerceSalvagedValue :: "arglib \<Rightarrow> string \<Rightarrow> val" where
  "coerceSalvagedValue F s =
     (case (if s \<noteq> [] \<and> hd s \<in> {CHR ''['', CHR ''{'', CHR 0x22} then json_value F s else None) of
        Some v \<Rightarrow> v
      | None \<Rightarrow>
          if s = ''true'' then VBool True
          else if s = ''false'' then VBool False
          else VStr s)"

definition bad_name :: "string \<Rightarrow> bool" where
  "bad_name name \<longleftrightarrow> name = [] \<or> (\<exists>c \<in> set name. c \<in> {CHR '' '', CHR 0x09, CHR 0x0A, CHR ''<''})"

text \<open>The walk over the parameter chunks of a tail.\<close>

function swallowed_params :: "arglib \<Rightarrow> string \<Rightarrow> (string \<times> val) list \<Rightarrow> (string \<times> val) list option" where
  "swallowed_params F body out =
     (if body = [] then Some out
      else if \<not> has_prefix body pPrefix then None
      else
        (let b1 = drop (length pPrefix) body in
         case index_of b1 ''>'' of
           None \<Rightarrow> None
         | Some gt \<Rightarrow>
             (let name = trim_space (take gt b1); b2 = drop (gt + 1) b1 in
              if bad_name name then None
              else case index_of b2 pClose of
                  Some stop \<Rightarrow>
                    swallowed_params F (trim_space (drop (stop + length pClose) b2))
                      (AList.update name (coerceSalvagedValue F (trim_space (take stop b2))) out)
                | None \<Rightarrow> Some (AList.update name (coerceSalvagedValue F (trim_space b2)) out))))"
  by pat_completeness auto

termination
proof (relation "measure (\<lambda>(_, body, _). length body)")
  show "wf (measure (\<lambda>(_ :: arglib, body :: string, _ :: (string \<times> val) list). length body))" by simp
next
  fix F :: arglib and body :: string and out :: "(string \<times> val) list" and b1 gt name b2 stop
  assume a: "body \<noteq> []" "\<not> \<not> has_prefix body pPrefix" "b1 = drop (length pPrefix) body" "b2 = drop (gt + 1) b1"
  have "length (trim_space (drop (stop + length pClose) b2)) \<le> length b1"
    using trim_space_length [of "drop (stop + length pClose) b2"] a(4) by simp
  also have "\<dots> < length body" using a by (simp add: pPrefix_def)
  finally show "((F, trim_space (drop (stop + length pClose) b2), AList.update name
      (coerceSalvagedValue F (trim_space (take stop b2))) out), F, body, out) \<in> measure (\<lambda>(_, body, _). length body)"
    by simp
qed

declare swallowed_params.simps [simp del]

definition parseSwallowedTail :: "arglib \<Rightarrow> string \<Rightarrow> (string \<times> val) list option" where
  "parseSwallowedTail F tail0 =
     (let body0 = trim_space tail0;
          body1 = trim_space (trim_suffix body0 ''</tool_call>'');
          body = trim_space (trim_suffix body1 ''</function>'')
      in swallowed_params F body [])"

text \<open>The first close tag whose tail is markup alone: what stands before it, and what it swallowed.\<close>

function swallow_at :: "arglib \<Rightarrow> string \<Rightarrow> nat \<Rightarrow> (string \<times> (string \<times> val) list) option" where
  "swallow_at F s pos =
     (case index_of (drop pos s) pClose of
        None \<Rightarrow> None
      | Some i \<Rightarrow>
          (let ci = pos + i in
           case parseSwallowedTail F (drop (ci + length pClose) s) of
             Some recovered \<Rightarrow> Some (trim_space (take ci s), recovered)
           | None \<Rightarrow> swallow_at F s (ci + length pClose)))"
  by pat_completeness auto
termination
proof (relation "measure (\<lambda>(_, s, pos). length s - pos)")
  show "wf (measure (\<lambda>(_ :: arglib, s :: string, pos :: nat). length s - pos))" by simp
next
  fix F s pos i ci
  assume "index_of (drop pos s) pClose = Some i" "ci = pos + i"
  from index_of_Some [OF this(1)] this(2)
  show "((F, s, ci + length pClose), F, s, pos) \<in> measure (\<lambda>(_, s, pos). length s - pos)"
    by (auto simp: pClose_def)
qed

declare swallow_at.simps [simp del]

definition salvage_patches :: "arglib \<Rightarrow> (string \<times> val) list \<Rightarrow> (string \<times> string \<times> (string \<times> val) list) list" where
  "salvage_patches F args =
     List.map_filter
       (\<lambda>(k, v). case v of
          VStr s \<Rightarrow> map_option (\<lambda>(val0, recovered). (k, val0, recovered)) (swallow_at F s 0)
        | _ \<Rightarrow> None)
       args"

definition restore_param :: "string \<times> val \<Rightarrow> (string \<times> val) list \<Rightarrow> (string \<times> val) list" where
  "restore_param kv args = (if map_of args (fst kv) = None then AList.update (fst kv) (snd kv) args else args)"

definition apply_patch :: "string \<times> string \<times> (string \<times> val) list \<Rightarrow> (string \<times> val) list \<Rightarrow> (string \<times> val) list" where
  "apply_patch p args =
     (case p of (k, val0, recovered) \<Rightarrow> fold restore_param recovered (AList.update k (VStr val0) args))"

definition salvageSwallowedParams :: "arglib \<Rightarrow> (string \<times> val) list \<Rightarrow> (string \<times> val) list" where
  "salvageSwallowedParams F args = fold apply_patch (salvage_patches F args) args"

definition parseToolArgs :: "arglib \<Rightarrow> (string \<times> val) list \<Rightarrow> (string \<times> val) list" where
  "parseToolArgs F raw = salvageSwallowedParams F (map (\<lambda>(k, v). (k, cleanArg v)) raw)"

section \<open>Reading an argument\<close>

text \<open>A float that equals an integer of 64 bits.\<close>

definition whole64 :: "arglib \<Rightarrow> float64 \<Rightarrow> int option" where
  "whole64 F x =
     (case x of
        Fin r \<Rightarrow>
          if - (2 ^ 63) \<le> r \<and> r < 2 ^ 63 then (if of_int \<lfloor>r\<rfloor> = r then Some \<lfloor>r\<rfloor> else None)
          else big_whole F x
      | _ \<Rightarrow> big_whole F x)"

definition marshalled :: "arglib \<Rightarrow> val \<Rightarrow> string" where
  "marshalled F v = (case json_marshal F v of Some b \<Rightarrow> b | None \<Rightarrow> [])"

fun plain_text :: "arglib \<Rightarrow> val \<Rightarrow> string" where
  "plain_text F (VStr s) = s"
| "plain_text F (VNum x) = (case whole64 F x of Some i \<Rightarrow> itoa_int i | None \<Rightarrow> sprint_g F x)"
| "plain_text F (VBool b) = (if b then ''true'' else ''false'')"
| "plain_text F VNil = []"
| "plain_text F v = marshalled F v"

definition unwrapSchemaEcho :: "arglib \<Rightarrow> (string \<times> val) list \<Rightarrow> string" where
  "unwrapSchemaEcho F m = (case unwrapSchemaEchoAny m of VObj o1 \<Rightarrow> marshalled F (VObj o1) | v \<Rightarrow> plain_text F v)"

definition stringify :: "arglib \<Rightarrow> val \<Rightarrow> string" where
  "stringify F v = (case v of VObj m \<Rightarrow> unwrapSchemaEcho F m | _ \<Rightarrow> plain_text F v)"

definition StringArg :: "arglib \<Rightarrow> (string \<times> val) list \<Rightarrow> string \<Rightarrow> string" where
  "StringArg F args key = (case map_of args key of None \<Rightarrow> [] | Some v \<Rightarrow> stringify F v)"

text \<open>\<open>Sscanf\<close> with \<open>%d\<close> skips leading white space but no newline, and reads digits as far as they go.\<close>

definition scan_d :: "string \<Rightarrow> int" where
  "scan_d s = (case scan_int (strip (filter (\<lambda>r. r \<noteq> newline) space_runes) s) of Some n \<Rightarrow> n | None \<Rightarrow> 0)"

definition truncated :: "arglib \<Rightarrow> float64 \<Rightarrow> int" where
  "truncated F x =
     (case x of
        Fin r \<Rightarrow> if - (2 ^ 63) \<le> r \<and> r < 2 ^ 63 then (if r \<ge> 0 then \<lfloor>r\<rfloor> else \<lceil>r\<rceil>) else big_int F x
      | _ \<Rightarrow> big_int F x)"

definition IntArg :: "arglib \<Rightarrow> (string \<times> val) list \<Rightarrow> string \<Rightarrow> int" where
  "IntArg F args key =
     (case map_of args key of
        Some (VNum x) \<Rightarrow> truncated F x
      | Some (VInt n) \<Rightarrow> n
      | Some (VStr s) \<Rightarrow> scan_d s
      | _ \<Rightarrow> 0)"

definition BoolArg :: "(string \<times> val) list \<Rightarrow> string \<Rightarrow> bool" where
  "BoolArg args key =
     (case map_of args key of
        Some (VBool b) \<Rightarrow> b
      | Some (VStr s) \<Rightarrow> s = ''true'' \<or> s = ''1''
      | Some (VNum x) \<Rightarrow> x \<noteq> Fin 0
      | _ \<Rightarrow> False)"

definition SliceArg :: "(string \<times> val) list \<Rightarrow> string \<Rightarrow> val list" where
  "SliceArg args key = (case map_of args key of Some (VList xs) \<Rightarrow> xs | _ \<Rightarrow> [])"

section \<open>The text of a call\<close>

definition arg_line :: "arglib \<Rightarrow> (string \<times> val) list \<Rightarrow> string \<Rightarrow> string" where
  "arg_line F args k = k @ '': '' @ Clip (stringify F (case map_of args k of Some v \<Rightarrow> v | None \<Rightarrow> VNil)) 200"

definition formatArgs :: "arglib \<Rightarrow> (string \<times> val) list \<Rightarrow> string" where
  "formatArgs F args =
     (if args = [] then [] else join newline (map (arg_line F args) (sort (keys args))))"

section \<open>What an argument says, and what it swallowed\<close>

text \<open>
  What the code means to find, said without its walks. A value says what it is, or, where it is an object,
  what its field \<open>value\<close> holds, or, where it has a \<open>type\<close> and one field more, what that field holds.
\<close>

inductive says :: "val \<Rightarrow> val \<Rightarrow> bool" where
  plain: "\<forall>m. v \<noteq> VObj m \<Longrightarrow> says v v"
| by_value: "map_of m ''value'' = Some u \<Longrightarrow> says (VObj m) u"
| beside_type: "map_of m ''value'' = None \<Longrightarrow> k \<noteq> ''type'' \<Longrightarrow> m = [(''type'', t), (k, u)] \<or> m = [(k, u), (''type'', t)] \<Longrightarrow>
     says (VObj m) u"
| other_object: "map_of m ''value'' = None \<Longrightarrow> length m \<noteq> 2 \<or> map_of m ''type'' = None \<or> (\<forall>kv \<in> set m. fst kv = ''type'') \<Longrightarrow>
     says (VObj m) (VObj m)"

lemma cleanArg_says: "says v (cleanArg v)"
proof (cases "\<exists>m. v = VObj m")
  case False
  then show ?thesis by (cases v) (auto simp: cleanArg_def intro: plain)
next
  case True
  then obtain m where v: "v = VObj m" by blast
  show ?thesis
  proof (cases "map_of m ''value''")
    case (Some u)
    then show ?thesis by (simp add: v cleanArg_def unwrapSchemaEchoAny_def by_value)
  next
    case none: None
    show ?thesis
    proof (cases "map_of m ''type'' \<noteq> None \<and> length m = 2 \<and> (\<exists>kv \<in> set m. fst kv \<noteq> ''type'')")
      case False
      then have "cleanArg v = VObj m"
        using none by (auto simp: v cleanArg_def unwrapSchemaEchoAny_def find_Some_iff split: option.splits)
      with False none show ?thesis by (auto simp: v intro: other_object)
    next
      case True
      obtain x y where m: "m = [x, y]" using True by (auto simp: numeral_2_eq_2 length_Suc_conv)
      with True consider "fst x = ''type''" "fst y \<noteq> ''type''" | "fst x \<noteq> ''type''" "fst y = ''type''"
        by (cases x; cases y) (auto split: if_splits)
      then show ?thesis
      proof cases
        case 1
        then have "cleanArg v = snd y" using none by (simp add: v cleanArg_def unwrapSchemaEchoAny_def m)
        then show ?thesis unfolding v using none 1 by (intro beside_type [of m "fst y" "snd x"]) (auto simp: m prod_eq_iff)
      next
        case 2
        then have "cleanArg v = snd x" using none by (simp add: v cleanArg_def unwrapSchemaEchoAny_def m)
        then show ?thesis unfolding v using none 2 by (intro beside_type [of m "fst x" "snd y"]) (auto simp: m prod_eq_iff)
      qed
    qed
  qed
qed

lemma says_unique: "says v u \<Longrightarrow> says v u1 \<Longrightarrow> u = u1"
  by (auto elim!: says.cases)

text \<open>
  A tail of parameters: nothing; one that is never closed, as when the reply was cut; or a closed one, and,
  past white space, more of them. Names and values count without the white space around them.
\<close>

inductive params_text :: "string \<Rightarrow> (string \<times> string) list \<Rightarrow> bool" where
  no_more: "params_text [] []"
| unclosed: "CHR ''>'' \<notin> set name \<Longrightarrow> \<not> bad_name (trim_space name) \<Longrightarrow> \<not> contains v pClose \<Longrightarrow>
     params_text (pPrefix @ name @ ''>'' @ v) [(trim_space name, trim_space v)]"
| closed: "CHR ''>'' \<notin> set name \<Longrightarrow> \<not> bad_name (trim_space name) \<Longrightarrow> \<not> contains v pClose \<Longrightarrow>
     params_text (trim_space rest) kvs \<Longrightarrow>
     params_text (pPrefix @ name @ ''>'' @ v @ pClose @ rest) ((trim_space name, trim_space v) # kvs)"

definition markup_tail :: "string \<Rightarrow> (string \<times> string) list \<Rightarrow> bool" where
  "markup_tail t kvs \<longleftrightarrow>
     params_text (trim_space (trim_suffix (trim_space (trim_suffix (trim_space t) ''</tool_call>'')) ''</function>'')) kvs"

text \<open>A text that swallowed parameters: the first of its close tags with such a tail, and the tail.\<close>

definition swallowed :: "string \<Rightarrow> string \<Rightarrow> (string \<times> string) list \<Rightarrow> bool" where
  "swallowed s a kvs \<longleftrightarrow>
     (\<exists>t. s = a @ pClose @ t \<and> markup_tail t kvs)
     \<and> (\<forall>a1 t1 kvs1. s = a1 @ pClose @ t1 \<and> markup_tail t1 kvs1 \<longrightarrow> length a \<le> length a1)"

lemma index_of_first:
  assumes "p = c # cs" "c \<notin> set cs"
  shows "\<not> contains v p \<Longrightarrow> index_of (v @ p @ t) p = Some (length v)"
proof (induction v)
  case Nil
  then show ?case by (simp add: index_of_prefix)
next
  case (Cons x v)
  have "\<not> contains v p" using Cons.prems unfolding contains_conv by (metis append_Cons)
  from Cons.IH [OF this] have ih: "index_of (v @ p @ t) p = Some (length v)" .
  have "\<not> has_prefix (x # v @ p @ t) p"
  proof
    assume "has_prefix (x # v @ p @ t) p"
    then obtain u where u: "(x # v) @ p @ t = p @ u" unfolding has_prefix_conv by auto
    show False
    proof (cases "length p \<le> length (x # v)")
      case True
      with u have "take (length p) (x # v) = p" by (metis append_eq_append_conv_if append_eq_conv_conj)
      then have "x # v = p @ drop (length p) (x # v)" by (metis append_take_drop_id)
      with Cons.prems show False unfolding contains_conv by (metis append_Nil)
    next
      case False
      let ?n = "length (x # v)"
      define w where "w = drop ?n p"
      have "take ?n (p @ u) = take ?n p" using False by (simp del: length_Cons)
      moreover have "take ?n ((x # v) @ p @ t) = x # v" by simp
      ultimately have "take ?n p = x # v" using u by metis
      then have w1: "p = (x # v) @ w" unfolding w_def by (metis append_take_drop_id)
      with u have w: "p = (x # v) @ w" "p @ t = w @ u" by (metis append_assoc same_append_eq)+
      with False have "w \<noteq> []" by auto
      with w(2) assms(1) have "hd w = c" by (cases w) auto
      moreover have "hd w \<in> set cs" using w(1) \<open>w \<noteq> []\<close> assms(1) by (cases w) auto
      ultimately show False using assms(2) by simp
    qed
  qed
  with ih show ?case by simp
qed

lemma index_of_earliest: "index_of s p = Some i \<Longrightarrow> j < i \<Longrightarrow> \<not> has_prefix (drop j s) p"
proof (induction s p arbitrary: i j rule: index_of.induct)
  case (2 c s p)
  then show ?case by (cases j) (auto split: if_splits)
qed (auto split: if_splits)

lemma index_of_split: "index_of s p = Some i \<Longrightarrow> s = take i s @ p @ drop (i + length p) s"
  using index_of_Some [of s p i] by (metis add.commute append_take_drop_id drop_drop)

lemma no_earlier:
  assumes "index_of s p = Some i" "p \<noteq> []"
  shows "\<not> contains (take i s) p"
proof
  assume "contains (take i s) p"
  then obtain a b where ab: "take i s = a @ p @ b" unfolding contains_conv by blast
  then have "s = a @ p @ (b @ drop i s)" by (metis append.assoc append_take_drop_id)
  then have "has_prefix (drop (length a) s) p" by (metis append_eq_conv_conj has_prefix_append)
  moreover have "length a < i"
  proof -
    have "length (a @ p @ b) \<le> i" using ab by (metis length_take min.cobounded2)
    then show ?thesis using assms(2) by (cases p) auto
  qed
  ultimately show False using index_of_earliest [OF assms(1)] by blast
qed

lemma pClose_first: "\<not> contains v pClose \<Longrightarrow> index_of (v @ pClose @ t) pClose = Some (length v)"
  by (rule index_of_first [where c = "CHR ''<''" and cs = "''/parameter>''"]) (simp_all add: pClose_def)

definition read_param :: "arglib \<Rightarrow> string \<times> string \<Rightarrow> (string \<times> val) list \<Rightarrow> (string \<times> val) list" where
  "read_param F kv = AList.update (fst kv) (coerceSalvagedValue F (snd kv))"

lemma char_first: "CHR ''>'' \<notin> set n \<Longrightarrow> index_of (n @ CHR ''>'' # t) ''>'' = Some (length n)"
  using index_of_first [of "''>''" "CHR ''>''" "[]" n t] by (force simp: contains_conv)

lemma params_read: "params_text body kvs \<Longrightarrow> swallowed_params F body out = Some (fold (read_param F) kvs out)"
proof (induction arbitrary: out rule: params_text.induct)
  case no_more
  then show ?case by (simp add: swallowed_params.simps)
next
  case (unclosed name v)
  have "has_prefix (pPrefix @ name @ ''>'' @ v) pPrefix" "drop (length pPrefix) (pPrefix @ name @ ''>'' @ v) = name @ ''>'' @ v"
    "pPrefix @ name @ ''>'' @ v \<noteq> []" by simp_all
  with unclosed show ?case
    by (subst swallowed_params.simps)
      (simp add: char_first Let_def read_param_def contains_def del: append_assoc)
next
  case (closed name v rest kvs)
  have "has_prefix (pPrefix @ name @ ''>'' @ v @ pClose @ rest) pPrefix" "pPrefix @ name @ ''>'' @ v @ pClose @ rest \<noteq> []"
    "drop (length pPrefix) (pPrefix @ name @ ''>'' @ v @ pClose @ rest) = name @ ''>'' @ v @ pClose @ rest" by simp_all
  moreover have "take (length v) (v @ pClose @ rest) = v" "drop (length v + length pClose) (v @ pClose @ rest) = rest"
    by simp_all
  ultimately have "swallowed_params F (pPrefix @ name @ ''>'' @ v @ pClose @ rest) out =
      swallowed_params F (trim_space rest) (read_param F (trim_space name, trim_space v) out)"
    using closed.hyps
    by (subst swallowed_params.simps) (simp add: char_first pClose_first Let_def read_param_def)
  then show ?case using closed.IH by simp
qed

lemma swallowed_params_text: "swallowed_params F body out = Some r \<Longrightarrow> \<exists>kvs. params_text body kvs"
proof (induction F body out rule: swallowed_params.induct)
  case (1 F body out)
  show ?case
  proof (cases "body = []")
    case True
    then show ?thesis using no_more by blast
  next
    case ne: False
    with "1.prems" have pre: "has_prefix body pPrefix" by (subst (asm) swallowed_params.simps) (auto split: if_splits)
    define b1 where "b1 = drop (length pPrefix) body"
    from "1.prems" ne pre obtain gt where gt: "index_of b1 ''>'' = Some gt"
      by (subst (asm) swallowed_params.simps) (auto simp: b1_def Let_def split: option.splits)
    define b2 where "b2 = drop (gt + 1) b1"
    have name: "\<not> bad_name (trim_space (take gt b1))"
      using "1.prems" ne pre gt by (subst (asm) swallowed_params.simps) (auto simp: b1_def Let_def split: if_splits)
    have "CHR ''>'' \<notin> set (take gt b1)"
      using no_earlier [OF gt] unfolding contains_conv by (metis append_Cons append_Nil list.distinct(1) split_list)
    moreover have body: "body = pPrefix @ take gt b1 @ ''>'' @ b2"
      using pre index_of_split [OF gt] by (simp add: b1_def b2_def has_prefix_def) (metis append_take_drop_id)
    ultimately show ?thesis
    proof (cases "index_of b2 pClose")
      case None
      then have "\<not> contains b2 pClose" by (simp add: contains_def)
      from unclosed [OF \<open>CHR ''>'' \<notin> set (take gt b1)\<close> name this] show ?thesis unfolding body [symmetric] by blast
    next
      case (Some stop)
      have v: "\<not> contains (take stop b2) pClose" using no_earlier [OF Some] by (simp add: pClose_def)
      have b2: "b2 = take stop b2 @ pClose @ drop (stop + length pClose) b2" using index_of_split [OF Some] .
      have "swallowed_params F (trim_space (drop (stop + length pClose) b2))
          (AList.update (trim_space (take gt b1)) (coerceSalvagedValue F (trim_space (take stop b2))) out) = Some r"
        using "1.prems" ne pre gt name Some
        by (subst (asm) swallowed_params.simps) (simp add: b1_def b2_def Let_def)
      from "1.IH" [OF ne _ b1_def gt refl b2_def name Some this] pre
      obtain kvs where "params_text (trim_space (drop (stop + length pClose) b2)) kvs" by blast
      from closed [OF \<open>CHR ''>'' \<notin> set (take gt b1)\<close> name v this] show ?thesis
        unfolding b2 [symmetric] body [symmetric] by blast
    qed
  qed
qed

lemma tail_read: "markup_tail t kvs \<Longrightarrow> parseSwallowedTail F t = Some (fold (read_param F) kvs [])"
  by (simp add: markup_tail_def parseSwallowedTail_def Let_def params_read)

lemma tail_text: "parseSwallowedTail F t = Some r \<Longrightarrow> \<exists>kvs. markup_tail t kvs \<and> r = fold (read_param F) kvs []"
proof -
  let ?body = "trim_space (trim_suffix (trim_space (trim_suffix (trim_space t) ''</tool_call>'')) ''</function>'')"
  assume "parseSwallowedTail F t = Some r"
  then have r: "swallowed_params F ?body [] = Some r" by (simp add: parseSwallowedTail_def Let_def)
  from swallowed_params_text [OF this] obtain kvs where kvs: "params_text ?body kvs" by blast
  from r params_read [OF this, of F "[]"] have "r = fold (read_param F) kvs []" by simp
  with kvs show "\<exists>kvs. markup_tail t kvs \<and> r = fold (read_param F) kvs []" unfolding markup_tail_def by blast
qed

text \<open>The search looks at every close tag: two of them never overlap.\<close>

lemma no_overlap:
  assumes "has_prefix (drop i s) pClose" "has_prefix (drop j s) pClose" "i < j"
  shows "i + length pClose \<le> j"
proof (rule ccontr)
  assume "\<not> i + length pClose \<le> j"
  then have d: "0 < j - i" "j - i < length pClose" using assms(3) by auto
  obtain t where t: "drop i s = pClose @ t" using assms(1) by (auto simp: has_prefix_conv)
  have "drop j s = drop (j - i) (drop i s)" using assms(3) by simp
  then have "drop j s = drop (j - i) pClose @ t" using d t by simp
  then have "hd (drop j s) = pClose ! (j - i)" using d by (simp add: hd_append hd_drop_conv_nth)
  moreover have "hd (drop j s) = CHR ''<''" using assms(2) by (auto simp: has_prefix_conv pClose_def)
  moreover have "pClose ! n \<noteq> CHR ''<''" if "0 < n" "n < length pClose" for n
  proof -
    have "pClose ! n \<in> set (tl pClose)" using that by (cases n) (auto simp: pClose_def nth_tl [symmetric] simp del: list.set intro!: nth_mem)
    then show ?thesis by (auto simp: pClose_def)
  qed
  ultimately show False using d by metis
qed

lemma swallow_at_first:
  "swallow_at F s pos = Some (val0, r) \<Longrightarrow>
     \<exists>a t kvs. s = a @ pClose @ t \<and> markup_tail t kvs \<and> val0 = trim_space a \<and> r = fold (read_param F) kvs [] \<and> pos \<le> length a
      \<and> (\<forall>a1 t1 kvs1. s = a1 @ pClose @ t1 \<and> markup_tail t1 kvs1 \<and> pos \<le> length a1 \<longrightarrow> length a \<le> length a1)"
  "swallow_at F s pos = None \<Longrightarrow> s = a1 @ pClose @ t1 \<Longrightarrow> pos \<le> length a1 \<Longrightarrow> \<not> markup_tail t1 kvs1"
proof (induction F s pos arbitrary: val0 r a1 t1 kvs1 rule: swallow_at.induct)
  case (1 F s pos)
  have at_or_after: "pos + i \<le> length a1 \<and> (length a1 \<noteq> pos + i \<longrightarrow> pos + i + length pClose \<le> length a1)"
    if i: "index_of (drop pos s) pClose = Some i" and s: "s = a1 @ pClose @ t1" "pos \<le> length a1" for i a1 t1
  proof -
    have p: "has_prefix (drop (length a1) s) pClose" by (simp add: s(1))
    have "\<not> length a1 - pos < i"
      using index_of_earliest [OF i, of "length a1 - pos"] p s(2) by auto
    moreover have "has_prefix (drop (pos + i) s) pClose"
      using index_of_Some [OF i] by (simp add: has_prefix_def add.commute)
    ultimately show ?thesis using no_overlap [of "pos + i" s "length a1"] p s(2) by fastforce
  qed
  have none: "\<not> markup_tail t1 kvs1" if "index_of (drop pos s) pClose = None" "s = a1 @ pClose @ t1" "pos \<le> length a1" for a1 t1 kvs1
  proof -
    have "drop pos s = drop pos a1 @ pClose @ t1" using that(2,3) by simp
    then show ?thesis using that(1) index_of_append by metis
  qed
  {
    case 1
    then obtain i where i: "index_of (drop pos s) pClose = Some i"
      by (subst (asm) swallow_at.simps) (auto split: option.splits)
    let ?ci = "pos + i"
    have split: "s = take ?ci s @ pClose @ drop (?ci + length pClose) s" "length (take ?ci s) = ?ci"
    proof -
      have "take (length pClose) (drop ?ci s) = pClose" using index_of_Some [OF i] by (simp add: add.commute)
      then show "s = take ?ci s @ pClose @ drop (?ci + length pClose) s" by (metis add.commute append_take_drop_id drop_drop)
      show "length (take ?ci s) = ?ci" using index_of_Some [OF i] by (auto simp: pClose_def)
    qed
    show ?case
    proof (cases "parseSwallowedTail F (drop (?ci + length pClose) s)")
      case (Some r1)
      from tail_text [OF this] obtain kvs where kvs: "markup_tail (drop (?ci + length pClose) s) kvs" "r1 = fold (read_param F) kvs []" by blast
      have "swallow_at F s pos = Some (trim_space (take ?ci s), r1)"
        using i Some by (subst swallow_at.simps) (simp add: Let_def)
      then have "val0 = trim_space (take ?ci s)" "r = r1" using 1 by simp_all
      with kvs split at_or_after [OF i] show ?thesis
        by (intro exI [of _ "take ?ci s"] exI [of _ "drop (?ci + length pClose) s"] exI [of _ kvs]) auto
    next
      case None
      then have "swallow_at F s (?ci + length pClose) = Some (val0, r)"
        using 1 i by (subst (asm) swallow_at.simps) (simp add: Let_def)
      from "1.IH"(1) [OF i refl None this] obtain a t kvs where
        a: "s = a @ pClose @ t" "markup_tail t kvs" "val0 = trim_space a" "r = fold (read_param F) kvs []" "?ci + length pClose \<le> length a"
        and least: "\<forall>a1 t1 kvs1. s = a1 @ pClose @ t1 \<and> markup_tail t1 kvs1 \<and> ?ci + length pClose \<le> length a1 \<longrightarrow> length a \<le> length a1"
        by blast
      have "length a \<le> length a1" if h: "s = a1 @ pClose @ t1" "markup_tail t1 kvs1" "pos \<le> length a1" for a1 t1 kvs1
      proof (cases "length a1 = ?ci")
        case True
        then have "t1 = drop (?ci + length pClose) s" using h(1) by (metis append_eq_conv_conj drop_drop add.commute)
        with tail_read [OF h(2)] None show ?thesis by simp
      next
        case False
        with at_or_after [OF i h(1,3)] least h show ?thesis by blast
      qed
      with a show ?thesis by (intro exI [of _ a] exI [of _ t] exI [of _ kvs]) auto
    qed
  next
    case 2
    show ?case
    proof (cases "index_of (drop pos s) pClose")
      case None
      with none 2 show ?thesis by blast
    next
      case (Some i)
      let ?ci = "pos + i"
      have "parseSwallowedTail F (drop (?ci + length pClose) s) = None \<and> swallow_at F s (?ci + length pClose) = None"
        using 2(1) Some by (subst (asm) swallow_at.simps) (auto simp: Let_def split: option.splits)
      then have no: "parseSwallowedTail F (drop (?ci + length pClose) s) = None" "swallow_at F s (?ci + length pClose) = None"
        by simp_all
      show ?thesis
      proof (cases "length a1 = ?ci")
        case True
        then have "t1 = drop (?ci + length pClose) s" using 2(2) by (metis append_eq_conv_conj drop_drop add.commute)
        with tail_read no(1) show ?thesis by fastforce
      next
        case False
        with at_or_after [OF Some 2(2,3)] "1.IH"(2) [OF Some refl no(1) no(2) 2(2)] show ?thesis by blast
      qed
    qed
  }
qed

lemma swallow_at_spec:
  "swallow_at F s 0 = Some (val0, r) \<Longrightarrow> \<exists>a kvs. swallowed s a kvs \<and> val0 = trim_space a \<and> r = fold (read_param F) kvs []"
  "swallow_at F s 0 = None \<Longrightarrow> \<not> swallowed s a kvs"
proof -
  assume "swallow_at F s 0 = Some (val0, r)"
  from swallow_at_first(1) [OF this] show "\<exists>a kvs. swallowed s a kvs \<and> val0 = trim_space a \<and> r = fold (read_param F) kvs []"
    unfolding swallowed_def by blast
next
  assume "swallow_at F s 0 = None"
  from swallow_at_first(2) [OF this] show "\<not> swallowed s a kvs" unfolding swallowed_def by blast
qed

lemma swallowed_reads:
  assumes "swallowed s a kvs"
  shows "swallow_at F s 0 = Some (trim_space a, fold (read_param F) kvs [])"
proof (cases "swallow_at F s 0")
  case None
  with swallow_at_spec(2) assms show ?thesis by blast
next
  case (Some p)
  obtain val0 r where p: "p = (val0, r)" by force
  from swallow_at_spec(1) Some p obtain a1 kvs1 where a1: "swallowed s a1 kvs1" "val0 = trim_space a1" "r = fold (read_param F) kvs1 []"
    by blast
  obtain t where t0: "s = a @ pClose @ t" "markup_tail t kvs" using assms unfolding swallowed_def by blast
  obtain t1 where t1: "s = a1 @ pClose @ t1" "markup_tail t1 kvs1" using a1(1) unfolding swallowed_def by blast
  note t = t0 t1
  have "length a = length a1" using assms a1(1) t unfolding swallowed_def by (meson le_antisym)
  then have "a = a1" "t = t1" using t(1,3) by (metis append_eq_append_conv same_append_eq)+
  with tail_read [OF t(2), of F] tail_read [OF t(4), of F] a1 Some p show ?thesis by simp
qed

lemma in_update: "(k, v) \<in> set (AList.update k1 v1 out) \<Longrightarrow> (k, v) \<in> set out \<or> k = k1 \<and> v = v1"
  by (induction out) (auto split: if_splits)

lemma read_params_of: "(k, v) \<in> set (fold (read_param F) kvs out) \<Longrightarrow>
    (k, v) \<in> set out \<or> (\<exists>y. (k, y) \<in> set kvs \<and> v = coerceSalvagedValue F y)"
proof (induction kvs arbitrary: out)
  case (Cons kv kvs)
  obtain n y where kv: "kv = (n, y)" by force
  from Cons.prems have "(k, v) \<in> set (fold (read_param F) kvs (read_param F kv out))" by simp
  from Cons.IH [OF this] show ?case
    using in_update [of k v n "coerceSalvagedValue F y" out] by (auto simp: kv read_param_def)
qed simp

lemma keys_update: "set (keys (AList.update k v out)) = insert k (set (keys out))"
  by (induction out) (auto split: if_splits)

lemma read_params_keys: "set (keys (fold (read_param F) kvs out)) = set (keys out) \<union> set (keys kvs)"
proof (induction kvs arbitrary: out)
  case (Cons kv kvs)
  have "set (keys (read_param F kv out)) = insert (fst kv) (set (keys out))"
    unfolding read_param_def by (rule keys_update)
  with Cons.IH [of "read_param F kv out"] show ?case by simp
qed simp

section \<open>What was sent stays\<close>

lemma restore_params_keep: "map_of args k = Some v \<Longrightarrow> map_of (fold restore_param kvs args) k = Some v"
proof (induction kvs arbitrary: args)
  case (Cons kv kvs)
  have "map_of (restore_param kv args) k = Some v"
    using Cons.prems by (auto simp: restore_param_def map_of_update_eq)
  from Cons.IH [OF this] show ?case by simp
qed simp

lemma restore_params_add:
  "map_of (fold restore_param kvs args) k = Some v \<Longrightarrow> map_of args k = Some v \<or> (k, v) \<in> set kvs"
proof (induction kvs arbitrary: args)
  case (Cons kv kvs)
  from Cons.IH [of "restore_param kv args"] Cons.prems
  show ?case by (cases kv) (auto simp: restore_param_def map_of_update_eq split: if_splits)
qed simp

lemma apply_patch_keeps:
  "map_of args k = Some v \<Longrightarrow> map_of (apply_patch (k1, val0, recovered) args) k = Some (if k = k1 then VStr val0 else v)"
  by (simp add: apply_patch_def restore_params_keep map_of_update_eq)

lemma patches_keep:
  assumes "distinct (map fst ps)" "map_of args k = Some v"
  shows "map_of (fold apply_patch ps args) k =
     Some (case map_of ps k of Some (val0, _) \<Rightarrow> VStr val0 | None \<Rightarrow> v)"
  using assms
proof (induction ps arbitrary: args v)
  case (Cons p ps)
  obtain k1 val0 rec1 where p: "p = (k1, val0, rec1)" by (cases p)
  have "map_of (apply_patch p args) k = Some (if k = k1 then VStr val0 else v)"
    unfolding p by (rule apply_patch_keeps [OF Cons.prems(2)])
  moreover have "k = k1 \<Longrightarrow> map_of ps k = None" using Cons.prems(1) by (simp add: p map_of_eq_None_iff)
  ultimately show ?case using Cons.IH [of "apply_patch p args"] Cons.prems(1)
    by (cases "k = k1") (simp_all add: p)
qed simp

lemma patches_add:
  "map_of (fold apply_patch ps args) k = Some v \<Longrightarrow>
     k \<in> set (keys args) \<or> k \<in> set (map fst ps) \<or> (\<exists>k0 val0 recovered. (k0, val0, recovered) \<in> set ps \<and> (k, v) \<in> set recovered)"
proof (induction ps arbitrary: args)
  case Nil
  then show ?case by (auto dest: map_of_in_keys)
next
  case (Cons p ps)
  obtain k1 val0 rec1 where p: "p = (k1, val0, rec1)" by (cases p)
  show ?case
  proof (cases "k \<in> set (keys (apply_patch p args))")
    case False
    with Cons.IH [of "apply_patch p args"] Cons.prems show ?thesis by simp blast
  next
    case True
    then obtain w where w: "map_of (apply_patch p args) k = Some w" by (metis map_of_neq_None not_None_eq)
    show ?thesis
    proof (cases "k \<in> set (keys args) \<or> k = k1")
      case True
      then show ?thesis using p by auto
    next
      case False
      with w have "(k, w) \<in> set rec1"
        using restore_params_add [of rec1 "AList.update k1 (VStr val0) args" k w]
        by (auto simp: p apply_patch_def map_of_update_eq dest: map_of_in_keys split: if_splits)
      show ?thesis
      proof (cases "k \<in> set (map fst ps)")
        case False
        have "map_of (fold apply_patch ps (apply_patch p args)) k = Some w"
          using w False
        proof (induction ps arbitrary: args p)
          case (Cons q qs)
          obtain k2 v2 r2 where q: "q = (k2, v2, r2)" by (cases q)
          have "map_of (apply_patch q (apply_patch p args)) k = Some w"
            using apply_patch_keeps [OF Cons.prems(1), of k2 v2 r2] Cons.prems(2) q by auto
          with Cons.IH [of q "apply_patch p args"] Cons.prems(2) show ?case by simp
        qed simp
        with Cons.prems have "v = w" by simp
        with \<open>(k, w) \<in> set rec1\<close> p show ?thesis by simp blast
      qed simp
    qed
  qed
qed

lemma salvage_patches_keys:
  "set (map fst (salvage_patches F args)) \<subseteq> set (keys args)"
  "distinct (keys args) \<Longrightarrow> distinct (map fst (salvage_patches F args))"
proof -
  show s: "set (map fst (salvage_patches F args)) \<subseteq> set (keys args)" for args
    by (induction args) (auto simp: salvage_patches_def List.map_filter_simps split: val.splits option.splits)
  show "distinct (keys args) \<Longrightarrow> distinct (map fst (salvage_patches F args))"
  proof (induction args)
    case (Cons kv args)
    then show ?case using s [of args]
      by (cases kv) (auto simp: salvage_patches_def List.map_filter_simps split: val.splits option.splits)
  qed (simp add: salvage_patches_def List.map_filter_simps)
qed

lemma salvage_patch_of:
  "distinct (keys args) \<Longrightarrow>
     map_of (salvage_patches F args) k =
       (case map_of args k of Some (VStr s) \<Rightarrow> swallow_at F s 0 | _ \<Rightarrow> None)"
proof (induction args)
  case (Cons kv args)
  obtain k1 v1 where kv: "kv = (k1, v1)" by force
  have "k1 \<notin> set (map fst (salvage_patches F args))"
    using Cons.prems salvage_patches_keys(1) [of F args] by (auto simp: kv)
  then have none: "map_of (salvage_patches F args) k1 = None" by (simp add: map_of_eq_None_iff)
  have "map_of args k1 = None" using Cons.prems by (simp add: kv map_of_eq_None_iff)
  with none Cons show ?case
    by (auto simp: kv salvage_patches_def List.map_filter_simps split: val.splits option.splits)
qed (simp add: salvage_patches_def List.map_filter_simps)

lemma salvage_sent:
  assumes "distinct (keys args)" "map_of args k = Some u"
  shows "(\<exists>s a kvs. u = VStr s \<and> swallowed s a kvs \<and> map_of (salvageSwallowedParams F args) k = Some (VStr (trim_space a)))
     \<or> (\<forall>s a kvs. u = VStr s \<longrightarrow> \<not> swallowed s a kvs) \<and> map_of (salvageSwallowedParams F args) k = Some u"
proof -
  have kept: "map_of (salvageSwallowedParams F args) k =
      Some (case map_of (salvage_patches F args) k of Some (val0, recovered) \<Rightarrow> VStr val0 | None \<Rightarrow> u)"
    using patches_keep [OF salvage_patches_keys(2) [OF assms(1)] assms(2), of F] by (simp add: salvageSwallowedParams_def)
  show ?thesis
  proof (cases "\<exists>s a kvs. u = VStr s \<and> swallowed s a kvs")
    case True
    then obtain s a kvs where s: "u = VStr s" "swallowed s a kvs" by blast
    then have "map_of (salvage_patches F args) k = Some (trim_space a, fold (read_param F) kvs [])"
      using swallowed_reads [OF s(2), of F] by (simp add: salvage_patch_of [OF assms(1)] assms(2))
    with s kept show ?thesis by auto
  next
    case False
    have "swallow_at F s 0 = None" if "u = VStr s" for s
    proof (rule ccontr)
      assume "swallow_at F s 0 \<noteq> None"
      then obtain val0 r where "swallow_at F s 0 = Some (val0, r)" by auto
      from swallow_at_spec(1) [OF this] False \<open>u = VStr s\<close> show False by blast
    qed
    then have "map_of (salvage_patches F args) k = None"
      by (simp add: salvage_patch_of [OF assms(1)] assms(2) split: val.splits)
    then show ?thesis using kept False by simp
  qed
qed

lemma salvage_adds:
  assumes "distinct (keys args)" "map_of args k = None" "map_of (salvageSwallowedParams F args) k = Some v"
  shows "\<exists>k0 s a kvs y. map_of args k0 = Some (VStr s) \<and> swallowed s a kvs \<and> (k, y) \<in> set kvs \<and> v = coerceSalvagedValue F y"
proof -
  have no: "k \<notin> set (keys args)" using assms(2) by (simp add: map_of_eq_None_iff)
  then have "k \<notin> set (map fst (salvage_patches F args))" using salvage_patches_keys(1) by blast
  with no patches_add [of "salvage_patches F args" args k v] assms(3)
  obtain k0 val0 recovered where r: "(k0, val0, recovered) \<in> set (salvage_patches F args)" "(k, v) \<in> set recovered"
    unfolding salvageSwallowedParams_def by blast
  from map_of_is_SomeI [OF salvage_patches_keys(2) [OF assms(1)] r(1)] salvage_patch_of [OF assms(1), of F k0]
  obtain s where s: "map_of args k0 = Some (VStr s)" "swallow_at F s 0 = Some (val0, recovered)"
    by (auto split: option.splits val.splits)
  from swallow_at_spec(1) [OF s(2)] obtain a kvs where a: "swallowed s a kvs" "recovered = fold (read_param F) kvs []" by blast
  from r(2) read_params_of [of k v F kvs "[]"] obtain y where "(k, y) \<in> set kvs" "v = coerceSalvagedValue F y"
    unfolding a(2) by auto
  with s(1) a(1) show ?thesis by blast
qed

lemma patches_present:
  assumes "(k0, val0, recovered) \<in> set ps" "k \<in> set (keys recovered)"
  shows "map_of (fold apply_patch ps args) k \<noteq> None"
proof -
  have restored: "map_of (fold restore_param kvs args) k \<noteq> None" if "map_of args k \<noteq> None \<or> k \<in> set (keys kvs)" for kvs args
    using that
  proof (induction kvs arbitrary: args)
    case (Cons kv kvs)
    have "map_of (restore_param kv args) k \<noteq> None \<or> k \<in> set (keys kvs)"
      using Cons.prems by (auto simp: restore_param_def map_of_update_eq)
    from Cons.IH [OF this] show ?case by simp
  qed simp
  have kept: "map_of (apply_patch p args) k \<noteq> None" if "map_of args k \<noteq> None" for p args
    using that restored by (cases p) (auto simp: apply_patch_def map_of_update_eq)
  have "map_of (fold apply_patch qs args) k \<noteq> None" if "map_of args k \<noteq> None" for qs args
    using that kept by (induction qs arbitrary: args) auto
  moreover have "map_of (apply_patch (k0, val0, recovered) args) k \<noteq> None" for args
    using restored [of "AList.update k0 (VStr val0) args" recovered] assms(2) by (simp add: apply_patch_def)
  ultimately show ?thesis using assms(1) by (induction ps arbitrary: args) auto
qed

lemma salvage_present:
  assumes "distinct (keys args)" "map_of args k0 = Some (VStr s)" "swallowed s a kvs" "k \<in> set (keys kvs)"
  shows "map_of (salvageSwallowedParams F args) k \<noteq> None"
proof -
  have "map_of (salvage_patches F args) k0 = Some (trim_space a, fold (read_param F) kvs [])"
    using salvage_patch_of [OF assms(1), of F k0] assms(2) swallowed_reads [OF assms(3), of F] by simp
  from map_of_SomeD [OF this] have "(k0, trim_space a, fold (read_param F) kvs []) \<in> set (salvage_patches F args)" .
  moreover have "k \<in> set (keys (fold (read_param F) kvs []))" using assms(4) unfolding read_params_keys by blast
  ultimately show ?thesis unfolding salvageSwallowedParams_def by (rule patches_present)
qed

text \<open>C35: Repairing a call loses no argument and overwrites none. Every argument the provider parsed is still
  there with what it says: itself, or, of an object, what its field \<open>value\<close> holds, or what stands beside its
  \<open>type\<close> when it has just the two fields, whether or not they are a schema's (see
  \<open>a_small_object_is_taken_for_an_echo\<close>). A text with a close tag followed by parameter markup alone is cut
  before the first such tag, and no other is; every name its markup gives a value is there after, and every
  argument that was not there before was given its value, read as JSON where it is written so, by one of these
  markups.
\<close>

theorem parsed_arguments_keep_what_was_sent:
  assumes "distinct (keys raw)"
  shows "(\<forall>k v. map_of raw k = Some v \<longrightarrow> (\<exists>u. says v u
        \<and> ((\<exists>s a kvs. u = VStr s \<and> swallowed s a kvs \<and> map_of (parseToolArgs F raw) k = Some (VStr (trim_space a)))
           \<or> (\<forall>s a kvs. u = VStr s \<longrightarrow> \<not> swallowed s a kvs) \<and> map_of (parseToolArgs F raw) k = Some u)))
     \<and> (\<forall>k v. map_of raw k = None \<longrightarrow> map_of (parseToolArgs F raw) k = Some v \<longrightarrow>
          (\<exists>k0 v0 s a kvs y. map_of raw k0 = Some v0 \<and> says v0 (VStr s) \<and> swallowed s a kvs
             \<and> (k, y) \<in> set kvs \<and> v = coerceSalvagedValue F y))
     \<and> (\<forall>k0 v0 s a kvs k. map_of raw k0 = Some v0 \<longrightarrow> says v0 (VStr s) \<longrightarrow> swallowed s a kvs \<longrightarrow>
          k \<in> set (keys kvs) \<longrightarrow> map_of (parseToolArgs F raw) k \<noteq> None)"
proof (intro conjI allI impI)
  let ?args = "map (\<lambda>(k, v). (k, cleanArg v)) raw"
  have d: "distinct (keys ?args)" using assms by (simp add: comp_def case_prod_unfold)
  have m: "map_of ?args k = map_option cleanArg (map_of raw k)" for k by (simp add: map_of_map)
  have p: "parseToolArgs F raw = salvageSwallowedParams F ?args" by (simp add: parseToolArgs_def)
  {
    fix k v assume "map_of raw k = Some v"
    then have c: "map_of ?args k = Some (cleanArg v)" by (simp add: m)
    show "\<exists>u. says v u
        \<and> ((\<exists>s a kvs. u = VStr s \<and> swallowed s a kvs \<and> map_of (parseToolArgs F raw) k = Some (VStr (trim_space a)))
           \<or> (\<forall>s a kvs. u = VStr s \<longrightarrow> \<not> swallowed s a kvs) \<and> map_of (parseToolArgs F raw) k = Some u)"
      unfolding p using cleanArg_says salvage_sent [OF d c] by (intro exI [of _ "cleanArg v"]) blast
  next
    fix k v assume "map_of raw k = None" "map_of (parseToolArgs F raw) k = Some v"
    then have "map_of ?args k = None" "map_of (salvageSwallowedParams F ?args) k = Some v" by (simp_all add: m p)
    from salvage_adds [OF d this] obtain k0 s a kvs y where
      y: "map_of ?args k0 = Some (VStr s)" "swallowed s a kvs" "(k, y) \<in> set kvs" "v = coerceSalvagedValue F y"
      by blast
    then obtain v0 where "map_of raw k0 = Some v0" "cleanArg v0 = VStr s" unfolding m by (auto simp only: map_option_eq_Some)
    then have "map_of raw k0 = Some v0" "says v0 (VStr s)" using cleanArg_says [of v0] by simp_all
    with y show "\<exists>k0 v0 s a kvs y. map_of raw k0 = Some v0 \<and> says v0 (VStr s) \<and> swallowed s a kvs
        \<and> (k, y) \<in> set kvs \<and> v = coerceSalvagedValue F y"
      by blast
  next
    fix k0 v0 s a kvs k
    assume h: "map_of raw k0 = Some v0" "says v0 (VStr s)" "swallowed s a kvs" "k \<in> set (keys kvs)"
    then have "cleanArg v0 = VStr s" using cleanArg_says says_unique by blast
    with h salvage_present [OF d, of k0 s a kvs k F] show "map_of (parseToolArgs F raw) k \<noteq> None" unfolding p by (simp add: m)
  }
qed

definition bare_args :: arglib where
  "bare_args = \<lparr>json_marshal = \<lambda>_. None, json_indent = \<lambda>_. None, json_object = \<lambda>_. None, json_array = \<lambda>_. None,
     fmt_sprint = \<lambda>_. [], format_float = \<lambda>_. [], parse_float = \<lambda>_. None, quote = \<lambda>s. s,
     json_value = \<lambda>_. None, sprint_g = \<lambda>_. [], big_whole = \<lambda>_. None, big_int = \<lambda>_. 0\<rparr>"

theorem parsed_arguments_keep_what_was_sent_witness:
  "map_of (parseToolArgs bare_args [(''n'', VObj [(''value'', VNum (Fin 3))]), (''q'', VStr ''Good?'')]) ''n'' = Some (VNum (Fin 3))"
proof -
  let ?raw = "[(''n'', VObj [(''value'', VNum (Fin 3))]), (''q'', VStr ''Good?'')]"
  have d: "distinct (keys ?raw)" by simp
  have m: "map_of ?raw ''n'' = Some (VObj [(''value'', VNum (Fin 3))])" by simp
  from parsed_arguments_keep_what_was_sent [OF d, of bare_args, THEN conjunct1, rule_format, OF m]
  obtain u where u: "says (VObj [(''value'', VNum (Fin 3))]) u" and
    r: "(\<exists>s a kvs. u = VStr s \<and> swallowed s a kvs \<and> map_of (parseToolArgs bare_args ?raw) ''n'' = Some (VStr (trim_space a)))
      \<or> (\<forall>s a kvs. u = VStr s \<longrightarrow> \<not> swallowed s a kvs) \<and> map_of (parseToolArgs bare_args ?raw) ''n'' = Some u"
    by (elim exE conjE)
  have "says (VObj [(''value'', VNum (Fin 3))]) (VNum (Fin 3))" by (rule by_value) simp
  then have e: "u = VNum (Fin 3)" by (rule says_unique [OF u])
  from r show ?thesis unfolding e by (elim disjE exE conjE) (simp_all only: val.simps)
qed

section \<open>A swallowed parameter comes back\<close>

text \<open>
  What a reply spells when its parameters are written one under the other: closed ones, white space before each,
  perhaps a last one that is cut off, and perhaps the closers of the call.
\<close>

definition blank :: "string \<Rightarrow> bool" where
  "blank s \<longleftrightarrow> (\<forall>c \<in> set s. [c] \<in> set ascii_spaces)"

definition plain_name :: "string \<Rightarrow> bool" where
  "plain_name k \<longleftrightarrow> trimmed k \<and> \<not> bad_name k \<and> CHR ''>'' \<notin> set k"

definition closed_params :: "(string \<times> string \<times> string) list \<Rightarrow> string" where
  "closed_params ps = concat (map (\<lambda>(gap, k, v). gap @ pPrefix @ k @ ''>'' @ v @ pClose) ps)"

definition last_param :: "(string \<times> string \<times> string) option \<Rightarrow> string" where
  "last_param l = (case l of None \<Rightarrow> [] | Some (gap, k, v) \<Rightarrow> gap @ pPrefix @ k @ ''>'' @ v)"

definition written :: "(string \<times> string \<times> string) list \<Rightarrow> (string \<times> string \<times> string) option \<Rightarrow> (string \<times> string) list" where
  "written ps l = map (\<lambda>(_, k, v). (k, v)) (ps @ (case l of None \<Rightarrow> [] | Some p \<Rightarrow> [p]))"

definition closing :: "string \<Rightarrow> bool" where
  "closing cl \<longleftrightarrow> (\<exists>b f b1 t b2. cl = b @ f @ b1 @ t @ b2 \<and> blank b \<and> blank b1 \<and> blank b2
     \<and> f \<in> {[], ''</function>''} \<and> t \<in> {[], ''</tool_call>''})"

definition a_param :: "string \<times> string \<times> string \<Rightarrow> bool" where
  "a_param = (\<lambda>(gap, k, v). blank gap \<and> plain_name k \<and> \<not> contains v pClose)"

definition cut_off :: "string \<times> string \<times> string \<Rightarrow> bool" where
  "cut_off = (\<lambda>(gap, k, v). a_param (gap, k, v)
     \<and> \<not> has_suffix (trim_space v) ''</tool_call>'' \<and> \<not> has_suffix (trim_space v) ''</function>'')"

subsection \<open>Trimming around markup\<close>

lemma strip_one:
  assumes "[c] \<in> set rs" "\<forall>r \<in> set rs. r \<noteq> [] \<longrightarrow> hd r = c \<longrightarrow> r = [c]"
  shows "strip rs (c # u) = strip rs u"
proof -
  have "find (\<lambda>r. r \<noteq> [] \<and> has_prefix (c # u) r) rs \<noteq> None"
    using assms(1) by (auto simp: find_None_iff has_prefix_def)
  then obtain r where f: "find (\<lambda>r. r \<noteq> [] \<and> has_prefix (c # u) r) rs = Some r" by blast
  then have "r \<in> set rs" "r \<noteq> []" "has_prefix (c # u) r" by (auto simp: find_Some_iff)
  then have "hd r = c" by (auto simp: has_prefix_conv Cons_eq_append_conv)
  with \<open>r \<in> set rs\<close> \<open>r \<noteq> []\<close> have "r = [c]" using assms(2) by blast
  with f show ?thesis by (subst strip.simps) simp
qed

lemma blank_runes:
  assumes "[c] \<in> set ascii_spaces"
  shows "[c] \<in> set space_runes" "\<forall>r \<in> set space_runes. r \<noteq> [] \<longrightarrow> hd r = c \<longrightarrow> r = [c]"
    "[c] \<in> set (map rev space_runes)" "\<forall>r \<in> set (map rev space_runes). r \<noteq> [] \<longrightarrow> hd r = c \<longrightarrow> r = [c]"
proof -
  have "list_all (\<lambda>s. list_all (\<lambda>r. r \<noteq> [] \<longrightarrow> hd r = hd s \<longrightarrow> r = s) space_runes
      \<and> list_all (\<lambda>r. r \<noteq> [] \<longrightarrow> hd r = hd s \<longrightarrow> r = s) (map rev space_runes)) ascii_spaces" by code_simp
  then have "(\<forall>r \<in> set space_runes. r \<noteq> [] \<longrightarrow> hd r = c \<longrightarrow> r = [c])
      \<and> (\<forall>r \<in> set (map rev space_runes). r \<noteq> [] \<longrightarrow> hd r = c \<longrightarrow> r = [c])"
    unfolding list_all_iff using assms by (metis list.sel(1))
  then show "\<forall>r \<in> set space_runes. r \<noteq> [] \<longrightarrow> hd r = c \<longrightarrow> r = [c]"
    "\<forall>r \<in> set (map rev space_runes). r \<noteq> [] \<longrightarrow> hd r = c \<longrightarrow> r = [c]" by blast+
  show s: "[c] \<in> set space_runes" using assms by (auto simp: space_runes_def)
  then show "[c] \<in> set (map rev space_runes)" by force
qed

lemma strip_blank:
  assumes "blank b"
  shows "strip space_runes (b @ s) = strip space_runes s" "strip (map rev space_runes) (b @ s) = strip (map rev space_runes) s"
  using assms
proof (induction b)
  case (Cons c b)
  {
    case 1
    then show ?case using Cons.IH(1) strip_one [OF blank_runes(1,2), of c "b @ s"] by (simp add: blank_def)
  next
    case 2
    then show ?case using Cons.IH(2) strip_one [OF blank_runes(3,4), of c "b @ s"] by (simp add: blank_def del: set_map)
  }
qed simp_all

text \<open>A character that is in no space stops the trimming.\<close>

lemma prefix_stops: "c \<notin> set r \<Longrightarrow> has_prefix (s @ c # w) r \<longleftrightarrow> has_prefix s r"
proof (induction s arbitrary: r)
  case Nil
  then show ?case by (cases r) (auto simp: has_prefix_def)
next
  case (Cons x s)
  then show ?case by (cases r) (auto simp: has_prefix_def)
qed

lemma strip_stops: "\<forall>r \<in> set rs. c \<notin> set r \<Longrightarrow> strip rs (s @ c # w) = strip rs s @ c # w"
proof (induction rs s rule: strip.induct)
  case (1 rs s)
  have same: "find (\<lambda>r. r \<noteq> [] \<and> has_prefix (s @ c # w) r) rs = find (\<lambda>r. r \<noteq> [] \<and> has_prefix s r) rs"
    using 1(2) prefix_stops by (intro find_cong) auto
  show ?case
  proof (cases "find (\<lambda>r. r \<noteq> [] \<and> has_prefix s r) rs")
    case None
    then show ?thesis by (simp add: same strip.simps [of rs "s @ c # w"] strip.simps [of rs s])
  next
    case (Some r)
    then have "has_prefix s r" by (auto simp: find_Some_iff)
    then have "length r \<le> length s" by (auto simp: has_prefix_conv)
    with 1 Some show ?thesis by (simp add: same strip.simps [of rs "s @ c # w"] strip.simps [of rs s])
  qed
qed

lemma angle_runes: "\<forall>r \<in> set space_runes. CHR ''<'' \<notin> set r" "\<forall>r \<in> set (map rev space_runes). CHR ''>'' \<notin> set r"
  by (auto simp: space_runes_def ascii_spaces_def)

definition rtrim :: "string \<Rightarrow> string" where
  "rtrim s = trim_right space_runes s"

lemma rtrim_stop: "rtrim (s @ CHR ''>'' # v) = s @ CHR ''>'' # rtrim v"
  unfolding rtrim_def trim_right_def using strip_stops [OF angle_runes(2), of "rev v" "rev s"] by simp

lemma rtrim_blank: "blank b \<Longrightarrow> rtrim (s @ b) = rtrim s"
  unfolding rtrim_def trim_right_def using strip_blank(2) [of "rev b" "rev s"] by (simp add: blank_def)

lemma rtrim_Nil [simp]: "rtrim [] = []"
  by (simp add: rtrim_def trim_right_def) (subst strip.simps, simp add: has_prefix_def find_None_iff space_runes_def ascii_spaces_def)

text \<open>No space starts inside another, so one at the end of a text is trimmed whole.\<close>

lemma spaces_apart: "r \<in> set space_runes \<Longrightarrow> w \<in> set space_runes \<Longrightarrow> w \<noteq> [] \<and> hd w \<notin> set (tl r)"
proof -
  have "list_all (\<lambda>r. list_all (\<lambda>w. w \<noteq> [] \<and> hd w \<notin> set (tl r)) space_runes) space_runes" by code_simp
  then show "r \<in> set space_runes \<Longrightarrow> w \<in> set space_runes \<Longrightarrow> w \<noteq> [] \<and> hd w \<notin> set (tl r)" by (simp add: list_all_iff)
qed

lemma no_space_across:
  assumes "r \<in> set space_runes" "w \<in> set space_runes" "s \<noteq> []" "r = s @ w1" "w = w1 @ w2"
  shows "w1 = []"
proof (rule ccontr)
  assume "w1 \<noteq> []"
  then have "hd w1 \<in> set (tl r)" using assms(3,4) by (cases s) auto
  moreover have "hd w1 = hd w" using assms(5) \<open>w1 \<noteq> []\<close> by simp
  ultimately show False using spaces_apart [OF assms(1,2)] by simp
qed

lemma prefix_apart:
  assumes "r \<in> set space_runes" "w \<in> set space_runes" "s \<noteq> []"
  shows "has_prefix (s @ w) r \<longleftrightarrow> has_prefix s r"
proof
  assume "has_prefix (s @ w) r"
  then obtain t where t: "s @ w = r @ t" by (auto simp: has_prefix_conv)
  then obtain us where "s = r @ us \<and> us @ w = t \<or> s @ us = r \<and> w = us @ t"
    using append_eq_append_conv2 [THEN iffD1, OF t] by blast
  then consider "s = r @ us" | "r = s @ us" "w = us @ t" by metis
  then show "has_prefix s r"
  proof cases
    case 1
    then show ?thesis by simp
  next
    case 2
    then have "us = []" using no_space_across [OF assms 2] by simp
    with 2 show ?thesis by (simp add: has_prefix_def)
  qed
next
  assume "has_prefix s r"
  then show "has_prefix (s @ w) r" by (auto simp: has_prefix_conv)
qed

lemma strip_Nil: "strip rs [] = []"
  by (rule strip_id) (auto simp: starts_in_def has_prefix_def)

lemma strip_rune: "w \<in> set space_runes \<Longrightarrow> strip space_runes w = []"
proof -
  have "list_all (\<lambda>w. strip space_runes w = []) space_runes" by code_simp
  then show "w \<in> set space_runes \<Longrightarrow> strip space_runes w = []" by (simp add: list_all_iff)
qed

lemma strip_snoc_space:
  assumes "w \<in> set space_runes"
  shows "strip space_runes (s @ w) = (if strip space_runes s = [] then [] else strip space_runes s @ w)"
proof (induction "length s" arbitrary: s rule: less_induct)
  case less
  show ?case
  proof (cases "s = []")
    case True
    then show ?thesis using strip_rune [OF assms] by (simp add: strip_Nil)
  next
    case False
    have same: "find (\<lambda>r. r \<noteq> [] \<and> has_prefix (s @ w) r) space_runes = find (\<lambda>r. r \<noteq> [] \<and> has_prefix s r) space_runes"
      using prefix_apart [OF _ assms False] by (intro find_cong) auto
    show ?thesis
    proof (cases "find (\<lambda>r. r \<noteq> [] \<and> has_prefix s r) space_runes")
      case None
      then show ?thesis using False by (simp add: same strip.simps [of space_runes "s @ w"] strip.simps [of space_runes s])
    next
      case (Some r)
      then have r: "r \<noteq> []" "length r \<le> length s" by (auto simp: find_Some_iff has_prefix_conv)
      then have "length (drop (length r) s) < length s" by (cases r) auto
      from less [OF this] Some r show ?thesis
        by (simp add: same strip.simps [of space_runes "s @ w"] strip.simps [of space_runes s])
    qed
  qed
qed

lemma rtrim_snoc_space:
  assumes "w \<in> set space_runes"
  shows "rtrim (s @ w) = rtrim s"
proof -
  let ?rs = "map rev space_runes" and ?u = "rev w @ rev s"
  have "w \<noteq> []" using spaces_apart [OF assms assms] by simp
  then have "find (\<lambda>r. r \<noteq> [] \<and> has_prefix ?u r) ?rs \<noteq> None" using assms by (auto simp: find_None_iff)
  then obtain q where f: "find (\<lambda>r. r \<noteq> [] \<and> has_prefix ?u r) ?rs = Some q" by blast
  then have "q \<in> set ?rs" "has_prefix ?u q" by (auto simp: find_Some_iff)
  then obtain r t where r: "r \<in> set space_runes" "q = rev r" "rev w @ rev s = rev r @ t" by (auto simp: has_prefix_conv)
  then have e: "s @ w = rev t @ r" by (metis rev_append rev_rev_ident)
  obtain us where us: "s = rev t @ us \<and> us @ w = r \<or> s @ us = rev t \<and> w = us @ r"
    using append_eq_append_conv2 [THEN iffD1, OF e] by blast
  have "r \<noteq> []" using spaces_apart [OF r(1) r(1)] by simp
  have "us = []"
  proof (rule ccontr)
    assume "us \<noteq> []"
    then show False
      using us no_space_across [OF r(1) assms, of us w "[]"] no_space_across [OF assms r(1), of us r "[]"] \<open>w \<noteq> []\<close> \<open>r \<noteq> []\<close> by auto
  qed
  with us have "r = w" by auto
  with f r have "strip ?rs ?u = strip ?rs (rev s)" by (subst strip.simps) simp
  then show ?thesis by (simp add: rtrim_def trim_right_def)
qed

lemma trim_split: "trim_space s = rtrim (strip space_runes s)"
  by (simp add: trim_space_def trim_runes_def trim_left_def rtrim_def)

lemma trim_snoc_space: "w \<in> set space_runes \<Longrightarrow> trim_space (s @ w) = trim_space s"
  by (simp add: trim_split strip_snoc_space rtrim_snoc_space)

lemma trim_rtrim: "trim_space (rtrim s) = trim_space s"
proof -
  have "trim_space (rev (strip (map rev space_runes) u)) = trim_space (rev u)" for u
  proof (induction "length u" arbitrary: u rule: less_induct)
    case less
    show ?case
    proof (cases "find (\<lambda>r. r \<noteq> [] \<and> has_prefix u r) (map rev space_runes)")
      case None
      then show ?thesis by (subst strip.simps) simp
    next
      case (Some q)
      then have "q \<in> set (map rev space_runes)" "has_prefix u q" by (auto simp: find_Some_iff)
      then obtain w t where w: "w \<in> set space_runes" "q = rev w" "u = rev w @ t" by (auto simp: has_prefix_conv)
      then have "length t < length u" using spaces_apart [OF w(1) w(1)] by (cases w) auto
      from less [OF this] have "trim_space (rev (strip (map rev space_runes) t)) = trim_space (rev t)" .
      moreover have "trim_space (rev u) = trim_space (rev t)" using trim_snoc_space [OF w(1), of "rev t"] w(3) by simp
      ultimately show ?thesis using Some w by (subst strip.simps) simp
    qed
  qed
  from this [of "rev s"] show ?thesis by (simp add: rtrim_def trim_right_def)
qed

lemma trim_right_blank: "blank b \<Longrightarrow> trim_space (s @ b) = trim_space s"
proof (induction b arbitrary: s)
  case (Cons c b)
  then have "[c] \<in> set space_runes" "blank b" by (auto simp: blank_def space_runes_def)
  with Cons.IH [of "s @ [c]"] trim_snoc_space [of "[c]" s] show ?case by simp
qed simp

lemma trim_strip: "trim_space (strip space_runes s) = trim_space s"
  by (simp add: trim_split)

lemma rtrim_only_blank: "blank b \<Longrightarrow> rtrim b = []"
  using rtrim_blank [of b "[]"] by simp

lemma trim_around: "trim_space (u @ CHR ''<'' # y @ CHR ''>'' # v) = strip space_runes u @ CHR ''<'' # y @ CHR ''>'' # rtrim v"
  using strip_stops [OF angle_runes(1), of u "y @ CHR ''>'' # v"] rtrim_stop [of "strip space_runes u @ CHR ''<'' # y" v]
  by (simp add: trim_split)

subsection \<open>The tail of a call is read\<close>

lemma has_suffix_conv: "has_suffix s p \<longleftrightarrow> (\<exists>u. s = u @ p)"
  unfolding has_suffix_def has_prefix_conv by (metis rev_append rev_rev_ident)

lemma trim_suffix_append: "trim_suffix (u @ p) p = u"
  by (auto simp: trim_suffix_def has_suffix_conv)

lemma trim_suffix_none: "\<not> has_suffix s p \<Longrightarrow> trim_suffix s p = s"
  by (simp add: trim_suffix_def)

lemma a_param_parts: "a_param (gap, k, v) \<Longrightarrow> blank gap \<and> trim_space k = k \<and> \<not> bad_name k \<and> CHR ''>'' \<notin> set k \<and> \<not> contains v pClose"
  by (auto simp: a_param_def plain_name_def trimmed_def)

lemma contains_rtrim: "contains (rtrim v) p \<Longrightarrow> contains v p"
proof -
  obtain z where "v = rtrim v @ z" using trim_right_prefix [of v space_runes] by (auto simp: rtrim_def)
  then show "contains (rtrim v) p \<Longrightarrow> contains v p" unfolding contains_conv by (metis append.assoc)
qed

lemma last_written:
  assumes "a_param (gap, k, v)"
  shows "params_text (trim_space (gap @ pPrefix @ k @ ''>'' @ v)) [(k, trim_space v)]"
proof -
  note a = a_param_parts [OF assms]
  have "trim_space (gap @ pPrefix @ k @ ''>'' @ v) = pPrefix @ k @ ''>'' @ rtrim v"
    using trim_around [of gap "''parameter='' @ k" v] strip_blank(1) [of gap "[]"] a by (simp add: pPrefix_def strip_Nil)
  moreover have "\<not> contains (rtrim v) pClose" using a contains_rtrim by blast
  ultimately show ?thesis using unclosed [of k "rtrim v"] a by (simp add: trim_rtrim)
qed

lemma next_written:
  assumes "a_param (gap, k, v)" "params_text (trim_space rest) kvs"
  shows "params_text (trim_space (gap @ pPrefix @ k @ ''>'' @ v @ pClose @ rest)) ((k, trim_space v) # kvs)"
proof -
  note a = a_param_parts [OF assms(1)]
  have "trim_space (gap @ pPrefix @ k @ ''>'' @ v @ pClose @ rest) = pPrefix @ k @ ''>'' @ v @ pClose @ rtrim rest"
    using trim_around [of gap "''parameter='' @ k @ ''>'' @ v @ ''</parameter''" rest] strip_blank(1) [of gap "[]"] a
    by (simp add: pPrefix_def pClose_def strip_Nil)
  then show ?thesis using closed [of k v "rtrim rest" kvs] a assms(2) by (simp add: trim_rtrim)
qed

lemma params_written:
  assumes "\<forall>p \<in> set ps. a_param p" "case l of None \<Rightarrow> True | Some p \<Rightarrow> a_param p"
  shows "params_text (trim_space (closed_params ps @ last_param l)) (map (\<lambda>(k, v). (k, trim_space v)) (written ps l))"
  using assms(1)
proof (induction ps)
  case Nil
  then show ?case using assms(2) last_written
    by (auto simp: closed_params_def last_param_def written_def no_more split: option.splits)
next
  case (Cons p ps)
  obtain gap k v where p: "p = (gap, k, v)" by (cases p)
  from next_written [of gap k v, OF _ Cons.IH] Cons.prems show ?case
    by (simp add: p closed_params_def written_def)
qed

text \<open>Such a tail does not end in a closer itself.\<close>

lemma no_closer_across:
  assumes "CHR ''<'' \<notin> set k" "CHR ''<'' \<notin> set n" "CHR ''>'' \<notin> set n" "\<not> has_suffix w (''</'' @ n @ ''>'')"
  shows "\<not> has_suffix (A @ ''<parameter='' @ k @ ''>'' @ w) (''</'' @ n @ ''>'')"
proof
  assume "has_suffix (A @ ''<parameter='' @ k @ ''>'' @ w) (''</'' @ n @ ''>'')"
  then obtain B where B: "((A @ ''<parameter='' @ k) @ ''>'') @ w = B @ (''</'' @ n @ ''>'')" by (auto simp: has_suffix_conv)
  define front where "front = A @ ''<parameter='' @ k"
  obtain us where "front @ ''>'' = B @ us \<and> us @ w = ''</'' @ n @ ''>'' \<or> (front @ ''>'') @ us = B \<and> w = us @ ''</'' @ n @ ''>''"
    using append_eq_append_conv2 [THEN iffD1, OF B] unfolding front_def by blast
  then consider "w = us @ ''</'' @ n @ ''>''" | "front @ ''>'' = B @ us" "us @ w = (''</'' @ n) @ ''>''" by fastforce
  then show False
  proof cases
    case 1
    with assms(4) show ?thesis unfolding has_suffix_conv by blast
  next
    case 2
    show ?thesis
    proof (cases us rule: rev_cases)
      case Nil
      with 2(2) have "w = ''</'' @ n @ ''>''" by simp
      with assms(4) show ?thesis unfolding has_suffix_conv by (metis append_Nil)
    next
      case (snoc vs c)
      have vc: "front = B @ vs" "c = CHR ''>''" using 2(1) unfolding snoc append_assoc [symmetric] by simp_all
      have "w = []"
      proof (cases w rule: rev_cases)
        case (snoc ws d)
        then have "us @ ws = ''</'' @ n" using 2(2) unfolding snoc append_assoc [symmetric] by simp
        moreover have "CHR ''>'' \<in> set us" using \<open>us = vs @ [c]\<close> vc(2) by simp
        ultimately have "CHR ''>'' \<in> set (''</'' @ n)" by (metis Un_iff set_append)
        with assms(3) show ?thesis by simp
      qed simp
      with 2(2) have "vs = ''</'' @ n" unfolding snoc by simp
      with vc(1) have "A @ ''<parameter='' @ k = B @ ''</'' @ n" by (simp add: front_def)
      then have "takeWhile (\<lambda>c. c \<noteq> CHR ''<'') (rev (A @ ''<parameter='' @ k)) =
          takeWhile (\<lambda>c. c \<noteq> CHR ''<'') (rev (B @ ''</'' @ n))" by simp
      moreover have "\<forall>x\<in>set k. x \<noteq> CHR ''<''" "\<forall>x\<in>set n. x \<noteq> CHR ''<''" using assms(1,2) by auto
      ultimately have "rev k @ ''=retemarap'' = rev n @ ''/''" by (simp add: takeWhile_append)
      from arg_cong [OF this, of last] show ?thesis by simp
    qed
  qed
qed

lemma no_closer:
  assumes "case l of None \<Rightarrow> True | Some p \<Rightarrow> cut_off p" "n \<in> {''tool_call'', ''function''}"
  shows "\<not> has_suffix (trim_space (closed_params ps @ last_param l)) (''</'' @ n @ ''>'')"
proof (cases l)
  case None
  show ?thesis
  proof (cases ps rule: rev_cases)
    case Nil
    with None show ?thesis by (simp add: closed_params_def last_param_def has_suffix_conv)
  next
    case (snoc qs p)
    obtain gap k v where p: "p = (gap, k, v)" by (cases p)
    have "trim_space (closed_params ps @ last_param l) = strip space_runes (closed_params qs @ gap @ pPrefix @ k @ ''>'' @ v) @ pClose"
      using trim_around [of "closed_params qs @ gap @ pPrefix @ k @ ''>'' @ v" "''/parameter''" "[]"]
      by (simp add: snoc p None closed_params_def last_param_def pClose_def)
    then show ?thesis using assms(2) by (auto simp: has_suffix_def has_prefix_def pClose_def)
  qed
next
  case (Some p)
  obtain gap k v where p: "p = (gap, k, v)" by (cases p)
  have c: "plain_name k" "\<not> has_suffix (trim_space v) (''</'' @ n @ ''>'')"
    using assms by (auto simp: Some p cut_off_def a_param_def)
  have "\<not> has_suffix (rtrim v) (''</'' @ n @ ''>'')"
  proof
    assume "has_suffix (rtrim v) (''</'' @ n @ ''>'')"
    then obtain u where "rtrim v = u @ ''</'' @ n @ ''>''" by (auto simp: has_suffix_conv)
    then have "trim_space (rtrim v) = strip space_runes u @ ''</'' @ n @ ''>''"
      using trim_around [of u "''/'' @ n" "[]"] by simp
    with c(2) show False unfolding trim_rtrim has_suffix_conv by blast
  qed
  moreover have "trim_space (closed_params ps @ last_param l) =
      strip space_runes (closed_params ps @ gap) @ ''<parameter='' @ k @ ''>'' @ rtrim v"
    using trim_around [of "closed_params ps @ gap" "''parameter='' @ k" v] by (simp add: Some p last_param_def pPrefix_def)
  moreover have "CHR ''<'' \<notin> set k" using c(1) by (auto simp: plain_name_def bad_name_def)
  ultimately show ?thesis using no_closer_across [of k n] assms(2) by auto
qed

lemma peeled:
  assumes "closing cl" "\<not> has_suffix (trim_space s) ''</tool_call>''" "\<not> has_suffix (trim_space s) ''</function>''"
  shows "trim_space (trim_suffix (trim_space (trim_suffix (trim_space (s @ cl)) ''</tool_call>'')) ''</function>'') = trim_space s"
proof -
  define T F :: string where "T = ''</tool_call>''" and "F = ''</function>''"
  obtain b f b1 t b2 where cl: "cl = b @ f @ b1 @ t @ b2" "blank b" "blank b1" "blank b2" "f \<in> {[], F}" "t \<in> {[], T}"
    using assms(1) unfolding closing_def T_def F_def by blast
  let ?s = "s @ b"
  have s: "trim_space ?s = trim_space s" by (rule trim_right_blank [OF cl(2)])
  have Tt: "trim_space (u @ T @ x) = strip space_runes u @ T" and Ft: "trim_space (u @ F @ x) = strip space_runes u @ F" if "blank x" for u x
    using trim_around [of u "''/tool_call''" x] trim_around [of u "''/function''" x] rtrim_only_blank [OF that]
    by (simp_all add: T_def F_def)
  have nT: "trim_suffix (u @ F) T = u @ F" for u
    by (rule trim_suffix_none) (simp add: has_suffix_def has_prefix_def T_def F_def)
  have Fb: "strip space_runes (u @ F @ x) = strip space_runes u @ F @ x" for u x
    using strip_stops [OF angle_runes(1), of u "''/function>'' @ x"] by (simp add: F_def)
  have b0: "blank []" by (simp add: blank_def)
  have "trim_space (trim_suffix (trim_space (trim_suffix (trim_space (s @ cl)) T)) F) = trim_space s"
  proof (cases "t = []")
    case False
    then have t: "t = T" using cl(6) by simp
    have e: "trim_suffix (trim_space (s @ cl)) T = strip space_runes (?s @ f @ b1)"
      using Tt [OF cl(4), of "?s @ f @ b1"] trim_suffix_append [of "strip space_runes (?s @ f @ b1)" T] by (simp add: cl(1) t)
    show ?thesis
    proof (cases "f = []")
      case True
      then have "trim_space (trim_suffix (trim_space (s @ cl)) T) = trim_space s"
        using trim_right_blank [OF cl(3), of ?s] by (simp add: e trim_strip s)
      then show ?thesis using assms(3) by (simp add: trim_suffix_none F_def)
    next
      case False
      then have f: "f = F" using cl(5) by simp
      then have "trim_space (trim_suffix (trim_space (s @ cl)) T) = strip space_runes ?s @ F"
        using Ft [OF cl(3), of "strip space_runes ?s"] Fb [of ?s b1] by (simp add: e)
      then show ?thesis using trim_suffix_append [of "strip space_runes ?s" F] by (simp add: trim_strip s)
    qed
  next
    case True
    show ?thesis
    proof (cases "f = []")
      case False
      then have f: "f = F" using cl(5) by simp
      have "blank (b1 @ b2)" using cl(3,4) by (auto simp: blank_def)
      then have "trim_space (s @ cl) = strip space_runes ?s @ F" using Ft [of "b1 @ b2" ?s] by (simp add: cl(1) True f)
      then have "trim_space (trim_suffix (trim_space (s @ cl)) T) = strip space_runes ?s @ F"
        using Ft [OF b0, of "strip space_runes ?s"] by (simp add: nT)
      then show ?thesis using trim_suffix_append [of "strip space_runes ?s" F] by (simp add: trim_strip s)
    next
      case f: True
      have "blank (b @ b1 @ b2)" using cl(2,3,4) by (auto simp: blank_def)
      from trim_right_blank [OF this, of s] have "trim_space (s @ cl) = trim_space s" by (simp add: cl(1) True f)
      then show ?thesis using assms(2,3) by (simp add: trim_suffix_none T_def F_def)
    qed
  qed
  then show ?thesis by (simp only: T_def F_def)
qed

lemma update_new: "k \<notin> set (keys out) \<Longrightarrow> AList.update k v out = out @ [(k, v)]"
  by (induction out) auto

lemma fold_updates: "distinct (keys out @ keys kvs) \<Longrightarrow> fold (\<lambda>(k, v). AList.update k v) kvs out = out @ kvs"
proof (induction kvs arbitrary: out)
  case (Cons kv kvs)
  obtain n y where kv: "kv = (n, y)" by force
  from Cons.prems have "AList.update n y out = out @ [kv]" by (simp add: kv update_new)
  with Cons.IH [of "out @ [kv]"] Cons.prems show ?case by (simp add: kv)
qed simp

lemma fold_restores: "distinct (keys out @ keys kvs) \<Longrightarrow> fold restore_param kvs out = out @ kvs"
proof (induction kvs arbitrary: out)
  case (Cons kv kvs)
  obtain n y where kv: "kv = (n, y)" by force
  from Cons.prems have "restore_param kv out = out @ [kv]"
    by (simp add: kv restore_param_def update_new map_of_eq_None_iff)
  with Cons.IH [of "out @ [kv]"] Cons.prems show ?case by (simp add: kv)
qed simp

text \<open>C37: What one argument swallowed is given back. When the one argument of a call holds its own text, which has no
  close tag in it, then a close tag, then parameters as a reply spells them, closed and with white space before
  each, perhaps a last one that was cut off before its close tag, and perhaps the closers of the call, then
  parsing the call gives the text under its own name and every parameter under its name with its value, read
  as JSON where it is written so. The names are plain and all different, no value holds a close tag, and the
  one cut off does not end in a closer.
\<close>

theorem swallowed_parameters_come_back:
  assumes "\<not> contains x pClose" "\<forall>p \<in> set ps. a_param p" "case l of None \<Rightarrow> True | Some p \<Rightarrow> cut_off p" "closing cl"
    and "distinct (k # keys (written ps l))"
  shows "map_of (parseToolArgs F [(k, VStr (x @ pClose @ closed_params ps @ last_param l @ cl))]) =
     map_of ((k, VStr (trim_space x)) # map (\<lambda>(n, y). (n, coerceSalvagedValue F (trim_space y))) (written ps l))"
proof -
  let ?s = "x @ pClose @ closed_params ps @ last_param l @ cl"
  let ?kvs = "map (\<lambda>(k, v). (k, trim_space v)) (written ps l)"
  let ?vals = "map (\<lambda>(n, y). (n, coerceSalvagedValue F (trim_space y))) (written ps l)"
  have l: "case l of None \<Rightarrow> True | Some p \<Rightarrow> a_param p" using assms(3) by (auto simp: cut_off_def split: option.splits)
  have "markup_tail ((closed_params ps @ last_param l) @ cl) ?kvs"
    unfolding markup_tail_def
    by (subst peeled [OF assms(4)]) (use no_closer [OF assms(3), of "''tool_call''" ps] no_closer [OF assms(3), of "''function''" ps]
        params_written [OF assms(2) l] in simp_all)
  then have tail: "markup_tail (closed_params ps @ last_param l @ cl) ?kvs" by simp
  have least: "length x \<le> length a1" if "?s = a1 @ pClose @ t1" for a1 t1
  proof (rule ccontr)
    assume "\<not> length x \<le> length a1"
    then have "\<not> has_prefix (drop (length a1) ?s) pClose" using index_of_earliest [OF pClose_first [OF assms(1)]] by simp
    then show False unfolding that by simp
  qed
  have "swallowed ?s x ?kvs" unfolding swallowed_def using tail least by blast
  from swallowed_reads [OF this, of F]
  have at0: "swallow_at F ?s 0 = Some (trim_space x, fold (read_param F) ?kvs [])" .
  have rec: "fold (read_param F) ?kvs [] = ?vals"
    using fold_updates [of "[]" ?vals] assms(5) by (simp add: fold_map comp_def case_prod_unfold read_param_def)
  have patches: "salvage_patches F [(k, VStr ?s)] = [(k, trim_space x, ?vals)]"
    using at0 rec by (simp add: salvage_patches_def List.map_filter_simps)
  have "fold restore_param ?vals [(k, VStr (trim_space x))] = [(k, VStr (trim_space x))] @ ?vals"
    by (rule fold_restores) (use assms(5) in \<open>auto simp: comp_def case_prod_unfold\<close>)
  then show ?thesis
    unfolding parseToolArgs_def salvageSwallowedParams_def cleanArg_def
    by (simp add: patches apply_patch_def)
qed

definition asked_twice :: "(string \<times> string \<times> string) list" where
  "asked_twice = [(newline, ''multi'', newline @ ''true'' @ newline)]"

definition cut_options :: "string \<times> string \<times> string" where
  "cut_options = (newline, ''options'', newline @ ''first, second'')"

theorem swallowed_parameters_come_back_witness:
  "map_of (parseToolArgs bare_args [(''question'', VStr (''Pick one?'' @ pClose @ closed_params asked_twice
        @ last_param (Some cut_options) @ newline @ ''</function>''))]) ''multi'' = Some (VBool True)"
proof -
  have c: "\<not> contains ''Pick one?'' pClose" by code_simp
  have n: "\<forall>p \<in> set asked_twice. a_param p"
    by (simp add: asked_twice_def a_param_def plain_name_def blank_def newline_def ascii_spaces_def) code_simp
  have l: "case Some cut_options of None \<Rightarrow> True | Some p \<Rightarrow> cut_off p"
    by (simp add: cut_options_def cut_off_def a_param_def plain_name_def blank_def newline_def ascii_spaces_def) code_simp
  have cl: "closing (newline @ ''</function>'')"
    unfolding closing_def
    by (intro exI [of _ newline] exI [of _ "''</function>''"] exI [of _ "[]"]) (simp add: blank_def newline_def ascii_spaces_def)
  have d: "distinct (''question'' # keys (written asked_twice (Some cut_options)))"
    by (simp add: written_def asked_twice_def cut_options_def)
  have v: "coerceSalvagedValue bare_args (trim_space (newline @ ''true'' @ newline)) = VBool True" by code_simp
  show ?thesis unfolding swallowed_parameters_come_back [OF c n l cl d]
    using v by (simp add: written_def asked_twice_def)
qed

text \<open>The closers of the call around the parameters are peeled off too, and a value that only talks of the tag stays.\<close>

lemma wrapped_markup:
  "parseToolArgs bare_args [(''q'', VStr (''Good?</parameter>'' @ newline @ ''<parameter=yes>true</parameter></function></tool_call>''))]
     = [(''q'', VStr ''Good?''), (''yes'', VBool True)]
   \<and> parseToolArgs bare_args [(''q'', VStr ''write </parameter> after it'')] = [(''q'', VStr ''write </parameter> after it'')]"
  by code_simp

section \<open>The text of a call does not depend on the order of a map\<close>

theorem formatArgs_any_order:
  assumes "distinct (keys args)" "distinct (keys args')" "map_of args = map_of args'"
  shows "formatArgs F args = formatArgs F args'"
proof -
  have "set (keys args) = set (keys args')" using assms(3) by (metis dom_map_of_conv_image_fst list.set_map)
  then have "sort (keys args) = sort (keys args')"
    using assms(1,2) by (metis distinct_sort set_sort sorted_distinct_set_unique sorted_sort)
  moreover have "args = [] \<longleftrightarrow> args' = []" using \<open>set (keys args) = set (keys args')\<close> by auto
  moreover have "arg_line F args = arg_line F args'" by (simp add: arg_line_def assms(3) fun_eq_iff)
  ultimately show ?thesis by (simp add: formatArgs_def)
qed

text \<open>
  The text keeps 200 bytes of a value, and the guard that refuses a call that failed before compares the
  texts: two calls whose values part after that are one call to it, and the refusal speaks of exact arguments.
\<close>

theorem long_arguments_share_a_signature:
  "formatArgs F [(''body'', VStr (replicate 200 (CHR ''a'') @ ''one''))] = formatArgs F [(''body'', VStr (replicate 200 (CHR ''a'') @ ''two''))]
   \<and> formatArgs F [(''a'', VStr (''x'' @ newline @ ''b: y''))] = formatArgs F [(''a'', VStr ''x''), (''b'', VStr ''y'')]"
proof
  have c: "Clip (replicate 200 (CHR ''a'') @ t) 200 = replicate 200 (CHR ''a'') @ ellipsis" if "t = ''one'' \<or> t = ''two''" for t
  proof -
    have "clip_at (replicate 200 (CHR ''a'') @ t) 200 = 200"
    proof -
      have e: "(200::nat) = Suc 199" by simp
      have "(replicate 200 (CHR ''a'') @ t) ! 200 = CHR ''o'' \<or> (replicate 200 (CHR ''a'') @ t) ! 200 = CHR ''t''"
        using that by (auto simp: nth_append)
      then have "RuneStart ((replicate 200 (CHR ''a'') @ t) ! Suc 199)" unfolding e [symmetric] by (auto simp: RuneStart_def)
      then show ?thesis by (subst (2) e, subst clip_at.simps) simp
    qed
    then show ?thesis using that by (auto simp: Clip_def)
  qed
  show "formatArgs F [(''body'', VStr (replicate 200 (CHR ''a'') @ ''one''))] = formatArgs F [(''body'', VStr (replicate 200 (CHR ''a'') @ ''two''))]"
    by (simp add: formatArgs_def arg_line_def stringify_def c)
  show "formatArgs F [(''a'', VStr (''x'' @ newline @ ''b: y''))] = formatArgs F [(''a'', VStr ''x''), (''b'', VStr ''y'')]"
    by (simp add: formatArgs_def arg_line_def stringify_def Clip_def newline_def)
qed

text \<open>
  An object of two fields one of which is \<open>type\<close> is taken for an echoed schema whatever the other is: the keys
  of a schema are listed in \<open>schemaKeys\<close> and the list is not looked at.
\<close>

definition schemaKeys :: "string list" where
  "schemaKeys = [''type'', ''description'', ''enum'', ''default'', ''items'', ''properties'']"

theorem a_small_object_is_taken_for_an_echo:
  "''radius'' \<notin> set schemaKeys
   \<and> parseToolArgs bare_args [(''shape'', VObj [(''type'', VStr ''circle''), (''radius'', VNum (Fin 5))])] = [(''shape'', VNum (Fin 5))]"
  by code_simp

end
