(* ===== verification/AgentFailures.thy ===== *)
theory AgentFailures
  imports ToolArgs WorkflowSVG PipelineHost
begin

text \<open>
  What an agent loop does with failing tool calls (core/agent_loop_failures.go): the shape of a failure, the
  sweeps that collapse its repetitions in the history a model reads, the guard's counts seeded from history,
  and the memory of failing calls kept between turns.

  Messages carry the calls and results the code looks at (\<open>Message\<close> of \<open>PipelineHost\<close>). A sweep rewrites the
  contents of results and returns the history rewritten; the code copies a message's results before it writes
  to them, so nobody else sees the change. The clock and the consulted model are arguments.
\<close>

section \<open>The order of tool messages\<close>

fun order_violation :: "nat \<Rightarrow> Message option \<Rightarrow> Message list \<Rightarrow> int" where
  "order_violation i prev [] = - 1"
| "order_violation i prev (m # ms) =
     (if ms_results m = [] then order_violation (i + 1) (Some m) ms
      else case prev of
          None \<Rightarrow> int i
        | Some p \<Rightarrow> if ms_calls p = [] \<and> ms_results p = [] then int i else order_violation (i + 1) (Some m) ms)"

definition FirstToolOrderViolation :: "Message list \<Rightarrow> int" where
  "FirstToolOrderViolation history = order_violation 0 None history"

section \<open>The shape of a failure\<close>

definition flush_digits :: "string \<Rightarrow> string" where
  "flush_digits ds = (if length ds \<ge> 4 then ''#'' else ds)"

text \<open>The walk over the runes: what is written, the digits held back, and whether a space was written last.\<close>

fun shape_walk :: "string list \<Rightarrow> string \<Rightarrow> string \<Rightarrow> bool \<Rightarrow> string" where
  "shape_walk [] out ds last_space = out @ flush_digits ds"
| "shape_walk (r # rs) out ds last_space =
     (if length r = 1 \<and> is_digit (hd r) then shape_walk rs out (ds @ r) False
      else if r \<in> {'' '', [CHR 0x09], [CHR 0x0A], [CHR 0x0D]} then
        (if last_space then shape_walk rs (out @ flush_digits ds) [] True
         else shape_walk rs (out @ flush_digits ds @ '' '') [] True)
      else shape_walk rs (out @ flush_digits ds @ r) [] False)"

definition normalizeFailureShape :: "string \<Rightarrow> string" where
  "normalizeFailureShape content =
     (let s = to_lower (trim_space content) in
      if s = [] then []
      else
        (let t = trim_prefix (trim_prefix s ''error: '') ''error:'';
             out = trim_space (shape_walk (runes t) [] [] False) in
         if length out < 12 then []
         else if length out > 160 then take 160 out
         else out))"

definition pageNotFoundShape :: "string \<Rightarrow> bool" where
  "pageNotFoundShape shape \<longleftrightarrow> contains shape ''http 404'' \<or> contains shape ''http 410'' \<or> contains shape ''404 not found''"

definition oneLineShape :: "string \<Rightarrow> string" where
  "oneLineShape shape = (if length shape > 120 then Clip shape 120 else shape)"

text \<open>The wording of the two corrections is the constructor, with the values it quotes.\<close>

datatype correction =
    Advised nat string string
  | Directed nat string

definition failureShapeCorrection ::
    "nat \<Rightarrow> string \<Rightarrow> string \<Rightarrow> (nat \<Rightarrow> string \<Rightarrow> string + string) option \<Rightarrow> correction \<times> bool" where
  "failureShapeCorrection n shape evidence consult =
     (case consult of
        None \<Rightarrow> (Directed n shape, False)
      | Some ask \<Rightarrow>
          (case ask n evidence of
             Inr advice \<Rightarrow>
               if trim_space advice \<noteq> [] then (Advised n shape (trim_space advice), True) else (Directed n shape, False)
           | Inl _ \<Rightarrow> (Directed n shape, False)))"

section \<open>Sweeps\<close>

definition errShapeCollapseAt :: nat where "errShapeCollapseAt = 3"

definition collapsedFailureMarker :: "string \<Rightarrow> string" where
  \<open>collapsedFailureMarker shape =
     ''(repeated failure collapsed, same as the earlier full result: "'' @ oneLineShape shape @ ''")''\<close>

definition resolvedFailureMarker :: "string \<Rightarrow> string" where
  "resolvedFailureMarker tool =
     ''(earlier '' @ tool @ '' failure collapsed: a later '' @ tool @ '' call SUCCEEDED this turn; treat the failure as resolved)''"

definition has_shape :: "string \<Rightarrow> ToolResult \<Rightarrow> bool" where
  "has_shape shape r \<longleftrightarrow> tr_error r \<and> normalizeFailureShape (tr_content r) = shape"

definition rewrite_result :: "string \<Rightarrow> nat \<Rightarrow> Message \<Rightarrow> Message" where
  "rewrite_result content ri m = m\<lparr>ms_results := (ms_results m)[ri := (ms_results m ! ri)\<lparr>tr_content := content\<rparr>]\<rparr>"

definition rewrite_at :: "string \<Rightarrow> nat \<times> nat \<Rightarrow> Message list \<Rightarrow> Message list" where
  "rewrite_at content p history = history[fst p := rewrite_result content (snd p) (history ! fst p)]"

definition positions :: "Message list \<Rightarrow> (nat \<times> nat) list" where
  "positions history =
     concat (map (\<lambda>(mi, m). map (Pair mi) [0..<length (ms_results m)]) (enumerate 0 history))"

definition result_at :: "Message list \<Rightarrow> nat \<times> nat \<Rightarrow> ToolResult" where
  "result_at history p = ms_results (history ! fst p) ! snd p"

definition collapseRepeatedFailureResults :: "Message list \<Rightarrow> string \<Rightarrow> bool \<Rightarrow> nat \<times> Message list" where
  "collapseRepeatedFailureResults history shape keepLast =
     (let found = filter (\<lambda>p. has_shape shape (result_at history p)) (positions history);
          stop = (if keepLast then length found - 1 else length found) in
      if stop \<le> 1 then (0, history)
      else
        (let marked = drop 1 (take stop found) in
         (length marked, fold (rewrite_at (collapsedFailureMarker shape)) marked history)))"

definition shape_counts :: "Message list \<Rightarrow> (string \<times> nat) list" where
  "shape_counts history =
     fold (\<lambda>r counts. let s = normalizeFailureShape (tr_content r) in
             if tr_error r \<and> s \<noteq> [] then AList.update s ((case map_of counts s of Some n \<Rightarrow> n | None \<Rightarrow> 0) + 1) counts else counts)
       (concat (map ms_results history)) []"

text \<open>The code walks the counts as a map, in an order Go does not fix: the order is an argument.\<close>

definition collapse_in_order :: "string list \<Rightarrow> Message list \<Rightarrow> nat \<times> Message list" where
  "collapse_in_order shapes history =
     fold (\<lambda>shape (total, h). case collapseRepeatedFailureResults h shape True of (n, h1) \<Rightarrow> (total + n, h1)) shapes (0, history)"

definition streaks :: "Message list \<Rightarrow> string list" where
  "streaks history = map fst (filter (\<lambda>(shape, c). c \<ge> errShapeCollapseAt) (shape_counts history))"

definition collapseIncomingFailureStreaks :: "(string list \<Rightarrow> string list) \<Rightarrow> Message list \<Rightarrow> nat \<times> Message list" where
  "collapseIncomingFailureStreaks order history = collapse_in_order (order (streaks history)) history"

definition retireResolvedFailureResults :: "Message list \<Rightarrow> string list \<Rightarrow> string \<Rightarrow> nat \<times> Message list" where
  "retireResolvedFailureResults history shapes tool =
     (if shapes = [] then (0, history)
      else
        (let stale = filter (\<lambda>p. tr_error (result_at history p) \<and> normalizeFailureShape (tr_content (result_at history p)) \<in> set shapes)
               (positions history) in
         (length stale, fold (rewrite_at (resolvedFailureMarker tool)) stale history)))"

section \<open>The guard's counts from history\<close>

definition repeatFailHistoryWindow :: nat where "repeatFailHistoryWindow = 40"
definition repeatFailLimit :: nat where "repeatFailLimit = 3"

definition call_sig :: "arglib \<Rightarrow> ToolCall \<Rightarrow> string" where
  "call_sig F tc = tc_name tc @ [CHR 0x00] @ formatArgs F (tc_args tc)"

definition note_call :: "arglib \<Rightarrow> ToolCall \<Rightarrow> (string \<times> string) list \<Rightarrow> (string \<times> string) list" where
  "note_call F tc sigs = AList.update (tc_id tc) (call_sig F tc) sigs"

definition count_of :: "(string \<times> int) list \<Rightarrow> string \<Rightarrow> int" where
  "count_of counts s = (case map_of counts s of Some n \<Rightarrow> n | None \<Rightarrow> 0)"

definition count_result :: "(string \<times> string) list \<Rightarrow> ToolResult \<Rightarrow> (string \<times> int) list \<Rightarrow> (string \<times> int) list" where
  "count_result sigs tr counts =
     (case map_of sigs (tr_id tr) of
        None \<Rightarrow> counts
      | Some s \<Rightarrow> if tr_error tr then AList.update s (count_of counts s + 1) counts else AList.delete s counts)"

fun seed_walk :: "arglib \<Rightarrow> Message list \<Rightarrow> (string \<times> string) list \<Rightarrow> (string \<times> int) list \<Rightarrow> (string \<times> int) list" where
  "seed_walk F [] sigs counts = counts"
| "seed_walk F (m # ms) sigs counts =
     (let sigs1 = fold (note_call F) (ms_calls m) sigs in
      seed_walk F ms sigs1 (fold (count_result sigs1) (ms_results m) counts))"

definition seedRepeatFailFromHistory :: "arglib \<Rightarrow> Message list \<Rightarrow> (string \<times> int) list \<Rightarrow> (string \<times> int) list" where
  "seedRepeatFailFromHistory F messages counts =
     seed_walk F (drop (length messages - repeatFailHistoryWindow) messages) [] counts"

section \<open>Failure memory across turns\<close>

definition failureMemoryTable :: string where "failureMemoryTable = ''agent_failure_memory''"
definition failureMemoryTTL :: int where "failureMemoryTTL = 48 * 3600000000000"

record failureMemory =
  fm_counts :: "(string \<times> int) list"
  fm_seen :: "(string \<times> int) list"
  fm_updated :: int

type_synonym memory_db = "(string \<times> failureMemory) list option"

definition readableFailureSig :: "string \<Rightarrow> int \<Rightarrow> string" where
  "readableFailureSig s n =
     (let (name, args0) = (case index_of s [CHR 0x00] of Some i \<Rightarrow> (take i s, drop (i + 1) s) | None \<Rightarrow> (s, []));
          args1 = trim_space args0;
          r = runes args1;
          args = (if length r > 80 then concat (take 80 r) @ ellipsis else args1)
      in name @ ''('' @ args @ '')'' @ (if n > 0 then '' '' @ times_sign @ itoa_int n else []))"

definition stale_since :: "int \<Rightarrow> failureMemory \<Rightarrow> string \<Rightarrow> bool" where
  "stale_since now mem s \<longleftrightarrow> (case map_of (fm_seen mem) s of Some at1 \<Rightarrow> at1 < now - failureMemoryTTL | None \<Rightarrow> False)"

definition carried_entries :: "int \<Rightarrow> failureMemory \<Rightarrow> (string \<times> int) list" where
  "carried_entries now mem = filter (\<lambda>(s, n). \<not> stale_since now mem s \<and> n > 0) (fm_counts mem)"

definition loadFailureMemory ::
    "memory_db \<Rightarrow> int \<Rightarrow> string \<Rightarrow> (string \<times> int) list \<Rightarrow> int \<Rightarrow> string list \<times> (string \<times> int) list" where
  "loadFailureMemory db now key counts carryMax =
     (if trim_space key = [] then ([], counts)
      else case db of
          None \<Rightarrow> ([], counts)
        | Some m \<Rightarrow>
            (case map_of m key of
               None \<Rightarrow> ([], counts)
             | Some mem \<Rightarrow>
                 (sort (map (\<lambda>(s, n). readableFailureSig s n) (carried_entries now mem)),
                  fold (\<lambda>(s, n). AList.update s (if carryMax > 0 \<and> n > carryMax then carryMax else n)) (carried_entries now mem) counts)))"

definition failureMemoryDiag :: "string list \<Rightarrow> string" where
  "failureMemoryDiag carried =
     (if carried = [] then []
      else
        itoa (length carried)
        @ '' call(s) that failed in earlier runs of this work (within the last 48h0m0s) are remembered, so each gets ONE attempt this turn before the repeat guard stops it: ''
        @ join ''; '' (take 6 carried)
        @ (if length carried > 6 then '' (+'' @ itoa (length carried - 6) @ '' more)'' else [])
        @ ''. A success clears the memory; a call that stays here needs its tool or its arguments fixed.'')"

definition first_seen_at :: "int \<Rightarrow> (string \<times> int) list \<Rightarrow> string \<Rightarrow> int" where
  "first_seen_at now seen s =
     (case map_of seen s of Some at1 \<Rightarrow> if at1 > now - failureMemoryTTL then at1 else now | None \<Rightarrow> now)"

definition saveFailureMemory :: "int \<Rightarrow> string \<Rightarrow> (string \<times> int) list \<Rightarrow> memory_db \<Rightarrow> memory_db" where
  "saveFailureMemory now key counts db =
     (if trim_space key = [] then db
      else map_option
        (\<lambda>m. let seen = (case map_of m key of Some prior \<Rightarrow> fm_seen prior | None \<Rightarrow> []);
                 failing = filter (\<lambda>(s, n). n > 0) counts in
             if failing = [] then AList.delete key m
             else AList.update key
               \<lparr>fm_counts = failing, fm_seen = map (\<lambda>(s, n). (s, first_seen_at now seen s)) failing, fm_updated = now\<rparr> m)
        db)"

section \<open>A sweep rewrites repetitions and nothing else\<close>

definition same_result_frame :: "ToolResult \<Rightarrow> ToolResult \<Rightarrow> bool" where
  "same_result_frame r r' \<longleftrightarrow> tr_id r = tr_id r' \<and> tr_error r = tr_error r'"

definition same_frame :: "Message \<Rightarrow> Message \<Rightarrow> bool" where
  "same_frame m m' \<longleftrightarrow> ms_calls m = ms_calls m' \<and> list_all2 same_result_frame (ms_results m) (ms_results m')"

definition same_history :: "Message list \<Rightarrow> Message list \<Rightarrow> bool" where
  "same_history h h' \<longleftrightarrow> list_all2 same_frame h h'"

lemma same_frame_refl [simp]: "same_frame m m" "same_history h h"
  by (auto simp: same_frame_def same_history_def same_result_frame_def list_all2_same)

lemma same_history_trans: "same_history h h1 \<Longrightarrow> same_history h1 h2 \<Longrightarrow> same_history h h2"
proof -
  have r: "same_result_frame x z" if "same_result_frame x y" "same_result_frame y z" for x y z
    using that by (simp add: same_result_frame_def)
  have m: "same_frame x z" if "same_frame x y" "same_frame y z" for x y z
    using that list_all2_trans [of same_result_frame same_result_frame same_result_frame] r unfolding same_frame_def by metis
  show "same_history h h1 \<Longrightarrow> same_history h1 h2 \<Longrightarrow> same_history h h2"
    unfolding same_history_def using list_all2_trans [of same_frame same_frame same_frame] m by metis
qed

lemma rewrite_result_frame: "same_frame m (rewrite_result content ri m)"
  by (cases "ri < length (ms_results m)")
    (auto simp: same_frame_def rewrite_result_def same_result_frame_def list_all2_conv_all_nth nth_list_update)

lemma rewrite_at_frame: "same_history h (rewrite_at content p h)"
  by (cases "fst p < length h")
    (auto simp: same_history_def rewrite_at_def list_all2_conv_all_nth nth_list_update rewrite_result_frame)

lemma rewrites_frame: "same_history h (fold (rewrite_at content) ps h)"
  by (induction ps arbitrary: h) (auto intro: same_history_trans [OF rewrite_at_frame])

lemma order_violation_frame:
  "list_all2 same_frame h h' \<Longrightarrow>
     (case (prev, prev') of (None, None) \<Rightarrow> True | (Some p, Some p') \<Rightarrow> same_frame p p' | _ \<Rightarrow> False) \<Longrightarrow>
     order_violation i prev h = order_violation i prev' h'"
proof (induction h h' arbitrary: i prev prev' rule: list_all2_induct)
  case (Cons m ms m' ms')
  have e: "ms_results x = [] \<longleftrightarrow> ms_results y = []" "ms_calls x = ms_calls y" if "same_frame x y" for x y
    using that by (auto simp: same_frame_def)
  show ?case
    using Cons.IH [of "Some m" "Some m'" "i + 1"] Cons.hyps(1) Cons.prems e [OF Cons.hyps(1)] e
    by (auto split: option.splits)
qed simp

lemma same_order: "same_history h h' \<Longrightarrow> FirstToolOrderViolation h' = FirstToolOrderViolation h"
  using order_violation_frame [of h h' None None 0] by (simp add: same_history_def FirstToolOrderViolation_def)

lemma collapse_frame: "collapseRepeatedFailureResults h shape keepLast = (n, h') \<Longrightarrow> same_history h h'"
  by (auto simp: collapseRepeatedFailureResults_def Let_def rewrites_frame split: if_splits)

lemma collapse_in_order_frame: "collapse_in_order shapes h = (n, h') \<Longrightarrow> same_history h h'"
proof -
  have "same_history h0 (snd (fold (\<lambda>shape (total, h). case collapseRepeatedFailureResults h shape True of (n, h1) \<Rightarrow> (total + n, h1))
      shapes (total, h0)))" for total h0
  proof (induction shapes arbitrary: total h0)
    case (Cons shape shapes)
    obtain n1 h1 where c: "collapseRepeatedFailureResults h0 shape True = (n1, h1)" by force
    from same_history_trans [OF collapse_frame [OF c] Cons.IH [of h1 "total + n1"]] c show ?case by simp
  qed simp
  from this [of h 0] show "collapse_in_order shapes h = (n, h') \<Longrightarrow> same_history h h'"
    by (simp add: collapse_in_order_def)
qed

text \<open>C38: A sweep never breaks the order a provider insists on. Collapsing one failure, collapsing the streaks a
  turn starts with, in whatever order they are taken, and retiring what a success resolved keep every
  message, call, identifier and error mark, so a history whose tool results follow their calls still does,
  and one that does not is reported at the same message.
\<close>

theorem sweeps_keep_the_tool_order:
  "FirstToolOrderViolation (snd (collapseRepeatedFailureResults h shape keepLast)) = FirstToolOrderViolation h
   \<and> FirstToolOrderViolation (snd (collapseIncomingFailureStreaks order h)) = FirstToolOrderViolation h
   \<and> FirstToolOrderViolation (snd (retireResolvedFailureResults h shapes tool)) = FirstToolOrderViolation h
   \<and> same_history h (snd (collapseRepeatedFailureResults h shape keepLast))
   \<and> same_history h (snd (collapseIncomingFailureStreaks order h))
   \<and> same_history h (snd (retireResolvedFailureResults h shapes tool))"
proof -
  have "same_history h (snd (collapseRepeatedFailureResults h shape keepLast))"
    by (rule collapse_frame [of h shape keepLast "fst (collapseRepeatedFailureResults h shape keepLast)"]) simp
  moreover have "same_history h (snd (collapseIncomingFailureStreaks order h))"
    unfolding collapseIncomingFailureStreaks_def
    by (rule collapse_in_order_frame [of _ h "fst (collapse_in_order (order (streaks h)) h)"]) simp
  moreover have "same_history h (snd (retireResolvedFailureResults h shapes tool))"
    by (simp add: retireResolvedFailureResults_def Let_def rewrites_frame)
  ultimately show ?thesis by (simp add: same_order)
qed

lemma order_violation_spec:
  "order_violation i prev h = - 1 \<longleftrightarrow>
     (\<forall>k < length h. ms_results (h ! k) \<noteq> [] \<longrightarrow>
        (case (if k = 0 then prev else Some (h ! (k - 1))) of None \<Rightarrow> False | Some p \<Rightarrow> ms_calls p \<noteq> [] \<or> ms_results p \<noteq> []))"
proof (induction i prev h rule: order_violation.induct)
  case (2 i prev m ms)
  have shift: "(\<forall>k < length (m # ms). Q k) \<longleftrightarrow> Q 0 \<and> (\<forall>k < length ms. Q (Suc k))" for Q
    by (auto simp: less_Suc_eq_0_disj)
  have prev_of: "(if Suc k = 0 then prev else Some ((m # ms) ! (Suc k - 1))) =
      (if k = 0 then Some m else Some (ms ! (k - 1)))" for k by (cases k) auto
  show ?case unfolding shift prev_of
    using 2 by (auto split: option.splits)
qed simp

subsection \<open>The full copy that stays\<close>

definition before :: "nat \<times> nat \<Rightarrow> nat \<times> nat \<Rightarrow> bool" where
  "before q p \<longleftrightarrow> fst q < fst p \<or> fst q = fst p \<and> snd q < snd p"

lemma positions_in: "p \<in> set (positions h) \<longleftrightarrow> fst p < length h \<and> snd p < length (ms_results (h ! fst p))"
proof
  assume "p \<in> set (positions h)"
  then show "fst p < length h \<and> snd p < length (ms_results (h ! fst p))"
    by (auto simp: positions_def in_set_enumerate_eq)
next
  assume p: "fst p < length h \<and> snd p < length (ms_results (h ! fst p))"
  then have "(fst p, h ! fst p) \<in> set (enumerate 0 h)" by (simp add: in_set_enumerate_eq)
  moreover have "p \<in> set (map (Pair (fst p)) [0..<length (ms_results (h ! fst p))])" using p by (cases p) auto
  ultimately show "p \<in> set (positions h)" unfolding positions_def by force
qed

lemma positions_sorted: "sorted_wrt before (positions h)"
proof -
  have "sorted_wrt before (concat (map (\<lambda>(mi, m). map (Pair mi) [0..<length (ms_results m)]) (enumerate k h)))" for k
  proof (induction h arbitrary: k)
    case (Cons m h)
    have 1: "sorted_wrt before (map (Pair k) [0..<n])" for n
      by (simp add: sorted_wrt_map before_def)
    have 2: "k < fst p" if "p \<in> set (concat (map (\<lambda>(mi, m). map (Pair mi) [0..<length (ms_results m)]) (enumerate (Suc k) h)))" for p
      using that by (auto simp: in_set_enumerate_eq)
    let ?rest = "concat (map (\<lambda>(mi, m). map (Pair mi) [0..<length (ms_results m)]) (enumerate (Suc k) h))"
    have 3: "before x y" if "x \<in> set (map (Pair k) [0..<n])" "y \<in> set ?rest" for x y n
      using that(1) 2 [OF that(2)] by (auto simp: before_def)
    have "sorted_wrt before (map (Pair k) [0..<length (ms_results m)] @ ?rest)"
      unfolding sorted_wrt_append using 1 Cons.IH 3 by blast
    then show ?case by simp
  qed simp
  then show ?thesis by (simp add: positions_def)
qed

lemma rewrite_at_result:
  "p \<in> set (positions h) \<Longrightarrow> q \<in> set (positions h) \<Longrightarrow>
     result_at (rewrite_at content q h) p = (if p = q then (result_at h p)\<lparr>tr_content := content\<rparr> else result_at h p)
     \<and> set (positions (rewrite_at content q h)) = set (positions h)"
  by (cases p; cases q)
    (auto simp: positions_in result_at_def rewrite_at_def rewrite_result_def nth_list_update split: if_splits)

lemma rewrites_result:
  "p \<in> set (positions h) \<Longrightarrow> set qs \<subseteq> set (positions h) \<Longrightarrow>
     result_at (fold (rewrite_at content) qs h) p =
       (if p \<in> set qs then (result_at h p)\<lparr>tr_content := content\<rparr> else result_at h p)"
proof (induction qs arbitrary: h)
  case (Cons q qs)
  have q: "q \<in> set (positions h)" using Cons.prems(2) by simp
  note one = rewrite_at_result [OF Cons.prems(1) q, of content]
  show ?case using Cons.IH [of "rewrite_at content q h"] Cons.prems one by auto
qed simp

lemma in_middle:
  "p \<in> set (drop 1 (take stop xs)) \<longleftrightarrow> (\<exists>i. 1 \<le> i \<and> i < stop \<and> i < length xs \<and> p = xs ! i)"
proof
  assume "p \<in> set (drop 1 (take stop xs))"
  then obtain j where j: "j < length (drop 1 (take stop xs))" "p = drop 1 (take stop xs) ! j" by (metis in_set_conv_nth)
  then have "Suc j < stop" "Suc j < length xs" by auto
  with j have "p = xs ! Suc j" using nth_drop [of 1 "take stop xs" j] by simp
  with \<open>Suc j < stop\<close> \<open>Suc j < length xs\<close> show "\<exists>i. 1 \<le> i \<and> i < stop \<and> i < length xs \<and> p = xs ! i"
    by (intro exI [of _ "Suc j"]) simp
next
  assume "\<exists>i. 1 \<le> i \<and> i < stop \<and> i < length xs \<and> p = xs ! i"
  then obtain i where "1 \<le> i" "i < stop" "i < length xs" "p = xs ! i" by blast
  then have "drop 1 (take stop xs) ! (i - 1) = p" "i - 1 < length (drop 1 (take stop xs))" by auto
  then show "p \<in> set (drop 1 (take stop xs))" by (metis nth_mem)
qed

lemma middle_has_ends:
  assumes "sorted_wrt R xs" "distinct xs" "p \<in> set (drop 1 (take stop xs))"
  shows "\<exists>q \<in> set xs. R q p \<and> q \<notin> set (drop 1 (take stop xs))"
    "stop < length xs \<Longrightarrow> \<exists>q \<in> set xs. R p q \<and> q \<notin> set (drop 1 (take stop xs))"
proof -
  from assms(3) obtain i where i: "1 \<le> i" "i < stop" "i < length xs" "p = xs ! i" unfolding in_middle by blast
  have "R (xs ! 0) p" using i sorted_wrt_nth_less [OF assms(1)] by auto
  moreover have "xs ! 0 \<notin> set (drop 1 (take stop xs))"
    unfolding in_middle using assms(2) nth_eq_iff_index_eq [OF assms(2)] i by fastforce
  moreover have "xs ! 0 \<in> set xs" using i by (metis gr_implies_not0 length_0_conv nth_mem length_greater_0_conv)
  ultimately show "\<exists>q \<in> set xs. R q p \<and> q \<notin> set (drop 1 (take stop xs))" by blast
  assume stop: "stop < length xs"
  have "R p (xs ! stop)" using i stop sorted_wrt_nth_less [OF assms(1), of i stop] by simp
  moreover have "xs ! stop \<notin> set (drop 1 (take stop xs))"
    unfolding in_middle using nth_eq_iff_index_eq [OF assms(2)] stop by fastforce
  moreover have "xs ! stop \<in> set xs" using stop by simp
  ultimately show "\<exists>q \<in> set xs. R p q \<and> q \<notin> set (drop 1 (take stop xs))" by blast
qed

lemma sorted_before_distinct: "sorted_wrt before ps \<Longrightarrow> distinct ps"
  by (induction ps) (auto simp: before_def)

text \<open>C34: A collapsed failure still has its full text before it. Every result a sweep rewrites was an error of the
  shape, is now the marker that names it, and stands after an error of that shape the sweep left whole; where
  the newest is kept it stands before one too; results of any other shape are as they were; and the number
  returned is how many were rewritten.
\<close>

theorem a_collapsed_failure_has_a_full_copy_before_it:
  assumes "collapseRepeatedFailureResults h shape keepLast = (n, h')"
  shows "\<exists>marked. length marked = n \<and> distinct marked \<and> set marked \<subseteq> set (positions h)
     \<and> (\<forall>p \<in> set (positions h). p \<notin> set marked \<longrightarrow> result_at h' p = result_at h p)
     \<and> (\<forall>p \<in> set marked. has_shape shape (result_at h p)
          \<and> result_at h' p = (result_at h p)\<lparr>tr_content := collapsedFailureMarker shape\<rparr>
          \<and> (\<exists>q \<in> set (positions h). before q p \<and> has_shape shape (result_at h q) \<and> result_at h' q = result_at h q)
          \<and> (keepLast \<longrightarrow> (\<exists>q \<in> set (positions h). before p q \<and> has_shape shape (result_at h q) \<and> result_at h' q = result_at h q)))"
proof -
  define found where "found = filter (\<lambda>p. has_shape shape (result_at h p)) (positions h)"
  define stop where "stop = (if keepLast then length found - 1 else length found)"
  define marked where "marked = (if stop \<le> 1 then [] else drop 1 (take stop found))"
  have sorted: "sorted_wrt before found" unfolding found_def by (rule sorted_wrt_filter [OF positions_sorted])
  note distinct = sorted_before_distinct [OF sorted]
  have h': "h' = fold (rewrite_at (collapsedFailureMarker shape)) marked h" "n = length marked"
    using assms unfolding marked_def stop_def found_def
    by (simp_all add: collapseRepeatedFailureResults_def Let_def split: if_splits)
  have sub: "set marked \<subseteq> set found"
    unfolding marked_def by (simp del: drop_take) (metis order_trans set_drop_subset set_take_subset)
  have inf: "p \<in> set found \<Longrightarrow> p \<in> set (positions h) \<and> has_shape shape (result_at h p)" for p
    by (simp add: found_def)
  have pos: "set marked \<subseteq> set (positions h)" using sub inf by blast
  have res: "p \<in> set (positions h) \<Longrightarrow>
      result_at h' p = (if p \<in> set marked then (result_at h p)\<lparr>tr_content := collapsedFailureMarker shape\<rparr> else result_at h p)" for p
    unfolding h'(1) by (rule rewrites_result [OF _ pos])
  have marked: "marked = drop 1 (take stop found)" "stop > 1" if "p \<in> set marked" for p
    using that by (auto simp: marked_def split: if_splits)
  show ?thesis
  proof (intro exI [of _ marked] conjI ballI impI)
    show "length marked = n" by (simp only: h'(2))
    show "distinct marked" using distinct unfolding marked_def by simp
    show "set marked \<subseteq> set (positions h)" by (rule pos)
    show "result_at h' p = result_at h p" if "p \<in> set (positions h)" "p \<notin> set marked" for p
      using res [OF that(1)] that(2) by simp
    fix p assume p: "p \<in> set marked"
    note m = marked [OF p]
    show "has_shape shape (result_at h p)" using p sub inf by blast
    show "result_at h' p = (result_at h p)\<lparr>tr_content := collapsedFailureMarker shape\<rparr>"
      using res [of p] p pos by auto
    from middle_has_ends(1) [OF sorted distinct p [unfolded m(1)]] obtain q where
      "q \<in> set found" "before q p" "q \<notin> set marked" unfolding m(1) [symmetric] by blast
    then show "\<exists>q \<in> set (positions h). before q p \<and> has_shape shape (result_at h q) \<and> result_at h' q = result_at h q"
      using res [of q] inf by (intro bexI [of _ q]) auto
    assume keepLast
    then have "stop < length found" using m(2) by (auto simp: stop_def)
    from middle_has_ends(2) [OF sorted distinct p [unfolded m(1)] this] obtain q where
      "q \<in> set found" "before p q" "q \<notin> set marked" unfolding m(1) [symmetric] by blast
    then show "\<exists>q \<in> set (positions h). before p q \<and> has_shape shape (result_at h q) \<and> result_at h' q = result_at h q"
      using res [of q] inf by (intro bexI [of _ q]) auto
  qed
qed

definition refused :: "string \<Rightarrow> ToolResult" where
  "refused i = \<lparr>tr_id = i, tr_content = ''Error: connection refused'', tr_error = True\<rparr>"

definition round_of :: "string \<Rightarrow> string \<Rightarrow> Message list" where
  "round_of i tool = [\<lparr>ms_calls = [\<lparr>tc_id = i, tc_name = tool, tc_args = []\<rparr>], ms_results = []\<rparr>, \<lparr>ms_calls = [], ms_results = [refused i]\<rparr>]"

definition storm :: "Message list" where
  "storm = concat (map (\<lambda>i. round_of i ''fetch'') [''1'', ''2'', ''3'', ''4'', ''5''])"

theorem a_collapsed_failure_has_a_full_copy_before_it_witness:
  "result_at (snd (collapseRepeatedFailureResults storm ''connection refused'' True)) (1, 0) = refused ''1''"
proof -
  obtain n h' where c: "collapseRepeatedFailureResults storm ''connection refused'' True = (n, h')" by force
  from a_collapsed_failure_has_a_full_copy_before_it [OF c] obtain marked where
    m: "\<forall>p \<in> set (positions storm). p \<notin> set marked \<longrightarrow> result_at h' p = result_at storm p"
    "\<forall>p \<in> set marked. \<exists>q \<in> set (positions storm). before q p" by metis
  have p: "(1, 0) \<in> set (positions storm)" "list_all (\<lambda>q. \<not> before q (1, 0)) (positions storm)"
    "result_at storm (1, 0) = refused ''1''" by code_simp+
  then have "(1, 0) \<notin> set marked" using m(2) by (auto simp: list_all_iff)
  with m(1) p c show ?thesis by simp
qed

section \<open>The guard's counts are streaks\<close>

text \<open>What became of each call of a signature the walk knows, in order.\<close>

fun outcomes :: "arglib \<Rightarrow> Message list \<Rightarrow> (string \<times> string) list \<Rightarrow> (string \<times> bool) list" where
  "outcomes F [] sigs = []"
| "outcomes F (m # ms) sigs =
     (let sigs1 = fold (note_call F) (ms_calls m) sigs in
      List.map_filter (\<lambda>tr. map_option (\<lambda>s. (s, tr_error tr)) (map_of sigs1 (tr_id tr))) (ms_results m)
      @ outcomes F ms sigs1)"

definition streak :: "string \<Rightarrow> (string \<times> bool) list \<Rightarrow> int" where
  "streak s outs = int (length (takeWhile snd (rev (filter (\<lambda>out. fst out = s) outs))))"

definition succeeded :: "string \<Rightarrow> (string \<times> bool) list \<Rightarrow> bool" where
  "succeeded s outs \<longleftrightarrow> (s, False) \<in> set outs"

definition after_outcomes :: "(string \<times> int) list \<Rightarrow> (string \<times> bool) list \<Rightarrow> string \<Rightarrow> int" where
  "after_outcomes counts outs s = (if succeeded s outs then streak s outs else count_of counts s + streak s outs)"

lemma streak_snoc:
  "streak s (outs @ [(s', e)]) = (if s' = s then (if e then streak s outs + 1 else 0) else streak s outs)"
  by (simp add: streak_def)

lemma after_snoc:
  "after_outcomes counts (outs @ [(s', e)]) s =
     (if s' = s then (if e then after_outcomes counts outs s + 1 else 0) else after_outcomes counts outs s)"
  by (auto simp: after_outcomes_def streak_snoc succeeded_def)

definition count_outcome :: "string \<times> bool \<Rightarrow> (string \<times> int) list \<Rightarrow> (string \<times> int) list" where
  "count_outcome out counts =
     (if snd out then AList.update (fst out) (count_of counts (fst out) + 1) counts else AList.delete (fst out) counts)"

lemma count_outcomes: "count_of (fold count_outcome outs counts) s = after_outcomes counts outs s"
proof (induction outs rule: rev_induct)
  case Nil
  then show ?case by (simp add: after_outcomes_def streak_def succeeded_def)
next
  case (snoc out outs)
  then show ?case
    by (cases out) (auto simp: count_outcome_def after_snoc count_of_def map_of_update_eq map_of_delete_eq split: option.splits)
qed

lemma count_results:
  "fold (count_result sigs) trs counts =
     fold count_outcome (List.map_filter (\<lambda>tr. map_option (\<lambda>s. (s, tr_error tr)) (map_of sigs (tr_id tr))) trs) counts"
  by (induction trs arbitrary: counts)
    (auto simp: List.map_filter_simps count_result_def count_outcome_def split: option.splits)

lemma seed_walk_outcomes: "seed_walk F ms sigs counts = fold count_outcome (outcomes F ms sigs) counts"
  by (induction F ms sigs counts rule: seed_walk.induct) (simp_all add: Let_def count_results)

text \<open>C39: The guard counts streaks. After the replay of a history, a call's count is the number of times it failed
  since it last succeeded in the last forty messages, and where it did not succeed there, that number on top
  of what was already counted.
\<close>

theorem the_guard_counts_streaks:
  "count_of (seedRepeatFailFromHistory F messages counts) s =
     after_outcomes counts (outcomes F (drop (length messages - repeatFailHistoryWindow) messages) []) s"
  by (simp add: seedRepeatFailFromHistory_def seed_walk_outcomes count_outcomes)

section \<open>Failures are forgotten in time\<close>

lemma failing_count:
  "distinct (keys counts) \<Longrightarrow> map_of counts s = Some n \<Longrightarrow> n > 0 \<Longrightarrow>
     map_of (map (\<lambda>(s, n). (s, f s)) (filter (\<lambda>(s, n). n > (0::int)) counts)) s = Some (f s)"
  by (induction counts) (auto split: if_splits)

lemma saved_stamp:
  assumes "trim_space key \<noteq> []" "distinct (keys counts)" "map_of counts s = Some n" "n > 0"
    and "map_of m key = Some mem" "map_of (fm_seen mem) s = Some t1" "t1 > now - failureMemoryTTL"
  shows "\<exists>m1 mem1. saveFailureMemory now key counts (Some m) = Some m1 \<and> map_of m1 key = Some mem1 \<and> map_of (fm_seen mem1) s = Some t1"
proof -
  let ?failing = "filter (\<lambda>(s, n). n > 0) counts"
  have "?failing \<noteq> []" using map_of_SomeD [OF assms(3)] assms(4) by (auto simp: filter_empty_conv)
  then show ?thesis
    using failing_count [OF assms(2,3,4), of "first_seen_at now (fm_seen mem)"] assms(1,5,6,7)
    by (simp add: saveFailureMemory_def Let_def map_of_update_eq first_seen_at_def)
qed

lemma saved_turns:
  assumes "trim_space key \<noteq> []"
    and "\<forall>(now, counts) \<in> set turns. now < t1 + failureMemoryTTL \<and> distinct (keys counts) \<and> (\<exists>n > 0. map_of counts s = Some n)"
    and "map_of m key = Some mem" "map_of (fm_seen mem) s = Some t1"
  shows "\<exists>m1 mem1. fold (\<lambda>(now, counts). saveFailureMemory now key counts) turns (Some m) = Some m1
    \<and> map_of m1 key = Some mem1 \<and> map_of (fm_seen mem1) s = Some t1"
  using assms(2-)
proof (induction turns arbitrary: m mem)
  case (Cons turn turns)
  obtain now counts where turn: "turn = (now, counts)" by force
  with Cons.prems(1) obtain n where n: "now < t1 + failureMemoryTTL" "distinct (keys counts)" "map_of counts s = Some n" "n > 0" by auto
  then have "t1 > now - failureMemoryTTL" by simp
  from saved_stamp [OF assms(1) n(2,3,4) Cons.prems(2,3) this] obtain m1 mem1 where
    m1: "saveFailureMemory now key counts (Some m) = Some m1" "map_of m1 key = Some mem1" "map_of (fm_seen mem1) s = Some t1" by blast
  from Cons.IH [OF _ m1(2,3)] Cons.prems(1) turn m1(1) show ?case by simp
qed simp

lemma carried_values:
  "map_of (fold (\<lambda>(s, n). AList.update s (f n)) es counts) s = Some v \<Longrightarrow>
     map_of counts s = Some v \<or> (\<exists>n. (s, n) \<in> set es \<and> v = f n)"
proof (induction es arbitrary: counts)
  case (Cons e es)
  from Cons.IH [of "case e of (s, n) \<Rightarrow> AList.update s (f n) counts"] Cons.prems
  show ?case by (cases e) (auto simp: map_of_update_eq split: if_splits)
qed simp

lemma loaded_from_nothing:
  "map_of (snd (loadFailureMemory (Some m) now key [] carryMax)) s = Some v \<Longrightarrow>
     \<exists>mem n. map_of m key = Some mem \<and> (s, n) \<in> set (carried_entries now mem)
       \<and> v = (if carryMax > 0 \<and> n > carryMax then carryMax else n)"
proof -
  let ?cap = "\<lambda>n. if carryMax > 0 \<and> n > carryMax then carryMax else n"
  assume v: "map_of (snd (loadFailureMemory (Some m) now key [] carryMax)) s = Some v"
  then obtain mem where mem: "map_of m key = Some mem"
    by (auto simp: loadFailureMemory_def split: if_splits option.splits)
  with v have "map_of (fold (\<lambda>(s, n). AList.update s (?cap n)) (carried_entries now mem) []) s = Some v"
    by (simp add: loadFailureMemory_def split: if_splits)
  from carried_values [OF this] mem show ?thesis by auto
qed

text \<open>C40: What the memory of failures carries into a turn. A call that failed first at a moment and was saved as
  failing by turns that all ended within 48 hours of it keeps that moment as its stamp, so what a turn
  later than that starts with from the memory does not count the call, however often it was retried; and
  the count a turn does start with from the memory is below the one at which the guard refuses. The replay of
  the history, which counts on top of it, is not part of this: see \<open>a_remembered_call_gets_no_try\<close>; and a turn
  that ends later than the 48 hours stamps the failure anew: see \<open>a_carried_failure_renews_its_lease\<close>.
\<close>

theorem a_failure_is_forgotten_in_time:
  assumes "trim_space key \<noteq> []"
    and "\<forall>(now, counts) \<in> set turns. now < t1 + failureMemoryTTL \<and> distinct (keys counts) \<and> (\<exists>n > 0. map_of counts s = Some n)"
    and "map_of m key = Some mem" "map_of (fm_seen mem) s = Some t1"
    and "db = fold (\<lambda>(now, counts). saveFailureMemory now key counts) turns (Some m)"
  shows "(t > t1 + failureMemoryTTL \<longrightarrow>
        map_of (snd (loadFailureMemory db t key [] (int repeatFailLimit - 1))) s = None)
     \<and> count_of (snd (loadFailureMemory db t key [] (int repeatFailLimit - 1))) s < int repeatFailLimit"
proof -
  from saved_turns [OF assms(1-4)] obtain m1 mem1 where
    m1: "db = Some m1" "map_of m1 key = Some mem1" "map_of (fm_seen mem1) s = Some t1" unfolding assms(5) by blast
  let ?loaded = "map_of (snd (loadFailureMemory db t key [] (int repeatFailLimit - 1))) s"
  have entry: "\<exists>n. (s, n) \<in> set (carried_entries t mem1) \<and> v \<le> 2" if "?loaded = Some v" for v
    using loaded_from_nothing [OF that [unfolded m1(1)]] m1(2) by (auto simp: repeatFailLimit_def)
  have "?loaded = None" if "t > t1 + failureMemoryTTL"
  proof (rule ccontr)
    assume "?loaded \<noteq> None"
    then obtain n where "(s, n) \<in> set (carried_entries t mem1)" using entry by blast
    with that m1(3) show False by (simp add: carried_entries_def stale_since_def)
  qed
  moreover have "count_of (snd (loadFailureMemory db t key [] (int repeatFailLimit - 1))) s < int repeatFailLimit"
    using entry by (force simp: count_of_def repeatFailLimit_def split: option.splits)
  ultimately show ?thesis by blast
qed

definition remembered :: failureMemory where
  "remembered = \<lparr>fm_counts = [(''fetch'', 5)], fm_seen = [(''fetch'', 0)], fm_updated = 0\<rparr>"

theorem a_failure_is_forgotten_in_time_witness:
  "map_of (snd (loadFailureMemory
       (fold (\<lambda>(now, counts). saveFailureMemory now ''job'' counts) [(7, [(''fetch'', 6)])] (Some [(''job'', remembered)]))
       (failureMemoryTTL + 1) ''job'' [] (int repeatFailLimit - 1))) ''fetch'' = None"
proof -
  have k: "trim_space ''job'' \<noteq> []" by code_simp
  have t: "\<forall>(now, counts) \<in> set [(7, [(''fetch'', 6 :: int)])]. now < 0 + failureMemoryTTL \<and> distinct (keys counts) \<and> (\<exists>n > 0. map_of counts ''fetch'' = Some n)"
    by (simp add: failureMemoryTTL_def)
  have m: "map_of [(''job'', remembered)] ''job'' = Some remembered" "map_of (fm_seen remembered) ''fetch'' = Some 0"
    by (simp_all add: remembered_def)
  from a_failure_is_forgotten_in_time [OF k t m refl, of "failureMemoryTTL + 1"] show ?thesis by simp
qed

section \<open>Where the sweeps and the memory part from what they say\<close>

text \<open>
  Markers of one shape are errors of one shape themselves: three of them are a streak, and the next sweep
  collapses the markers.
\<close>

lemma refused_shape: "normalizeFailureShape ''Error: connection refused'' = ''connection refused''"
  by code_simp

definition marker_text :: string where
  "marker_text = normalizeFailureShape (collapsedFailureMarker ''connection refused'')"

lemma marker_shape: "marker_text \<noteq> [] \<and> marker_text \<noteq> ''connection refused''"
  by code_simp

definition swept_round :: "string \<Rightarrow> string \<Rightarrow> Message list" where
  "swept_round i content =
     [\<lparr>ms_calls = [\<lparr>tc_id = i, tc_name = ''fetch'', tc_args = []\<rparr>], ms_results = []\<rparr>,
      \<lparr>ms_calls = [], ms_results = [(refused i)\<lparr>tr_content := content\<rparr>]\<rparr>]"

definition swept_storm :: "Message list" where
  "swept_storm = round_of ''1'' ''fetch'' @ swept_round ''2'' (collapsedFailureMarker ''connection refused'')
     @ swept_round ''3'' (collapsedFailureMarker ''connection refused'')
     @ swept_round ''4'' (collapsedFailureMarker ''connection refused'') @ round_of ''5'' ''fetch''"

lemmas storm_simps = storm_def round_of_def refused_def swept_storm_def swept_round_def

lemma storm_positions:
  "positions storm = [(1, 0), (3, 0), (5, 0), (7, 0), (9, 0)]" "positions swept_storm = [(1, 0), (3, 0), (5, 0), (7, 0), (9, 0)]"
  by (simp_all add: positions_def storm_simps)

lemma storm_results:
  "result_at storm (1, 0) = refused ''1''" "result_at storm (3, 0) = refused ''2''" "result_at storm (5, 0) = refused ''3''"
  "result_at storm (7, 0) = refused ''4''" "result_at storm (9, 0) = refused ''5''"
  "result_at swept_storm (1, 0) = refused ''1''" "result_at swept_storm (9, 0) = refused ''5''"
  "result_at swept_storm (3, 0) = (refused ''2'')\<lparr>tr_content := collapsedFailureMarker ''connection refused''\<rparr>"
  "result_at swept_storm (5, 0) = (refused ''3'')\<lparr>tr_content := collapsedFailureMarker ''connection refused''\<rparr>"
  "result_at swept_storm (7, 0) = (refused ''4'')\<lparr>tr_content := collapsedFailureMarker ''connection refused''\<rparr>"
  by (simp_all add: result_at_def storm_simps)

theorem markers_are_collapsed_again:
  "collapseIncomingFailureStreaks (\<lambda>shapes. shapes) storm = (3, swept_storm)
   \<and> fst (collapseIncomingFailureStreaks (\<lambda>shapes. shapes) swept_storm) = 1
   \<and> tr_content (result_at (snd (collapseIncomingFailureStreaks (\<lambda>shapes. shapes) swept_storm)) (5, 0)) = collapsedFailureMarker marker_text"
proof -
  have s1: "streaks storm = [''connection refused'']"
    by (simp add: streaks_def shape_counts_def storm_simps refused_shape errShapeCollapseAt_def)
  have f1: "filter (\<lambda>p. has_shape ''connection refused'' (result_at storm p)) (positions storm) = positions storm"
    by (simp add: storm_positions storm_results [unfolded One_nat_def] has_shape_def refused_def refused_shape)
  have w1: "fold (rewrite_at (collapsedFailureMarker ''connection refused'')) [(3, 0), (5, 0), (7, 0)] storm = swept_storm"
    by code_simp
  have c1: "collapseRepeatedFailureResults storm ''connection refused'' True = (3, swept_storm)"
    unfolding collapseRepeatedFailureResults_def f1 Let_def using w1 by (simp add: storm_positions)
  have s2: "streaks swept_storm = [marker_text]"
    using marker_shape marker_shape [THEN conjunct2, THEN not_sym]
    by (simp add: Let_def streaks_def shape_counts_def storm_simps refused_shape errShapeCollapseAt_def marker_text_def [symmetric])
  have f2: "filter (\<lambda>p. has_shape marker_text (result_at swept_storm p)) (positions swept_storm) = [(3, 0), (5, 0), (7, 0)]"
    using marker_shape
    by (auto simp: storm_positions storm_results [unfolded One_nat_def] has_shape_def refused_def refused_shape marker_text_def [symmetric])
  have c2: "collapseRepeatedFailureResults swept_storm marker_text True =
      (1, rewrite_at (collapsedFailureMarker marker_text) (5, 0) swept_storm)"
    unfolding collapseRepeatedFailureResults_def f2 Let_def by simp
  show ?thesis
    by (simp add: collapseIncomingFailureStreaks_def collapse_in_order_def s1 c1 s2 c2)
      (simp add: result_at_def rewrite_at_def rewrite_result_def storm_simps numeral_nat)
qed

text \<open>A failure another tool had with the same text is marked as this tool's, and as resolved.\<close>

theorem another_tools_failure_is_retired:
  "tr_content (result_at (snd (retireResolvedFailureResults (round_of ''1'' ''fetch'' @ round_of ''2'' ''mail'')
       [normalizeFailureShape (tr_content (refused ''1''))] ''fetch'')) (3, 0)) = resolvedFailureMarker ''fetch''"
  by code_simp

text \<open>
  A failure whose stamp runs out while a turn is on, and that was not tried in it, is saved as if it had
  just been seen.
\<close>

theorem a_carried_failure_renews_its_lease:
  "snd (loadFailureMemory (Some [(''job'', remembered)]) (failureMemoryTTL - 1) ''job'' [] 2) = [(''fetch'', 2)]
   \<and> (case saveFailureMemory (failureMemoryTTL + 1) ''job'' [(''fetch'', 2)] (Some [(''job'', remembered)]) of
        Some m \<Rightarrow> map_option fm_seen (map_of m ''job'') | None \<Rightarrow> None) = Some [(''fetch'', failureMemoryTTL + 1)]"
  by code_simp

text \<open>
  The replay of the history counts on top of what was carried in, so a call with one failed result in its
  history starts the turn at the limit and gets no try.
\<close>

theorem a_remembered_call_gets_no_try:
  "count_of (seedRepeatFailFromHistory bare_args (round_of ''1'' ''fetch'')
       (snd (loadFailureMemory (Some [(''job'', remembered\<lparr>fm_counts := [(''fetch'' @ [CHR 0x00], 5)], fm_seen := []\<rparr>)]) 9 ''job'' [] 2)))
     (''fetch'' @ [CHR 0x00]) = int repeatFailLimit"
  by code_simp

end
