(* ===== verification/Tables.thy ===== *)
theory Tables
  imports Revisions
begin

text \<open>
  A table of the key-value store read row by row, as the queue and the scheduler read theirs: the loop over
  \<open>db.Keys\<close> that keeps what \<open>db.Get\<close> decodes. The locale \<open>kv_store\<close> of \<open>Revisions\<close> says what a lookup returns
  after a write; here it gives what the rows of a table are after one, and that a table sorted by a key no two
  rows share is determined by its rows.
\<close>

definition get_row :: "('s, 'm) Store \<Rightarrow> 's \<Rightarrow> string \<Rightarrow> string \<Rightarrow> 'm option" where
  "get_row S db t k = (case s_get S db t k of Some (SDef v) \<Rightarrow> Some v | _ \<Rightarrow> None)"

definition rows :: "('s, 'm) Store \<Rightarrow> 's \<Rightarrow> string \<Rightarrow> 'm list" where
  "rows S db t = List.map_filter (get_row S db t) (s_keys S db t)"

text \<open>Rows filed under an identifier they carry, with a number no two of them share.\<close>

definition filed :: "('m \<Rightarrow> string) \<Rightarrow> ('m \<Rightarrow> int) \<Rightarrow> ('s, 'm) Store \<Rightarrow> 's \<Rightarrow> string \<Rightarrow> bool" where
  "filed ident num S db t \<longleftrightarrow>
     (\<forall>k v. get_row S db t k = Some v \<longrightarrow> ident v = k)
     \<and> (\<forall>k v k1 v1. get_row S db t k = Some v \<longrightarrow> get_row S db t k1 = Some v1 \<longrightarrow> num v = num v1 \<longrightarrow> k = k1)"

lemma sorted_by_unique:
  fixes num :: "'m \<Rightarrow> int"
  assumes "sorted_wrt (\<lambda>a b. num a < num b) xs" "sorted_wrt (\<lambda>a b. num a < num b) ys" "set xs = set ys"
  shows "xs = ys"
proof -
  have "sorted_wrt (<) (map num xs)" "sorted_wrt (<) (map num ys)" using assms(1,2) by (simp_all add: sorted_wrt_map)
  then have m: "map num xs = map num ys" by (rule strict_sorted_equal [symmetric]) (simp add: assms(3))
  have "inj_on num (set xs)"
    using assms(1) by (auto simp: inj_on_def set_conv_nth sorted_wrt_iff_nth_less) (metis less_irrefl linorder_neqE_nat)
  then show ?thesis using m assms(3) by (metis inj_on_map_eq_map sup_idem)
qed

lemma sort_key_strict:
  fixes num :: "'m \<Rightarrow> int"
  assumes "distinct xs" "inj_on num (set xs)"
  shows "sorted_wrt (\<lambda>a b. num a < num b) (sort_key num xs)"
proof -
  have "distinct (map num (sort_key num xs))" using assms by (simp add: distinct_map)
  then have "sorted_wrt (<) (map num (sort_key num xs))" by (simp add: strict_sorted_iff)
  then show ?thesis by (simp add: sorted_wrt_map)
qed

lemma set_map_filter: "set (List.map_filter f ks) = {v. \<exists>k \<in> set ks. f k = Some v}"
  by (force simp: map_filter_def)

lemma distinct_map_filter:
  assumes "distinct ks" "\<And>k v. f k = Some v \<Longrightarrow> ident v = k"
  shows "distinct (List.map_filter f ks)"
  using assms(1)
proof (induction ks)
  case (Cons k ks)
  have "v \<notin> set (List.map_filter f ks)" if "f k = Some v" for v
    using Cons.prems assms(2) [OF that] by (auto simp: map_filter_def dest: assms(2))
  then show ?case using Cons by (auto simp: map_filter_def split: option.splits)
qed (simp add: map_filter_def)

context kv_store begin

lemma get_row_set: "get_row S (s_set S db t k (SDef v)) t k' = (if k' = k then Some v else get_row S db t k')"
  by (simp add: get_row_def get_set)

lemma get_row_unset: "get_row S (s_unset S db t k) t k' = (if k' = k then None else get_row S db t k')"
  by (simp add: get_row_def get_unset)

lemma get_row_other: "t' \<noteq> t \<Longrightarrow> get_row S (s_set S db t k v) t' k' = get_row S db t' k'"
  "t' \<noteq> t \<Longrightarrow> get_row S (s_unset S db t k) t' k' = get_row S db t' k'"
  by (simp_all add: get_row_def get_set get_unset)

lemma set_rows: "set (rows S db t) = {v. \<exists>k. get_row S db t k = Some v}"
proof -
  have "k \<in> set (s_keys S db t)" if "get_row S db t k = Some v" for k v
    using that keys_get by (auto simp: get_row_def split: option.splits)
  then show ?thesis by (auto simp: rows_def set_map_filter)
qed

lemma rows_distinct:
  assumes "\<And>k v. get_row S db t k = Some v \<Longrightarrow> ident v = k"
  shows "distinct (rows S db t)"
  unfolding rows_def using keys_distinct assms by (rule distinct_map_filter)

lemma rows_of:
  assumes "filed ident num S db t"
  shows "distinct (rows S db t)" "inj_on num (set (rows S db t))" "inj_on ident (set (rows S db t))"
proof -
  show "distinct (rows S db t)" by (rule rows_distinct) (use assms in \<open>auto simp: filed_def\<close>)
  show "inj_on num (set (rows S db t))"
    using assms by (auto simp: inj_on_def set_rows filed_def) (metis option.inject)
  show "inj_on ident (set (rows S db t))" using assms by (auto simp: inj_on_def set_rows filed_def)
qed

end

end
