(* ===== verification/PersistentQueue.thy ===== *)
theory PersistentQueue
  imports Tables
begin

text \<open>
  The queue that survives a restart (core/pqueue.go): entries in a table of the store, each with the order it was
  given when it was added. The store is the parameter of \<open>Revisions\<close> and \<open>Tables\<close>; the encoded parameters are
  an argument, and a handler that is called is an entry of the list \<open>QueueRestore\<close> returns. Logging is left
  out but for the eight bytes of the identifier it prints, which a shorter identifier does not have.
\<close>

section \<open>Entries and operations\<close>

record QueueEntry =
  qe_id :: string
  qe_app :: string
  qe_label :: string
  qe_params :: "string option"
  qe_notify :: "string list"
  qe_order :: int

definition pqueueTable :: string where "pqueueTable = ''persistent_queue''"

text \<open>\<open>id[:8]\<close> is the whole program's panic when the identifier is shorter.\<close>

definition id_prints :: "string \<Rightarrow> bool" where
  "id_prints i \<longleftrightarrow> 8 \<le> length i"

definition max_order :: "QueueEntry list \<Rightarrow> int" where
  "max_order es = foldl (\<lambda>m e. if qe_order e > m then qe_order e else m) 0 es"

definition QueueAdd ::
    "('s, QueueEntry) Store \<Rightarrow> 's \<Rightarrow> string \<Rightarrow> string \<Rightarrow> string \<Rightarrow> string option \<Rightarrow> string \<Rightarrow> bool \<times> 's" where
  "QueueAdd S db i app label raw notify_user =
     (let users = (if notify_user \<noteq> [] then [notify_user] else []);
          entry = \<lparr>qe_id = i, qe_app = app, qe_label = label, qe_params = raw, qe_notify = users,
                   qe_order = max_order (rows S db pqueueTable) + 1\<rparr>
      in (id_prints i, s_set S db pqueueTable i (SDef entry)))"

definition QueueRemove :: "('s, QueueEntry) Store \<Rightarrow> 's \<Rightarrow> string \<Rightarrow> bool \<times> 's" where
  "QueueRemove S db i = (id_prints i, s_unset S db pqueueTable i)"

definition QueueGetNotifyUsers :: "('s, QueueEntry) Store \<Rightarrow> 's \<Rightarrow> string \<Rightarrow> string list" where
  "QueueGetNotifyUsers S db i = (case get_row S db pqueueTable i of None \<Rightarrow> [] | Some e \<Rightarrow> qe_notify e)"

definition QueueHasNotifyUser :: "('s, QueueEntry) Store \<Rightarrow> 's \<Rightarrow> string \<Rightarrow> string \<Rightarrow> bool" where
  "QueueHasNotifyUser S db i username \<longleftrightarrow> username \<in> set (QueueGetNotifyUsers S db i)"

definition QueueEntries :: "('s, QueueEntry) Store \<Rightarrow> 's \<Rightarrow> QueueEntry list" where
  "QueueEntries S db = sort_key qe_order (rows S db pqueueTable)"

text \<open>What a restart hands to the handlers, and whether it got through the list.\<close>

fun restore_each :: "string list \<Rightarrow> QueueEntry list \<Rightarrow> QueueEntry list \<times> bool" where
  "restore_each apps [] = ([], True)"
| "restore_each apps (e # es) =
     (if \<not> id_prints (qe_id e) then ([], False)
      else case restore_each apps es of (called, ok) \<Rightarrow> ((if qe_app e \<in> set apps then e # called else called), ok))"

definition QueueRestore :: "('s, QueueEntry) Store \<Rightarrow> 's \<Rightarrow> string list \<Rightarrow> QueueEntry list \<times> bool" where
  "QueueRestore S db apps = restore_each apps (QueueEntries S db)"

section \<open>The queue as a list\<close>

text \<open>What the table promises: the items in the order they were last added.\<close>

definition item :: "QueueEntry \<Rightarrow> QueueEntry" where
  "item e = e\<lparr>qe_order := 0\<rparr>"

definition items :: "('s, QueueEntry) Store \<Rightarrow> 's \<Rightarrow> QueueEntry list" where
  "items S db = map item (QueueEntries S db)"

datatype queue_op = QAdd string string string "string option" string | QRemove string

fun run_op :: "('s, QueueEntry) Store \<Rightarrow> queue_op \<Rightarrow> 's \<Rightarrow> 's" where
  "run_op S (QAdd i app label raw user) db = snd (QueueAdd S db i app label raw user)"
| "run_op S (QRemove i) db = snd (QueueRemove S db i)"

fun list_op :: "queue_op \<Rightarrow> QueueEntry list \<Rightarrow> QueueEntry list" where
  "list_op (QAdd i app label raw user) es =
     filter (\<lambda>e. qe_id e \<noteq> i) es @
       [\<lparr>qe_id = i, qe_app = app, qe_label = label, qe_params = raw,
         qe_notify = if user \<noteq> [] then [user] else [], qe_order = 0\<rparr>]"
| "list_op (QRemove i) es = filter (\<lambda>e. qe_id e \<noteq> i) es"

abbreviation queued :: "('s, QueueEntry) Store \<Rightarrow> 's \<Rightarrow> bool" where
  "queued S db \<equiv> filed qe_id qe_order S db pqueueTable"

lemma max_order_max: "max_order es = foldl (\<lambda>m e. max m (qe_order e)) 0 es"
  unfolding max_order_def by (rule foldl_cong) auto

lemma foldl_max_ge: "m \<le> foldl (\<lambda>m e. max m (f e)) m es"
  for m :: int by (induction es arbitrary: m) (auto intro: order_trans [OF max.cobounded1])

lemma foldl_max_mem: "e \<in> set es \<Longrightarrow> f e \<le> foldl (\<lambda>m e. max m (f e)) m es"
  for m :: int
proof (induction es arbitrary: m)
  case (Cons a es)
  then show ?case using foldl_max_ge [of "max m (f a)" f es] by auto
qed simp

lemma max_order_ge: "e \<in> set es \<Longrightarrow> qe_order e \<le> max_order es"
  by (simp add: max_order_max foldl_max_mem)

locale queue_store = kv_store S for S :: "('s, QueueEntry) Store"
begin

lemma entries_sorted:
  assumes "queued S db"
  shows "sorted_wrt (\<lambda>a b. qe_order a < qe_order b) (QueueEntries S db)"
  unfolding QueueEntries_def using rows_of(1,2) [OF assms] by (rule sort_key_strict)

lemma set_entries: "set (QueueEntries S db) = {v. \<exists>k. get_row S db pqueueTable k = Some v}"
  by (simp add: QueueEntries_def set_rows)

lemma filed_entries: "queued S db \<Longrightarrow> get_row S db pqueueTable k = Some e \<longleftrightarrow> e \<in> set (QueueEntries S db) \<and> qe_id e = k"
  by (auto simp: set_entries filed_def)

lemma queued_add:
  assumes "queued S db"
  shows "queued S (snd (QueueAdd S db i app label raw user))"
proof -
  have "qe_order v < max_order (rows S db pqueueTable) + 1" if "get_row S db pqueueTable k = Some v" for k v
    using max_order_ge [of v "rows S db pqueueTable"] that by (auto simp: set_rows)
  then show ?thesis using assms by (fastforce simp: filed_def QueueAdd_def get_row_set)
qed

lemma queued_remove:
  assumes "queued S db" shows "queued S (snd (QueueRemove S db i))"
  using assms by (auto simp: filed_def QueueRemove_def get_row_unset)

lemma entries_add:
  assumes "queued S db"
  shows "QueueEntries S (snd (QueueAdd S db i app label raw user)) =
    filter (\<lambda>e. qe_id e \<noteq> i) (QueueEntries S db) @
      [\<lparr>qe_id = i, qe_app = app, qe_label = label, qe_params = raw, qe_notify = if user \<noteq> [] then [user] else [],
        qe_order = max_order (rows S db pqueueTable) + 1\<rparr>]"
proof (rule sorted_by_unique [where num = qe_order])
  show "sorted_wrt (\<lambda>a b. qe_order a < qe_order b) (QueueEntries S (snd (QueueAdd S db i app label raw user)))"
    by (rule entries_sorted [OF queued_add [OF assms]])
  have "qe_order e < max_order (rows S db pqueueTable) + 1" if "e \<in> set (QueueEntries S db)" for e
    using max_order_ge [of e "rows S db pqueueTable"] that by (simp add: QueueEntries_def)
  then show "sorted_wrt (\<lambda>a b. qe_order a < qe_order b) (filter (\<lambda>e. qe_id e \<noteq> i) (QueueEntries S db) @
      [\<lparr>qe_id = i, qe_app = app, qe_label = label, qe_params = raw, qe_notify = if user \<noteq> [] then [user] else [],
        qe_order = max_order (rows S db pqueueTable) + 1\<rparr>])"
    using sorted_wrt_filter [OF entries_sorted [OF assms]] by (simp add: sorted_wrt_append)
  show "set (QueueEntries S (snd (QueueAdd S db i app label raw user))) =
    set (filter (\<lambda>e. qe_id e \<noteq> i) (QueueEntries S db) @
      [\<lparr>qe_id = i, qe_app = app, qe_label = label, qe_params = raw, qe_notify = if user \<noteq> [] then [user] else [],
        qe_order = max_order (rows S db pqueueTable) + 1\<rparr>])"
    using assms by (auto simp: set_entries QueueAdd_def get_row_set filed_def Let_def split: if_splits) 
qed

lemma entries_remove:
  assumes "queued S db"
  shows "QueueEntries S (snd (QueueRemove S db i)) = filter (\<lambda>e. qe_id e \<noteq> i) (QueueEntries S db)"
proof (rule sorted_by_unique [where num = qe_order])
  show "sorted_wrt (\<lambda>a b. qe_order a < qe_order b) (QueueEntries S (snd (QueueRemove S db i)))"
    by (rule entries_sorted [OF queued_remove [OF assms]])
  show "sorted_wrt (\<lambda>a b. qe_order a < qe_order b) (filter (\<lambda>e. qe_id e \<noteq> i) (QueueEntries S db))"
    by (rule sorted_wrt_filter [OF entries_sorted [OF assms]])
  show "set (QueueEntries S (snd (QueueRemove S db i))) = set (filter (\<lambda>e. qe_id e \<noteq> i) (QueueEntries S db))"
    using assms by (auto simp: set_entries QueueRemove_def get_row_unset filed_def)
qed

lemma items_op:
  assumes "queued S db"
  shows "items S (run_op S oper db) = list_op oper (items S db) \<and> queued S (run_op S oper db)"
proof (cases oper)
  case (QAdd i app label raw user)
  then show ?thesis using entries_add [OF assms] queued_add [OF assms] by (simp add: items_def item_def filter_map o_def)
next
  case (QRemove i)
  then show ?thesis using entries_remove [OF assms] queued_remove [OF assms] by (simp add: items_def item_def filter_map o_def)
qed

lemma items_run:
  assumes "queued S db"
  shows "items S (fold (run_op S) ops db) = fold list_op ops (items S db) \<and> queued S (fold (run_op S) ops db)"
  using assms by (induction ops arbitrary: db) (simp_all add: items_op)

lemma items_from_empty:
  assumes "rows S db pqueueTable = []"
  shows "items S (fold (run_op S) ops db) = fold list_op ops []"
proof -
  have "get_row S db pqueueTable k = None" for k using assms set_rows [of db pqueueTable] by (cases "get_row S db pqueueTable k") auto
  then have "queued S db" by (simp add: filed_def)
  then show ?thesis using items_run assms by (simp add: items_def QueueEntries_def)
qed

end

interpretation mem_queue: queue_store mem_store
  by unfold_locales

section \<open>Properties\<close>

text \<open>C14: Over any key-value store the queue's table implements a list: from an empty table, whatever was added and
  removed, the entries read back in order are what appending and deleting would have left, and an item added
  again moves to the end.\<close>

theorem the_queue_is_a_list:
  assumes "kv_store S" "rows S db pqueueTable = []"
  shows "items S (fold (run_op S) ops db) = fold list_op ops []"
  using assms by (intro queue_store.items_from_empty queue_store.intro)

definition busy_day :: "queue_op list" where
  "busy_day = [QAdd ''job-000a'' ''a'' ''first'' None [], QAdd ''job-000b'' ''b'' ''next'' None ''ann'',
     QAdd ''job-000a'' ''a'' ''again'' None [], QRemove ''job-000b'']"

theorem the_queue_is_a_list_witness:
  "map (\<lambda>e. (qe_id e, qe_label e)) (items mem_store (fold (run_op mem_store) busy_day [])) = [(''job-000a'', ''again'')]"
proof -
  have "rows (mem_store :: (QueueEntry mem, QueueEntry) Store) [] pqueueTable = []"
    by (simp add: rows_def mem_store_def map_filter_def)
  from the_queue_is_a_list [OF mem.kv_store_axioms this, of busy_day]
  show ?thesis by (simp add: busy_day_def)
qed

lemma restore_each_filter:
  "list_all (\<lambda>e. id_prints (qe_id e)) es \<Longrightarrow> restore_each apps es = (filter (\<lambda>e. qe_app e \<in> set apps) es, True)"
  by (induction es) auto

text \<open>A restart calls the handlers in the order of the queue, once for each entry whose application has one,
  when every identifier has eight characters; a shorter one is written to the table and then stops the
  program, at every restart again.\<close>

theorem a_restart_keeps_the_order:
  "(list_all (\<lambda>e. id_prints (qe_id e)) (QueueEntries S db) \<longrightarrow>
      QueueRestore S db apps = (filter (\<lambda>e. qe_app e \<in> set apps) (QueueEntries S db), True))
   \<and> (list_ex (\<lambda>e. \<not> id_prints (qe_id e)) (QueueEntries S db) \<longrightarrow> snd (QueueRestore S db apps) = False)"
proof (intro conjI impI)
  assume "list_all (\<lambda>e. id_prints (qe_id e)) (QueueEntries S db)"
  then show "QueueRestore S db apps = (filter (\<lambda>e. qe_app e \<in> set apps) (QueueEntries S db), True)"
    by (simp add: QueueRestore_def restore_each_filter)
next
  have "list_ex (\<lambda>e. \<not> id_prints (qe_id e)) es \<Longrightarrow> snd (restore_each apps es) = False" for es
    by (induction es) (auto split: prod.splits)
  then show "list_ex (\<lambda>e. \<not> id_prints (qe_id e)) (QueueEntries S db) \<Longrightarrow> snd (QueueRestore S db apps) = False"
    by (simp add: QueueRestore_def)
qed

theorem a_restart_keeps_the_order_witness:
  "snd (QueueRestore mem_store (run_op mem_store (QAdd ''x'' ''a'' ''short'' None []) []) [''a'']) = False"
proof -
  have "list_ex (\<lambda>e. \<not> id_prints (qe_id e)) (QueueEntries mem_store (run_op mem_store (QAdd ''x'' ''a'' ''short'' None []) []))"
    by code_simp
  then show ?thesis using a_restart_keeps_the_order [of mem_store "run_op mem_store (QAdd ''x'' ''a'' ''short'' None []) []" "[''a'']"] by simp
qed

end
