(* ===== verification/RateLimits.thy ===== *)
theory RateLimits
  imports GoTime "HOL-Library.AList"
begin

text \<open>
  The ceiling on work a caller can demand (core/ratelimit.go): \<open>RateLimiter\<close> counts events per key in
  windows that open with a key's first event. The clock \<open>Allow\<close> and \<open>Spent\<close> read is an argument, in
  nanoseconds; a nil limiter and the HTTP helpers are left out. The lemmas follow one key through a run of
  calls as the windows it has had, newest first, and bound what any stretch of a window's length can hold.
\<close>

declare map_of_eq_Some_iff [simp del]

section \<open>The limiter\<close>

record rateWindow =
  rw_start :: int
  rw_n :: int

record RateLimiter =
  rl_windows :: "(string \<times> rateWindow) list"
  rl_limit :: int
  rl_window :: int
  rl_maxKeys :: nat

definition defaultRateLimiterKeys :: nat where "defaultRateLimiterKeys = 4096"

definition NewRateLimiter :: "int \<Rightarrow> int \<Rightarrow> RateLimiter" where
  "NewRateLimiter limit window =
     \<lparr>rl_windows = [], rl_limit = limit, rl_window = if window \<le> 0 then minute else window,
      rl_maxKeys = defaultRateLimiterKeys\<rparr>"

definition SetLimit :: "int \<Rightarrow> RateLimiter \<Rightarrow> RateLimiter" where
  "SetLimit limit r = r\<lparr>rl_limit := limit\<rparr>"

definition live :: "int \<Rightarrow> RateLimiter \<Rightarrow> rateWindow \<Rightarrow> bool" where
  "live now r w \<longleftrightarrow> now - rw_start w < rl_window r"

definition swept :: "int \<Rightarrow> RateLimiter \<Rightarrow> RateLimiter" where
  "swept now r = r\<lparr>rl_windows := filter (\<lambda>(k, w). live now r w) (rl_windows r)\<rparr>"

text \<open>An event against a window: counted when there is room in it.\<close>

definition count_in :: "string \<Rightarrow> rateWindow \<Rightarrow> RateLimiter \<Rightarrow> bool \<times> RateLimiter" where
  "count_in key w r =
     (if rw_n w \<ge> rl_limit r then (False, r\<lparr>rl_windows := AList.update key w (rl_windows r)\<rparr>)
      else (True, r\<lparr>rl_windows := AList.update key (w\<lparr>rw_n := rw_n w + 1\<rparr>) (rl_windows r)\<rparr>))"

definition Allow :: "string \<Rightarrow> int \<Rightarrow> RateLimiter \<Rightarrow> bool \<times> RateLimiter" where
  "Allow key now r =
     (if rl_limit r \<le> 0 \<or> key = [] then (True, r)
      else
        (let fresh = \<lparr>rw_start = now, rw_n = 0\<rparr> in
         case map_of (rl_windows r) key of
           Some w \<Rightarrow> count_in key (if live now r w then w else fresh) r
         | None \<Rightarrow>
             (let r1 = (if rl_maxKeys r \<le> length (rl_windows r) then swept now r else r) in
              if rl_maxKeys r \<le> length (rl_windows r1) then (False, r1) else count_in key fresh r1)))"

definition Spent :: "string \<Rightarrow> int \<Rightarrow> RateLimiter \<Rightarrow> bool" where
  "Spent key now r =
     (if rl_limit r \<le> 0 \<or> key = [] then False
      else case map_of (rl_windows r) key of None \<Rightarrow> False | Some w \<Rightarrow> live now r w \<and> rw_n w \<ge> rl_limit r)"

section \<open>The map stays bounded\<close>

definition bounded :: "RateLimiter \<Rightarrow> bool" where
  "bounded r \<longleftrightarrow> distinct (map fst (rl_windows r)) \<and> length (rl_windows r) \<le> rl_maxKeys r"

lemma length_update: "length (AList.update k v xs) = (if k \<in> fst ` set xs then length xs else Suc (length xs))"
  by (induction xs) auto

lemma count_in_config [simp]:
  "rl_limit (snd (count_in key w r)) = rl_limit r" "rl_window (snd (count_in key w r)) = rl_window r"
  "rl_maxKeys (snd (count_in key w r)) = rl_maxKeys r"
  by (simp_all add: count_in_def)

lemma swept_config [simp]:
  "rl_limit (swept now r) = rl_limit r" "rl_window (swept now r) = rl_window r" "rl_maxKeys (swept now r) = rl_maxKeys r"
  by (simp_all add: swept_def)

lemma Allow_config [simp]:
  "rl_limit (snd (Allow key now r)) = rl_limit r" "rl_window (snd (Allow key now r)) = rl_window r"
  "rl_maxKeys (snd (Allow key now r)) = rl_maxKeys r"
  by (simp_all add: Allow_def Let_def split: option.splits)

lemma swept_bounded: "bounded r \<Longrightarrow> bounded (swept now r)"
  by (auto simp: bounded_def swept_def distinct_keys_filter intro: le_trans [OF length_filter_le])

lemma count_in_bounded:
  assumes "bounded r" "key \<in> fst ` set (rl_windows r) \<or> length (rl_windows r) < rl_maxKeys r"
  shows "bounded (snd (count_in key w r))"
  using assms by (auto simp: bounded_def count_in_def distinct_update length_update)

lemma Allow_bounded:
  assumes "bounded r" shows "bounded (snd (Allow key now r))"
proof (cases "map_of (rl_windows r) key")
  case None
  let ?r1 = "if rl_maxKeys r \<le> length (rl_windows r) then swept now r else r"
  have b: "bounded ?r1" using assms swept_bounded by simp
  have "rl_maxKeys ?r1 = rl_maxKeys r" by simp
  with b have "\<not> rl_maxKeys r \<le> length (rl_windows ?r1) \<Longrightarrow> bounded (snd (count_in key w ?r1))" for w
    by (intro count_in_bounded) auto
  with b None assms show ?thesis by (auto simp: Allow_def Let_def)
next
  case (Some w)
  then have "key \<in> fst ` set (rl_windows r)" by (force dest: map_of_SomeD)
  with assms Some show ?thesis by (auto simp: Allow_def Let_def intro!: count_in_bounded)
qed

section \<open>What a stretch of time can hold\<close>

text \<open>The times at which a run of calls let events of one key through.\<close>

fun allowed_at :: "string \<Rightarrow> (string \<times> int) list \<Rightarrow> RateLimiter \<Rightarrow> int list" where
  "allowed_at k [] r = []"
| "allowed_at k ((key, now) # es) r =
     (case Allow key now r of (ok, r1) \<Rightarrow> (if ok \<and> key = k then [now] else []) @ allowed_at k es r1)"

text \<open>The windows a key has had, newest first, each with its start and the events it counted.\<close>

type_synonym past = "(int \<times> int list) list"

definition window_ok :: "int \<Rightarrow> int \<Rightarrow> int \<times> int list \<Rightarrow> bool" where
  "window_ok L W = (\<lambda>(s, es). es \<noteq> [] \<and> hd es = s \<and> int (length es) \<le> L \<and> (\<forall>t \<in> set es. s \<le> t \<and> t < s + W))"

definition past_ok :: "int \<Rightarrow> int \<Rightarrow> past \<Rightarrow> bool" where
  "past_ok L W ws \<longleftrightarrow> list_all (window_ok L W) ws \<and> sorted_wrt (\<lambda>(s, _) (s1, _). s1 + W \<le> s) ws"

definition tracks :: "string \<Rightarrow> int \<Rightarrow> past \<Rightarrow> RateLimiter \<Rightarrow> bool" where
  "tracks k now ws r \<longleftrightarrow> past_ok (rl_limit r) (rl_window r) ws
     \<and> distinct (map fst (rl_windows r)) \<and> (\<forall>(s, es) \<in> set ws. s \<le> now)
     \<and> (case map_of (rl_windows r) k of
          None \<Rightarrow> (\<forall>(s, es) \<in> set ws. s + rl_window r \<le> now)
        | Some w \<Rightarrow> (\<exists>es rest. ws = (rw_start w, es) # rest \<and> rw_n w = int (length es)))"

definition held :: "int \<Rightarrow> int \<Rightarrow> int list \<Rightarrow> nat" where
  "held a W ts = length (filter (\<lambda>t. a \<le> t \<and> t < a + W) ts)"

lemma held_append [simp]: "held a W (xs @ ys) = held a W xs + held a W ys"
  by (simp add: held_def)

lemma held_le: "held a W ts \<le> length ts"
  by (simp add: held_def)

lemma held_zero: "\<forall>t \<in> set ts. t < a \<or> a + W \<le> t \<Longrightarrow> held a W ts = 0"
  by (auto simp: held_def filter_empty_conv)

lemma held_pos: "0 < held a W ts \<Longrightarrow> \<exists>t \<in> set ts. a \<le> t \<and> t < a + W"
  by (rule ccontr) (use held_zero [of ts a W] in force)

lemma held_late_start:
  assumes "window_ok L W (s, es)" "s < a"
  shows "int (held a W es) \<le> L - 1"
proof -
  obtain t ts where es: "es = t # ts" "t = s" "int (length ts) \<le> L - 1"
    using assms(1) by (cases es) (auto simp: window_ok_def)
  have "held a W es = held a W ts" using es assms(2) by (simp add: held_def)
  then show ?thesis using held_le [of a W ts] es by simp
qed

lemma past_bound:
  assumes "past_ok L W ws" "0 < W" "0 < L"
  shows "int (sum_list (map (\<lambda>(s, es). held a W es) ws)) \<le> 2 * L - 1"
proof -
  let ?hit = "\<lambda>(s, es). 0 < held a W es"
  let ?ws = "filter ?hit ws"
  have sum: "sum_list (map (\<lambda>(s, es). held a W es) ws) = sum_list (map (\<lambda>(s, es). held a W es) ?ws)"
    by (induction ws) auto
  have ok: "\<And>s es. (s, es) \<in> set ?ws \<Longrightarrow> window_ok L W (s, es) \<and> 0 < held a W es"
    using assms(1) by (auto simp: past_ok_def list_all_iff)
  have srt: "sorted_wrt (\<lambda>(s, _) (s1, _). s1 + W \<le> s) ?ws"
    using assms(1) sorted_wrt_filter by (auto simp: past_ok_def)
  have le: "int (held a W es) \<le> L" if m: "(s, es) \<in> set ?ws" for s es
  proof -
    have "int (length es) \<le> L" using ok [OF m] by (simp add: window_ok_def)
    then show ?thesis using held_le [of a W es] by linarith
  qed
  have hit: "a < s + W \<and> s < a + W" if m: "(s, es) \<in> set ?ws" for s es
  proof -
    obtain x where "x \<in> set es" "a \<le> x" "x < a + W" using ok [OF m] held_pos by blast
    then show ?thesis using ok [OF m] by (auto simp: window_ok_def)
  qed
  consider "?ws = []" | p where "?ws = [p]" | p q where "?ws = [p, q]" | p q u rest where "?ws = p # q # u # rest"
    by (metis list.exhaust)
  then show ?thesis
  proof cases
    case 1 show ?thesis unfolding sum 1 using assms(3) by simp
  next
    case (2 p) show ?thesis unfolding sum using 2 assms(3) le [of "fst p" "snd p"] by (cases p) simp
  next
    case (3 p q)
    obtain s es s1 es1 where pq: "p = (s, es)" "q = (s1, es1)" by (cases p; cases q)
    have "s1 + W \<le> s" using srt 3 pq by simp
    moreover have "s < a + W" using hit [of s es] 3 pq by simp
    ultimately have "s1 < a" by simp
    then have "int (held a W es1) \<le> L - 1" using ok [of s1 es1] 3 pq held_late_start [of L W s1 es1 a] by simp
    then show ?thesis unfolding sum using 3 pq le [of s es] by simp
  next
    case (4 p q u rest)
    obtain s es s1 es1 s2 es2 where pq: "p = (s, es)" "q = (s1, es1)" "u = (s2, es2)" by (cases p; cases q; cases u)
    have "s1 + W \<le> s" "s2 + W \<le> s1" using srt 4 pq by simp_all
    moreover have "s < a + W" "a < s2 + W" using hit [of s es] hit [of s2 es2] 4 pq by simp_all
    ultimately show ?thesis by simp
  qed
qed

text \<open>Every call keeps the past of every key, with its own event added where it was let through.\<close>

lemma tracks_later:
  assumes "tracks k now ws r" "now \<le> now1" shows "tracks k now1 ws r"
proof -
  have "\<forall>(s, es) \<in> set ws. s \<le> now \<Longrightarrow> \<forall>(s, es) \<in> set ws. s \<le> now1"
    "\<forall>(s, es) \<in> set ws. s + W \<le> now \<Longrightarrow> \<forall>(s, es) \<in> set ws. s + W \<le> now1" for W
    using assms(2) by fastforce+
  then show ?thesis using assms(1) by (simp add: tracks_def split: option.splits)
qed

lemma all_past:
  assumes "past_ok L W ((s, es) # rest)" "s + W \<le> now" "0 < W"
  shows "\<forall>(s, es) \<in> set ((s, es) # rest). s + W \<le> now"
proof (intro ballI)
  fix p assume "p \<in> set ((s, es) # rest)"
  with assms show "case p of (s, es) \<Rightarrow> s + W \<le> now" by (cases p) (fastforce simp: past_ok_def)
qed

lemma live_swept:
  assumes "distinct (map fst (rl_windows r))"
  shows "map_of (rl_windows (swept now r)) k =
    (case map_of (rl_windows r) k of None \<Rightarrow> None | Some w \<Rightarrow> if live now r w then Some w else None)"
proof -
  have "map_of (filter (\<lambda>(k, w). P w) m) k = (case map_of m k of None \<Rightarrow> None | Some w \<Rightarrow> if P w then Some w else None)"
    if "distinct (map fst m)" for P :: "rateWindow \<Rightarrow> bool" and m
    using that by (induction m) (auto simp: map_of_eq_None_iff split: option.splits)
  from this [OF assms, of "live now r"] show ?thesis by (simp add: swept_def)
qed

lemma tracks_swept:
  assumes t: "tracks k now ws r" and "0 < rl_window r"
  shows "tracks k now ws (swept now r)"
proof -
  have d: "distinct (map fst (rl_windows r))" using t by (simp add: tracks_def)
  then have d1: "distinct (map fst (rl_windows (swept now r)))" by (simp add: swept_def distinct_keys_filter)
  show ?thesis
  proof (cases "map_of (rl_windows r) k")
    case None
    then show ?thesis using t d1 live_swept [OF d, of now k] by (simp add: tracks_def)
  next
    case (Some w)
    then obtain es rest where ws: "ws = (rw_start w, es) # rest" using t by (auto simp: tracks_def)
    show ?thesis
    proof (cases "live now r w")
      case True
      then show ?thesis using t d1 Some live_swept [OF d, of now k] by (simp add: tracks_def)
    next
      case False
      then have "rw_start w + rl_window r \<le> now" by (simp add: live_def)
      then have "\<forall>(s, es) \<in> set ws. s + rl_window r \<le> now"
        using all_past t assms(2) unfolding ws tracks_def by blast
      then show ?thesis using t d1 Some False live_swept [OF d, of now k] by (simp add: tracks_def)
    qed
  qed
qed

abbreviation past_held :: "int \<Rightarrow> int \<Rightarrow> past \<Rightarrow> nat" where
  "past_held a W ws \<equiv> sum_list (map (\<lambda>(s, es). held a W es) ws)"

lemma tracks_other:
  assumes "tracks k now ws r" "key \<noteq> k"
  shows "tracks k now ws (snd (count_in key w r))"
  using assms by (cases "map_of (rl_windows r) k") (simp_all add: tracks_def count_in_def map_of_update_eq distinct_update)

lemma fresh_window:
  assumes "past_ok L W ws" "\<forall>(s, es) \<in> set ws. s + W \<le> now" "0 < L" "0 < W"
  shows "past_ok L W ((now, [now]) # ws)"
  using assms by (auto simp: past_ok_def window_ok_def)

lemma longer_window:
  assumes "past_ok L W ((s, es) # ws)" "int (length es) < L" "s \<le> now" "now < s + W"
  shows "past_ok L W ((s, es @ [now]) # ws)"
  using assms by (auto simp: past_ok_def window_ok_def)

lemma count_fresh:
  assumes t: "tracks k now ws r" and pos: "0 < rl_limit r" "0 < rl_window r"
    and old: "\<forall>(s, es) \<in> set ws. s + rl_window r \<le> now"
  shows "fst (count_in k \<lparr>rw_start = now, rw_n = 0\<rparr> r)"
    and "tracks k now ((now, [now]) # ws) (snd (count_in k \<lparr>rw_start = now, rw_n = 0\<rparr> r))"
  using t pos fresh_window [OF _ old]
  by (simp_all add: tracks_def count_in_def map_of_update_eq distinct_update)

lemma count_live:
  assumes t: "tracks k now ws r" and m: "map_of (rl_windows r) k = Some w" and l: "live now r w"
  shows "\<exists>ws1. tracks k now ws1 (snd (count_in k w r))
    \<and> past_held a W ws1 = past_held a W ws + held a W (if fst (count_in k w r) then [now] else [])"
proof (cases "rw_n w \<ge> rl_limit r")
  case True
  have "AList.update k w xs = xs" if "map_of xs k = Some w" for xs using that by (induction xs) auto
  then show ?thesis using True t m by (auto simp: count_in_def held_def)
next
  case False
  from t m obtain es rest where ws: "ws = (rw_start w, es) # rest" "rw_n w = int (length es)" by (auto simp: tracks_def)
  have "past_ok (rl_limit r) (rl_window r) ((rw_start w, es @ [now]) # rest)"
    by (rule longer_window) (use t ws False l in \<open>auto simp: tracks_def live_def\<close>)
  then have "tracks k now ((rw_start w, es @ [now]) # rest) (snd (count_in k w r))"
    using t ws False by (auto simp: tracks_def count_in_def map_of_update_eq distinct_update)
  then show ?thesis using False ws by (intro exI [of _ "(rw_start w, es @ [now]) # rest"]) (simp add: count_in_def)
qed

lemma Allow_tracks:
  assumes t: "tracks k now ws r" and pos: "0 < rl_limit r" "0 < rl_window r" and k: "k \<noteq> []"
  shows "\<exists>ws1. tracks k now ws1 (snd (Allow key now r))
    \<and> past_held a W ws1 = past_held a W ws + held a W (if fst (Allow key now r) \<and> key = k then [now] else [])"
proof (cases "key = []")
  case True
  then show ?thesis using t k by (auto simp: Allow_def held_def)
next
  case named: False
  note [simp] = named k pos(1) linorder_not_le [THEN iffD2, OF pos(1)]
  let ?r1 = "if rl_maxKeys r \<le> length (rl_windows r) then swept now r else r"
  have t1: "tracks k now ws ?r1" using t tracks_swept [OF t pos(2)] by simp
  consider "key \<noteq> k" | w where "key = k" "map_of (rl_windows r) k = Some w" | "key = k" "map_of (rl_windows r) k = None"
    by fastforce
  then show ?thesis
  proof cases
    case 1
    then have "tracks k now ws (snd (Allow key now r))"
      using tracks_other [OF t 1] tracks_other [OF t1 1] t1 by (auto simp: Allow_def Let_def split: option.splits)
    then show ?thesis using 1 by (auto simp: held_def)
  next
    case (2 w)
    show ?thesis
    proof (cases "live now r w")
      case True
      then show ?thesis using count_live [OF t 2(2) True, of a W] 2 by (simp add: Allow_def)
    next
      case False
      from t 2 obtain es rest where ws: "ws = (rw_start w, es) # rest" by (auto simp: tracks_def)
      then have "\<forall>(s, es) \<in> set ws. s + rl_window r \<le> now"
        using all_past [of "rl_limit r" "rl_window r" "rw_start w" es rest now] t pos(2) False by (simp add: tracks_def live_def)
      from count_fresh [OF t pos this] show ?thesis
        using 2 False by (intro exI [of _ "(now, [now]) # ws"]) (simp add: Allow_def)
    qed
  next
    case 3
    have none: "map_of (rl_windows ?r1) k = None"
      using 3 live_swept [of r now k] t by (auto simp: tracks_def)
    then have old: "\<forall>(s, es) \<in> set ws. s + rl_window ?r1 \<le> now" using t1 by (simp add: tracks_def)
    show ?thesis
    proof (cases "rl_maxKeys r \<le> length (rl_windows ?r1)")
      case True
      then have "Allow key now r = (False, ?r1)" using 3 by (simp add: Allow_def Let_def)
      then show ?thesis using t1 by (auto simp: held_def)
    next
      case False
      then have "Allow key now r = count_in k \<lparr>rw_start = now, rw_n = 0\<rparr> ?r1" using 3 by (simp add: Allow_def Let_def)
      then show ?thesis using count_fresh [OF t1 _ _ old] pos 3 by (intro exI [of _ "(now, [now]) # ws"]) simp
    qed
  qed
qed

lemma allowed_past:
  assumes "tracks k t0 ws r" "0 < rl_limit r" "0 < rl_window r" "k \<noteq> []" "sorted (t0 # map snd es)"
  shows "int (past_held a (rl_window r) ws + held a (rl_window r) (allowed_at k es r)) \<le> 2 * rl_limit r - 1"
  using assms
proof (induction es arbitrary: t0 ws r)
  case Nil
  then have "past_ok (rl_limit r) (rl_window r) ws" by (simp add: tracks_def)
  then show ?case using past_bound [of "rl_limit r" "rl_window r" ws a] Nil.prems by (simp add: held_def)
next
  case (Cons e es)
  obtain key now where e: "e = (key, now)" by (cases e)
  have t: "tracks k now ws r" using Cons.prems(1,5) e tracks_later by fastforce
  from Allow_tracks [OF t Cons.prems(2-4), of key a "rl_window r"] obtain ws1 where
    ws1: "tracks k now ws1 (snd (Allow key now r))"
      "past_held a (rl_window r) ws1 = past_held a (rl_window r) ws + held a (rl_window r) (if fst (Allow key now r) \<and> key = k then [now] else [])"
    by blast
  have eq: "allowed_at k (e # es) r
      = (if fst (Allow key now r) \<and> key = k then [now] else []) @ allowed_at k es (snd (Allow key now r))"
    by (simp add: e case_prod_beta)
  have "int (past_held a (rl_window r) ws1 + held a (rl_window r) (allowed_at k es (snd (Allow key now r)))) \<le> 2 * rl_limit r - 1"
    using Cons.IH [OF ws1(1)] Cons.prems e by simp
  then show ?case unfolding eq held_append ws1(2) by linarith
qed

text \<open>C24: A limiter's promise is a ceiling per window, not per stretch: whatever keys are asked for and in whatever
  order, any stretch of time as long as the window holds at most one less than twice the limit of the events
  a key was let through, and never more.\<close>

theorem a_stretch_holds_less_than_twice_the_limit:
  assumes "0 < limit" "k \<noteq> []" "sorted (map snd es)" "r = NewRateLimiter limit window"
  shows "int (held a (rl_window r) (allowed_at k es r)) \<le> 2 * limit - 1"
proof -
  have pos: "0 < rl_limit r" "0 < rl_window r" using assms by (simp_all add: NewRateLimiter_def units)
  show ?thesis
  proof (cases es)
    case Nil then show ?thesis using assms by (simp add: held_def)
  next
    case (Cons e rest)
    have "tracks k (snd e) [] r" using assms(4) by (simp add: tracks_def past_ok_def NewRateLimiter_def)
    from allowed_past [OF this pos assms(2), of es a] show ?thesis
      using assms(1,3,4) Cons by (simp add: NewRateLimiter_def)
  qed
qed

definition knocks :: "(string \<times> int) list" where
  "knocks = [(''k'', 0), (''k'', 50), (''k'', 59), (''k'', 60), (''k'', 61)]"

theorem a_stretch_holds_less_than_twice_the_limit_witness:
  "int (held 59 60 (allowed_at ''k'' knocks (NewRateLimiter 2 60))) \<le> 3"
proof -
  have "sorted (map snd knocks)" by (simp add: knocks_def)
  from a_stretch_holds_less_than_twice_the_limit [of 2 "''k''" knocks _ 60 59, OF _ _ this refl]
  show ?thesis by (simp add: NewRateLimiter_def)
qed

text \<open>The bound is met: with a limit of two in sixty, three events of one key are let through within two
  nanoseconds, more than the rolling window the comment promises would hold.\<close>

theorem a_burst_passes_the_limit:
  "allowed_at ''k'' [(''k'', 0), (''k'', 59), (''k'', 60), (''k'', 61)] (NewRateLimiter 2 60) = [0, 59, 60, 61]
   \<and> held 59 60 [0, 59, 60, 61] = 3"
  by code_simp

section \<open>The limiter stays small, and refusals are announced\<close>

fun after_calls :: "(string \<times> int) list \<Rightarrow> RateLimiter \<Rightarrow> RateLimiter" where
  "after_calls [] r = r"
| "after_calls ((key, now) # es) r = after_calls es (snd (Allow key now r))"

lemma after_calls_bounded: "bounded r \<Longrightarrow> bounded (after_calls es r) \<and> rl_maxKeys (after_calls es r) = rl_maxKeys r"
  by (induction es r rule: after_calls.induct) (simp_all add: Allow_bounded)

text \<open>However many callers knock, and whatever the clock says, the limiter tracks at most 4096 keys, each once.\<close>

theorem the_limiter_stays_small:
  "let ws = rl_windows (after_calls es (NewRateLimiter limit window))
   in length ws \<le> 4096 \<and> distinct (map fst ws)"
  using after_calls_bounded [of "NewRateLimiter limit window" es]
  by (simp add: bounded_def NewRateLimiter_def defaultRateLimiterKeys_def Let_def)

text \<open>\<open>Spent\<close> foretells \<open>Allow\<close>: a key whose allowance is spent is refused with nothing recorded, and a key that is
  tracked, or for which there is room, is refused only when its allowance is spent.\<close>

theorem spent_keys_are_refused:
  "(Spent key now r \<longrightarrow> Allow key now r = (False, r))
   \<and> (fst (Allow key now r) = False \<and> length (rl_windows r) < rl_maxKeys r \<longrightarrow> Spent key now r)"
proof -
  have same: "AList.update key w xs = xs" if "map_of xs key = Some w" for w :: rateWindow and xs
    using that by (induction xs) auto
  show ?thesis
    by (auto simp: Spent_def Allow_def count_in_def Let_def same split: option.splits if_splits)
qed

theorem spent_keys_are_refused_witness:
  "fst (Allow ''k'' 1 (snd (Allow ''k'' 0 (NewRateLimiter 1 60)))) = False"
proof -
  have "Spent ''k'' 1 (snd (Allow ''k'' 0 (NewRateLimiter 1 60)))" by code_simp
  then show ?thesis using spent_keys_are_refused [of "''k''" 1 "snd (Allow ''k'' 0 (NewRateLimiter 1 60))"] by simp
qed

end
