(* ===== verification/TimingFires.thy ===== *)
theory TimingFires
  imports Timing
begin

text \<open>
  What a \<open>Spec\<close> of \<open>Timing\<close> promises. A schedule with set times is compared with the moments it names: the next
  time is the first of them after now. An interval or a random time is compared with the moments that are open, on
  a day that runs and inside the window. Months are numbered through, so that a month and the next one are a
  number and its successor.
\<close>

section \<open>Searches and days\<close>

lemma first_some_None: "first_some f xs = None \<longleftrightarrow> (\<forall>x \<in> set xs. f x = None)"
  by (induction xs) (auto split: option.splits)

lemma first_some_upto:
  "first_some f [a .. b] = Some y \<longleftrightarrow> (\<exists>i. a \<le> i \<and> i \<le> b \<and> f i = Some y \<and> (\<forall>j. a \<le> j \<and> j < i \<longrightarrow> f j = None))"
proof (induction "nat (b + 1 - a)" arbitrary: a)
  case 0
  then show ?case by simp
next
  case (Suc n)
  then have ab: "a \<le> b" by simp
  have IH: "first_some f [a + 1 .. b] = Some y \<longleftrightarrow>
      (\<exists>i. a + 1 \<le> i \<and> i \<le> b \<and> f i = Some y \<and> (\<forall>j. a + 1 \<le> j \<and> j < i \<longrightarrow> f j = None))"
    using Suc.hyps(1) [of "a + 1"] Suc.hyps(2) by simp
  show ?case
  proof (cases "f a")
    case None
    have "(\<forall>j. a \<le> j \<and> j < i \<longrightarrow> f j = None) \<longleftrightarrow> (\<forall>j. a + 1 \<le> j \<and> j < i \<longrightarrow> f j = None)" for i
      using None by (metis add1_zle_eq order_le_less)
    moreover have "a \<le> i \<and> f i = Some y \<longleftrightarrow> a + 1 \<le> i \<and> f i = Some y" for i
      using None by (metis add1_zle_eq option.distinct(1) order_le_less)
    ultimately show ?thesis using IH None ab by (simp add: upto_rec1) metis
  next
    case (Some z)
    have "z = y" if i: "a \<le> i" "f i = Some y" "\<forall>j. a \<le> j \<and> j < i \<longrightarrow> f j = None" for i
      using i Some by (cases "i = a") auto
    then show ?thesis using Some ab by (auto simp: upto_rec1 intro!: exI [of _ a])
  qed
qed

lemma find_least:
  assumes "find P xs = Some x" "sorted xs"
  shows "x \<in> set xs" "P x" "\<And>y. y \<in> set xs \<Longrightarrow> P y \<Longrightarrow> x \<le> y"
  using assms by (induction xs) (auto split: if_splits)

lemma find_none: "find P xs = None \<longleftrightarrow> (\<forall>x \<in> set xs. \<not> P x)"
  by (induction xs) auto

lemma dayOf_eq: "dayOf t = day_of t * day_ns"
  by (simp add: dayOf_def Date_of)

lemma mins_fit: "0 \<le> m \<Longrightarrow> m \<le> 24 * 60 \<Longrightarrow> mins m = m * minute"
  by (simp add: mins_def units second_def duration_fits)

lemma minute_in_day: "0 \<le> m \<Longrightarrow> m < 24 * 60 \<Longrightarrow> 0 \<le> m * minute \<and> m * minute < day_ns"
  by (simp add: units second_def)

lemma a_day_runs:
  assumes "ValidateSpec s = None"
  shows "\<exists>d. 0 \<le> d \<and> d < 7 \<and> runsOn s d"
proof (cases "sp_days s = 0")
  case True
  then show ?thesis by (intro exI [of _ 0]) (simp add: runsOn_def)
next
  case False
  have known: "sp_days s AND NOT AllDays = 0" using assms by (auto simp: ValidateSpec_def split: if_splits)
  obtain n where n: "bit (sp_days s) n" using False by (auto simp: bit_eq_iff)
  have "n < 8" using n bit_imp_le_length by fastforce
  moreover have "n \<noteq> 7"
  proof
    assume "n = 7"
    then have "bit (sp_days s AND NOT AllDays) 7" using n by (simp add: bit_simps AllDays_def)
    then show False using known by simp
  qed
  ultimately show ?thesis using n by (intro exI [of _ "int n"]) (simp add: runsOn_def)
qed

lemma a_day_comes:
  assumes "ValidateSpec s = None"
  shows "\<exists>i. 1 \<le> i \<and> i \<le> 7 \<and> runsOn s ((n + i + 1) mod 7)"
proof -
  obtain d where d: "0 \<le> d" "d < 7" "runsOn s d" using a_day_runs [OF assms] by blast
  let ?i = "(d - n - 2) mod 7 + 1"
  have "(n + ?i + 1) mod 7 = (n + 2 + (d - n - 2)) mod 7" by (metis (no_types, lifting) add.assoc add.commute mod_add_right_eq one_add_one)
  then have "(n + ?i + 1) mod 7 = d" using d by simp
  then show ?thesis using d(3) by (intro exI [of _ ?i]) simp
qed

section \<open>Set times\<close>

definition fires_at :: "Spec \<Rightarrow> go_time \<Rightarrow> bool" where
  "fires_at s t \<longleftrightarrow> runsOn s (Weekday t) \<and> (\<exists>m \<in> set (sp_times s). t mod day_ns = m * minute)"

definition first_after :: "(go_time \<Rightarrow> bool) \<Rightarrow> go_time \<Rightarrow> go_time \<Rightarrow> bool" where
  "first_after fires frm t \<longleftrightarrow> frm < t \<and> fires t \<and> (\<forall>u. frm < u \<and> u < t \<longrightarrow> \<not> fires u)"

lemma times_valid:
  assumes "ValidateSpec s = None" "sp_how s = HowDaily \<or> sp_how s = HowTimes"
  shows "sp_times s \<noteq> []" "\<forall>m \<in> set (sp_times s). 0 \<le> m \<and> m < 24 * 60"
  using assms by (auto simp: ValidateSpec_def how_problem_def Let_def how_defs find_none not_a_time_def split: if_splits)

lemma fires_at_slot:
  assumes "0 \<le> m" "m < 24 * 60" "m \<in> set (sp_times s)" "runsOn s ((n + 1) mod 7)"
  shows "fires_at s (n * day_ns + m * minute)"
  using minute_in_day [OF assms(1,2)] assms(3,4) units(4) by (auto simp: fires_at_def Weekday_at)

lemma first_at_times:
  assumes v: "ValidateSpec s = None" and how: "sp_how s = HowDaily \<or> sp_how s = HowTimes"
  shows "\<exists>t. next_at_times s frm = Some t \<and> first_after (fires_at s) frm t"
proof -
  note tv = times_valid [OF v how]
  define n where "n = day_of frm"
  define cs where "cs i = map (\<lambda>m. (n + i) * day_ns + m * minute) (sort (sp_times s))" for i
  define f where "f i = (if runsOn s ((n + i + 1) mod 7) then find (\<lambda>c. frm < c) (cs i) else None)" for i
  have mins: "map (\<lambda>m. a + mins m) (sort (sp_times s)) = map (\<lambda>m. a + m * minute) (sort (sp_times s))" for a
    using tv(2) by (auto simp: mins_fit)
  have d: "dayOf frm + i * day_ns = (n + i) * day_ns" "Weekday ((n + i) * day_ns) = (n + i + 1) mod 7" for i
    using Weekday_at [of 0 "n + i"] units(4) by (simp_all add: dayOf_eq n_def algebra_simps)
  have nx: "next_at_times s frm = first_some f [0 .. 8]"
    unfolding next_at_times_def AddDate_days Let_def mins d f_def cs_def by (rule arg_cong [of _ _ "\<lambda>f. first_some f [0 .. 8]"]) auto
  have sorted_cs: "sorted (cs i)" for i
    unfolding cs_def using units(2) by (simp add: sorted_map sorted_wrt_mono_rel [OF _ sorted_sort])
  have frm: "n * day_ns \<le> frm" "frm < (n + 1) * day_ns" using day_split [of frm] by (simp_all add: n_def algebra_simps)
  obtain i0 where i0: "1 \<le> i0" "i0 \<le> 7" "runsOn s ((n + i0 + 1) mod 7)" using a_day_comes [OF v] by blast
  have "f i0 \<noteq> None"
  proof -
    obtain m where m: "m \<in> set (sp_times s)" using tv(1) by (cases "sp_times s") auto
    have "(n + 1) * day_ns \<le> (n + i0) * day_ns" using i0(1) units(4) by (intro mult_right_mono) simp_all
    then have "frm < (n + i0) * day_ns" using frm(2) by linarith
    moreover have "0 \<le> m * minute" using m tv(2) units(2) by simp
    ultimately show ?thesis using i0(3) m by (auto simp: f_def find_none cs_def intro!: bexI [of _ m])
  qed
  then have "first_some f [0 .. 8] \<noteq> None" using i0 by (auto simp: first_some_None)
  then obtain t where t: "first_some f [0 .. 8] = Some t" by blast
  then obtain i where i: "0 \<le> i" "i \<le> 8" "f i = Some t" "\<And>j. 0 \<le> j \<Longrightarrow> j < i \<Longrightarrow> f j = None"
    by (auto simp: first_some_upto)
  then have run: "runsOn s ((n + i + 1) mod 7)" and fnd: "find (\<lambda>c. frm < c) (cs i) = Some t"
    by (auto simp: f_def split: if_splits)
  note least = find_least [OF fnd sorted_cs]
  obtain m where m: "m \<in> set (sp_times s)" "t = (n + i) * day_ns + m * minute" using least(1) by (auto simp: cs_def)
  have dt: "day_of t = n + i" unfolding m(2) by (rule day_of_at) (use tv(2) m(1) minute_in_day in auto)
  have "\<not> fires_at s u" if u: "frm < u" "u < t" for u
  proof
    assume fires: "fires_at s u"
    define j where "j = day_of u - n"
    have wd: "runsOn s ((n + j + 1) mod 7)" using fires by (simp add: fires_at_def Weekday_def j_def)
    obtain m' where m': "m' \<in> set (sp_times s)" "u = (n + j) * day_ns + m' * minute"
      using fires day_split(1) [of u] by (auto simp: fires_at_def j_def)
    have "day_of frm \<le> day_of u" "day_of u \<le> day_of t" using u units(4) by (auto simp: day_of_def intro: zdiv_mono1)
    then have j: "0 \<le> j" "j \<le> i" using dt by (simp_all add: n_def j_def)
    have mem: "u \<in> set (cs j)" using m' by (auto simp: cs_def)
    show False
    proof (cases "j = i")
      case True then show False using least(3) mem u by force
    next
      case False
      then have "f j = None" using i(4) j by simp
      then show False using mem u(1) wd by (auto simp: f_def find_none)
    qed
  qed
  then have "first_after (fires_at s) frm t"
    using least(2) m fires_at_slot [of m s "n + i"] tv(2) run by (auto simp: first_after_def)
  then show ?thesis using nx t by auto
qed

section \<open>Once a year\<close>

definition fires_yearly :: "Spec \<Rightarrow> go_time \<Rightarrow> bool" where
  "fires_yearly s t \<longleftrightarrow> Month t = sp_month s \<and> Day t = sp_day s \<and> t mod day_ns = hd (sp_times s) * minute"

definition year_date :: "Spec \<Rightarrow> int \<Rightarrow> go_time" where
  "year_date s y = day_number y (sp_month s) (sp_day s) * day_ns + hd (sp_times s) * minute"

lemma yearly_valid:
  assumes "ValidateSpec s = None" "sp_how s = HowYearly"
  shows "1 \<le> sp_month s" "sp_month s \<le> 12" "1 \<le> sp_day s" "sp_day s \<le> daysInMonth (sp_month s)"
    "0 \<le> hd (sp_times s)" "hd (sp_times s) < 24 * 60"
  using assms by (auto simp: ValidateSpec_def how_problem_def Let_def how_defs one_time_def not_a_time_def split: if_splits)

lemma date_fields:
  assumes "1 \<le> m" "m \<le> 12" "1 \<le> d" "d \<le> days_in y m" "0 \<le> x" "x < day_ns"
  shows "Year (day_number y m d * day_ns + x) = y" "Month (day_number y m d * day_ns + x) = m"
    "Day (day_number y m d * day_ns + x) = d"
  using civil_day_number [OF assms(1-4)] day_of_at [OF assms(5,6)] by (simp_all add: Year_def Month_def Day_def)

lemma fits_or_next_month:
  assumes "1 \<le> m" "m \<le> 12" "1 \<le> d" "d \<le> daysInMonth m" "\<not> d \<le> days_in y m"
  shows "m = 2" "d = 29" "\<not> is_leap y"
  using assms by (auto simp: daysInMonth_def days_in_def leap_day_def split: if_splits)

lemma year_date_overflow:
  assumes "\<not> is_leap y" "0 \<le> x" "x < day_ns"
  shows "Month (day_number y 2 29 * day_ns + x) = 3"
proof -
  have "day_number y 2 29 = day_number y 3 1" using assms(1) by (simp add: day_number_def Let_def days_before_month_def leap_day_def)
  then show ?thesis using date_fields(2) [of 3 1 y x] assms by (simp add: days_in_def)
qed

lemma a_leap_year_comes: "\<exists>i. 1 \<le> i \<and> i \<le> 8 \<and> is_leap (y + i)"
proof -
  define i where "i = (- y - 1) mod 4 + 1"
  have i: "1 \<le> i" "i \<le> 4" "(y + i) mod 4 = 0"
  proof -
    show "1 \<le> i" "i \<le> 4" by (simp_all add: i_def)
    have "(y + i) mod 4 = (y + 1 + (- y - 1)) mod 4" unfolding i_def by (metis add.assoc add.commute mod_add_right_eq)
    then show "(y + i) mod 4 = 0" by simp
  qed
  show ?thesis
  proof (cases "is_leap (y + i)")
    case True
    then show ?thesis using i by (intro exI [of _ i]) simp
  next
    case False
    then have "(y + i) mod 100 = 0" using i(3) by (auto simp: is_leap_def)
    then have "(y + i + 4) mod 100 = (0 + 4) mod 100" "(y + i + 4) mod 4 = (0 + 4) mod 4"
      using i(3) by (metis mod_add_left_eq)+
    then have "is_leap (y + (i + 4))" by (simp add: is_leap_def add.assoc)
    then show ?thesis using i by (intro exI [of _ "i + 4"]) simp
  qed
qed

lemma year_date_step:
  assumes v: "ValidateSpec s = None" "sp_how s = HowYearly"
  shows "(let c = Date y (sp_month s) (sp_day s) 0 0 + mins (hd (sp_times s)) in
       if Month c \<noteq> sp_month s \<or> Day c \<noteq> sp_day s then None else if frm < c then Some c else None)
    = (if sp_day s \<le> days_in y (sp_month s) \<and> frm < year_date s y then Some (year_date s y) else None)"
proof -
  note yv = yearly_valid [OF v]
  note x = minute_in_day [OF yv(5,6)]
  have c: "Date y (sp_month s) (sp_day s) 0 0 + mins (hd (sp_times s)) = year_date s y"
    using yv(5,6) by (simp add: Date_def year_date_def mins_fit)
  show ?thesis
  proof (cases "sp_day s \<le> days_in y (sp_month s)")
    case True
    then have "Month (year_date s y) = sp_month s" "Day (year_date s y) = sp_day s"
      using date_fields [OF yv(1-3) True, of "hd (sp_times s) * minute"] x by (simp_all add: year_date_def)
    then show ?thesis using c True by (simp add: Let_def)
  next
    case False
    note o = fits_or_next_month [OF yv(1-4) False]
    have "Month (year_date s y) = 3" using year_date_overflow [OF o(3), of "hd (sp_times s) * minute"] x o by (simp add: year_date_def)
    then show ?thesis using c False o(1) by (simp add: Let_def)
  qed
qed

lemma year_date_fires:
  assumes v: "ValidateSpec s = None" "sp_how s = HowYearly" and d: "sp_day s \<le> days_in y (sp_month s)"
  shows "fires_yearly s (year_date s y)" "Year (year_date s y) = y"
proof -
  note yv = yearly_valid [OF v]
  note x = minute_in_day [OF yv(5,6)]
  note f = date_fields [OF yv(1-3) d, of "hd (sp_times s) * minute"]
  show "Year (year_date s y) = y" using f x by (simp add: year_date_def)
  show "fires_yearly s (year_date s y)" using f x by (simp add: year_date_def fires_yearly_def)
qed

lemma fires_yearly_date:
  assumes "fires_yearly s t"
  shows "t = year_date s (Year t)" "sp_day s \<le> days_in (Year t) (sp_month s)"
proof -
  have c: "civil (day_of t) = (Year t, sp_month s, sp_day s)" using assms civil_of by (simp add: fires_yearly_def)
  show "sp_day s \<le> days_in (Year t) (sp_month s)" using day_number_civil(5) [OF c] .
  show "t = year_date s (Year t)"
    using day_number_civil(1) [OF c] day_split(1) [of t] assms by (simp add: year_date_def fires_yearly_def)
qed

lemma year_date_mono:
  assumes v: "ValidateSpec s = None" "sp_how s = HowYearly"
    and "y < y1" "sp_day s \<le> days_in y (sp_month s)" "sp_day s \<le> days_in y1 (sp_month s)"
  shows "year_date s y < year_date s y1"
proof -
  note yv = yearly_valid [OF v]
  have "day_number y (sp_month s) (sp_day s) < day_number y1 (sp_month s) (sp_day s)"
    using day_number_mono [OF assms(3) yv(1-3) assms(4) yv(1-3) assms(5)] .
  then show ?thesis using units(4) by (simp add: year_date_def)
qed

lemma Year_mono: "t \<le> u \<Longrightarrow> Year t \<le> Year u"
proof (rule ccontr)
  assume tu: "t \<le> u" and "\<not> Year t \<le> Year u"
  then have "Year u < Year t" by simp
  then have "day_number (Year u) (Month u) (Day u) < day_number (Year t) (Month t) (Day t)"
    using day_number_mono day_number_civil(2-5) [OF civil_of] by blast
  then have "day_of u < day_of t" by (simp add: date_of)
  then show False using tu units(4) by (simp add: day_of_def) (metis not_le zdiv_mono1)
qed

lemma first_yearly:
  assumes v: "ValidateSpec s = None" "sp_how s = HowYearly"
  shows "\<exists>t. next_yearly s frm = Some t \<and> first_after (fires_yearly s) frm t"
proof -
  note yv = yearly_valid [OF v]
  define ok where "ok y \<longleftrightarrow> sp_day s \<le> days_in y (sp_month s)" for y
  define f where "f y = (if ok y \<and> frm < year_date s y then Some (year_date s y) else None)" for y
  have nx: "next_yearly s frm = first_some f [Year frm .. Year frm + 8]"
    unfolding next_yearly_def year_date_step [OF v] f_def ok_def ..
  have later: "frm < year_date s y" if "ok y" "Year frm < y" for y
  proof (rule ccontr)
    assume "\<not> frm < year_date s y"
    then have "y \<le> Year frm" using Year_mono [of "year_date s y" frm] year_date_fires(2) [OF v] that(1) by (simp add: ok_def)
    then show False using that(2) by simp
  qed
  have "\<exists>i. 1 \<le> i \<and> i \<le> 8 \<and> ok (Year frm + i)"
  proof (cases "ok (Year frm + 1)")
    case False
    have o: "sp_month s = 2" "sp_day s = 29"
      using fits_or_next_month [OF yv(1-4), of "Year frm + 1"] False by (simp_all add: ok_def)
    show ?thesis using a_leap_year_comes [of "Year frm"] by (auto simp: ok_def o days_in_def leap_day_def)
  qed (auto intro: exI [of _ 1])
  then obtain i where "1 \<le> i" "i \<le> 8" "ok (Year frm + i)" by blast
  then have "f (Year frm + i) \<noteq> None" using later by (simp add: f_def)
  then have "first_some f [Year frm .. Year frm + 8] \<noteq> None"
    using \<open>1 \<le> i\<close> \<open>i \<le> 8\<close> by (auto simp: first_some_None intro!: bexI [of _ "Year frm + i"])
  then obtain t where t: "first_some f [Year frm .. Year frm + 8] = Some t" by blast
  then obtain y where y: "Year frm \<le> y" "f y = Some t" "\<And>j. Year frm \<le> j \<Longrightarrow> j < y \<Longrightarrow> f j = None"
    by (auto simp: first_some_upto)
  then have ty: "ok y" "frm < t" "t = year_date s y" by (auto simp: f_def split: if_splits)
  have "\<not> fires_yearly s u" if u: "frm < u" "u < t" for u
  proof
    assume "fires_yearly s u"
    note fy = fires_yearly_date [OF this]
    have j: "Year frm \<le> Year u" using Year_mono u by simp
    have "Year u < y"
    proof (rule ccontr)
      assume "\<not> Year u < y"
      then consider "Year u = y" | "y < Year u" by linarith
      then show False
      proof cases
        case 1 then show False using fy(1) ty(3) u by simp
      next
        case 2
        then have "year_date s y < year_date s (Year u)" using year_date_mono [OF v] ty(1) fy(2) by (simp add: ok_def)
        then show False using fy(1) ty(3) u by simp
      qed
    qed
    then have "f (Year u) = None" using y(3) j by simp
    then show False using fy u(1) by (auto simp: f_def ok_def split: if_splits)
  qed
  then show ?thesis using nx t ty year_date_fires(1) [OF v] by (auto simp: first_after_def ok_def)
qed

section \<open>Once a month\<close>

text \<open>Months numbered through: month \<open>k mod 12 + 1\<close> of year \<open>k div 12\<close>.\<close>

definition month_no :: "go_time \<Rightarrow> int" where "month_no t = 12 * Year t + Month t - 1"
definition month_start :: "int \<Rightarrow> int" where "month_start k = day_number 0 (k + 1) 1"
definition month_days :: "int \<Rightarrow> int" where "month_days k = days_in (k div 12) (k mod 12 + 1)"

definition day_meant :: "Spec \<Rightarrow> int \<Rightarrow> int" where
  "day_meant s n = (if sp_day s < 0 then n + 1 + sp_day s else min (sp_day s) n)"

definition fires_monthly :: "Spec \<Rightarrow> go_time \<Rightarrow> bool" where
  "fires_monthly s t \<longleftrightarrow> Day t = day_meant s (days_in (Year t) (Month t)) \<and> t mod day_ns = hd (sp_times s) * minute"

definition month_date :: "Spec \<Rightarrow> int \<Rightarrow> go_time" where
  "month_date s k = (month_start k + day_meant s (month_days k) - 1) * day_ns + hd (sp_times s) * minute"

lemma day_number_month: "day_number y m d = month_start (12 * y + m - 1) + d - 1"
proof -
  have "(12 * y + m - 1) div 12 = y + (m - 1) div 12" "(12 * y + m - 1) mod 12 = (m - 1) mod 12"
    using div_mult_self2 [of 12 "m - 1" y] mod_mult_self2 [of "m - 1" 12 y] by (simp_all add: algebra_simps)
  then show ?thesis by (simp add: month_start_def day_number_def Let_def)
qed

lemma month_start_of: "month_start k = day_number (k div 12) (k mod 12 + 1) 1"
  using day_number_month [of "k div 12" "k mod 12 + 1" 1] by (simp add: algebra_simps)

lemma month_days_bounds: "28 \<le> month_days k" "month_days k \<le> 31"
  by (auto simp: month_days_def days_in_def leap_day_def)

lemma month_parts: "0 \<le> k mod 12" "k mod 12 + 1 \<le> 12" for k :: int
  using pos_mod_bound [of 12 k] by simp_all

lemma month_cases:
  assumes "0 \<le> m" "m < 11"
  shows "(m :: int) = 0 \<or> m = 1 \<or> m = 2 \<or> m = 3 \<or> m = 4 \<or> m = 5 \<or> m = 6 \<or> m = 7 \<or> m = 8 \<or> m = 9 \<or> m = 10"
  using assms by presburger

lemma month_in_year:
  assumes "0 \<le> m" "m < 11"
  shows "day_number y (m + 2) 1 = day_number y (m + 1) 1 + days_in y (m + 1)"
  using month_cases [OF assms]
  by (elim disjE; simp add: day_number_def Let_def days_before_month_def days_in_def)

lemma next_month: "month_start (k + 1) = month_start k + month_days k"
proof -
  define y m where ym: "y = k div 12" "m = k mod 12"
  have k: "k = 12 * y + m" "0 \<le> m" "m < 12" by (simp_all add: ym)
  show ?thesis
  proof (cases "m = 11")
    case True
    then have e: "(k + 1) div 12 = y + 1" "(k + 1) mod 12 = 0" unfolding k(1) by simp_all
    show ?thesis unfolding month_start_of e ym [symmetric] month_days_def True
      by (simp add: day_number_def Let_def days_before_month_def days_in_def next_year)
  next
    case False
    then have e: "(k + 1) div 12 = y" "(k + 1) mod 12 = m + 1" 
      using k by (auto intro: int_div_pos_eq [where r = "m + 1"] int_mod_pos_eq [where q = y])
    show ?thesis unfolding month_start_of e ym [symmetric] month_days_def
      using month_in_year [of m y] k False by (simp add: algebra_simps)
  qed
qed

lemma month_start_grows: "month_start k + month_days k \<le> month_start (k + 1 + int n)"
proof (induction n)
  case (Suc n)
  then show ?case using next_month [of "k + 1 + int n"] month_days_bounds(1) [of "k + 1 + int n"] by (simp add: algebra_simps)
qed (simp add: next_month)

lemma month_start_before: "k < k1 \<Longrightarrow> month_start k + month_days k \<le> month_start k1"
  using month_start_grows [of k "nat (k1 - k - 1)"] by simp

lemma day_in_month: "day_of t = month_start (month_no t) + Day t - 1" "month_days (month_no t) = days_in (Year t) (Month t)"
  "1 \<le> Day t" "Day t \<le> month_days (month_no t)"
proof -
  note c = day_number_civil [OF civil_of, of t]
  show "day_of t = month_start (month_no t) + Day t - 1"
    using c(1) day_number_month [of "Year t" "Month t" "Day t"] by (simp add: month_no_def)
  have "month_no t div 12 = Year t" "month_no t mod 12 = Month t - 1"
    using c(2,3) by (auto simp: month_no_def intro: int_div_pos_eq [where r = "Month t - 1"] int_mod_pos_eq [where q = "Year t"])
  then show "month_days (month_no t) = days_in (Year t) (Month t)" by (simp add: month_days_def)
  then show "1 \<le> Day t" "Day t \<le> month_days (month_no t)" using c(4,5) by simp_all
qed

lemma month_no_mono: "t \<le> u \<Longrightarrow> month_no t \<le> month_no u"
proof (rule ccontr)
  assume tu: "t \<le> u" and "\<not> month_no t \<le> month_no u"
  then have "month_start (month_no u) + month_days (month_no u) \<le> month_start (month_no t)"
    by (intro month_start_before) simp
  then have "day_of u < day_of t" using day_in_month(1,4) [of u] day_in_month(1,3) [of t] by simp
  then show False using tu units(4) by (simp add: day_of_def) (metis not_le zdiv_mono1)
qed

lemma at_month:
  assumes "1 \<le> d" "d \<le> month_days k" "0 \<le> x" "x < day_ns"
  shows "month_no ((month_start k + d - 1) * day_ns + x) = k" "Day ((month_start k + d - 1) * day_ns + x) = d"
proof -
  let ?y = "k div 12" and ?m = "k mod 12 + 1"
  have n: "month_start k + d - 1 = day_number ?y ?m d" using day_number_month [of ?y ?m d] by (simp add: algebra_simps)
  have m: "1 \<le> ?m" "?m \<le> 12" using month_parts by simp_all
  note f = date_fields [OF m assms(1) _ assms(3,4), of ?y]
  have d: "d \<le> days_in ?y ?m" using assms(2) by (simp add: month_days_def)
  show "Day ((month_start k + d - 1) * day_ns + x) = d" unfolding n using f(3) d by simp
  show "month_no ((month_start k + d - 1) * day_ns + x) = k" unfolding n month_no_def using f(1,2) d by (simp add: algebra_simps)
qed

lemma monthly_valid:
  assumes "ValidateSpec s = None" "sp_how s = HowMonthly"
  shows "sp_day s \<noteq> 0" "sp_day s \<le> 31" "-7 \<le> sp_day s" "0 \<le> hd (sp_times s)" "hd (sp_times s) < 24 * 60"
  using assms by (auto simp: ValidateSpec_def how_problem_def Let_def how_defs one_time_def not_a_time_def split: if_splits)

lemma day_meant_bounds:
  assumes "sp_day s \<noteq> 0" "-7 \<le> sp_day s"
  shows "1 \<le> day_meant s (month_days k)" "day_meant s (month_days k) \<le> month_days k"
  using assms month_days_bounds(1) [of k] by (auto simp: day_meant_def)

lemma monthly_step:
  assumes v: "ValidateSpec s = None" "sp_how s = HowMonthly"
  shows "(let first = Date (Year frm) (Month frm + i) 1 0 0 in
      AddDate first 0 0 (monthDay s first - 1) + mins (hd (sp_times s))) = month_date s (month_no frm + i)"
proof -
  define k where "k = month_no frm + i"
  note mv = monthly_valid [OF v]
  have "12 * Year frm + (Month frm + i) - 1 = k" by (simp add: k_def month_no_def)
  then have first: "Date (Year frm) (Month frm + i) 1 0 0 = month_start k * day_ns"
    using day_number_month [of "Year frm" "Month frm + i" 1] by (simp add: Date_def)
  define f where "f = month_start k * day_ns"
  have at0: "month_no f = k" "Day f = 1"
    using at_month [of 1 k 0] month_days_bounds(1) [of k] units(4) by (simp_all add: f_def)
  have "12 * Year f + (Month f + 1) - 1 = k + 1" using at0(1) by (simp add: month_no_def)
  then have "day_number (Year f) (Month f + 1) 0 = month_start k + month_days k - 1"
    using day_number_month [of "Year f" "Month f + 1" 0] next_month [of k] by simp
  then have "AddDate f 0 1 (- 1) = (month_start k + month_days k - 1) * day_ns"
    using at0(2) by (simp add: AddDate_def f_def)
  then have "Day (AddDate f 0 1 (- 1)) = month_days k"
    using at_month(2) [of "month_days k" k 0] month_days_bounds(1) [of k] units(4) by simp
  then have "monthDay s f = day_meant s (month_days k)" by (simp add: monthDay_def day_meant_def)
  then show ?thesis using mv(4,5) unfolding k_def [symmetric] Let_def first f_def [symmetric]
    by (simp add: month_date_def mins_fit f_def algebra_simps)
qed

lemma month_date_fires:
  assumes v: "ValidateSpec s = None" "sp_how s = HowMonthly"
  shows "month_no (month_date s k) = k" "fires_monthly s (month_date s k)"
proof -
  note mv = monthly_valid [OF v]
  note d = day_meant_bounds [OF mv(1,3), of k]
  note x = minute_in_day [OF mv(4,5)]
  note a = at_month [OF d, of "hd (sp_times s) * minute"]
  show k: "month_no (month_date s k) = k" using a x by (simp add: month_date_def)
  have "month_date s k mod day_ns = hd (sp_times s) * minute" using x by (simp add: month_date_def)
  moreover have "Day (month_date s k) = day_meant s (month_days k)" using a(2) x by (simp add: month_date_def)
  moreover have "days_in (Year (month_date s k)) (Month (month_date s k)) = month_days k"
    using day_in_month(2) [of "month_date s k"] k by simp
  ultimately show "fires_monthly s (month_date s k)" by (simp add: fires_monthly_def)
qed

lemma fires_monthly_date: "fires_monthly s t \<Longrightarrow> t = month_date s (month_no t)"
  using day_in_month(1,2) [of t] day_split(1) [of t] by (simp add: fires_monthly_def month_date_def)

lemma month_date_mono:
  assumes v: "ValidateSpec s = None" "sp_how s = HowMonthly" and "k < k1"
  shows "month_date s k < month_date s k1"
proof (rule ccontr)
  assume "\<not> month_date s k < month_date s k1"
  then have "month_no (month_date s k1) \<le> month_no (month_date s k)" by (intro month_no_mono) simp
  then show False using month_date_fires(1) [OF v] assms(3) by simp
qed

lemma first_monthly:
  assumes v: "ValidateSpec s = None" "sp_how s = HowMonthly"
  shows "\<exists>t. next_monthly s frm = Some t \<and> first_after (fires_monthly s) frm t"
proof -
  define f where "f i = (if frm < month_date s (month_no frm + i) then Some (month_date s (month_no frm + i)) else None)" for i
  have nx: "next_monthly s frm = first_some f [0 .. 2]"
    unfolding next_monthly_def f_def using monthly_step [OF v] by (simp add: Let_def cong: if_cong)
  have "frm < month_date s (month_no frm + 1)"
  proof (rule ccontr)
    assume "\<not> frm < month_date s (month_no frm + 1)"
    then have "month_no (month_date s (month_no frm + 1)) \<le> month_no frm" by (intro month_no_mono) simp
    then show False using month_date_fires(1) [OF v] by simp
  qed
  then have "f 1 \<noteq> None" by (simp add: f_def)
  then have "first_some f [0 .. 2] \<noteq> None" by (auto simp: first_some_None intro!: bexI [of _ 1])
  then obtain t where t: "first_some f [0 .. 2] = Some t" by blast
  then obtain i where i: "0 \<le> i" "f i = Some t" "\<And>j. 0 \<le> j \<Longrightarrow> j < i \<Longrightarrow> f j = None" by (auto simp: first_some_upto)
  then have ti: "frm < t" "t = month_date s (month_no frm + i)" by (auto simp: f_def split: if_splits)
  have "\<not> fires_monthly s u" if u: "frm < u" "u < t" for u
  proof
    assume "fires_monthly s u"
    note fu = fires_monthly_date [OF this]
    define j where "j = month_no u - month_no frm"
    have uj: "u = month_date s (month_no frm + j)" using fu by (simp add: j_def)
    have "0 \<le> j" using month_no_mono [of frm u] u by (simp add: j_def)
    moreover have "j < i"
      using month_date_mono [OF v, of "month_no frm + i" "month_no frm + j"] uj ti(2) u(2) by (cases "j = i") (simp, force)
    ultimately have "f j = None" using i(3) by simp
    then show False using uj u(1) by (simp add: f_def split: if_splits)
  qed
  then show ?thesis using nx t ti month_date_fires(2) [OF v] by (auto simp: first_after_def)
qed

section \<open>Windows\<close>

lemma minuteOf_eq: "minuteOf t = t mod day_ns div minute"
proof -
  let ?x = "t mod day_ns"
  have h: "hour = 60 * minute" "0 < minute" by (simp_all add: units)
  have "t mod hour = ?x mod hour" by (rule mod_mod_cancel [symmetric]) (simp add: day_ns_def)
  then have "minuteOf t = 60 * (?x div hour) + ?x mod hour div minute" by (simp add: minuteOf_def Hour_def Minute_def)
  also have "\<dots> = (60 * (?x div hour) * minute + ?x mod hour) div minute" using h(2) by simp
  also have "60 * (?x div hour) * minute = ?x div hour * hour" by (simp only: h(1) mult.assoc mult.commute mult.left_commute)
  also have "?x div hour * hour + ?x mod hour = ?x" by (rule div_mult_mod_eq)
  finally show ?thesis .
qed

definition window_ok :: "Spec \<Rightarrow> bool" where
  "window_ok s \<longleftrightarrow> (sp_hasWindow s \<longrightarrow> 0 \<le> sp_from s \<and> sp_from s < sp_to s \<and> sp_to s \<le> 24 * 60)"

lemma valid_window: "ValidateSpec s = None \<Longrightarrow> window_ok s"
  by (auto simp: ValidateSpec_def window_ok_def split: if_splits)

lemma window_bounds:
  assumes "window_ok s"
  shows "0 \<le> windowStart s" "windowStart s < 24 * 60" "1 \<le> windowMinutes s" "windowStart s + windowMinutes s \<le> 24 * 60"
    "mins (windowStart s) = windowStart s * minute" "mins (windowMinutes s) = windowMinutes s * minute"
proof -
  show b: "0 \<le> windowStart s" "windowStart s < 24 * 60" "1 \<le> windowMinutes s" "windowStart s + windowMinutes s \<le> 24 * 60"
    using assms by (auto simp: window_ok_def windowStart_def windowMinutes_def)
  show "mins (windowStart s) = windowStart s * minute" "mins (windowMinutes s) = windowMinutes s * minute"
    using b by (simp_all add: mins_fit)
qed

lemma div_ge:
  fixes q :: int
  assumes "0 < q" shows "a \<le> x div q \<longleftrightarrow> a * q \<le> x"
proof
  assume "a \<le> x div q"
  then have "a * q \<le> x div q * q" using assms by (intro mult_right_mono) simp_all
  also have "\<dots> \<le> x" using assms div_mult_mod_eq [of x q] pos_mod_sign [of q x] by linarith
  finally show "a * q \<le> x" .
next
  assume "a * q \<le> x"
  then have "a * q div q \<le> x div q" using assms by (intro zdiv_mono1)
  then show "a \<le> x div q" using assms by simp
qed

text \<open>A moment is open on a day that runs, from the window's start and before its end.\<close>

lemma is_open_at:
  assumes "window_ok s" "0 \<le> x" "x < day_ns"
  shows "is_open s (n * day_ns + x) \<longleftrightarrow> runsOn s ((n + 1) mod 7)
    \<and> windowStart s * minute \<le> x \<and> x < (windowStart s + windowMinutes s) * minute"
proof -
  have m: "minuteOf (n * day_ns + x) = x div minute" using assms units(4) by (simp add: minuteOf_eq)
  have le: "a \<le> x div minute \<longleftrightarrow> a * minute \<le> x" "x div minute < a \<longleftrightarrow> x < a * minute" for a
    using div_ge [OF units(2), of a x] by (simp_all flip: not_le)
  have wd: "Weekday (n * day_ns + x) = (n + 1) mod 7" using assms(2,3) by (rule Weekday_at)
  have full: "1440 * minute = day_ns" by (simp add: units second_def)
  show ?thesis using assms(2,3) full by (auto simp: is_open_def wd windowStart_def windowMinutes_def m le)
qed

lemma opening_is_open:
  assumes "window_ok s" "runsOn s ((n + 1) mod 7)"
    and "windowStart s * minute \<le> x" "x < (windowStart s + windowMinutes s) * minute"
  shows "is_open s (n * day_ns + x)"
proof -
  note w = window_bounds [OF assms(1)]
  have "(windowStart s + windowMinutes s) * minute \<le> 24 * 60 * minute" using w(4) units(2) by (intro mult_right_mono) simp_all
  moreover have "0 \<le> windowStart s * minute" using w(1) units(2) by simp
  ultimately show ?thesis using is_open_at [OF assms(1), of x n] assms(2-4) by (simp add: units second_def)
qed

definition first_open :: "Spec \<Rightarrow> go_time \<Rightarrow> go_time \<Rightarrow> bool" where
  "first_open s t u \<longleftrightarrow> t \<le> u \<and> is_open s u \<and> (\<forall>v. t \<le> v \<and> v < u \<longrightarrow> \<not> is_open s v)"

lemma nextOpening_first:
  assumes v: "ValidateSpec s = None" and nx: "nextOpening s t = (u, moved)"
  shows "first_open s t u" and "moved \<Longrightarrow> \<exists>n. u = n * day_ns + windowStart s * minute \<and> runsOn s ((n + 1) mod 7)"
proof -
  have wok: "window_ok s" using v by (rule valid_window)
  note w = window_bounds [OF wok]
  define n x ws where nx_defs: "n = day_of t" "x = t mod day_ns" "ws = windowStart s * minute"
  have t: "t = n * day_ns + x" "0 \<le> x" "x < day_ns" using day_split [of t] by (simp_all add: nx_defs)
  have wd: "Weekday t = (n + 1) mod 7" by (simp add: Weekday_def nx_defs)
  have ws: "0 \<le> ws" "ws < day_ns" using minute_in_day [OF w(1,2)] by (simp_all add: nx_defs)
  have start: "is_open s (m * day_ns + ws)" if "runsOn s ((m + 1) mod 7)" for m
    using opening_is_open [OF wok that, of ws] w(3) units(2) by (simp add: nx_defs)
  have shut: "\<not> is_open s (m * day_ns + y)" if "y < ws" "0 \<le> y" for m y
    using is_open_at [OF wok that(2), of m] that(1) ws by (simp add: nx_defs)
  have "first_open s t u \<and> (moved \<longrightarrow> (\<exists>m. u = m * day_ns + ws \<and> runsOn s ((m + 1) mod 7)))"
  proof (cases "is_open s t")
    case True
    then show ?thesis using nx by (auto simp: nextOpening_def first_open_def)
  next
    case shut_now: False
    have day: "dayOf t = n * day_ns" by (simp add: dayOf_eq nx_defs)
    show ?thesis
    proof (cases "runsOn s ((n + 1) mod 7) \<and> t < n * day_ns + ws")
      case True
      then have u: "u = n * day_ns + ws" "moved"
        using nx shut_now by (auto simp: nextOpening_def Let_def wd day w(5) nx_defs(3))
      have "\<not> is_open s y" if "t \<le> y" "y < u" for y
      proof -
        have "y = n * day_ns + (y - n * day_ns)" "y - n * day_ns < ws" "0 \<le> y - n * day_ns" using that t u by simp_all
        then show ?thesis using shut [of "y - n * day_ns" n] by simp
      qed
      then show ?thesis using u True start [of n] by (auto simp: first_open_def)
    next
      case False
      define f where "f i = (if runsOn s ((n + i + 1) mod 7) then Some ((n + i) * day_ns + ws) else None)" for i
      have W: "Weekday ((n + i) * day_ns) = (n + i + 1) mod 7" for i using Weekday_at [of 0 "n + i"] units(4) by simp
      have "nextOpening s t = (case first_some f [1 .. 8] of Some u \<Rightarrow> (u, True) | None \<Rightarrow> (t, False))"
        unfolding nextOpening_def Let_def wd day w(5) nx_defs(3) [symmetric] AddDate_days distrib_right [symmetric] W
          if_not_P [OF shut_now] if_not_P [OF False] f_def ..
      moreover obtain i0 where "1 \<le> i0" "i0 \<le> 7" "runsOn s ((n + i0 + 1) mod 7)" using a_day_comes [OF v] by blast
      then have "first_some f [1 .. 8] \<noteq> None" by (auto simp: first_some_None f_def intro!: bexI [of _ i0])
      ultimately have fs: "first_some f [1 .. 8] = Some u" "moved" using nx by auto
      then obtain i where i: "1 \<le> i" "f i = Some u" "\<And>j. 1 \<le> j \<Longrightarrow> j < i \<Longrightarrow> f j = None" by (auto simp: first_some_upto)
      then have u: "runsOn s ((n + i + 1) mod 7)" "u = (n + i) * day_ns + ws" by (auto simp: f_def split: if_splits)
      have "1 * day_ns \<le> i * day_ns" using i(1) units(4) by (intro mult_right_mono) simp_all
      then have "t < u" unfolding u(2) distrib_right using t ws by linarith
      moreover have "\<not> is_open s y" if y: "t \<le> y" "y < u" for y
      proof
        assume op: "is_open s y"
        define j z where jz: "j = day_of y - n" "z = y mod day_ns"
        have yz: "y = (n + j) * day_ns + z" "0 \<le> z" "z < day_ns" using day_split [of y] by (simp_all add: jz)
        have run: "runsOn s ((n + j + 1) mod 7)" "ws \<le> z"
          using is_open_at [OF wok yz(2,3), of "n + j"] op yz(1) by (simp_all add: nx_defs)
        have "day_of t \<le> day_of y" "day_of y \<le> day_of u" using y units(4) by (auto simp: day_of_def intro: zdiv_mono1)
        then have j: "0 \<le> j" "j \<le> i" using ws day_of_at [of ws "n + i"] u(2) by (simp_all add: jz nx_defs(1))
        consider "j = 0" | "1 \<le> j" "j < i" | "j = i" using j by linarith
        then show False
        proof cases
          case 1
          then have "runsOn s ((n + 1) mod 7)" "n * day_ns + ws \<le> t" using run False by simp_all
          then have "ws \<le> x" "x \<le> z" using t(1) yz(1) 1 y(1) by simp_all
          moreover have "z < (windowStart s + windowMinutes s) * minute"
            using is_open_at [OF wok yz(2,3), of "n + j"] op unfolding yz(1) [symmetric] by simp
          ultimately have "is_open s t"
            unfolding t(1) is_open_at [OF wok t(2,3)] using \<open>runsOn s ((n + 1) mod 7)\<close> nx_defs(3) by simp
          then show False using shut_now by simp
        next
          case 2 then show False using i(3) [of j] run by (simp add: f_def)
        next
          case 3 then show False using yz(1) u(2) run y(2) by simp
        qed
      qed
      ultimately show ?thesis using u fs(2) start [of "n + i"] by (auto simp: first_open_def intro!: exI [of _ "n + i"])
    qed
  qed
  then show "first_open s t u" and "moved \<Longrightarrow> \<exists>n. u = n * day_ns + windowStart s * minute \<and> runsOn s ((n + 1) mod 7)"
    by (auto simp: nx_defs)
qed

section \<open>What a schedule promises\<close>

definition fires :: "Spec \<Rightarrow> go_time \<Rightarrow> bool" where
  "fires s = (if sp_how s = HowYearly then fires_yearly s else if sp_how s = HowMonthly then fires_monthly s else fires_at s)"

text \<open>C18: A schedule with set times, once a day, several times a day, once a month or once a year, fires next at the
  first moment after now that it names: never late, never twice, and never nothing, a 29 February included,
  which waits at most eight years.\<close>

theorem the_next_set_time_is_the_first:
  assumes "ValidateSpec s = None" "sp_how s \<in> {HowDaily, HowTimes, HowMonthly, HowYearly}"
  shows "\<exists>t. Next s rnd frm = Inr t \<and> first_after (fires s) frm t"
  using assms first_at_times [OF assms(1), of frm] first_monthly [OF assms(1), of frm] first_yearly [OF assms(1), of frm]
  by (auto simp: Next_def fires_def Let_def how_defs)

definition leap_spec :: Spec where
  "leap_spec = zero_spec\<lparr>sp_how := HowYearly, sp_month := 2, sp_day := 29, sp_times := [540]\<rparr>"

definition no_draws :: draws where "no_draws = (\<lambda>_ lo _. lo)"

theorem the_next_set_time_is_the_first_witness:
  "\<exists>t. Next leap_spec no_draws (Date 2097 1 1 0 0) = Inr t \<and> first_after (fires leap_spec) (Date 2097 1 1 0 0) t"
proof -
  have "ValidateSpec leap_spec = None" "sp_how leap_spec \<in> {HowDaily, HowTimes, HowMonthly, HowYearly}"
    by (code_simp, simp add: leap_spec_def)
  then show ?thesis by (rule the_next_set_time_is_the_first)
qed

text \<open>An interval is kept and the window with it: the next time is the first open moment that is at least the
  interval away, on a day that runs and inside the window. The interval must fit the 64-bit duration it is
  multiplied out in.\<close>

theorem an_interval_waits_for_an_opening:
  assumes "ValidateSpec s = None" "sp_how s = HowEvery" "sp_every s \<le> 9223372036"
  shows "\<exists>t. Next s rnd frm = Inr t \<and> first_open s (frm + sp_every s * second) t"
proof -
  have "1 \<le> sp_every s" using assms(1,2) by (auto simp: ValidateSpec_def how_problem_def Let_def how_defs split: if_splits)
  then have "secs (sp_every s) = sp_every s * second" using assms(3) by (simp add: secs_def second_def duration_fits)
  then show ?thesis
    using nextOpening_first(1) [OF assms(1), of "frm + sp_every s * second" "fst (nextOpening s (frm + sp_every s * second))"
        "snd (nextOpening s (frm + sp_every s * second))"] assms(1,2)
    by (simp add: Next_def Let_def how_defs)
qed

definition office_hours :: Spec where
  "office_hours = zero_spec\<lparr>sp_how := HowEvery, sp_every := 1800, sp_days := 10, sp_hasWindow := True, sp_from := 540, sp_to := 1020\<rparr>"

theorem an_interval_waits_for_an_opening_witness:
  "\<exists>t. Next office_hours no_draws (Date 2026 10 12 16 45) = Inr t
     \<and> first_open office_hours (Date 2026 10 12 16 45 + 1800 * second) t"
proof -
  have "ValidateSpec office_hours = None" by code_simp
  from an_interval_waits_for_an_opening [OF this, of no_draws "Date 2026 10 12 16 45"]
  show ?thesis by (simp add: office_hours_def)
qed

text \<open>Past that the product wraps: an interval of ten thousand million seconds validates and fires next some
  267 years before now.\<close>

theorem a_long_interval_goes_back:
  "let s = zero_spec\<lparr>sp_how := HowEvery, sp_every := 10000000000\<rparr>; now = Date 2026 10 12 0 0
   in ValidateSpec s = None \<and> Next s no_draws now = Inr (now - 8446744073709551616)"
  by code_simp

section \<open>Random times\<close>

text \<open>What a draw in \<open>[0, 1)\<close> gives: a number from \<open>lo\<close> on, at most \<open>spread\<close> further, and short of it from zero.\<close>

definition fair :: "draws \<Rightarrow> bool" where
  "fair rnd \<longleftrightarrow> (\<forall>i lo spread. 0 < spread \<longrightarrow>
     lo \<le> rnd i lo spread \<and> rnd i lo spread \<le> lo + spread \<and> (lo = 0 \<longrightarrow> rnd i lo spread < spread))"

lemma fair_no_draws: "fair no_draws"
  by (simp add: fair_def no_draws_def)

lemma secs_fit: "0 \<le> n \<Longrightarrow> n \<le> 9223372036 \<Longrightarrow> secs n = n * second"
  by (simp add: secs_def second_def duration_fits)

lemma gap_lands:
  assumes v: "ValidateSpec s = None" and how: "sp_how s = HowRandomGap" and "fair rnd" "sp_maxGap s \<le> 9223372036"
  shows "frm < next_gap s rnd frm" "is_open s (next_gap s rnd frm)"
proof -
  have wok: "window_ok s" using v by (rule valid_window)
  note w = window_bounds [OF wok]
  have g: "1 \<le> sp_minGap s" "sp_minGap s < sp_maxGap s"
    using v how by (auto simp: ValidateSpec_def how_problem_def Let_def how_defs split: if_splits)
  define spread where "spread = sp_maxGap s - sp_minGap s"
  have r1: "1 \<le> rnd 1 (sp_minGap s) spread" "rnd 1 (sp_minGap s) spread \<le> 9223372036"
    and r2: "0 \<le> rnd 2 0 spread" "rnd 2 0 spread \<le> 9223372036"
    using assms(3,4) g by (auto simp: fair_def spread_def dest: spec [of _ spread]) (smt (verit))+
  define c where "c = frm + secs (rnd 1 (sp_minGap s) spread)"
  have c: "frm < c" using secs_fit r1 by (simp add: c_def second_def)
  obtain t moved where nx: "nextOpening s c = (t, moved)" by (cases "nextOpening s c")
  note first = nextOpening_first [OF v nx]
  define lim where "lim = windowMinutes s * minute"
  define off where "off = (if secs (rnd 2 0 spread) \<ge> lim then lim div 2 else secs (rnd 2 0 spread))"
  have lim: "0 < lim" using w(3) units(2) by (simp add: lim_def)
  have off: "0 \<le> off" "off < lim" using lim secs_fit [OF r2] r2 units(1) by (auto simp: off_def)
  have gap: "next_gap s rnd frm = (if moved then t + off else t)"
    unfolding next_gap_def Let_def spread_def [symmetric] c_def [symmetric] nx w(6) lim_def [symmetric] off_def by simp
  have t: "frm < t" "is_open s t" using first(1) c by (auto simp: first_open_def)
  show "frm < next_gap s rnd frm" using gap t(1) off(1) by simp
  show "is_open s (next_gap s rnd frm)"
  proof (cases moved)
    case True
    then obtain n where n: "t = n * day_ns + windowStart s * minute" "runsOn s ((n + 1) mod 7)" using first(2) by blast
    have "is_open s (n * day_ns + (windowStart s * minute + off))"
      by (rule opening_is_open [OF wok n(2)]) (use off in \<open>simp_all add: lim_def distrib_right\<close>)
    then show ?thesis using gap True n(1) by (simp add: add.assoc)
  qed (use gap t(2) in simp)
qed

lemma slot_fits:
  assumes v: "ValidateSpec s = None" and how: "sp_how s = HowRandomCount"
  shows "0 < slot_width s" "sp_perDay s * slot_width s \<le> windowMinutes s * minute"
proof -
  note w = window_bounds [OF valid_window [OF v]]
  have p: "1 \<le> sp_perDay s" "1 \<le> windowMinutes s div sp_perDay s"
    using v how by (auto simp: ValidateSpec_def how_problem_def Let_def how_defs split: if_splits)
  have "1 * sp_perDay s \<le> windowMinutes s" using p div_ge [of "sp_perDay s" 1 "windowMinutes s"] by simp
  then have "sp_perDay s * minute \<le> windowMinutes s * minute" using units(2) by (intro mult_right_mono) simp_all
  then have "minute \<le> windowMinutes s * minute div sp_perDay s" using p div_ge [of "sp_perDay s" minute] by (simp add: mult.commute)
  then show "0 < slot_width s" using units(2) by (simp add: slot_width_def w(6))
  show "sp_perDay s * slot_width s \<le> windowMinutes s * minute"
    using p div_ge [of "sp_perDay s" "slot_width s" "windowMinutes s * minute"] by (simp add: slot_width_def w(6) mult.commute)
qed

lemma pick_lands:
  assumes v: "ValidateSpec s = None" "sp_how s = HowRandomCount" and "fair rnd"
    and k: "0 \<le> k" "k < sp_perDay s" and run: "runsOn s ((n + 1) mod 7)"
  shows "is_open s (pick s rnd (n * day_ns) k)"
    and "n * day_ns + windowStart s * minute + k * slot_width s \<le> pick s rnd (n * day_ns) k"
proof -
  have wok: "window_ok s" using v(1) by (rule valid_window)
  note w = window_bounds [OF wok] and sl = slot_fits [OF v]
  let ?r = "rnd 1 0 (slot_width s)"
  have r: "0 \<le> ?r" "?r < slot_width s" using assms(3) sl(1) by (simp_all add: fair_def)
  have p: "pick s rnd (n * day_ns) k = n * day_ns + (windowStart s * minute + (k * slot_width s + ?r))"
    by (simp add: pick_def w(5))
  show "n * day_ns + windowStart s * minute + k * slot_width s \<le> pick s rnd (n * day_ns) k" using p r(1) by simp
  have "(k + 1) * slot_width s \<le> sp_perDay s * slot_width s" using k sl(1) by (intro mult_right_mono) simp_all
  then have "k * slot_width s + ?r < windowMinutes s * minute" using sl(2) r(2) by (simp add: distrib_right)
  then show "is_open s (pick s rnd (n * day_ns) k)"
    unfolding p using opening_is_open [OF wok run] r(1) k(1) sl(1) by (simp add: distrib_right)
qed

lemma later_pick_lands:
  assumes v: "ValidateSpec s = None"
  shows "\<exists>i. 1 \<le> i \<and> runsOn s ((day_of frm + i + 1) mod 7)
    \<and> later_pick s rnd (dayOf frm) = Some (pick s rnd ((day_of frm + i) * day_ns) 0)"
proof -
  define n where "n = day_of frm"
  define f where "f i = (if runsOn s ((n + i + 1) mod 7) then Some (pick s rnd ((n + i) * day_ns) 0) else None)" for i
  have W: "Weekday ((n + i) * day_ns) = (n + i + 1) mod 7" for i using Weekday_at [of 0 "n + i"] units(4) by simp
  have lp: "later_pick s rnd (dayOf frm) = first_some f [1 .. 8]"
    unfolding later_pick_def Let_def dayOf_eq n_def [symmetric] AddDate_days distrib_right [symmetric] W f_def ..
  obtain i0 where "1 \<le> i0" "i0 \<le> 7" "runsOn s ((n + i0 + 1) mod 7)" using a_day_comes [OF v] by blast
  then have "first_some f [1 .. 8] \<noteq> None" by (auto simp: first_some_None f_def intro!: bexI [of _ i0])
  then obtain u where u: "first_some f [1 .. 8] = Some u" by blast
  then obtain i where "1 \<le> i" "f i = Some u" by (auto simp: first_some_upto)
  then show ?thesis using lp u by (auto simp: f_def n_def split: if_splits intro!: exI [of _ i])
qed

lemma count_lands:
  assumes v: "ValidateSpec s = None" "sp_how s = HowRandomCount" and "fair rnd"
  shows "\<exists>t. next_count s rnd frm = Some t \<and> frm < t \<and> is_open s t"
proof -
  note w = window_bounds [OF valid_window [OF v(1)]] and sl = slot_fits [OF v]
  have per: "1 \<le> sp_perDay s" using v by (auto simp: ValidateSpec_def how_problem_def Let_def how_defs split: if_splits)
  define n where "n = day_of frm"
  have day: "dayOf frm = n * day_ns" by (simp add: dayOf_eq n_def)
  have frm: "n * day_ns \<le> frm" "frm < (n + 1) * day_ns" using day_split [of frm] by (simp_all add: n_def algebra_simps)
  define since where "since = frm - (n * day_ns + windowStart s * minute)"
  define k where "k = since div slot_width s + 1"
  obtain i where i: "1 \<le> i" and run: "runsOn s ((n + i + 1) mod 7)"
    and lp: "later_pick s rnd (dayOf frm) = Some (pick s rnd ((n + i) * day_ns) 0)"
    using later_pick_lands [OF v(1), of frm rnd] by (auto simp: n_def)
  define u where "u = pick s rnd ((n + i) * day_ns) 0"
  have nx: "next_count s rnd frm = (if runsOn s (Weekday frm) then
      (if since < 0 then Some (pick s rnd (n * day_ns) 0)
       else if k < sp_perDay s then Some (pick s rnd (n * day_ns) k) else Some u)
     else Some u)"
    unfolding next_count_def Let_def lp u_def w(5) unfolding day since_def k_def ..
  have start: "0 \<le> windowStart s * minute" using w(1) units(2) by simp
  note up = pick_lands [OF v assms(3), of 0 "n + i"]
  have "(n + 1) * day_ns \<le> (n + i) * day_ns" using i(1) units(4) by (intro mult_right_mono) simp_all
  then have later: "frm < u" "is_open s u" using up per run frm(2) start by (simp_all add: u_def)
  show ?thesis
  proof (cases "runsOn s (Weekday frm)")
    case False then show ?thesis using nx later by simp
  next
    case True
    then have today: "runsOn s ((n + 1) mod 7)" by (simp add: Weekday_def n_def)
    show ?thesis
    proof (cases "since < 0")
      case early: True
      note pick_lands [OF v assms(3), of 0 n]
      then have "is_open s (pick s rnd (n * day_ns) 0)" "frm < pick s rnd (n * day_ns) 0"
        using per today early by (simp_all add: since_def)
      then show ?thesis using nx True early by simp
    next
      case late: False
      have k: "0 \<le> k" "since < k * slot_width s"
        using late sl(1) div_ge [of "slot_width s" "since div slot_width s + 1" since]
        by (simp_all add: k_def pos_imp_zdiv_nonneg_iff)
      show ?thesis
      proof (cases "k < sp_perDay s")
        case True
        note pick_lands [OF v assms(3) k(1) True today]
        then have "is_open s (pick s rnd (n * day_ns) k)" "frm < pick s rnd (n * day_ns) k"
          using k(2) by (simp_all add: since_def)
        then show ?thesis using nx \<open>runsOn s (Weekday frm)\<close> late True by simp
      next
        case False then show ?thesis using nx \<open>runsOn s (Weekday frm)\<close> late later by simp
      qed
    qed
  qed
qed

text \<open>A random schedule stays inside its window: whatever is drawn, the next time lies after now, on a day that
  runs and between the window's start and its end.\<close>

theorem random_times_keep_the_window:
  assumes "ValidateSpec s = None" "sp_how s \<in> {HowRandomGap, HowRandomCount}" "fair rnd" "sp_maxGap s \<le> 9223372036"
  shows "\<exists>t. Next s rnd frm = Inr t \<and> frm < t \<and> is_open s t"
proof (cases "sp_how s = HowRandomGap")
  case True
  then show ?thesis using gap_lands [OF assms(1) True assms(3,4), of frm] assms(1) by (simp add: Next_def Let_def how_defs)
next
  case False
  then have how: "sp_how s = HowRandomCount" using assms(2) by simp
  then show ?thesis using count_lands [OF assms(1) how assms(3), of frm] assms(1) by (auto simp: Next_def Let_def how_defs)
qed

theorem random_times_keep_the_window_witness:
  "let s = office_hours\<lparr>sp_how := HowRandomCount, sp_perDay := 4\<rparr>
   in \<exists>t. Next s no_draws (Date 2026 10 12 10 0) = Inr t \<and> Date 2026 10 12 10 0 < t \<and> is_open s t"
proof -
  let ?s = "office_hours\<lparr>sp_how := HowRandomCount, sp_perDay := 4\<rparr>"
  have "ValidateSpec ?s = None" by code_simp
  from random_times_keep_the_window [OF this _ fair_no_draws] show ?thesis by (simp add: office_hours_def zero_spec_def Let_def)
qed

text \<open>C11: A schedule that validates fires again, and later than now: whatever the time, the draws and the kind
  of schedule there is a next time, and it is after now whenever the draws lie in their range and an interval,
  or the longest gap of a random one, is at most 9223372036 seconds (292 years). Past that the 64-bit duration
  the seconds are multiplied out in wraps, and the next time can lie before now: see
  \<open>a_long_interval_goes_back\<close>.\<close>

theorem a_valid_schedule_fires_again:
  assumes "ValidateSpec s = None"
  shows "\<exists>t. Next s rnd frm = Inr t
    \<and> (fair rnd \<and> (sp_how s = HowEvery \<longrightarrow> sp_every s \<le> 9223372036)
        \<and> (sp_how s = HowRandomGap \<longrightarrow> sp_maxGap s \<le> 9223372036) \<longrightarrow> frm < t)"
proof -
  consider "sp_how s = HowEvery" | "sp_how s = HowRandomGap" | "sp_how s = HowRandomCount"
    | "sp_how s = HowDaily \<or> sp_how s = HowTimes" | "sp_how s = HowMonthly" | "sp_how s = HowYearly"
    using assms by (auto simp: ValidateSpec_def how_problem_def Let_def split: if_splits)
  then show ?thesis
  proof cases
    case 1
    then have every: "1 \<le> sp_every s"
      using assms by (auto simp: ValidateSpec_def how_problem_def Let_def how_defs split: if_splits)
    obtain t where t: "Next s rnd frm = Inr t" using 1 assms by (auto simp: Next_def Let_def how_defs)
    have "frm < t" if "sp_every s \<le> 9223372036"
    proof -
      have "frm + sp_every s * second \<le> t"
        using an_interval_waits_for_an_opening [OF assms 1 that, of rnd frm] t by (auto simp: first_open_def)
      moreover have "0 < sp_every s * second" using every units(1) by simp
      ultimately show ?thesis by linarith
    qed
    with t 1 show ?thesis by blast
  next
    case 2
    then show ?thesis using gap_lands(1) [OF assms 2, of rnd frm] assms by (simp add: Next_def Let_def how_defs)
  next
    case 3
    have "next_count s rnd frm \<noteq> None"
      using later_pick_lands [OF assms, of frm rnd] by (auto simp: next_count_def Let_def)
    then obtain t where "next_count s rnd frm = Some t" by blast
    then show ?thesis using count_lands [OF assms 3, of rnd frm] 3 assms by (auto simp: Next_def Let_def how_defs)
  next
    case 4
    then show ?thesis using first_at_times [OF assms 4, of frm] assms
      by (auto simp: Next_def Let_def how_defs first_after_def)
  next
    case 5
    then show ?thesis using first_monthly [OF assms 5, of frm] assms by (auto simp: Next_def Let_def how_defs first_after_def)
  next
    case 6
    then show ?thesis using first_yearly [OF assms 6, of frm] assms by (auto simp: Next_def Let_def how_defs first_after_def)
  qed
qed

theorem a_valid_schedule_fires_again_witness: "\<exists>t. Next leap_spec no_draws 0 = Inr t \<and> 0 < t"
proof -
  have "ValidateSpec leap_spec = None" "sp_how leap_spec \<noteq> HowEvery" "sp_how leap_spec \<noteq> HowRandomGap" by code_simp+
  then show ?thesis using a_valid_schedule_fires_again [of leap_spec no_draws 0] fair_no_draws by auto
qed

end
