(* ===== verification/Cron.thy ===== *)
theory Cron
  imports TimingFires
begin

text \<open>
  The cron-like forms read on their own (core/cron.go): \<open>NextCronOccurrence\<close> and the daily random window. The lemmas
  compare \<open>NextCronOccurrence\<close> with \<open>Next\<close> of the \<open>Spec\<close> that \<open>FromCron\<close> reads from the same text. The number drawn
  inside a slot is an argument, and so is the configured gap.
\<close>

section \<open>The next occurrence\<close>

definition cronMonths :: "(string \<times> int) list" where
  "cronMonths = [(''jan'', 1), (''january'', 1), (''feb'', 2), (''february'', 2), (''mar'', 3), (''march'', 3),
     (''apr'', 4), (''april'', 4), (''may'', 5), (''jun'', 6), (''june'', 6), (''jul'', 7), (''july'', 7),
     (''aug'', 8), (''august'', 8), (''sep'', 9), (''september'', 9), (''oct'', 10), (''october'', 10),
     (''nov'', 11), (''november'', 11), (''dec'', 12), (''december'', 12)]"

definition cronWeekdays :: "(string \<times> int) list" where
  "cronWeekdays = [(''sun'', 0), (''sunday'', 0), (''mon'', 1), (''monday'', 1), (''tue'', 2), (''tuesday'', 2),
     (''wed'', 3), (''wednesday'', 3), (''thu'', 4), (''thursday'', 4), (''fri'', 5), (''friday'', 5),
     (''sat'', 6), (''saturday'', 6)]"

datatype cron_err =
    CrShape string | CrTime string | CrMonth string | CrDay string | CrNone string | CrUnknownDay string | CrTiming timing_err

fun cron_tokens :: "string list \<Rightarrow> cron_err + int list" where
  "cron_tokens [] = Inr []"
| "cron_tokens (tok # toks) =
     (case map_of cronWeekdays (to_lower (trim_space tok)) of
        None \<Rightarrow> Inl (CrUnknownDay tok)
      | Some d \<Rightarrow> (case cron_tokens toks of Inl e \<Rightarrow> Inl e | Inr ds \<Rightarrow> Inr (d # ds)))"

definition cron_days :: "string \<Rightarrow> cron_err + int list" where
  "cron_days part0 =
     (let days = to_lower part0 in
      if days = ''daily'' \<or> days = ''everyday'' then Inr [0 .. 6]
      else if days = ''weekdays'' then Inr [1, 2, 3, 4, 5]
      else if days = ''weekends'' then Inr [6, 0]
      else cron_tokens (split_commas part0))"

definition cron_date :: "string \<Rightarrow> string \<Rightarrow> nat \<Rightarrow> int \<Rightarrow> int \<Rightarrow> go_time \<Rightarrow> cron_err + go_time" where
  "cron_date spec part0 i h m frm =
     (case map_of cronMonths (to_lower (take i part0)) of
        None \<Rightarrow> Inl (CrMonth (take i part0))
      | Some mon \<Rightarrow>
          (case scan_int (drop (i + 1) part0) of
             None \<Rightarrow> Inl (CrDay (drop (i + 1) part0))
           | Some d \<Rightarrow>
               (if d < 1 \<or> 31 < d then Inl (CrDay (drop (i + 1) part0))
                else case first_some (\<lambda>y. let c = Date y mon d h m in
                       if Month c \<noteq> mon then None else if frm < c then Some c else None) [Year frm, Year frm + 1] of
                  Some c \<Rightarrow> Inr c
                | None \<Rightarrow> Inl (CrNone spec))))"

definition cron_weekday :: "string \<Rightarrow> string \<Rightarrow> int \<Rightarrow> int \<Rightarrow> go_time \<Rightarrow> cron_err + go_time" where
  "cron_weekday spec part0 h m frm =
     (case cron_days part0 of
        Inl e \<Rightarrow> Inl e
      | Inr days \<Rightarrow>
          (let base = Date (Year frm) (Month frm) (Day frm) h m in
           case first_some (\<lambda>i. let c = AddDate base 0 0 i in
                  if Weekday c \<in> set days \<and> frm < c then Some c else None) [0 .. 7] of
             Some c \<Rightarrow> Inr c
           | None \<Rightarrow> Inl (CrNone spec)))"

definition NextCronOccurrence :: "string \<Rightarrow> go_time \<Rightarrow> cron_err + go_time" where
  "NextCronOccurrence spec frm =
     (case Fields (trim_space spec) of
        [part0, part1] \<Rightarrow>
          (case parse_clock part1 of
             None \<Rightarrow> Inl (CrTime part1)
           | Some (h, m) \<Rightarrow>
               (let dated = (case index_of part0 ''-'' of
                    Some i \<Rightarrow> (if 0 < i then cron_date spec part0 i h m frm else cron_weekday spec part0 h m frm)
                  | None \<Rightarrow> cron_weekday spec part0 h m frm)
                in case FromCron spec of
                     Some s \<Rightarrow>
                       (if sp_how s = HowMonthly then
                          (case Next s no_draws frm of Inl e \<Rightarrow> Inl (CrTiming e) | Inr t \<Rightarrow> Inr t)
                        else dated)
                   | None \<Rightarrow> dated))
      | _ \<Rightarrow> Inl (CrShape spec))"

section \<open>The daily window\<close>

definition ParseWindowBounds :: "string \<Rightarrow> (int \<times> int \<times> int \<times> int) option" where
  "ParseWindowBounds spec =
     (case index_of spec ''-'' of
        None \<Rightarrow> None
      | Some i \<Rightarrow>
          (case (parse_clock (trim_space (take i spec)), parse_clock (trim_space (drop (i + 1) spec))) of
             (Some (sh, sm), Some (eh, em)) \<Rightarrow> Some (sh, sm, eh, em)
           | _ \<Rightarrow> None))"

text \<open>A moment of one slot, past \<open>earliest\<close>; \<open>rnd\<close> is \<open>rand.Int63n\<close> of a range and one more.\<close>

definition pickInSlot :: "(int \<Rightarrow> int) \<Rightarrow> go_time \<Rightarrow> int \<Rightarrow> go_time \<Rightarrow> go_time \<Rightarrow> int \<Rightarrow> go_time option" where
  "pickInSlot rnd earliest n wStart wEnd i =
     (let slotWidth = (wEnd - wStart) div n; slotStart = wStart + slotWidth * i; slotEnd = wStart + slotWidth * (i + 1);
          effective = (if slotStart < earliest then earliest else slotStart)
      in if slotEnd < earliest \<or> slotEnd \<le> effective then None
         else (let jitterRange = slotEnd - effective; jitter = rnd (jitterRange + 1) in
               Some (effective + (if jitter \<ge> jitterRange then jitterRange - 1 else jitter))))"

definition window_day :: "int \<times> int \<times> int \<times> int \<Rightarrow> go_time \<Rightarrow> go_time \<times> go_time" where
  "window_day = (\<lambda>(sh, sm, eh, em) d.
     (Date (Year d) (Month d) (Day d) sh sm, Date (Year d) (Month d) (Day d) eh em))"

definition NextRandomWindowTime ::
    "(int \<Rightarrow> int) \<Rightarrow> int \<Rightarrow> string \<Rightarrow> go_time \<Rightarrow> int \<Rightarrow> int \<Rightarrow> go_time option" where
  "NextRandomWindowTime rnd minGap spec frm n0 firedSoFar =
     (case ParseWindowBounds spec of
        None \<Rightarrow> None
      | Some b \<Rightarrow>
          (let n = (if n0 < 1 then 1 else n0); earliest = frm + minGap;
               on_day = (\<lambda>d start. case window_day b d of (wStart, wEnd) \<Rightarrow>
                 if wEnd \<le> wStart \<or> n \<le> start then None else first_some (pickInSlot rnd earliest n wStart wEnd) [start .. n - 1])
           in case on_day frm firedSoFar of
                Some t \<Rightarrow> Some t
              | None \<Rightarrow>
                  (case on_day (AddDate frm 0 0 1) 0 of
                     Some t \<Rightarrow> Some t
                   | None \<Rightarrow>
                       (case window_day b (AddDate frm 0 0 2) of (wStart, wEnd) \<Rightarrow>
                          if wEnd \<le> wStart then None else pickInSlot rnd earliest n wStart wEnd 0))))"

section \<open>Two readers of one form\<close>

lemma month_names_agree:
  "map_of cronMonths name = (if month_named name = 0 then None else Some (month_named name))"
proof (cases "name \<in> set (map fst cronMonths)")
  case True
  have each: "list_all (\<lambda>(k, v). month_named k = v \<and> v \<noteq> 0) cronMonths" by code_simp
  obtain v where "map_of cronMonths name = Some v" using True by (metis map_of_eq_None_iff set_map not_None_eq)
  then show ?thesis using each map_of_SomeD by (fastforce simp: list_all_iff)
next
  case False
  have "list_all (\<lambda>m. to_lower (monthNames ! nat (m - 1)) \<in> set (map fst cronMonths)
      \<and> take 3 (to_lower (monthNames ! nat (m - 1))) \<in> set (map fst cronMonths)) [1 .. 12]" by code_simp
  then have "find (month_is name) [1 .. 12] = None"
    using False unfolding find_none list_all_iff Let_def month_is_def by blast
  then have "month_named name = 0" by (simp add: month_named_def)
  moreover have "map_of cronMonths name = None" using False by (simp only: map_of_eq_None_iff set_map simp_thms)
  ultimately show ?thesis by simp
qed

lemma weekday_names_agree: "map_of cronWeekdays name = map_option int (map_of weekdayNames name)"
  by (simp add: cronWeekdays_def weekdayNames_def)

lemma mask_of_tokens:
  assumes "day_mask toks w = Some w1"
  shows "\<exists>ds. cron_tokens toks = Inr ds \<and> length ds = length toks \<and> (\<forall>d \<in> set ds. 0 \<le> d \<and> d < 7)
    \<and> (\<forall>k. bit w1 k = (bit w k \<or> int k \<in> set ds))"
  using assms
proof (induction toks arbitrary: w)
  case (Cons tok toks)
  then obtain k where k: "map_of weekdayNames (to_lower (trim_space tok)) = Some k" "day_mask toks (w OR push_bit k 1) = Some w1"
    by (auto split: option.splits)
  have "k \<in> set (map snd weekdayNames)" using map_of_SomeD [OF k(1)] by force
  then have k7: "k < 7" by (auto simp: weekdayNames_def)
  from Cons.IH [OF k(2)] obtain ds where ds: "cron_tokens toks = Inr ds" "length ds = length toks" "\<forall>d \<in> set ds. 0 \<le> d \<and> d < 7"
    "\<And>j. bit w1 j = (bit (w OR push_bit k 1) j \<or> int j \<in> set ds)" by blast
  have b: "bit (w OR push_bit k 1) j = (bit w j \<or> int j = int k)" for j
    using k7 by (auto simp: bit_simps)
  show ?case
    using k(1) ds k7 b by (intro exI [of _ "int k # ds"]) (auto simp: weekday_names_agree)
qed simp

lemma strip_keeps:
  assumes "\<forall>r \<in> set rs. c \<notin> set r" "c \<in> set s"
  shows "c \<in> set (strip rs s)"
  using assms
proof (induction rs s rule: strip.induct)
  case (1 rs s)
  show ?case
  proof (cases "find (\<lambda>r. r \<noteq> [] \<and> has_prefix s r) rs")
    case None
    then show ?thesis using 1 by (subst strip.simps) simp
  next
    case (Some r)
    then have r: "r \<in> set rs" "has_prefix s r" by (auto simp: find_Some_iff)
    then obtain t where t: "s = r @ t" by (auto simp: has_prefix_conv)
    then have "c \<in> set (drop (length r) s)" using r 1 by auto
    then show ?thesis using 1 Some by (subst strip.simps) simp
  qed
qed

lemma a_dash_is_kept: "CHR ''-'' \<in> set s \<Longrightarrow> CHR ''-'' \<in> set (to_lower (trim_space s))"
proof -
  assume "CHR ''-'' \<in> set s"
  moreover have "\<forall>r \<in> set space_runes. CHR ''-'' \<notin> set r" by (simp add: space_runes_def ascii_spaces_def)
  ultimately have "CHR ''-'' \<in> set (trim_space s)"
    by (simp add: trim_space_def trim_runes_def trim_left_def trim_right_def strip_keeps)
  then have "lower_char (CHR ''-'') \<in> set (to_lower (trim_space s))" by (simp add: to_lower_def)
  moreover have "lower_char (CHR ''-'') = CHR ''-''" by code_simp
  ultimately show ?thesis by simp
qed

lemma split_commas_chars: "c \<in> set s \<Longrightarrow> c \<noteq> CHR '','' \<Longrightarrow> \<exists>tok \<in> set (split_commas s). c \<in> set tok"
proof (induction s)
  case (Cons a s)
  then show ?case by (cases "split_commas s") (auto split: if_splits)
qed simp

lemma split_commas_some: "split_commas s \<noteq> []"
  by (induction s) (auto split: list.splits)

lemma no_dashed_days:
  assumes "CHR ''-'' \<in> set s"
  shows "day_mask (split_commas s) w = None"
proof -
  obtain tok where tok: "tok \<in> set (split_commas s)" "CHR ''-'' \<in> set tok" using split_commas_chars [OF assms] by auto
  have "CHR ''-'' \<notin> set name" if "name \<in> fst ` set weekdayNames" for name
    using that by (auto simp: weekdayNames_def)
  then have "map_of weekdayNames (to_lower (trim_space tok)) = None"
    using a_dash_is_kept [OF tok(2)] by (auto simp: map_of_eq_None_iff)
  then have "tok \<in> set toks \<Longrightarrow> day_mask toks w = None" for toks
    by (induction toks arbitrary: w) (auto split: option.splits)
  then show ?thesis using tok(1) by blast
qed

lemma digit_int_ge: "is_digit c \<Longrightarrow> 0 \<le> digit_int c"
proof -
  have "(of_char c :: int) = int (of_char c)" by (rule of_nat_of_char [symmetric])
  then show "is_digit c \<Longrightarrow> ?thesis" unfolding digit_int_def is_digit_def Let_def by linarith
qed

lemma clock_bounds: "parse_clock s = Some (h, m) \<Longrightarrow> 0 \<le> h \<and> h < 24 \<and> 0 \<le> m \<and> m < 60"
proof -
  have "0 \<le> n" if "getnum fixed t = Some (n, r)" for fixed t n r
    using that by (auto simp: getnum_def digit_at_def digit_int_ge split: if_splits)
  then show "parse_clock s = Some (h, m) \<Longrightarrow> ?thesis"
    by (fastforce simp: parse_clock_def split: option.splits prod.splits if_splits)
qed

lemma Date_clock: "Date y m d h mi = day_number y m d * day_ns + (h * 60 + mi) * minute"
  by (simp add: Date_def units(6,7) algebra_simps)

lemma first_some_cut:
  assumes "first_some f xs = Some y"
  shows "first_some f (xs @ ys) = Some y"
  using assms by (induction xs) (auto split: option.splits)

text \<open>A yearly day other than 29 February comes in every year, so that this year and the next are enough.\<close>

lemma two_years_do:
  assumes v: "ValidateSpec s = None" "sp_how s = HowYearly" and t: "sp_times s = [h * 60 + m]"
    and not_leap: "\<not> (sp_month s = 2 \<and> sp_day s = 29)"
  shows "\<exists>c. next_yearly s frm = Some c \<and>
    first_some (\<lambda>y. let c = Date y (sp_month s) (sp_day s) h m in
       if Month c \<noteq> sp_month s then None else if frm < c then Some c else None) [Year frm, Year frm + 1] = Some c"
proof -
  note yv = yearly_valid [OF v]
  have ok: "sp_day s \<le> days_in y (sp_month s)" for y using fits_or_next_month [OF yv(1-4), of y] not_leap by blast
  define f where "f y = (if frm < year_date s y then Some (year_date s y) else None)" for y
  have d: "Date y (sp_month s) (sp_day s) h m = year_date s y" for y by (simp add: Date_clock year_date_def t)
  have mon: "Month (year_date s y) = sp_month s" for y
    using year_date_fires(1) [OF v ok] by (simp add: fires_yearly_def)
  have cron: "first_some (\<lambda>y. let c = Date y (sp_month s) (sp_day s) h m in
       if Month c \<noteq> sp_month s then None else if frm < c then Some c else None) ys = first_some f ys" for ys
    by (simp add: d mon f_def [abs_def] Let_def)
  have nx: "next_yearly s frm = first_some f [Year frm .. Year frm + 8]"
    unfolding next_yearly_def year_date_step [OF v] f_def using ok by simp
  have "Year frm < Year (year_date s (Year frm + 1))" using year_date_fires(2) [OF v ok] by simp
  then have "frm < year_date s (Year frm + 1)" using Year_mono by (meson linorder_not_le)
  then obtain c where c: "first_some f [Year frm, Year frm + 1] = Some c" by (cases "f (Year frm)") (auto simp: f_def)
  have "[Year frm .. Year frm + 8] = [Year frm, Year frm + 1] @ [Year frm + 2 .. Year frm + 8]"
    by (simp add: upto_rec1)
  then show ?thesis using c first_some_cut [OF c] nx cron by auto
qed

lemma a_week_does:
  assumes v: "ValidateSpec s = None" "sp_how s = HowDaily" and t: "sp_times s = [h * 60 + m]"
    and days: "\<And>d. 0 \<le> d \<Longrightarrow> d < 7 \<Longrightarrow> d \<in> set ds \<longleftrightarrow> runsOn s d"
  shows "\<exists>c. next_at_times s frm = Some c \<and>
    (let base = Date (Year frm) (Month frm) (Day frm) h m in
     first_some (\<lambda>i. let c = AddDate base 0 0 i in
       if Weekday c \<in> set ds \<and> frm < c then Some c else None) [0 .. 7]) = Some c"
proof -
  have at0: "0 \<le> h * 60 + m" "h * 60 + m < 24 * 60" using times_valid(2) [OF v(1)] v(2) t by auto
  have x: "0 \<le> (h * 60 + m) * minute" "(h * 60 + m) * minute < day_ns" using minute_in_day [OF at0] by simp_all
  define n where "n = day_of frm"
  define c where "c i = (n + i) * day_ns + (h * 60 + m) * minute" for i
  define f where "f i = (if runsOn s ((n + i + 1) mod 7) \<and> frm < c i then Some (c i) else None)" for i
  have base: "Date (Year frm) (Month frm) (Day frm) h m + i * day_ns = c i" for i
    by (simp add: Date_clock date_of c_def n_def algebra_simps)
  have w: "Weekday (c i) = (n + i + 1) mod 7" for i using Weekday_at [OF x] by (simp add: c_def)
  have cron: "(let base = Date (Year frm) (Month frm) (Day frm) h m in
     first_some (\<lambda>i. let c = AddDate base 0 0 i in
       if Weekday c \<in> set ds \<and> frm < c then Some c else None) is) = first_some f is" for "is"
    by (simp add: base w f_def [abs_def] Let_def days cong: if_cong)
  have d: "dayOf frm + i * day_ns = (n + i) * day_ns" "Weekday ((n + i) * day_ns) = (n + i + 1) mod 7" for i
    using Weekday_at [of 0 "n + i"] units(4) by (simp_all add: dayOf_eq n_def algebra_simps)
  have nx: "next_at_times s frm = first_some f [0 .. 8]"
    unfolding next_at_times_def AddDate_days Let_def d t using mins_fit at0
    by (auto simp: f_def c_def intro!: arg_cong [of _ _ "\<lambda>f. first_some f [0 .. 8]"])
  obtain i where i: "1 \<le> i" "i \<le> 7" "runsOn s ((n + i + 1) mod 7)" using a_day_comes [OF v(1)] by blast
  have "frm < (n + 1) * day_ns" using day_split [of frm] by (simp add: n_def algebra_simps)
  also have "\<dots> \<le> (n + i) * day_ns" using i(1) units(4) by simp
  finally have "f i \<noteq> None" using i(3) x by (simp add: f_def c_def)
  then have "first_some f [0 .. 7] \<noteq> None" using i by (auto simp: first_some_None intro!: bexI [of _ i])
  then obtain y where y: "first_some f [0 .. 7] = Some y" by blast
  have "[0 .. 8] = [0 .. 7] @ [8 :: int]" by code_simp
  then show ?thesis using y first_some_cut [OF y] nx cron by auto
qed

lemma all_days_mask: "AllDays = mask 7"
  by (simp add: AllDays_def mask_eq_exp_minus_1)

lemma days_of_mask:
  assumes "day_mask (split_commas part0) 0 = Some w"
  shows "\<exists>ds. cron_tokens (split_commas part0) = Inr ds \<and> w \<noteq> 0 \<and> w AND NOT AllDays = 0
    \<and> (\<forall>d. 0 \<le> d \<longrightarrow> (d \<in> set ds \<longleftrightarrow> bit w (nat d)))"
proof -
  from mask_of_tokens [OF assms] obtain ds where ds: "cron_tokens (split_commas part0) = Inr ds"
    "length ds = length (split_commas part0)" "\<forall>d \<in> set ds. 0 \<le> d \<and> d < 7" "\<And>k. bit w k \<longleftrightarrow> int k \<in> set ds" by auto
  have "ds \<noteq> []" using ds(2) split_commas_some by auto
  then have "bit w (nat (hd ds))" using ds(3,4) by simp
  then have "w \<noteq> 0" by auto
  moreover have "\<not> bit (w AND NOT AllDays) k" for k
  proof (cases "bit w k")
    case True
    then have "k < 7" using ds by fastforce
    then have "bit AllDays k" by (simp add: all_days_mask bit_mask_iff)
    then show ?thesis by (simp add: bit_simps)
  qed (simp add: bit_simps)
  then have "w AND NOT AllDays = 0" by (simp add: bit_eq_iff)
  ultimately show ?thesis using ds by (auto intro!: exI [of _ ds])
qed

lemma daily_is_valid:
  assumes "w AND NOT AllDays = 0" "0 \<le> h" "h < 24" "0 \<le> m" "m < 60"
  shows "ValidateSpec (zero_spec\<lparr>sp_how := HowDaily, sp_times := [h * 60 + m], sp_days := w\<rparr>) = None"
proof -
  have "w AND AllDays = w" using assms(1) by (auto simp: bit_eq_iff bit_simps)
  then show ?thesis
    using assms by (auto simp: ValidateSpec_def how_problem_def zero_spec_def how_defs not_a_time_def)
qed

lemma weekday_readers:
  assumes "sp_how s = HowDaily" "ValidateSpec s = None" "sp_times s = [h * 60 + m]"
    and ds: "cron_days part0 = Inr ds" "\<And>d. 0 \<le> d \<Longrightarrow> d < 7 \<Longrightarrow> d \<in> set ds \<longleftrightarrow> runsOn s d"
  shows "\<exists>t. cron_weekday spec part0 h m frm = Inr t \<and> Next s rnd frm = Inr t"
  using a_week_does [OF assms(2,1,3) ds(2), of frm] assms(1,2)
  by (auto simp: cron_weekday_def ds(1) Next_def Let_def how_defs)

lemma daily_readers:
  assumes "0 \<le> h" "h < 24" "0 \<le> m" "m < 60"
    and s: "(let s = zero_spec\<lparr>sp_how := HowDaily, sp_times := [h * 60 + m]\<rparr>; days = to_lower part0 in
          if days = ''daily'' \<or> days = ''everyday'' then Some s
          else if days = ''weekdays'' then Some (s\<lparr>sp_days := Weekdays\<rparr>)
          else if days = ''weekends'' then Some (s\<lparr>sp_days := Weekends\<rparr>)
          else map_option (\<lambda>w. s\<lparr>sp_days := w\<rparr>) (day_mask (split_commas part0) 0)) = Some s"
  shows "\<exists>t. cron_weekday spec part0 h m frm = Inr t \<and> Next s rnd frm = Inr t"
proof -
  obtain w ds where w: "s = zero_spec\<lparr>sp_how := HowDaily, sp_times := [h * 60 + m], sp_days := w\<rparr>" "w AND NOT AllDays = 0"
    and ds: "cron_days part0 = Inr ds" "\<And>d. 0 \<le> d \<Longrightarrow> d < 7 \<Longrightarrow> d \<in> set ds \<longleftrightarrow> w = 0 \<or> bit w (nat d)"
  proof -
    consider "to_lower part0 = ''daily'' \<or> to_lower part0 = ''everyday''" | "to_lower part0 = ''weekdays''" | "to_lower part0 = ''weekends''"
      | "\<not> (to_lower part0 = ''daily'' \<or> to_lower part0 = ''everyday'')" "to_lower part0 \<noteq> ''weekdays''" "to_lower part0 \<noteq> ''weekends''" by blast
    then show ?thesis
    proof cases
      case 1
      then show ?thesis using s by (intro that [of 0 "[0 .. 6]"]) (auto simp: cron_days_def Let_def zero_spec_def)
    next
      case 2
      have "list_all (\<lambda>d. (d \<in> set [1, 2, 3, 4, 5 :: int]) = bit Weekdays (nat d)) [0 .. 6]" by code_simp
      then have "d \<in> set [1, 2, 3, 4, 5] \<longleftrightarrow> Weekdays = 0 \<or> bit Weekdays (nat d)" if "0 \<le> d" "d < 7" for d
        using that unfolding list_all_iff by (simp add: Weekdays_def)
      moreover have "Weekdays AND NOT AllDays = 0" by code_simp
      ultimately show ?thesis using s 2 by (intro that [of Weekdays "[1, 2, 3, 4, 5]"]) (auto simp: cron_days_def Let_def)
    next
      case 3
      have "list_all (\<lambda>d. (d \<in> set [6, 0 :: int]) = bit Weekends (nat d)) [0 .. 6]" by code_simp
      then have "d \<in> set [6, 0] \<longleftrightarrow> Weekends = 0 \<or> bit Weekends (nat d)" if "0 \<le> d" "d < 7" for d
        using that unfolding list_all_iff by (simp add: Weekends_def)
      moreover have "Weekends AND NOT AllDays = 0" by code_simp
      ultimately show ?thesis using s 3 by (intro that [of Weekends "[6, 0]"]) (auto simp: cron_days_def Let_def)
    next
      case 4
      then obtain w where w: "day_mask (split_commas part0) 0 = Some w"
        "s = zero_spec\<lparr>sp_how := HowDaily, sp_times := [h * 60 + m], sp_days := w\<rparr>"
        using s by (auto simp: Let_def)
      from days_of_mask [OF w(1)] obtain ds where "cron_tokens (split_commas part0) = Inr ds" "w \<noteq> 0" "w AND NOT AllDays = 0"
        "\<forall>d. 0 \<le> d \<longrightarrow> (d \<in> set ds \<longleftrightarrow> bit w (nat d))" by blast
      then show ?thesis using 4 w by (intro that [of w ds]) (auto simp: cron_days_def Let_def)
    qed
  qed
  have "ValidateSpec s = None" unfolding w(1) using daily_is_valid [OF w(2) assms(1-4)] .
  moreover have "d \<in> set ds \<longleftrightarrow> runsOn s d" if "0 \<le> d" "d < 7" for d using ds(2) [OF that] by (simp add: runsOn_def w(1))
  ultimately show ?thesis using ds(1) w(1) by (intro weekday_readers) auto
qed

lemma day_names_have_no_dash:
  assumes "(let s = s0; days = to_lower part0 in
          if days = ''daily'' \<or> days = ''everyday'' then Some s
          else if days = ''weekdays'' then Some (s\<lparr>sp_days := Weekdays\<rparr>)
          else if days = ''weekends'' then Some (s\<lparr>sp_days := Weekends\<rparr>)
          else map_option (\<lambda>w. s\<lparr>sp_days := w\<rparr>) (day_mask (split_commas part0) 0)) = Some s"
  shows "index_of part0 ''-'' = None"
proof (rule ccontr)
  assume "index_of part0 ''-'' \<noteq> None"
  then obtain i where "i + 1 \<le> length part0" "take 1 (drop i part0) = ''-''"
    using index_of_Some [of part0 "''-''"] by auto
  then have "part0 ! i = CHR ''-''" "i < length part0" by (auto simp: take_Suc hd_drop_conv_nth)
  then have dash: "CHR ''-'' \<in> set part0" by (metis nth_mem)
  then have "lower_char (CHR ''-'') \<in> set (to_lower part0)" by (simp add: to_lower_def)
  moreover have "lower_char (CHR ''-'') = CHR ''-''" by code_simp
  ultimately have "CHR ''-'' \<in> set (to_lower part0)" by simp
  then have "to_lower part0 \<noteq> ''daily'' \<and> to_lower part0 \<noteq> ''everyday'' \<and> to_lower part0 \<noteq> ''weekdays'' \<and> to_lower part0 \<noteq> ''weekends''"
    by auto
  then show False using assms no_dashed_days [OF dash] by (simp add: Let_def)
qed

lemma date_readers:
  assumes md: "month_day part0 = Some (mon, d)" and clock: "parse_clock part1 = Some (h, m)"
    and s: "s = zero_spec\<lparr>sp_how := HowYearly, sp_month := mon, sp_day := d, sp_times := [h * 60 + m]\<rparr>" "ValidateSpec s = None"
    and not_leap: "\<not> (mon = 2 \<and> d = 29)"
  shows "\<exists>i t. index_of part0 ''-'' = Some i \<and> 0 < i \<and> cron_date spec part0 i h m frm = Inr t \<and> Next s rnd frm = Inr t"
proof -
  obtain i where i: "index_of part0 ''-'' = Some i" "0 < i" "month_named (to_lower (take i part0)) = mon" "mon \<noteq> 0"
    "scan_int (drop (i + 1) part0) = Some d"
    using md by (auto simp: month_day_def Let_def split: option.splits if_splits)
  have y: "sp_how s = HowYearly" "sp_times s = [h * 60 + m]" "sp_month s = mon" "sp_day s = d" by (simp_all add: s(1))
  have d: "1 \<le> d" "d \<le> 31" using yearly_valid [OF s(2) y(1)] y by (auto simp: daysInMonth_def split: if_splits)
  have mon: "map_of cronMonths (to_lower (take i part0)) = Some mon" using i(3,4) by (simp add: month_names_agree)
  from two_years_do [OF s(2) y(1,2)] not_leap y obtain c where c: "next_yearly s frm = Some c"
    "first_some (\<lambda>y. let c = Date y mon d h m in
       if Month c \<noteq> mon then None else if frm < c then Some c else None) [Year frm, Year frm + 1] = Some c" by auto
  then have "cron_date spec part0 i h m frm = Inr c" using mon i(5) d unfolding cron_date_def by simp
  moreover have "Next s rnd frm = Inr c" using c(1) s(2) y(1) by (simp add: Next_def Let_def)
  ultimately show ?thesis using i by blast
qed

text \<open>C21: The two readers of the old forms agree on a clock whose offset from UTC does not change: whatever \<open>FromCron\<close>
  reads, \<open>NextCronOccurrence\<close> answers with the next time of the schedule it read, every form, every time asked
  from; 29 February apart. On a day the clocks change they need not: \<open>NextCronOccurrence\<close> asks \<open>time.Date\<close> for the
  hour on the wall and \<open>Next\<close> adds the minutes to midnight, and the model's clock has no such day.\<close>

theorem the_two_readers_agree:
  assumes "FromCron spec = Some s" "\<not> (sp_how s = HowYearly \<and> sp_month s = 2 \<and> sp_day s = 29)"
  shows "\<exists>t. NextCronOccurrence spec frm = Inr t \<and> Next s rnd frm = Inr t"
proof -
  obtain part0 part1 h m where f: "Fields (trim_space spec) = [part0, part1]" "parse_clock part1 = Some (h, m)"
    using assms(1) by (auto simp: FromCron_def split: list.splits option.splits)
  note clock = clock_bounds [OF f(2)]
  show ?thesis
  proof (cases "monthlyDay part0")
    case (Some d)
    then have s: "s = zero_spec\<lparr>sp_how := HowMonthly, sp_day := d, sp_times := [h * 60 + m]\<rparr>" "ValidateSpec s = None"
      using assms(1) f by (auto simp: FromCron_def Let_def split: if_splits)
    then have "sp_how s = HowMonthly" by simp
    moreover obtain t where "next_monthly s frm = Some t" using first_monthly [OF s(2) calculation] by blast
    ultimately show ?thesis using f assms(1) s(2) by (auto simp: NextCronOccurrence_def Next_def Let_def how_defs)
  next
    case None
    show ?thesis
    proof (cases "month_day part0")
      case (Some p)
      then obtain mon d where md: "month_day part0 = Some (mon, d)" by (cases p) auto
      then have s: "s = zero_spec\<lparr>sp_how := HowYearly, sp_month := mon, sp_day := d, sp_times := [h * 60 + m]\<rparr>" "ValidateSpec s = None"
        using assms(1) f None by (auto simp: FromCron_def Let_def split: if_splits)
      then have "\<not> (mon = 2 \<and> d = 29)" using assms(2) by simp
      from date_readers [OF md f(2) s this, of spec frm rnd] show ?thesis
        using f assms(1) s(1) by (auto simp: NextCronOccurrence_def Let_def how_defs)
    next
      case no_date: None
      let ?s0 = "zero_spec\<lparr>sp_how := HowDaily, sp_times := [h * 60 + m]\<rparr>"
      have s: "(let s = ?s0; days = to_lower part0 in
          if days = ''daily'' \<or> days = ''everyday'' then Some s
          else if days = ''weekdays'' then Some (s\<lparr>sp_days := Weekdays\<rparr>)
          else if days = ''weekends'' then Some (s\<lparr>sp_days := Weekends\<rparr>)
          else map_option (\<lambda>w. s\<lparr>sp_days := w\<rparr>) (day_mask (split_commas part0) 0)) = Some s"
        using assms(1) f None no_date by (simp add: FromCron_def Let_def)
      then have "sp_how s = HowDaily" by (auto simp: Let_def split: if_splits)
      then show ?thesis
        using daily_readers [OF _ _ _ _ s, of spec frm rnd] clock day_names_have_no_dash [OF s] f assms(1)
        by (auto simp: NextCronOccurrence_def Let_def how_defs)
    qed
  qed
qed

theorem the_two_readers_agree_witness:
  "\<exists>t. NextCronOccurrence ''mon,FRI 21:30'' (Date 2026 10 12 22 0) = Inr t
     \<and> Next (zero_spec\<lparr>sp_how := HowDaily, sp_times := [1290], sp_days := 0x22\<rparr>) no_draws (Date 2026 10 12 22 0) = Inr t"
proof (rule the_two_readers_agree)
  show "FromCron ''mon,FRI 21:30'' = Some (zero_spec\<lparr>sp_how := HowDaily, sp_times := [1290], sp_days := 0x22\<rparr>)" by code_simp
qed (simp add: how_defs)

text \<open>29 February is where they part: in 2025 the schedule waits for 2028, and \<open>NextCronOccurrence\<close>, which looks at
  this year and the next only, answers that there is no such time.\<close>

theorem a_leap_day_is_not_found:
  "let frm = Date 2025 3 1 0 0; spec = ''FEB-29 09:00'' in
     NextCronOccurrence spec frm = Inl (CrNone spec)
     \<and> (\<exists>s. FromCron spec = Some s \<and> Next s no_draws frm = Inr (Date 2028 2 29 9 0))"
proof -
  have "FromCron ''FEB-29 09:00'' = Some leap_spec" by code_simp
  moreover have "Next leap_spec no_draws (Date 2025 3 1 0 0) = Inr (Date 2028 2 29 9 0)" by code_simp
  moreover have "NextCronOccurrence ''FEB-29 09:00'' (Date 2025 3 1 0 0) = Inl (CrNone ''FEB-29 09:00'')" by code_simp
  ultimately show ?thesis by (simp add: Let_def)
qed

section \<open>A window's fires\<close>

definition draws_in_range :: "(int \<Rightarrow> int) \<Rightarrow> bool" where
  "draws_in_range rnd \<longleftrightarrow> (\<forall>k. 0 < k \<longrightarrow> 0 \<le> rnd k \<and> rnd k < k)"

definition inside :: "int \<times> int \<times> int \<times> int \<Rightarrow> go_time \<Rightarrow> bool" where
  "inside b t \<longleftrightarrow> (case window_day b t of (wStart, wEnd) \<Rightarrow> wStart \<le> t \<and> t < wEnd)"

lemma slot_lands:
  assumes "draws_in_range rnd" "1 \<le> n" "0 \<le> i" "i < n" "wStart \<le> wEnd" "pickInSlot rnd earliest n wStart wEnd i = Some t"
  shows "earliest \<le> t" "wStart \<le> t" "t < wEnd"
proof -
  define w e where "w = (wEnd - wStart) div n" and "e = max earliest (wStart + w * i)"
  have w: "0 \<le> w" "w * n \<le> wEnd - wStart"
    using assms(2,5) div_mult_mod_eq [of "wEnd - wStart" n] pos_mod_sign [of n "wEnd - wStart"] unfolding w_def
    by (simp_all only: pos_imp_zdiv_nonneg_iff) linarith+
  have t: "e < wStart + w * (i + 1)" "t = e + (let r = wStart + w * (i + 1) - e; j = rnd (r + 1) in if j \<ge> r then r - 1 else j)"
    using assms(6) by (auto simp: pickInSlot_def Let_def w_def e_def max_def split: if_splits)
  have "0 \<le> rnd (wStart + w * (i + 1) - e + 1)" using assms(1) t(1) by (simp add: draws_in_range_def)
  then have "e \<le> t" "t < wStart + w * (i + 1)" using t by (auto simp: Let_def split: if_splits)
  moreover have "w * (i + 1) \<le> w * n" using assms(4) w(1) by (intro mult_left_mono) auto
  moreover have "0 \<le> w * i" using w(1) assms(3) by simp
  ultimately show "earliest \<le> t" "wStart \<le> t" "t < wEnd" using w by (auto simp: e_def)
qed

lemma window_of_day:
  assumes "ParseWindowBounds spec = Some (sh, sm, eh, em)"
  obtains a b where "0 \<le> a" "b < day_ns" "a \<ge> b \<or> a + minute \<le> b"
    "\<And>d. window_day (sh, sm, eh, em) d = (day_of d * day_ns + a, day_of d * day_ns + b)"
proof
  have c: "0 \<le> sh" "sh < 24" "0 \<le> sm" "sm < 60" "0 \<le> eh" "eh < 24" "0 \<le> em" "em < 60"
    using assms clock_bounds by (auto simp: ParseWindowBounds_def split: option.splits prod.splits)
  show "0 \<le> (sh * 60 + sm) * minute" using c units by simp
  show "(eh * 60 + em) * minute < day_ns" using minute_in_day [of "eh * 60 + em"] c by simp
  show "(sh * 60 + sm) * minute \<ge> (eh * 60 + em) * minute \<or> (sh * 60 + sm) * minute + minute \<le> (eh * 60 + em) * minute"
  proof (cases "eh * 60 + em \<le> sh * 60 + sm")
    case False
    then have "(sh * 60 + sm + 1) * minute \<le> (eh * 60 + em) * minute" using units(2) by (intro mult_right_mono) auto
    then show ?thesis by (simp add: algebra_simps)
  qed (use units(2) in simp)
  show "window_day (sh, sm, eh, em) d = (day_of d * day_ns + (sh * 60 + sm) * minute, day_of d * day_ns + (eh * 60 + em) * minute)" for d
    by (simp add: window_day_def Date_clock date_of)
qed

lemma lands_inside:
  assumes w: "\<And>d. window_day b d = (day_of d * day_ns + x, day_of d * day_ns + y)" and "0 \<le> x" "y < day_ns"
    and "day_of d * day_ns + x \<le> t" "t < day_of d * day_ns + y"
  shows "inside b t"
proof -
  have "day_of (day_of d * day_ns + (t - day_of d * day_ns)) = day_of d" by (rule day_of_at) (use assms in auto)
  then have "day_of t = day_of d" by simp
  then show ?thesis using assms by (simp add: inside_def)
qed

lemma slots_land:
  assumes "draws_in_range rnd" "1 \<le> n" "0 \<le> k" "x < y" "0 \<le> x" "y < day_ns"
    and w: "\<And>d. window_day b d = (day_of d * day_ns + x, day_of d * day_ns + y)"
    and f: "first_some (pickInSlot rnd earliest n (day_of d * day_ns + x) (day_of d * day_ns + y)) [k .. n - 1] = Some t"
  shows "earliest \<le> t \<and> inside b t"
proof -
  obtain i where i: "k \<le> i" "i \<le> n - 1" "pickInSlot rnd earliest n (day_of d * day_ns + x) (day_of d * day_ns + y) i = Some t"
    using f by (auto simp: first_some_upto)
  note l = slot_lands [OF assms(1,2) _ _ _ i(3)]
  show ?thesis using l i assms by (intro conjI lands_inside [OF w, of d]) auto
qed

text \<open>A daily window with a start before its end always gives a next fire, whatever was drawn and however many of
  today's slots are used: a moment at least the gap away, inside the window of its day.\<close>

theorem a_window_fires_inside:
  assumes "ParseWindowBounds spec = Some (sh, sm, eh, em)" "sh * 60 + sm < eh * 60 + em" "draws_in_range rnd"
    and "0 \<le> gap" "gap \<le> day_ns" "0 \<le> fired" "n \<le> minute"
  shows "\<exists>t. NextRandomWindowTime rnd gap spec frm n fired = Some t \<and> frm + gap \<le> t \<and> inside (sh, sm, eh, em) t"
proof -
  obtain x y where w: "0 \<le> x" "y < day_ns" "x \<ge> y \<or> x + minute \<le> y"
    "\<And>d. window_day (sh, sm, eh, em) d = (day_of d * day_ns + x, day_of d * day_ns + y)" by (rule window_of_day [OF assms(1)]) (rule that)
  have "(sh * 60 + sm) * minute < (eh * 60 + em) * minute" using assms(2) units(2) by (rule mult_strict_right_mono)
  then have "x < y" using w(4) [of 0] by (simp add: window_day_def Date_clock date_of)
  then have xy: "x + minute \<le> y" using w(3) by simp
  define N where "N = (if n < 1 then 1 else n)"
  have N: "1 \<le> N" "N \<le> minute" using assms(7) units(1,7) by (auto simp: N_def second_def minute_def)
  define e where "e = frm + gap"
  define on_day where "on_day d k = (if N \<le> k then None
      else first_some (pickInSlot rnd e N (day_of d * day_ns + x) (day_of d * day_ns + y)) [k .. N - 1])" for d k
  have lands: "e \<le> t \<and> inside (sh, sm, eh, em) t" if "on_day d k = Some t" "0 \<le> k" for d k t
    using that slots_land [OF assms(3) N(1) that(2) \<open>x < y\<close> w(1,2,4), of e d t] by (simp add: on_day_def split: if_splits)
  let ?d2 = "AddDate frm 0 0 2"
  let ?s2 = "day_of ?d2 * day_ns + x" and ?e2 = "day_of ?d2 * day_ns + y"
  have "1 \<le> (?e2 - ?s2) div N" using xy N by (simp add: int_one_le_iff_zero_less pos_imp_zdiv_pos_iff)
  moreover have "day_of ?d2 * day_ns = (day_of frm + 2) * day_ns" using units(4) by (simp add: day_of_def)
  then have "e \<le> ?s2" using day_split [of frm] assms(5) w(1) by (simp add: e_def algebra_simps)
  ultimately obtain t2 where t2: "pickInSlot rnd e N ?s2 ?e2 0 = Some t2" by (auto simp: pickInSlot_def Let_def)
  have "on_day ?d2 0 = Some t2"
    using t2 N by (simp add: on_day_def upto_rec1)
  note l2 = lands [OF this]
  have "NextRandomWindowTime rnd gap spec frm n fired =
      (case on_day frm fired of Some t \<Rightarrow> Some t | None \<Rightarrow> (case on_day (AddDate frm 0 0 1) 0 of Some t \<Rightarrow> Some t | None \<Rightarrow> Some t2))"
    using \<open>x < y\<close> t2 unfolding NextRandomWindowTime_def assms(1) Let_def N_def [symmetric] e_def [symmetric] option.case w(4) on_day_def prod.case t2 by simp
  then show ?thesis using lands [of frm fired] lands [of "AddDate frm 0 0 1" 0] l2 assms(6)
    by (auto simp: e_def split: option.splits)
qed

theorem a_window_fires_inside_witness:
  "\<exists>t. NextRandomWindowTime (\<lambda>k. k div 2) (20 * minute) ''09:00-17:00'' (Date 2026 10 12 16 50) 3 1 = Some t
     \<and> Date 2026 10 12 16 50 + 20 * minute \<le> t \<and> inside (9, 0, 17, 0) t"
  by (rule a_window_fires_inside) (code_simp, simp, simp add: draws_in_range_def, presburger, simp_all add: units second_def)

end
