(* ===== verification/Pacing.thy ===== *)
theory Pacing
  imports Cron
begin

text \<open>
  The one lever an attempt has over its own schedule (core/pacing/pacing.go): the tool \<open>set_next_attempt\<close>, which
  reads the time asked for, keeps it between the host's floor and ceiling, lets the host move it later and records
  it. The arguments are what \<open>StringArg\<close> and \<open>IntArg\<close> read from the call; the clock, the host's adjustment and
  \<open>time.ParseInLocation\<close> for each of the three layouts are arguments, and the mutex makes a record one step. The
  confirmation is the time and what was done to it, without the sentence around them; delays are written as whole
  units of durations in whole seconds.
\<close>

section \<open>The ask\<close>

record Ask =
  ak_at :: go_time
  ak_why :: string
  ak_set :: bool
  ak_asks :: int




definition ask_record :: "go_time \<Rightarrow> string \<Rightarrow> Ask \<Rightarrow> Ask" where
  "ask_record moment why a = a\<lparr>ak_at := moment, ak_why := why, ak_set := True, ak_asks := ak_asks a + 1\<rparr>"

record ToolSpec =
  pt_min :: int
  pt_max :: int
  pt_maxReason :: string
  pt_adjust :: "(go_time \<Rightarrow> go_time) option"

definition maxDelay :: int where "maxDelay = 24 * hour"

datatype pace_err = PaceNoReason | PacePast string | PaceUnread string | PaceNoWait

section \<open>Reading and clamping\<close>

definition pace_layouts :: "string list" where
  "pace_layouts = [''2006-01-02T15:04:05Z07:00'', ''2006-01-02 15:04'', ''2006-01-02T15:04'']"

definition askedTime ::
    "(string \<Rightarrow> string \<Rightarrow> go_time option) \<Rightarrow> string \<Rightarrow> int \<Rightarrow> go_time \<Rightarrow> pace_err + go_time" where
  "askedTime parse at_arg minutes start =
     (let raw = trim_space at_arg in
      if raw \<noteq> [] then
        (case first_some (\<lambda>layout. parse layout raw) pace_layouts of
           Some ts \<Rightarrow> (if ts > start then Inr ts else Inl (PacePast raw))
         | None \<Rightarrow> Inl (PaceUnread raw))
      else if minutes \<le> 0 then Inl PaceNoWait
      else Inr (start + mins minutes))"

definition humanDelay :: "int \<Rightarrow> string" where
  "humanDelay d =
     (if d \<ge> 48 * hour then itoa_int (d div hour div 24) @ '' days''
      else if d \<ge> 2 * hour then itoa_int (d div hour) @ '' hours''
      else if d \<ge> hour then ''1 hour''
      else if d \<ge> minute then itoa_int (d div minute) @ '' minutes''
      else ''under a minute'')"

definition pace_ceiling :: "ToolSpec \<Rightarrow> int" where
  "pace_ceiling spec = (if pt_max spec \<le> 0 then maxDelay else pt_max spec)"

definition pace_floor :: "ToolSpec \<Rightarrow> int" where
  "pace_floor spec =
     (let lo = (if pt_min spec < 0 then 0 else pt_min spec) in if lo > pace_ceiling spec then pace_ceiling spec else lo)"

text \<open>\<open>Time.Sub\<close> keeps a difference past 292 years at the longest duration.\<close>

definition sub_time :: "go_time \<Rightarrow> go_time \<Rightarrow> int" where
  "sub_time t start = max (- (2 ^ 63)) (min (2 ^ 63 - 1) (t - start))"

definition clamp_ask :: "ToolSpec \<Rightarrow> go_time \<Rightarrow> go_time \<Rightarrow> go_time \<times> string" where
  "clamp_ask spec start moment =
     (if sub_time moment start < pace_floor spec then
        (start + pace_floor spec, ''raised to the minimum gap of '' @ humanDelay (pace_floor spec))
      else if sub_time moment start > pace_ceiling spec then
        (start + pace_ceiling spec,
         ''lowered to the furthest this task may be moved ('' @ humanDelay (pace_ceiling spec) @ '')'' @
           (if trim_space (pt_maxReason spec) \<noteq> [] then '': '' @ trim_space (pt_maxReason spec) else []))
      else (moment, []))"

definition shape_ask :: "ToolSpec \<Rightarrow> go_time \<times> string \<Rightarrow> go_time \<times> string" where
  "shape_ask spec = (\<lambda>(moment, clamped).
     (case pt_adjust spec of
        None \<Rightarrow> (moment, clamped)
      | Some adjust \<Rightarrow>
          (if adjust moment > moment then
             (adjust moment,
              if clamped = [] then ''moved to the next time this task is allowed to run''
              else clamped @ '', then moved to the next time this task is allowed to run'')
           else (moment, clamped))))"

definition set_next_attempt ::
    "(string \<Rightarrow> string \<Rightarrow> go_time option) \<Rightarrow> ToolSpec \<Rightarrow> go_time \<Rightarrow> string \<Rightarrow> string \<Rightarrow> int \<Rightarrow> Ask
       \<Rightarrow> (pace_err + go_time \<times> string) \<times> Ask" where
  "set_next_attempt parse spec start why_arg at_arg minutes ask =
     (let why = trim_space why_arg in
      if why = [] then (Inl PaceNoReason, ask)
      else case askedTime parse at_arg minutes start of
        Inl e \<Rightarrow> (Inl e, ask)
      | Inr moment \<Rightarrow>
          (let p = shape_ask spec (clamp_ask spec start moment) in (Inr p, ask_record (fst p) why ask)))"

section \<open>Bounds\<close>







definition pace_spec :: ToolSpec where
  "pace_spec = \<lparr>pt_min = 10 * minute, pt_max = 0, pt_maxReason = [], pt_adjust = None\<rparr>"


text \<open>A wait too long for the 64-bit product wraps below the floor: asking for two hundred million minutes is granted
  the shortest wait, not the longest.\<close>

theorem a_huge_wait_is_the_shortest:
  "fst (set_next_attempt parse pace_spec start ''build'' [] 200000000 ask)
     = Inr (start + 10 * minute, ''raised to the minimum gap of 10 minutes'')"
proof -
  have w: "trim_space ''build'' \<noteq> []" by code_simp
  have "mins 200000000 < 0" "pace_floor pace_spec = 10 * minute" "pace_ceiling pace_spec = 24 * hour" by code_simp+
  moreover have "humanDelay (10 * minute) = ''10 minutes''" by code_simp
  moreover have "0 < minute" by (rule units(2))
  ultimately have "clamp_ask pace_spec start (start + mins 200000000) = (start + 10 * minute, ''raised to the minimum gap of 10 minutes'')"
    by (simp add: clamp_ask_def sub_time_def)
  then show ?thesis using w by (simp add: set_next_attempt_def askedTime_def Let_def shape_ask_def pace_spec_def)
qed

end
