(* ===== verification/TimeText.thy ===== *)
theory TimeText
  imports Cron
begin

text \<open>
  A time as text: \<open>time.RFC3339\<close> in UTC, what a stored moment is written as, and its reading back. The
  strings of the years 0 to 9999 are ordered as the moments are, to the second, which the scheduler relies
  on when it compares them. Only the form \<open>Format\<close> writes in UTC is read; a fraction of a second
  and an offset, which nothing stores, are not.
\<close>

section \<open>Writing and reading\<close>

definition Second :: "go_time \<Rightarrow> int" where "Second t = t mod minute div second"

definition padded :: "nat \<Rightarrow> int \<Rightarrow> string" where
  "padded w n = (let s = itoa_int n in replicate (w - length s) (CHR ''0'') @ s)"

definition RFC3339 :: "go_time \<Rightarrow> string" where
  "RFC3339 t =
     padded 4 (Year t) @ ''-'' @ padded 2 (Month t) @ ''-'' @ padded 2 (Day t) @ ''T'' @
     padded 2 (Hour t) @ '':'' @ padded 2 (Minute t) @ '':'' @ padded 2 (Second t) @ ''Z''"

definition number_in :: "string \<Rightarrow> int \<Rightarrow> int \<Rightarrow> int option" where
  "number_in s lo hi =
     (case digits_value s 0 of None \<Rightarrow> None
      | Some n \<Rightarrow> (if lo \<le> int n \<and> int n \<le> hi then Some (int n) else None))"

definition part :: "nat \<Rightarrow> nat \<Rightarrow> string \<Rightarrow> string" where
  "part i n s = take n (drop i s)"

definition parse_RFC3339 :: "string \<Rightarrow> go_time option" where
  "parse_RFC3339 s =
     (if length s \<noteq> 20 \<or> part 4 1 s \<noteq> ''-'' \<or> part 7 1 s \<noteq> ''-'' \<or> part 10 1 s \<noteq> ''T'' \<or> part 13 1 s \<noteq> '':''
         \<or> part 16 1 s \<noteq> '':'' \<or> part 19 1 s \<noteq> ''Z'' then None
      else
        (case (number_in (part 0 4 s) 0 9999, number_in (part 5 2 s) 1 12) of
           (Some y, Some mo) \<Rightarrow>
             (case (number_in (part 8 2 s) 1 (days_in y mo), number_in (part 11 2 s) 0 23, number_in (part 14 2 s) 0 59,
                    number_in (part 17 2 s) 0 59) of
                (Some d, Some h, Some mi, Some sec) \<Rightarrow> Some (Date y mo d h mi + sec * second)
              | _ \<Rightarrow> None)
         | _ \<Rightarrow> None))"

section \<open>Digits\<close>

fun fixed :: "nat \<Rightarrow> int \<Rightarrow> string" where
  "fixed 0 n = []"
| "fixed (Suc w) n = fixed w (n div 10) @ [digit (nat (n mod 10))]"

lemma length_fixed [simp]: "length (fixed w n) = w"
  by (induction w arbitrary: n) auto

lemma fixed_zero: "fixed w 0 = replicate w (CHR ''0'')"
proof (induction w)
  case (Suc w)
  have "digit 0 = CHR ''0''" by code_simp
  then show ?case using Suc by (simp add: replicate_append_same)
qed simp

lemma itoa_fixed: "n < 10 ^ w \<Longrightarrow> 0 < w \<Longrightarrow> fixed w (int n) = replicate (w - length (itoa n)) (CHR ''0'') @ itoa n \<and> length (itoa n) \<le> w"
proof (induction w arbitrary: n)
  case (Suc w)
  show ?case
  proof (cases "n < 10")
    case True
    then show ?thesis by (simp add: itoa.simps [of n] fixed_zero)
  next
    case False
    then have w: "0 < w" using Suc.prems by (cases w) auto
    have n: "n div 10 < 10 ^ w" using Suc.prems by (simp add: less_mult_imp_div_less mult.commute)
    have e: "int n div 10 = int (n div 10)" "nat (int n mod 10) = n mod 10" by (simp_all add: zdiv_int nat_mod_as_int)
    show ?thesis using Suc.IH [OF n w] False by (simp add: itoa.simps [of n] e)
  qed
qed simp

lemma padded_fixed: "0 \<le> n \<Longrightarrow> n < 10 ^ w \<Longrightarrow> 0 < w \<Longrightarrow> padded w n = fixed w n"
  using itoa_fixed [of "nat n" w] by (simp add: padded_def itoa_int_def Let_def nat_less_iff)

lemma ten_below: "n < 10 * k \<Longrightarrow> n div 10 < k" for n k :: int
  by linarith

lemma ten_parts: "10 * (n div 10) + n mod 10 = n" "0 \<le> n mod 10" "n mod 10 < 10" for n :: int
  by simp_all

lemma digits_fixed: "0 \<le> n \<Longrightarrow> n < 10 ^ w \<Longrightarrow> digits_value (fixed w n) 0 = Some (nat n)"
proof (induction w arbitrary: n)
  case (Suc w)
  have "n div 10 < 10 ^ w" using Suc.prems ten_below by simp
  then have IH: "digits_value (fixed w (n div 10)) 0 = Some (nat (n div 10))" using Suc.IH [of "n div 10"] Suc.prems by simp
  have d: "nat (n mod 10) < 10" "10 * nat (n div 10) + nat (n mod 10) = nat n"
    using Suc.prems ten_parts [of n] by linarith+
  show ?case using d digit_value [OF d(1)] by (simp add: digits_value_append IH Let_def)
qed simp

section \<open>Order\<close>

lemma less_append:
  fixes a b u v :: "char list"
  assumes "length a = length b"
  shows "a @ u < b @ v \<longleftrightarrow> a < b \<or> a = b \<and> u < v"
  using assms
proof (induction a b rule: list_induct2)
  case (Cons x xs y ys)
  then show ?case by auto
qed simp

lemma fixed_less: "0 \<le> a \<Longrightarrow> a < b \<Longrightarrow> b < 10 ^ w \<Longrightarrow> fixed w a < fixed w b"
proof (induction w arbitrary: a b)
  case (Suc w)
  have b: "b div 10 < 10 ^ w" using Suc.prems ten_below by simp
  consider "a div 10 < b div 10" | "a div 10 = b div 10" "a mod 10 < b mod 10"
    using Suc.prems(2) ten_parts [of a] ten_parts [of b] by linarith
  then show ?case
  proof cases
    case 1
    then show ?thesis using Suc.IH [OF _ 1 b] Suc.prems by (simp add: less_append)
  next
    case 2
    have "digit (nat (a mod 10)) < digit (nat (b mod 10))"
      using 2(2) le_less_trans [OF ten_parts(2) [of a] 2(2)] digit_value [of "nat (a mod 10)"] digit_value [of "nat (b mod 10)"] by (simp add: less_char_def nat_less_iff)
    then show ?thesis using 2(1) by (simp add: less_append)
  qed
qed simp

section \<open>The parts of a moment\<close>

lemma below_div:
  fixes k q y :: int
  assumes "0 < q" "y < k * q"
  shows "y div q < k"
proof (rule ccontr)
  assume "\<not> y div q < k"
  then have "k * q \<le> y div q * q" using assms(1) by (intro mult_right_mono) auto
  then show False using assms div_mult_mod_eq [of y q] pos_mod_sign [of q y] by linarith
qed

lemma parts_of_clock:
  "t mod day_ns = Hour t * hour + t mod hour" "t mod hour = Minute t * minute + t mod minute"
  "t mod minute = Second t * second + t mod second"
proof -
  have d: "hour dvd day_ns" "minute dvd hour" "second dvd minute" by (simp_all add: day_ns_def hour_def minute_def)
  show "t mod day_ns = Hour t * hour + t mod hour"
    using div_mult_mod_eq [of "t mod day_ns" hour] by (simp add: Hour_def mod_mod_cancel [OF d(1)])
  show "t mod hour = Minute t * minute + t mod minute"
    using div_mult_mod_eq [of "t mod hour" minute] by (simp add: Minute_def mod_mod_cancel [OF d(2)])
  show "t mod minute = Second t * second + t mod second"
    using div_mult_mod_eq [of "t mod minute" second] by (simp add: Second_def mod_mod_cancel [OF d(3)])
qed

lemma clock_ranges: "0 \<le> Hour t" "Hour t < 24" "0 \<le> Minute t" "Minute t < 60" "0 \<le> Second t" "Second t < 60"
proof -
  have div_range: "0 \<le> x mod (k * q) div q" "x mod (k * q) div q < k" if "0 < q" "0 < k" for x k q :: int
    using that by (simp_all add: pos_imp_zdiv_nonneg_iff below_div)
  show "0 \<le> Hour t" "Hour t < 24" "0 \<le> Minute t" "Minute t < 60" "0 \<le> Second t" "Second t < 60"
    using div_range [of hour 24 t] div_range [of minute 60 t] div_range [of second 60 t] units(1-3)
    by (simp_all add: Hour_def Minute_def Second_def day_ns_def hour_def minute_def)
qed

lemma date_ranges: "1 \<le> Month t" "Month t \<le> 12" "1 \<le> Day t" "Day t \<le> days_in (Year t) (Month t)" "Day t \<le> 31"
  using day_number_civil(2-5) [OF civil_of [of t]] by (auto simp: days_in_def leap_day_def split: if_splits)

lemma mod_div_parts: "0 < k \<Longrightarrow> 0 < q \<Longrightarrow> t mod (q * k) div q = t div q mod k" for t k q :: int
  by (simp add: zmod_zmult2_eq)

lemma seconds_decide:
  "day_of t = t div second div 86400" "Hour t = t div second div 3600 mod 24" "Minute t = t div second div 60 mod 60"
  "Second t = t div second mod 60"
proof -
  have d: "day_ns = second * 86400" "hour = second * 3600" "minute = second * 60" by (simp_all add: units(5-7))
  have q: "t div day_ns = t div second div 86400" "t div hour = t div second div 3600" "t div minute = t div second div 60"
    unfolding d by (simp_all add: zdiv_zmult2_eq)
  have m: "day_ns = hour * 24" "hour = minute * 60" "minute = second * 60" by (simp_all add: day_ns_def hour_def minute_def)
  show "day_of t = t div second div 86400" by (simp add: day_of_def q)
  show "Hour t = t div second div 3600 mod 24" unfolding Hour_def m(1) using units by (simp add: mod_div_parts flip: q)
  show "Minute t = t div second div 60 mod 60" unfolding Minute_def m(2) using units by (simp add: mod_div_parts flip: q)
  show "Second t = t div second mod 60" unfolding Second_def m(3) using units by (simp add: mod_div_parts)
qed

lemma to_the_second: "Date (Year t) (Month t) (Day t) (Hour t) (Minute t) + Second t * second = t div second * second"
proof -
  have "t = day_of t * day_ns + Hour t * hour + Minute t * minute + Second t * second + t mod second"
    using day_split(1) [of t] parts_of_clock [of t] by linarith
  moreover have "t div second * second = t - t mod second" by (simp add: minus_mod_eq_div_mult)
  ultimately show ?thesis by (simp add: Date_of)
qed

definition stamps :: "go_time \<Rightarrow> bool" where
  "stamps t \<longleftrightarrow> 0 \<le> Year t \<and> Year t \<le> 9999"

lemma written:
  assumes "stamps t"
  shows "RFC3339 t = fixed 4 (Year t) @ ''-'' @ fixed 2 (Month t) @ ''-'' @ fixed 2 (Day t) @ ''T'' @
     fixed 2 (Hour t) @ '':'' @ fixed 2 (Minute t) @ '':'' @ fixed 2 (Second t) @ ''Z''"
  using assms clock_ranges [of t] date_ranges [of t] by (simp add: RFC3339_def stamps_def padded_fixed)

lemma reads_back:
  assumes "stamps t"
  shows "parse_RFC3339 (RFC3339 t) = Some (t div second * second)"
proof -
  have n: "number_in (fixed w n) lo hi = Some n" if "0 \<le> n" "n < 10 ^ w" "lo \<le> n" "n \<le> hi" for w n lo hi
    using that by (simp add: number_in_def digits_fixed)
  note c = clock_ranges [of t] and d = date_ranges [of t]
  let ?s = "RFC3339 t"
  have at: "part 0 4 ?s = fixed 4 (Year t)" "part 5 2 ?s = fixed 2 (Month t)" "part 8 2 ?s = fixed 2 (Day t)"
    "part 11 2 ?s = fixed 2 (Hour t)" "part 14 2 ?s = fixed 2 (Minute t)" "part 17 2 ?s = fixed 2 (Second t)"
    "part 4 1 ?s = ''-''" "part 7 1 ?s = ''-''" "part 10 1 ?s = ''T''" "part 13 1 ?s = '':''" "part 16 1 ?s = '':''"
    "part 19 1 ?s = ''Z''" "length ?s = 20"
    by (simp_all add: written [OF assms] part_def)
  show ?thesis
    using n [of "Year t" 4] n [of "Month t" 2] n [of "Day t" 2] n [of "Hour t" 2] n [of "Minute t" 2] n [of "Second t" 2] c d assms
    by (simp add: parse_RFC3339_def at stamps_def to_the_second del: One_nat_def)
qed

lemma earlier_is_less:
  assumes "stamps a" "stamps b" "a div second < b div second"
  shows "RFC3339 a < RFC3339 b"
proof -
  have ab: "a \<le> b" using assms(3) zdiv_mono1 [of b a second] units(1) by linarith
  note c = clock_ranges [of a] clock_ranges [of b] and d = date_ranges [of a] date_ranges [of b]
  have y: "Year a \<le> Year b" by (rule Year_mono [OF ab])
  have mo: "Month a \<le> Month b" if "Year a = Year b" using month_no_mono [OF ab] that by (simp add: month_no_def)
  have da: "Day a \<le> Day b \<and> (Day a = Day b \<longrightarrow> day_of a = day_of b)" if "Year a = Year b" "Month a = Month b"
  proof -
    have "day_of a \<le> day_of b" unfolding day_of_def using ab units(4) by (rule zdiv_mono1)
    then show ?thesis using day_in_month(1) [of a] day_in_month(1) [of b] that by (simp add: month_no_def)
  qed
  have clock: "Hour a < Hour b \<or> Hour a = Hour b \<and> (Minute a < Minute b \<or> Minute a = Minute b \<and> Second a < Second b)" if "day_of a = day_of b"
  proof -
    have "Hour a * hour + Minute a * minute + Second a * second < Hour b * hour + Minute b * minute + Second b * second"
      using mult_strict_right_mono [OF assms(3) units(1)] to_the_second [of a] to_the_second [of b] that by (simp add: Date_of)
    then have "Hour a * 3600 + Minute a * 60 + Second a < Hour b * 3600 + Minute b * 60 + Second b"
      by (simp add: units(6,7) second_def)
    then show ?thesis using c by auto
  qed
  have step: "fixed w x @ [c] @ u < fixed w z @ [c] @ v"
    if "0 \<le> x" "x \<le> z" "z < 10 ^ w" "x = z \<longrightarrow> u < v" for w x z c and u v :: string
    using fixed_less [of x z w] that by (cases "x = z") (auto simp: less_append)
  let ?sec = "\<lambda>t. fixed 2 (Second t) @ ''Z''"
  let ?min = "\<lambda>t. fixed 2 (Minute t) @ '':'' @ ?sec t"
  let ?clock = "\<lambda>t. fixed 2 (Hour t) @ '':'' @ ?min t"
  let ?day = "\<lambda>t. fixed 2 (Day t) @ ''T'' @ ?clock t"
  let ?mon = "\<lambda>t. fixed 2 (Month t) @ ''-'' @ ?day t"
  have "Second a < Second b \<Longrightarrow> ?sec a < ?sec b" using fixed_less [of "Second a" "Second b" 2] c by (simp add: less_append)
  then have "Minute a < Minute b \<or> Minute a = Minute b \<and> Second a < Second b \<Longrightarrow> ?min a < ?min b"
    using c by (intro step) auto
  then have "day_of a = day_of b \<Longrightarrow> ?clock a < ?clock b" using clock c by (intro step) auto
  then have "Year a = Year b \<Longrightarrow> Month a = Month b \<Longrightarrow> ?day a < ?day b" using da d by (intro step) auto
  then have "Year a = Year b \<Longrightarrow> ?mon a < ?mon b" using mo d by (intro step) auto
  then show ?thesis
    unfolding written [OF assms(1)] written [OF assms(2)] using y assms(1,2) by (intro step) (auto simp: stamps_def)
qed

lemma text_order:
  assumes "stamps a" "stamps b"
  shows "RFC3339 a \<le> RFC3339 b \<longleftrightarrow> a div second \<le> b div second"
proof -
  have "RFC3339 a = RFC3339 b" if "a div second = b div second"
    using that by (simp add: RFC3339_def Year_def Month_def Day_def seconds_decide)
  then show ?thesis using earlier_is_less [OF assms] earlier_is_less [OF assms(2,1)]
    by (metis leD leI le_less linorder_neqE_linordered_idom)
qed

end
