(* ===== verification/Scheduler.thy ===== *)
theory Scheduler
  imports TimeText Tables
begin

text \<open>
  Deferred jobs (core/scheduler.go): a task is a row of the store that the loop takes out and hands to the
  handler of its kind when it is due. The store is the parameter of \<open>Tables\<close>, and a scheduler whose database is
  not set is \<open>None\<close>. Identifiers, encoded payloads and the clock are arguments; \<open>clock k\<close> is the time read when the
  row \<open>k\<close> is looked at. The mutex orders edits and passes, but adding and cancelling a task do not take it: the
  step relation has each read and write of the table as a step of its own. The timer, the wake-up channel and
  the reconcilers are left out; what is handed to a handler is a row of the list a pass returns.
\<close>

section \<open>Tasks and operations\<close>

record ScheduledTask =
  st_id :: string
  st_kind :: string
  st_payload :: string
  st_run_at :: string
  st_created :: string

definition schedulerTable :: string where "schedulerTable = ''scheduler_tasks''"

datatype sched_err = SchedNotStarted | SchedPayload

definition DescribeTask :: "(string \<Rightarrow> (string \<Rightarrow> string option) option) \<Rightarrow> ScheduledTask \<Rightarrow> string" where
  "DescribeTask describers t =
     (case describers (st_kind t) of
        None \<Rightarrow> []
      | Some fn \<Rightarrow> (case fn (st_payload t) of None \<Rightarrow> [] | Some label \<Rightarrow> label))"

definition ScheduleTask ::
    "('s, ScheduledTask) Store \<Rightarrow> 's option \<Rightarrow> string \<Rightarrow> string \<Rightarrow> string option \<Rightarrow> go_time \<Rightarrow> go_time
       \<Rightarrow> sched_err + string \<times> 's" where
  "ScheduleTask S dbo i kind payload runAt now =
     (case dbo of
        None \<Rightarrow> Inl SchedNotStarted
      | Some db \<Rightarrow>
          (case payload of
             None \<Rightarrow> Inl SchedPayload
           | Some b \<Rightarrow> Inr (i, s_set S db schedulerTable i (SDef
               \<lparr>st_id = i, st_kind = kind, st_payload = b, st_run_at = RFC3339 runAt, st_created = RFC3339 now\<rparr>))))"

definition UpdateScheduledTaskPayload ::
    "('s, ScheduledTask) Store \<Rightarrow> 's option \<Rightarrow> string \<Rightarrow> string option \<Rightarrow> bool \<times> 's option" where
  "UpdateScheduledTaskPayload S dbo i payload =
     (case dbo of
        None \<Rightarrow> (False, None)
      | Some db \<Rightarrow>
          (case get_row S db schedulerTable i of
             None \<Rightarrow> (False, Some db)
           | Some t \<Rightarrow>
               (case payload of
                  None \<Rightarrow> (False, Some db)
                | Some b \<Rightarrow> (True, Some (s_set S db schedulerTable i (SDef (t\<lparr>st_payload := b\<rparr>)))))))"

definition RescheduleTaskAt ::
    "('s, ScheduledTask) Store \<Rightarrow> 's option \<Rightarrow> string \<Rightarrow> go_time \<Rightarrow> bool \<times> 's option" where
  "RescheduleTaskAt S dbo i runAt =
     (case dbo of
        None \<Rightarrow> (False, None)
      | Some db \<Rightarrow>
          (case get_row S db schedulerTable i of
             None \<Rightarrow> (False, Some db)
           | Some t \<Rightarrow> (True, Some (s_set S db schedulerTable i (SDef (t\<lparr>st_run_at := RFC3339 runAt\<rparr>))))))"

definition ListScheduledTasks :: "('s, ScheduledTask) Store \<Rightarrow> 's option \<Rightarrow> string \<Rightarrow> ScheduledTask list" where
  "ListScheduledTasks S dbo kind =
     (case dbo of
        None \<Rightarrow> []
      | Some db \<Rightarrow> filter (\<lambda>t. kind = [] \<or> st_kind t = kind) (rows S db schedulerTable))"

definition UnscheduleTask :: "('s, ScheduledTask) Store \<Rightarrow> 's option \<Rightarrow> string \<Rightarrow> 's option" where
  "UnscheduleTask S dbo i = map_option (\<lambda>db. s_unset S db schedulerTable i) dbo"

section \<open>The loop\<close>

text \<open>\<open>time.Until\<close> keeps a difference past 292 years at the longest duration.\<close>

definition until :: "go_time \<Rightarrow> go_time \<Rightarrow> int" where
  "until now t = max (- (2 ^ 63)) (min (2 ^ 63 - 1) (t - now))"

definition earlier_of :: "go_time \<Rightarrow> ScheduledTask \<Rightarrow> go_time" where
  "earlier_of earliest t =
     (case parse_RFC3339 (st_run_at t) of
        None \<Rightarrow> earliest
      | Some runAt \<Rightarrow> if earliest = 0 \<or> runAt < earliest then runAt else earliest)"

definition nextSleepDuration :: "('s, ScheduledTask) Store \<Rightarrow> 's \<Rightarrow> go_time \<Rightarrow> int" where
  "nextSleepDuration S db now =
     (let earliest = foldl earlier_of 0 (rows S db schedulerTable) in
      if earliest = 0 then 24 * hour
      else (let d = until now earliest in if d < 0 then 0 else d))"

definition due :: "go_time \<Rightarrow> ScheduledTask \<Rightarrow> bool" where
  "due now t \<longleftrightarrow> \<not> st_run_at t > RFC3339 now"

fun take_due ::
    "('s, ScheduledTask) Store \<Rightarrow> (string \<Rightarrow> go_time) \<Rightarrow> string list \<Rightarrow> 's \<Rightarrow> ScheduledTask list \<times> 's" where
  "take_due S clock [] db = ([], db)"
| "take_due S clock (k # ks) db =
     (case get_row S db schedulerTable k of
        None \<Rightarrow> take_due S clock ks db
      | Some t \<Rightarrow>
          (if \<not> due (clock k) t then take_due S clock ks db
           else case take_due S clock ks (s_unset S db schedulerTable k) of (ts, db1) \<Rightarrow> (t # ts, db1)))"

definition fireDueTasks ::
    "('s, ScheduledTask) Store \<Rightarrow> (string \<Rightarrow> go_time) \<Rightarrow> string list \<Rightarrow> 's \<Rightarrow> ScheduledTask list \<times> 's" where
  "fireDueTasks S clock handlers db =
     (case take_due S clock (s_keys S db schedulerTable) db of
        (ts, db1) \<Rightarrow> (filter (\<lambda>t. st_kind t \<in> set handlers) ts, db1))"

section \<open>Steps that interleave\<close>

datatype sched_lock =
    Free
  | Editing string ScheduledTask
  | Passing "string list"
  | Taking string ScheduledTask "string list"

record 's Sched =
  sd_db :: 's
  sd_lock :: sched_lock
  sd_taken :: "(ScheduledTask \<times> go_time) list"
  sd_issued :: "string list"

inductive sched_step :: "('s, ScheduledTask) Store \<Rightarrow> 's Sched \<Rightarrow> 's Sched \<Rightarrow> bool" for S where
  schedule: "i \<notin> set (sd_issued s) \<Longrightarrow> ScheduleTask S (Some (sd_db s)) i kind payload runAt now = Inr (i, db)
    \<Longrightarrow> sched_step S s (s\<lparr>sd_db := db, sd_issued := i # sd_issued s\<rparr>)"
| unschedule: "UnscheduleTask S (Some (sd_db s)) i = Some db \<Longrightarrow> sched_step S s (s\<lparr>sd_db := db\<rparr>)"
| read_payload: "sd_lock s = Free \<Longrightarrow> get_row S (sd_db s) schedulerTable i = Some t
    \<Longrightarrow> sched_step S s (s\<lparr>sd_lock := Editing i (t\<lparr>st_payload := b\<rparr>)\<rparr>)"
| read_run_at: "sd_lock s = Free \<Longrightarrow> get_row S (sd_db s) schedulerTable i = Some t
    \<Longrightarrow> sched_step S s (s\<lparr>sd_lock := Editing i (t\<lparr>st_run_at := RFC3339 runAt\<rparr>)\<rparr>)"
| write_task: "sd_lock s = Editing i t
    \<Longrightarrow> sched_step S s (s\<lparr>sd_lock := Free, sd_db := s_set S (sd_db s) schedulerTable i (SDef t)\<rparr>)"
| start_pass: "sd_lock s = Free \<Longrightarrow> sched_step S s (s\<lparr>sd_lock := Passing (s_keys S (sd_db s) schedulerTable)\<rparr>)"
| pass_over: "sd_lock s = Passing (k # ks) \<Longrightarrow> (\<forall>t. get_row S (sd_db s) schedulerTable k = Some t \<longrightarrow> \<not> due now t)
    \<Longrightarrow> sched_step S s (s\<lparr>sd_lock := Passing ks\<rparr>)"
| read_due: "sd_lock s = Passing (k # ks) \<Longrightarrow> get_row S (sd_db s) schedulerTable k = Some t \<Longrightarrow> due now t
    \<Longrightarrow> sched_step S s (s\<lparr>sd_lock := Taking k t ks, sd_taken := sd_taken s @ [(t, now)]\<rparr>)"
| take_out: "sd_lock s = Taking k t ks
    \<Longrightarrow> sched_step S s (s\<lparr>sd_lock := Passing ks, sd_db := s_unset S (sd_db s) schedulerTable k\<rparr>)"
| end_pass: "sd_lock s = Passing [] \<Longrightarrow> sched_step S s (s\<lparr>sd_lock := Free\<rparr>)"

inductive sched_reaches :: "('s, ScheduledTask) Store \<Rightarrow> 's Sched \<Rightarrow> 's Sched \<Rightarrow> bool" for S s0 where
  here: "sched_reaches S s0 s0"
| onward: "sched_reaches S s0 s \<Longrightarrow> sched_step S s s1 \<Longrightarrow> sched_reaches S s0 s1"

text \<open>Rows are filed under their identifiers, which were issued; a task that was taken is gone, unless it is the
  one being taken; and what an edit is about to write has not been taken.\<close>

definition taken_ids :: "'s Sched \<Rightarrow> string list" where
  "taken_ids s = map (st_id \<circ> fst) (sd_taken s)"

definition lock_ok :: "'s Sched \<Rightarrow> bool" where
  "lock_ok s \<longleftrightarrow>
     (case sd_lock s of
        Editing i t \<Rightarrow> st_id t = i \<and> i \<in> set (sd_issued s) \<and> i \<notin> set (taken_ids s)
      | Taking k t ks \<Rightarrow> st_id t = k \<and> k \<in> set (taken_ids s)
      | _ \<Rightarrow> True)"

definition taking :: "'s Sched \<Rightarrow> string \<Rightarrow> bool" where
  "taking s k \<longleftrightarrow> (case sd_lock s of Taking i t ks \<Rightarrow> i = k | _ \<Rightarrow> False)"

definition sched_ok :: "('s, ScheduledTask) Store \<Rightarrow> 's Sched \<Rightarrow> bool" where
  "sched_ok S s \<longleftrightarrow>
     (\<forall>k t. get_row S (sd_db s) schedulerTable k = Some t \<longrightarrow>
        st_id t = k \<and> k \<in> set (sd_issued s) \<and> (k \<in> set (taken_ids s) \<longrightarrow> taking s k))
     \<and> set (taken_ids s) \<subseteq> set (sd_issued s) \<and> distinct (taken_ids s)
     \<and> (\<forall>(t, now) \<in> set (sd_taken s). due now t) \<and> lock_ok s"

definition tasks_filed :: "('s, ScheduledTask) Store \<Rightarrow> 's \<Rightarrow> bool" where
  "tasks_filed S db \<longleftrightarrow> (\<forall>k t. get_row S db schedulerTable k = Some t \<longrightarrow> st_id t = k)"

definition due_row :: "('s, ScheduledTask) Store \<Rightarrow> (string \<Rightarrow> go_time) \<Rightarrow> 's \<Rightarrow> string \<Rightarrow> ScheduledTask option" where
  "due_row S clock db k =
     (case get_row S db schedulerTable k of None \<Rightarrow> None | Some t \<Rightarrow> if due (clock k) t then Some t else None)"

lemma taken_ids_simps [simp]:
  "taken_ids (s\<lparr>sd_db := db\<rparr>) = taken_ids s" "taken_ids (s\<lparr>sd_lock := l\<rparr>) = taken_ids s"
  "taken_ids (s\<lparr>sd_issued := is\<rparr>) = taken_ids s" "taken_ids (s\<lparr>sd_taken := ts @ [(t, now)]\<rparr>) = map (st_id \<circ> fst) ts @ [st_id t]"
  by (simp_all add: taken_ids_def)

definition started :: "('s, ScheduledTask) Store \<Rightarrow> 's \<Rightarrow> 's Sched" where
  "started S db = \<lparr>sd_db = db, sd_lock = Free, sd_taken = [], sd_issued = s_keys S db schedulerTable\<rparr>"

locale task_store = kv_store S for S :: "('s, ScheduledTask) Store"
begin

lemma step_ok:
  assumes "sched_step S s s1" "sched_ok S s"
  shows "sched_ok S s1"
  using assms(1)
proof (cases rule: sched_step.cases)
  case (schedule i kind payload runAt now db)
  then show ?thesis using assms(2)
    by (auto simp: sched_ok_def lock_ok_def taking_def ScheduleTask_def get_row_set split: option.splits sched_lock.splits if_splits)
qed (use assms(2) in \<open>auto simp: sched_ok_def lock_ok_def taking_def taken_ids_def [symmetric] UnscheduleTask_def get_row_set get_row_unset
    split: option.splits sched_lock.splits if_splits\<close>)

lemma take_due_rows:
  assumes "distinct ks" "take_due S clock ks db = (ts, db1)"
  shows "ts = List.map_filter (due_row S clock db) ks"
    and "get_row S db1 schedulerTable k = (if k \<in> set ks \<and> due_row S clock db k \<noteq> None then None else get_row S db schedulerTable k)"
proof -
  have "ts = List.map_filter (due_row S clock db) ks \<and> (\<forall>k. get_row S db1 schedulerTable k =
      (if k \<in> set ks \<and> due_row S clock db k \<noteq> None then None else get_row S db schedulerTable k))"
    using assms
  proof (induction ks arbitrary: db ts)
    case (Cons k ks)
    show ?case
    proof (cases "due_row S clock db k")
      case None
      then have "take_due S clock ks db = (ts, db1)" using Cons.prems by (auto simp: due_row_def split: option.splits if_splits)
      then show ?thesis using Cons.IH Cons.prems None by (auto simp: map_filter_def)
    next
      case (Some t)
      let ?db = "s_unset S db schedulerTable k"
      obtain ts1 where t: "take_due S clock ks ?db = (ts1, db1)" "ts = t # ts1"
        using Cons.prems(2) Some by (auto simp: due_row_def split: option.splits if_splits prod.splits)
      have same: "due_row S clock ?db j = due_row S clock db j" if "j \<noteq> k" for j using that by (simp add: due_row_def get_row_unset)
      have k: "k \<notin> set ks" using Cons.prems(1) by simp
      then have "List.map_filter (due_row S clock ?db) ks = List.map_filter (due_row S clock db) ks"
        using same by (induction ks) (auto simp: map_filter_def)
      then show ?thesis using Cons.IH [OF _ t(1)] Cons.prems(1) t(2) Some same k
        by (auto simp: map_filter_def get_row_unset)
    qed
  qed (simp add: map_filter_def)
  then show "ts = List.map_filter (due_row S clock db) ks"
    "get_row S db1 schedulerTable k = (if k \<in> set ks \<and> due_row S clock db k \<noteq> None then None else get_row S db schedulerTable k)"
    by simp_all
qed

lemma row_has_key: "get_row S db t k \<noteq> None \<Longrightarrow> k \<in> set (s_keys S db t)"
  using keys_get by (auto simp: get_row_def split: option.splits)

lemma pass_rows:
  assumes "tasks_filed S db" "fireDueTasks S clock handlers db = (fired, db1)"
  shows "set fired = {t. \<exists>k. get_row S db schedulerTable k = Some t \<and> due (clock k) t \<and> st_kind t \<in> set handlers}"
    and "distinct fired"
    and "get_row S db1 schedulerTable k = (if due_row S clock db k \<noteq> None then None else get_row S db schedulerTable k)"
proof -
  obtain ts where ts: "take_due S clock (s_keys S db schedulerTable) db = (ts, db1)" "fired = filter (\<lambda>t. st_kind t \<in> set handlers) ts"
    using assms(2) by (auto simp: fireDueTasks_def split: prod.splits)
  note r = take_due_rows [OF keys_distinct ts(1)]
  have key: "due_row S clock db k = Some t \<longleftrightarrow> get_row S db schedulerTable k = Some t \<and> due (clock k) t" for k t
    by (auto simp: due_row_def split: option.splits)
  have "set ts = {t. \<exists>k. get_row S db schedulerTable k = Some t \<and> due (clock k) t}"
    using row_has_key [of db schedulerTable] unfolding r(1) set_map_filter key by blast
  then show "set fired = {t. \<exists>k. get_row S db schedulerTable k = Some t \<and> due (clock k) t \<and> st_kind t \<in> set handlers}"
    by (auto simp: ts(2))
  have "distinct ts"
    unfolding r(1) by (rule distinct_map_filter [OF keys_distinct, where ident = st_id]) (use assms(1) in \<open>auto simp: key tasks_filed_def\<close>)
  then show "distinct fired" by (simp add: ts(2))
  show "get_row S db1 schedulerTable k = (if due_row S clock db k \<noteq> None then None else get_row S db schedulerTable k)"
    using r(2) [of k] row_has_key [of db schedulerTable k] by (auto simp: due_row_def split: option.splits)
qed

lemma scheduled_pass:
  assumes "tasks_filed S db" "ScheduleTask S (Some db) i kind payload runAt now = Inr (i, db1)"
    and "stamps runAt" "stamps (clock i)" "kind \<in> set handlers" "fireDueTasks S clock handlers db1 = (fired, db2)"
  shows "((\<exists>t \<in> set fired. st_id t = i) \<longleftrightarrow> runAt div second \<le> clock i div second)
    \<and> (get_row S db2 schedulerTable i = None \<longleftrightarrow> runAt div second \<le> clock i div second)"
proof -
  obtain b where b: "db1 = s_set S db schedulerTable i (SDef
      \<lparr>st_id = i, st_kind = kind, st_payload = b, st_run_at = RFC3339 runAt, st_created = RFC3339 now\<rparr>)" (is "_ = s_set S db _ i (SDef ?t)")
    using assms(2) by (auto simp: ScheduleTask_def split: option.splits)
  have row: "get_row S db1 schedulerTable i = Some ?t" by (simp add: b get_row_set)
  have filed: "tasks_filed S db1" using assms(1) by (auto simp: b tasks_filed_def get_row_set)
  have d: "due (clock i) ?t \<longleftrightarrow> runAt div second \<le> clock i div second"
    using text_order [OF assms(3,4)] by (simp add: due_def not_less)
  note p = pass_rows [OF filed assms(6)]
  have "(\<exists>t \<in> set fired. st_id t = i) \<longleftrightarrow> due (clock i) ?t"
    using row filed assms(5) unfolding p(1) tasks_filed_def by fastforce
  moreover have "get_row S db2 schedulerTable i = None \<longleftrightarrow> due (clock i) ?t" using p(3) [of i] row by (simp add: due_row_def)
  ultimately show ?thesis using d by simp
qed

lemma reaches_ok:
  assumes "sched_reaches S s0 s" "sched_ok S s0"
  shows "sched_ok S s"
  using assms by induction (simp_all add: step_ok)

lemma started_ok: "tasks_filed S db \<Longrightarrow> sched_ok S (started S db)"
  using row_has_key by (fastforce simp: sched_ok_def started_def tasks_filed_def taken_ids_def lock_ok_def)

end

interpretation mem_tasks: task_store mem_store
  by unfold_locales

section \<open>Properties\<close>

text \<open>A pass hands over the tasks that are due when it looks at them, whose kind has a handler, each once; it takes
  out of the table what is due and leaves everything else.\<close>

theorem a_pass_fires_what_is_due:
  assumes "kv_store S" "tasks_filed S db" "fireDueTasks S clock handlers db = (fired, db1)"
  shows "set fired = {t. \<exists>k. get_row S db schedulerTable k = Some t \<and> due (clock k) t \<and> st_kind t \<in> set handlers}
    \<and> distinct fired
    \<and> get_row S db1 schedulerTable k = (if due_row S clock db k \<noteq> None then None else get_row S db schedulerTable k)"
  using task_store.pass_rows [OF task_store.intro [OF assms(1)] assms(2,3)] by blast

text \<open>A task scheduled for a moment is handed over by a pass exactly when the clock that pass reads has reached the
  moment, to the second, and waits in the table otherwise.\<close>

theorem a_task_waits_for_its_time:
  assumes "kv_store S" "tasks_filed S db" "ScheduleTask S (Some db) i kind payload runAt now = Inr (i, db1)"
    and "stamps runAt" "stamps (clock i)" "kind \<in> set handlers" "fireDueTasks S clock handlers db1 = (fired, db2)"
  shows "((\<exists>t \<in> set fired. st_id t = i) \<longleftrightarrow> runAt div second \<le> clock i div second)
    \<and> (get_row S db2 schedulerTable i = None \<longleftrightarrow> runAt div second \<le> clock i div second)"
  using task_store.scheduled_pass [OF task_store.intro [OF assms(1)] assms(2-7)] .

definition one_task :: "go_time \<Rightarrow> ScheduledTask mem" where
  "one_task runAt = s_set mem_store [] schedulerTable ''t1'' (SDef
     \<lparr>st_id = ''t1'', st_kind = ''monitor'', st_payload = ''{}'', st_run_at = RFC3339 runAt, st_created = RFC3339 0\<rparr>)"

lemma one_task:
  "ScheduleTask mem_store (Some []) ''t1'' ''monitor'' (Some ''{}'') runAt 0 = Inr (''t1'', one_task runAt)"
  "tasks_filed mem_store ([] :: ScheduledTask mem)" "tasks_filed mem_store (one_task runAt)"
  by (simp_all add: ScheduleTask_def one_task_def tasks_filed_def get_row_def mem_store_def)

theorem a_pass_fires_what_is_due_witness:
  "let t = \<lparr>st_id = ''t1'', st_kind = ''monitor'', st_payload = ''{}'', st_run_at = RFC3339 0, st_created = RFC3339 0\<rparr> in
     t \<in> set (fst (fireDueTasks mem_store (\<lambda>_. 0) [''monitor''] (one_task 0)))"
proof -
  obtain fired db1 where f: "fireDueTasks mem_store (\<lambda>_. 0) [''monitor''] (one_task 0) = (fired, db1)"
    by (cases "fireDueTasks mem_store (\<lambda>_. 0) [''monitor''] (one_task 0)")
  have row: "get_row mem_store (one_task 0) schedulerTable ''t1'' =
      Some \<lparr>st_id = ''t1'', st_kind = ''monitor'', st_payload = ''{}'', st_run_at = RFC3339 0, st_created = RFC3339 0\<rparr>"
    by (simp add: one_task_def mem.get_row_set)
  show ?thesis
    using a_pass_fires_what_is_due [OF mem.kv_store_axioms one_task(3) f] row by (auto simp: Let_def f due_def)
qed

theorem a_task_waits_for_its_time_witness:
  "let clock = (\<lambda>_. Date 2026 10 12 9 0 + 5) in
     get_row mem_store (snd (fireDueTasks mem_store clock [''monitor''] (one_task (Date 2026 10 12 9 0 + 7)))) schedulerTable ''t1'' = None
     \<and> get_row mem_store (snd (fireDueTasks mem_store clock [''monitor''] (one_task (Date 2026 10 12 9 1)))) schedulerTable ''t1'' \<noteq> None"
proof -
  have s: "stamps (Date 2026 10 12 9 0 + 5)" "stamps (Date 2026 10 12 9 0 + 7)" "stamps (Date 2026 10 12 9 1)" by code_simp+
  have d: "(Date 2026 10 12 9 0 + 7) div second \<le> (Date 2026 10 12 9 0 + 5) div second"
    "\<not> Date 2026 10 12 9 1 div second \<le> (Date 2026 10 12 9 0 + 5) div second" by code_simp+
  have each: "get_row mem_store (snd (fireDueTasks mem_store (\<lambda>_. Date 2026 10 12 9 0 + 5) [''monitor''] (one_task runAt))) schedulerTable ''t1'' = None
    \<longleftrightarrow> runAt div second \<le> (Date 2026 10 12 9 0 + 5) div second" if "stamps runAt" for runAt
  proof (cases "fireDueTasks mem_store (\<lambda>_. Date 2026 10 12 9 0 + 5) [''monitor''] (one_task runAt)")
    case (Pair fired db2)
    then show ?thesis
      using a_task_waits_for_its_time [OF mem.kv_store_axioms one_task(2,1) that s(1) _ Pair] by simp
  qed
  show ?thesis unfolding Let_def using each [OF s(2)] each [OF s(3)] d by blast
qed

section \<open>Once each\<close>

text \<open>C4: However adding, cancelling, editing and passes interleave, a task is taken out to be fired at most once, only
  when it was due, and once it is out of the table nothing puts it back.\<close>

theorem a_task_fires_once:
  assumes "kv_store S" "tasks_filed S db" "sched_reaches S (started S db) s"
  shows "distinct (taken_ids s) \<and> (\<forall>(t, now) \<in> set (sd_taken s). due now t)
    \<and> (\<forall>k \<in> set (taken_ids s). get_row S (sd_db s) schedulerTable k \<noteq> None \<longrightarrow> taking s k)"
proof -
  have ok: "sched_ok S s"
    by (rule task_store.reaches_ok [OF task_store.intro [OF assms(1)] assms(3) task_store.started_ok [OF task_store.intro [OF assms(1)] assms(2)]])
  show ?thesis
  proof (intro conjI ballI impI)
    show "distinct (taken_ids s)" using ok by (simp only: sched_ok_def)
    show "case p of (t, now) \<Rightarrow> due now t" if "p \<in> set (sd_taken s)" for p using ok that by (simp only: sched_ok_def)
    show "taking s k" if "k \<in> set (taken_ids s)" "get_row S (sd_db s) schedulerTable k \<noteq> None" for k
      using ok that(1) not_None_eq [THEN iffD1, OF that(2)] unfolding sched_ok_def by fast
  qed
qed

theorem a_task_fires_once_witness:
  "\<exists>s. sched_reaches mem_store (started mem_store (one_task 0)) s \<and> taken_ids s = [''t1''] \<and> distinct (taken_ids s)"
proof -
  let ?s0 = "started mem_store (one_task 0)"
  let ?t = "\<lparr>st_id = ''t1'', st_kind = ''monitor'', st_payload = ''{}'', st_run_at = RFC3339 0, st_created = RFC3339 0\<rparr>"
  let ?s1 = "?s0\<lparr>sd_lock := Passing [''t1'']\<rparr>"
  let ?s2 = "?s1\<lparr>sd_lock := Taking ''t1'' ?t [], sd_taken := [(?t, 0)]\<rparr>"
  have keys: "s_keys mem_store (one_task 0) schedulerTable = [''t1'']" by (simp add: mem_store_def one_task_def)
  have a: "sched_step mem_store ?s0 ?s1"
    using sched_step.start_pass [of ?s0 mem_store] by (simp add: started_def keys)
  have b: "sched_step mem_store ?s1 ?s2"
    using sched_step.read_due [of ?s1 "''t1''" "[]" mem_store ?t 0]
    by (simp add: started_def one_task_def mem.get_row_set due_def)
  have r: "sched_reaches mem_store ?s0 ?s2" by (rule sched_reaches.onward [OF sched_reaches.onward [OF sched_reaches.here a] b])
  from a_task_fires_once [OF mem.kv_store_axioms one_task(3) r] r show ?thesis
    by (intro exI [of _ ?s2]) (simp add: taken_ids_def)
qed

text \<open>Cancelling does not wait for the lock an edit holds: a task cancelled between the edit's read and its write is
  written back and stays in the queue.\<close>

theorem a_cancelled_task_comes_back:
  assumes "kv_store S" "sd_lock s = Free" "get_row S (sd_db s) schedulerTable i = Some t"
  shows "\<exists>s1 s2 s3. sched_step S s s1 \<and> sched_step S s1 s2 \<and> UnscheduleTask S (Some (sd_db s1)) i = Some (sd_db s2)
    \<and> get_row S (sd_db s2) schedulerTable i = None
    \<and> sched_step S s2 s3 \<and> get_row S (sd_db s3) schedulerTable i = Some (t\<lparr>st_payload := b\<rparr>)"
proof -
  let ?s1 = "s\<lparr>sd_lock := Editing i (t\<lparr>st_payload := b\<rparr>)\<rparr>"
  let ?s2 = "?s1\<lparr>sd_db := s_unset S (sd_db s) schedulerTable i\<rparr>"
  let ?s3 = "?s2\<lparr>sd_lock := Free, sd_db := s_set S (sd_db ?s2) schedulerTable i (SDef (t\<lparr>st_payload := b\<rparr>))\<rparr>"
  have "sched_step S s ?s1" using assms(2,3) by (rule sched_step.read_payload)
  moreover have "sched_step S ?s1 ?s2" by (rule sched_step.unschedule) (simp add: UnscheduleTask_def)
  moreover have "sched_step S ?s2 ?s3" by (rule sched_step.write_task) simp
  ultimately show ?thesis
    using kv_store.get_row_set [OF assms(1)] kv_store.get_row_unset [OF assms(1)]
    by (intro exI [of _ ?s1] exI [of _ ?s2] exI [of _ ?s3]) (simp add: UnscheduleTask_def)
qed

theorem a_cancelled_task_comes_back_witness:
  "\<exists>s1 s2 s3. sched_step mem_store (started mem_store (one_task 0)) s1 \<and> sched_step mem_store s1 s2
    \<and> get_row mem_store (sd_db s2) schedulerTable ''t1'' = None
    \<and> sched_step mem_store s2 s3 \<and> get_row mem_store (sd_db s3) schedulerTable ''t1'' \<noteq> None"
  using a_cancelled_task_comes_back [OF mem.kv_store_axioms, of "started mem_store (one_task 0)" "''t1''" _ "''{1}''"]
  by (fastforce simp: started_def one_task_def mem.get_row_set)

section \<open>The steps are the operations\<close>

lemma reaches_trans:
  assumes "sched_reaches S s1 s2" "sched_reaches S s0 s1"
  shows "sched_reaches S s0 s2"
  using assms by (induction) (auto intro: sched_reaches.onward)

lemma a_step_reaches: "sched_step S s s1 \<Longrightarrow> sched_reaches S s s1"
  by (rule sched_reaches.onward [OF sched_reaches.here])

lemma edit_steps:
  assumes "sd_lock s = Free" "get_row S (sd_db s) schedulerTable i = Some t"
  shows "sched_reaches S s (s\<lparr>sd_db := s_set S (sd_db s) schedulerTable i (SDef (t\<lparr>st_payload := b\<rparr>))\<rparr>)"
    "sched_reaches S s (s\<lparr>sd_db := s_set S (sd_db s) schedulerTable i (SDef (t\<lparr>st_run_at := RFC3339 runAt\<rparr>))\<rparr>)"
proof -
  have w: "sched_reaches S s (s\<lparr>sd_db := s_set S (sd_db s) schedulerTable i (SDef u)\<rparr>)"
    if "sched_step S s (s\<lparr>sd_lock := Editing i u\<rparr>)" for u
    using sched_reaches.onward [OF a_step_reaches [OF that] sched_step.write_task [of "s\<lparr>sd_lock := Editing i u\<rparr>" i u]] assms(1)
    by (cases s) simp
  show "sched_reaches S s (s\<lparr>sd_db := s_set S (sd_db s) schedulerTable i (SDef (t\<lparr>st_payload := b\<rparr>))\<rparr>)"
    using assms by (intro w sched_step.read_payload)
  show "sched_reaches S s (s\<lparr>sd_db := s_set S (sd_db s) schedulerTable i (SDef (t\<lparr>st_run_at := RFC3339 runAt\<rparr>))\<rparr>)"
    using assms by (intro w sched_step.read_run_at)
qed

lemma pass_steps:
  assumes "sd_lock s = Passing ks" "distinct ks" "tasks_filed S (sd_db s)" "kv_store S" "take_due S clock ks (sd_db s) = (ts, db1)"
  shows "sched_reaches S s (s\<lparr>sd_lock := Passing [], sd_db := db1, sd_taken := sd_taken s @ map (\<lambda>t. (t, clock (st_id t))) ts\<rparr>)"
  using assms(1-3,5)
proof (induction ks arbitrary: s ts)
  case Nil
  then have "s = s\<lparr>sd_lock := Passing [], sd_db := db1, sd_taken := sd_taken s @ map (\<lambda>t. (t, clock (st_id t))) ts\<rparr>" by simp
  then show ?case by (metis sched_reaches.here)
next
  case (Cons k ks)
  show ?case
  proof (cases "due_row S clock (sd_db s) k")
    case None
    then have n: "\<forall>t. get_row S (sd_db s) schedulerTable k = Some t \<longrightarrow> \<not> due (clock k) t" by (auto simp: due_row_def split: option.splits if_splits)
    have "take_due S clock ks (sd_db s) = (ts, db1)" using Cons.prems(4) n by (auto split: option.splits if_splits)
    then have "sched_reaches S (s\<lparr>sd_lock := Passing ks\<rparr>)
        (s\<lparr>sd_lock := Passing [], sd_db := db1, sd_taken := sd_taken s @ map (\<lambda>t. (t, clock (st_id t))) ts\<rparr>)"
      using Cons.IH [of "s\<lparr>sd_lock := Passing ks\<rparr>" ts] Cons.prems by simp
    then show ?thesis using reaches_trans a_step_reaches [OF sched_step.pass_over [OF Cons.prems(1) n]] by blast
  next
    case (Some t)
    then have t: "get_row S (sd_db s) schedulerTable k = Some t" "due (clock k) t" by (auto simp: due_row_def split: option.splits if_splits)
    let ?db = "s_unset S (sd_db s) schedulerTable k"
    obtain ts1 where r: "take_due S clock ks ?db = (ts1, db1)" "ts = t # ts1" using Cons.prems(4) t by (auto split: prod.splits)
    have id: "st_id t = k" using Cons.prems(3) t(1) by (simp add: tasks_filed_def)
    let ?s1 = "s\<lparr>sd_lock := Taking k t ks, sd_taken := sd_taken s @ [(t, clock k)]\<rparr>"
    let ?s2 = "s\<lparr>sd_lock := Passing ks, sd_db := ?db, sd_taken := sd_taken s @ [(t, clock k)]\<rparr>"
    have a: "sched_step S s ?s1" by (rule sched_step.read_due [OF Cons.prems(1) t])
    have b: "sched_step S ?s1 ?s2" using sched_step.take_out [of ?s1 k t ks S] by (cases s) simp
    have "tasks_filed S ?db" using Cons.prems(3) by (simp add: tasks_filed_def kv_store.get_row_unset [OF assms(4)])
    then have "sched_reaches S ?s2 (s\<lparr>sd_lock := Passing [], sd_db := db1, sd_taken := sd_taken s @ map (\<lambda>t. (t, clock (st_id t))) ts\<rparr>)"
      using Cons.IH [of ?s2 ts1] Cons.prems(2) r id by simp
    then show ?thesis using reaches_trans [OF _ sched_reaches.onward [OF a_step_reaches [OF a] b]] by blast
  qed
qed

text \<open>When nothing comes between, the steps are the operations: a pass of the relation ends with the table and the
  tasks \<open>fireDueTasks\<close> returns.\<close>

theorem an_undisturbed_pass_is_fireDueTasks:
  assumes "kv_store S" "tasks_filed S (sd_db s)" "sd_lock s = Free" "fireDueTasks S clock handlers (sd_db s) = (fired, db1)"
  shows "\<exists>ts. sched_reaches S s (s\<lparr>sd_db := db1, sd_taken := sd_taken s @ map (\<lambda>t. (t, clock (st_id t))) ts\<rparr>)
    \<and> fired = filter (\<lambda>t. st_kind t \<in> set handlers) ts"
proof -
  obtain ts where ts: "take_due S clock (s_keys S (sd_db s) schedulerTable) (sd_db s) = (ts, db1)" "fired = filter (\<lambda>t. st_kind t \<in> set handlers) ts"
    using assms(4) by (auto simp: fireDueTasks_def split: prod.splits)
  let ?s1 = "s\<lparr>sd_lock := Passing (s_keys S (sd_db s) schedulerTable)\<rparr>"
  let ?s2 = "s\<lparr>sd_lock := Passing [], sd_db := db1, sd_taken := sd_taken s @ map (\<lambda>t. (t, clock (st_id t))) ts\<rparr>"
  have "sched_reaches S ?s1 ?s2"
    using pass_steps [of ?s1 _ S clock ts db1] kv_store.keys_distinct [OF assms(1)] assms(1,2) ts(1) by simp
  moreover have "sched_step S ?s2 (?s2\<lparr>sd_lock := Free\<rparr>)" by (rule sched_step.end_pass) simp
  ultimately have "sched_reaches S ?s1 (?s2\<lparr>sd_lock := Free\<rparr>)" by (rule sched_reaches.onward)
  from reaches_trans [OF this a_step_reaches [OF sched_step.start_pass [OF assms(3)]]]
  have "sched_reaches S s (s\<lparr>sd_db := db1, sd_taken := sd_taken s @ map (\<lambda>t. (t, clock (st_id t))) ts\<rparr>)"
    using assms(3) by (cases s) simp
  then show ?thesis using ts(2) by (intro exI [of _ ts] conjI)
qed

theorem an_undisturbed_pass_is_fireDueTasks_witness:
  "\<exists>ts s. sched_reaches mem_store (started mem_store (one_task 0)) s
     \<and> fst (fireDueTasks mem_store (\<lambda>_. 0) [''monitor''] (one_task 0)) = filter (\<lambda>t. st_kind t = ''monitor'') ts"
proof -
  obtain fired db1 where f: "fireDueTasks mem_store (\<lambda>_. 0) [''monitor''] (one_task 0) = (fired, db1)"
    by (cases "fireDueTasks mem_store (\<lambda>_. 0) [''monitor''] (one_task 0)")
  from an_undisturbed_pass_is_fireDueTasks [OF mem.kv_store_axioms, of "started mem_store (one_task 0)" "\<lambda>_. 0" "[''monitor'']" fired db1]
  show ?thesis using f one_task(3) by (auto simp: started_def)
qed

section \<open>How long the loop sleeps\<close>

definition stamped :: "('s, ScheduledTask) Store \<Rightarrow> 's \<Rightarrow> bool" where
  "stamped S db \<longleftrightarrow>
     (\<forall>k t. get_row S db schedulerTable k = Some t \<longrightarrow> (\<exists>r. st_run_at t = RFC3339 r \<and> stamps r \<and> second \<le> r))"

lemma earliest_of:
  assumes "\<forall>t \<in> set ts. \<exists>r. parse_RFC3339 (st_run_at t) = Some r \<and> 0 < r" "0 \<le> e0"
  shows "0 \<le> foldl earlier_of e0 ts \<and> (foldl earlier_of e0 ts = 0 \<longleftrightarrow> e0 = 0 \<and> ts = []) \<and> (e0 \<noteq> 0 \<longrightarrow> foldl earlier_of e0 ts \<le> e0)
    \<and> (\<forall>t \<in> set ts. \<forall>r. parse_RFC3339 (st_run_at t) = Some r \<longrightarrow> foldl earlier_of e0 ts \<le> r)
    \<and> (foldl earlier_of e0 ts = e0 \<or> (\<exists>t \<in> set ts. parse_RFC3339 (st_run_at t) = Some (foldl earlier_of e0 ts)))"
  using assms
proof (induction ts arbitrary: e0)
  case (Cons t ts)
  obtain r where r: "parse_RFC3339 (st_run_at t) = Some r" "0 < r" using Cons.prems(1) by auto
  let ?e = "if e0 = 0 \<or> r < e0 then r else e0"
  have e: "earlier_of e0 t = ?e" by (simp add: earlier_of_def r(1))
  have "0 < ?e" "?e \<le> r" "e0 \<noteq> 0 \<longrightarrow> ?e \<le> e0" "?e = e0 \<or> ?e = r" using r(2) Cons.prems(2) by auto
  then show ?case using Cons.IH [of ?e] Cons.prems(1) r(1) by (auto simp: e)
qed simp

text \<open>C19: The loop never sleeps past a task: where every task in the table is stored at a moment written in RFC 3339,
  from the year 0 to 9999 and at least a second past Go's zero time, it wakes no later than the moment of any
  of them, and exactly at the earliest one's, or at once when that has passed. A task at the zero time is slept past:
  see \<open>a_task_at_the_zero_time_is_slept_past\<close>.\<close>

theorem the_loop_wakes_for_every_task:
  assumes "kv_store S" "stamped S db" "get_row S db schedulerTable k = Some t" "st_run_at t = RFC3339 r" "stamps r"
  shows "now + nextSleepDuration S db now \<le> max now (r div second * second)
    \<and> (\<exists>k1 t1 r1. get_row S db schedulerTable k1 = Some t1 \<and> st_run_at t1 = RFC3339 r1
          \<and> nextSleepDuration S db now = max 0 (until now (r1 div second * second)))"
proof -
  let ?ts = "rows S db schedulerTable" and ?e = "foldl earlier_of 0 (rows S db schedulerTable)"
  have row: "u \<in> set ?ts \<longleftrightarrow> (\<exists>k. get_row S db schedulerTable k = Some u)" for u by (simp add: kv_store.set_rows [OF assms(1)])
  have pos: "0 < r div second * second" if "second \<le> r" for r :: int
    using that units(1) by (simp add: pos_imp_zdiv_pos_iff)
  have stamp: "\<exists>r. st_run_at u = RFC3339 r \<and> stamps r \<and> second \<le> r" if "u \<in> set ?ts" for u
    using assms(2) that unfolding stamped_def row by blast
  have each: "\<forall>t \<in> set ?ts. \<exists>r. parse_RFC3339 (st_run_at t) = Some r \<and> 0 < r"
  proof
    fix u assume "u \<in> set ?ts"
    then obtain r where "st_run_at u = RFC3339 r" "stamps r" "second \<le> r" using stamp by blast
    then show "\<exists>r. parse_RFC3339 (st_run_at u) = Some r \<and> 0 < r" using reads_back pos by simp
  qed
  have t: "t \<in> set ?ts" using assms(3) row by blast
  note e = earliest_of [OF each, of 0]
  have "?e \<noteq> 0" using e t by auto
  then have d: "nextSleepDuration S db now = max 0 (until now ?e)" by (simp add: nextSleepDuration_def Let_def max_def)
  have "?e \<le> r div second * second" using e t reads_back [OF assms(5)] assms(4) by simp
  then have "now + max 0 (until now ?e) \<le> max now (r div second * second)" by (auto simp: until_def)
  moreover obtain t1 where t1: "t1 \<in> set ?ts" "parse_RFC3339 (st_run_at t1) = Some ?e" using e \<open>?e \<noteq> 0\<close> by auto
  obtain r1 where r1: "st_run_at t1 = RFC3339 r1" "stamps r1" using stamp [OF t1(1)] by blast
  moreover obtain k1 where "get_row S db schedulerTable k1 = Some t1" using t1(1) row by blast
  moreover have "?e = r1 div second * second" using t1(2) reads_back [OF r1(2)] r1(1) by simp
  ultimately show ?thesis using d by (intro conjI exI [of _ k1] exI [of _ t1] exI [of _ r1]) simp_all
qed

theorem the_loop_wakes_for_every_task_witness:
  "Date 2026 10 12 8 0 + nextSleepDuration mem_store (one_task (Date 2026 10 12 9 0)) (Date 2026 10 12 8 0)
     \<le> max (Date 2026 10 12 8 0) (Date 2026 10 12 9 0 div second * second)"
proof -
  have s: "stamps (Date 2026 10 12 9 0)" "second \<le> Date 2026 10 12 9 0" by code_simp+
  then have "stamped mem_store (one_task (Date 2026 10 12 9 0))"
    by (auto simp: stamped_def one_task_def mem.get_row_set) (simp add: get_row_def mem_store_def)
  from the_loop_wakes_for_every_task [OF mem.kv_store_axioms this, of "''t1''" _ "Date 2026 10 12 9 0"] s(1)
  show ?thesis by (simp add: one_task_def mem.get_row_set)
qed

text \<open>
  The loop takes Go's zero time for no task at all. A task can be scheduled at it; it is due at once, and the
  loop sleeps for a day, whatever else is in the table before it.
\<close>

definition two_tasks :: "ScheduledTask mem" where
  "two_tasks = s_set mem_store (one_task (Date 2026 10 12 9 0)) schedulerTable ''t2''
     (SDef \<lparr>st_id = ''t2'', st_kind = ''monitor'', st_payload = ''{}'', st_run_at = RFC3339 0, st_created = RFC3339 0\<rparr>)"

theorem a_task_at_the_zero_time_is_slept_past:
  "ScheduleTask mem_store (Some (one_task (Date 2026 10 12 9 0))) ''t2'' ''monitor'' (Some ''{}'') 0 0 = Inr (''t2'', two_tasks)"
  "nextSleepDuration mem_store two_tasks now = 24 * hour"
  "now = Date 2026 10 12 8 0 \<Longrightarrow> length (fst (fireDueTasks mem_store (\<lambda>_. now) [''monitor''] two_tasks)) = 1"
proof -
  show "ScheduleTask mem_store (Some (one_task (Date 2026 10 12 9 0))) ''t2'' ''monitor'' (Some ''{}'') 0 0 = Inr (''t2'', two_tasks)"
    by (simp add: ScheduleTask_def two_tasks_def)
  have "foldl earlier_of 0 (rows mem_store two_tasks schedulerTable) = 0" by code_simp
  then show "nextSleepDuration mem_store two_tasks now = 24 * hour" by (simp add: nextSleepDuration_def)
  have "length (fst (fireDueTasks mem_store (\<lambda>_. Date 2026 10 12 8 0) [''monitor''] two_tasks)) = 1" by code_simp
  then show "now = Date 2026 10 12 8 0 \<Longrightarrow> length (fst (fireDueTasks mem_store (\<lambda>_. now) [''monitor''] two_tasks)) = 1" by simp
qed

end
