(* ===== verification/Spec2Isabelle.thy ===== *)
theory Spec2Isabelle
  imports MachineAdvice MachineEdit MachineOutcomes MachineStore PipelineBlocks PipelineEdit PipelineOutcomes
    PipelineGraph PipelineCost PathScopes AgentBudget AgentFailures PersistentQueue RateLimits Pacing Scheduler
begin

text \<open>
  A verification development for gohort's two runtimes: machines, conversations and unattended runs driven by a
  declared graph of steps (\<open>src/core/machine*.go\<close>), and pipelines, lists of stages run one after another with
  loops, fan-outs and jumps (\<open>src/core/pipeline*.go\<close>); with the declared-output code they share
  (\<open>pipeline_interp.go\<close>, \<open>pipeline_validate_refs.go\<close>, \<open>search.go\<close>), the numbered sources of a run
  (\<open>src/core/sources\<close>) and the kept versions of definitions (\<open>src/core/revisions/revisions.go\<close>); and for what decides
  when and whether they run: schedules (\<open>src/core/timing/timing.go\<close>, \<open>cron.go\<close>, \<open>pacing/pacing.go\<close>), the task
  scheduler (\<open>scheduler.go\<close>), the persistent queue (\<open>pqueue.go\<close>) and the rate limiter (\<open>ratelimit.go\<close>); for the
  pictures of both and a pipeline's cost before it runs (\<open>workflow_graph.go\<close>, \<open>machine_graph.go\<close>,
  \<open>pipeline_graph.go\<close>, \<open>pipeline_plan.go\<close>); and for what an agent's loop holds a tool call to: its arguments
  (\<open>llm.go\<close>), its paths (\<open>path_scope.go\<close>), its budgets (\<open>agent_loop_budget.go\<close>, \<open>cost.go\<close>) and the failures that
  went before it (\<open>agent_loop_failures.go\<close>).

  The program. A \<open>MachineDef\<close> is a list of named steps (\<open>MachinePhase\<close>). A session over it is a
  \<open>MachineCursor\<close>: the step the conversation is in, a blackboard of step results, a trail of moves and the
  message that opened it. Each message runs \<open>AdvanceMachine\<close>: the guard of a waiting step may move the
  conversation, then transient steps run one after another, each handing its decoded fields to the
  blackboard and choosing where to go next, until a step that waits for the person. \<open>RunUnattended\<close> walks
  to a finishing step instead; \<open>ChangePhase\<close> moves mid-turn; \<open>CompleteTurn\<close> closes a turn. Editors call
  \<open>Validate\<close>, \<open>Advice\<close>, \<open>Repair\<close>, \<open>RenameStep\<close> and \<open>RemoveStep\<close>, and the store keeps ten superseded versions.
  A \<open>PipelineDef\<close> is a list of stages (\<open>PipelineStage\<close>), some with a body of their own. A run
  (\<open>executePipelineHooks\<close>) validates it and walks the list: each stage's prompt refers to the outputs before it,
  its kind says what answers (a model, an agent, a tool, a machine, a panel, a gather, a verify), and its text
  and typed fields are recorded under its name. A stage's progress goes to a sink as a transcript of blocks, and
  what its tools read is numbered in the run's source list, which citations are printed from and checked against.
  A \<open>Spec\<close> says on which days and how often something fires; \<open>Next\<close> answers the next moment, an attempt may ask for
  a later one through \<open>set_next_attempt\<close>, and \<open>ScheduleTask\<close> files a task for the moment as a row of a table, which
  the scheduler's loop sleeps to, takes out and hands to its handler. Work that must survive a restart is a row of
  the queue's table, and \<open>RateLimiter\<close> counts what one caller may ask for. An editor shows a machine or a pipeline as
  a \<open>WorkflowGraph\<close>, laid out and drawn by \<open>SVG\<close>, and \<open>Plan\<close> says what a pipeline will do and how many model calls it
  takes. An agent's loop parses what a model sent for a tool (\<open>parseToolArgs\<close>), proves the paths among it
  (\<open>ResolveScopedArgs\<close>), asks its budgets for the action and the day's money (\<open>actionQuotaRefusal\<close>, \<open>overDailySpend\<close>) and
  charges them after, counts the failures of a call over the history, and sweeps repeated ones out of what
  the model reads.

  The theories, in the order they build on one another.
  \<^item> \<open>Prelude\<close>: the Go string functions the code calls, on byte strings, and facts on lists and maps.
  \<^item> \<open>GoValue\<close>: decoded JSON values and their text (\<open>renderFieldValue\<close>, \<open>readableFieldValue\<close>). What the Go
    standard library computes (JSON decoding, number formatting and parsing) is the record \<open>golib\<close>, an
    argument of every definition that uses it.
  \<^item> \<open>OutputFields\<close>: field declarations, their validation, the contract a prompt ends with, the extraction
    of JSON from a reply and its decoding against the declaration.
  \<^item> \<open>MachineModel\<close>: the data, the lookups, the built-in variables and where a step's result routes.
  \<^item> \<open>MachineReach\<close>: which of a catalog's tools a step is handed (\<open>machine_routing.go\<close>).
  \<^item> \<open>MachineState\<close>: the cursor, moves, resuming and accumulated lists (\<open>machine.go\<close>, \<open>machine_accum.go\<close>).
  \<^item> \<open>MachineChecks\<close>: every problem \<open>Validate\<close> reports. \<open>MachineAdvice\<close>: the advisories, with reachability.
  \<^item> \<open>MachineEdit\<close>: renaming, removing and repairing (\<open>machine_def.go\<close>, \<open>machine_repair.go\<close>).
  \<^item> \<open>MachinePrompt\<close>: the text a step is sent (\<open>machine_prompt.go\<close>, \<open>machine_phase.go\<close>, \<open>machine_guard.go\<close>).
  \<^item> \<open>MachineWalk\<close>: the driver, over a host. \<open>MachineTurns\<close> and \<open>MachineOutcomes\<close>: what a turn guarantees.
  \<^item> \<open>Revisions\<close>: the ring of kept versions over a key-value store. \<open>MachineStore\<close>: the stored machines.
  \<^item> \<open>RunSources\<close>: the numbered registry of pages, a run's readings and claims, and citations in text.
  \<^item> \<open>PipelineModel\<close>: stages and definitions, their settings, and references in prompts. \<open>PipelineChecks\<close> and
    \<open>PipelineValidate\<close>: every problem of a stage, and of a definition as a whole. \<open>PipelineEdit\<close>: renaming and
    removing a stage (\<open>pipeline_edit.go\<close>).
  \<^item> \<open>PipelineHost\<close>: the state of a run, its events, and what it asks of its host. \<open>PipelineSources\<close>: the gather
    and verify stages. \<open>PipelineRun\<close>: loops, fan-outs, panels, machine and tool stages, each over the walk of
    its body. \<open>PipelineExec\<close>: one stage (\<open>runStage\<close>), the walk (\<open>runList\<close>) and the run.
  \<^item> \<open>PipelineMoves\<close>, \<open>PipelineEnds\<close>, \<open>PipelineBlocks\<close>, \<open>PipelineSteps\<close>, \<open>PipelineOutcomes\<close>: what a run keeps, that
    it ends, its transcript, its single steps and what each kind of stage guarantees.
  \<^item> \<open>GoTime\<close>: the calendar of Go's \<open>time\<close> package, with the lemmas that make it one. \<open>TimeText\<close>: moments as
    RFC 3339 text, read back, and ordered as text the way they are ordered in time.
  \<^item> \<open>Timing\<close>: \<open>Spec\<close>, its validation, \<open>Next\<close>, its label and the old forms. \<open>TimingFires\<close>: what \<open>Next\<close> promises.
    \<open>Cron\<close>: \<open>NextCronOccurrence\<close>, compared with \<open>Next\<close>, and the daily window. \<open>Pacing\<close>: \<open>set_next_attempt\<close>.
  \<^item> \<open>Tables\<close>: a table of the key-value store read row by row. \<open>PersistentQueue\<close> and \<open>Scheduler\<close>: two such tables,
    the second with a relation whose steps are the single reads and writes of concurrent callers.
  \<^item> \<open>RateLimits\<close>: the limiter, its cap on tracked keys, and what a run of calls can let through.
  \<^item> \<open>WorkflowGraph\<close>: a graph, its rows and the places of its boxes. \<open>WorkflowSVG\<close>: its picture, with a reader of
    XML to hold it against. \<open>MachineGraph\<close> and \<open>PipelineGraph\<close>: the graphs of a machine and of a pipeline.
  \<^item> \<open>PipelinePlan\<close>: \<open>Plan\<close> and its summary. \<open>PipelineCost\<close>: the calls of a run beside the plan's, counted by a host that
    counts (\<open>counted_host\<close>), a tool loop for as many calls as it makes.
  \<^item> \<open>PathScopes\<close>: the registered roots and the arguments limited to them. \<open>AgentBudget\<close>: quotas and spend, a round of
    calls, and charges whose reads and writes fall between each other. \<open>ToolArgs\<close>: the arguments of a call,
    read, repaired and put as text. \<open>AgentFailures\<close>: the shape of a failure, the sweeps, the counts and the memory.

  How the code's state corresponds. A Go struct is a record with the fields of the source under a
  prefix; a Go map is an association list, one entry per key where the order of a walk over it can
  matter and the code sorts, and a set of names is a list. A machine passed by value is a value; a cursor
  changed through a pointer is returned updated, and so is the part of a \<open>pipelineRun\<close> that changes
  (\<open>run_state\<close>), beside the part that does not (\<open>run_env\<close>). A function that reports through \<open>note\<close> returns the notes.
  An error is the left of a sum; a problem, an advisory or a note is a constructor holding the values its
  sentence quotes, so which sentence is sent with which values is modelled and its wording is not.
  The runner a host supplies (\<open>PhaseRunner\<close>), its clock and whether its context is over are the record
  \<open>'w host\<close>, and the models, agents, machines, tools, guardrails and page extraction of a pipeline are the
  record \<open>'w pipe_host\<close>: either may answer anything and change a world of its own, so what is proved of a turn
  or a run holds whatever they say. Excerpts, figures, claims and weak sources are the record \<open>readers\<close>.
  A fresh identifier, the time of a save, what the clock reads and what a random draw gives are arguments; a time is
  a number of nanoseconds on the clock of its location, and a duration wraps at 64 bits where the code multiplies.
  Where the code starts goroutines over a list and waits for all of them, the model runs them in index order, each
  on the state the one before left; the scheduler's callers and the charges of a round are the exceptions, relations
  whose steps are single reads and writes. A state is a value, so a branch's outputs cannot be the parent's map:
  that \<open>forBranch\<close> copies the map is what the reading rests on, and is not something the model can show.

  Bounds. A machine's walk is recursion on the transitions left, from \<open>hopCap\<close>: \<open>MaxPhaseTransitions\<close> (4) for a
  conversation and \<open>MaxUnattendedTransitions\<close> (100) for a run, which is the source's own bound. A pipeline's walk
  can go in a circle, so \<open>run_at\<close> has fuel and running out is \<open>None\<close>: \<open>fuel_for\<close> counts the stages of a
  definition, bodies included, and \<open>a_validated_pipeline_returns\<close> shows that it is enough and that more
  changes nothing; \<open>a_run_is_its_steps\<close> ties the fuelled walk to single steps that have none. The search over
  the wiring, the cycle check, the rows of a picture and the scans over text are recursive with termination proofs.
  The cost of a run is bounded in \<open>K\<close>, the most model calls one tool loop makes, which the code does not bound by a
  constant. Durations are 64-bit; where a statement needs one not to wrap it says up to what it holds.

  What the lemmas show. Interfaces are locales, each interpreted on the model: \<open>narrowing\<close> and
  \<open>narrowing2\<close> (a stage of tool narrowing returns a subsequence), \<open>cursor_moves\<close> and \<open>blackboard\<close> (an
  invariant every cursor operation keeps is kept by every turn), \<open>counted\<close> (a cost each runner call adds
  one to), \<open>kv_store\<close>, \<open>machine_store\<close>, \<open>queue_store\<close> and \<open>task_store\<close> (what a lookup returns after a write), \<open>call_moves\<close>,
  \<open>event_moves\<close>, \<open>stage_moves\<close> and \<open>run_moves\<close> (a relation every call, every event and every recorded output
  keeps is kept by every run), \<open>metered\<close> (a host whose calls each cost at most so much), \<open>charging\<close> (a way to charge a
  round that leaves enough stamps of it, in order or at once). The properties: what validation promises the driver and the drivers' own
  guarantees (a walk stops where it says, a turn's calls are bounded, accumulated lists survive, a sound
  machine fails only in a step; a validated pipeline returns, its transcript is well bracketed, its prompts find
  what they refer to, its sources keep their numbers); exactness of the searches; what an edit or a repair
  changes and what it must not; decoded replies are typed; histories never reuse a number; imports never
  overwrite; rollbacks restore; a valid schedule always fires again, at the first moment it names or in its window,
  and the two readers of its old forms agree; the loop sleeps past no task and a task fires once however callers
  interleave; the queue is a list and the limiter lets less than twice its limit through; pictures are well formed,
  their boxes apart and a machine's arrows its routes; a run costs what its plan allows; scoped paths are proved,
  budgets are billed in full and an action keeps its allowance; parsed arguments keep what was sent; a sweep leaves a
  full copy before what it collapses, and the guard counts streaks. Each says under which hypotheses. A few show
  where the code does less than it means to:
  \<open>RenameStep_leaves_exits\<close>, \<open>Repair_takes_from_a_sound_machine\<close>, \<open>capital_reach_is_not_narrowed\<close>,
  \<open>capital_choice_decodes_and_falls_back\<close>, \<open>list_as_start_validates_and_cannot_run\<close>,
  \<open>padded_name_validates_and_cannot_run\<close>, \<open>a_padded_jump_can_walk_in_a_circle\<close>,
  \<open>a_stage_without_agents_leaves_its_block_open\<close>, \<open>a_prompt_depends_on_the_map_order\<close>,
  \<open>a_huge_citation_wraps_to_a_source\<close>, \<open>edits_miss_what_a_verify_checks\<close>, \<open>a_cancelled_task_comes_back\<close>,
  \<open>a_burst_passes_the_limit\<close>, \<open>a_long_interval_goes_back\<close>, \<open>a_leap_day_is_not_found\<close>, \<open>a_huge_wait_is_the_shortest\<close>,
  \<open>a_task_at_the_zero_time_is_slept_past\<close>, \<open>a_brace_in_the_new_name_loses_the_reference\<close>,
  \<open>a_control_byte_is_not_xml\<close>, \<open>a_padded_next_has_no_arrow\<close>, \<open>a_choice_in_another_case_has_no_arrow\<close>,
  \<open>the_fallback_note_names_no_field\<close>, \<open>the_legend_promises_arrows_that_are_not_there\<close>,
  \<open>the_count_stops_with_the_log\<close>, \<open>a_padded_kind_is_never_found\<close>, \<open>a_repair_is_not_in_the_plan\<close>,
  \<open>a_tool_loop_is_not_in_the_plan\<close>, \<open>a_count_from_the_run_is_not_in_the_plan\<close>,
  \<open>an_agent_in_a_body_leaves_the_figure_exact\<close>, \<open>a_round_runs_past_the_allowance\<close>, \<open>charges_at_once_are_lost\<close>,
  \<open>long_arguments_share_a_signature\<close>, \<open>a_small_object_is_taken_for_an_echo\<close>, \<open>markers_are_collapsed_again\<close>,
  \<open>another_tools_failure_is_retired\<close>, \<open>a_carried_failure_renews_its_lease\<close>, \<open>a_remembered_call_gets_no_try\<close>.

  Not modelled: nil cursors, runners, sinks and databases (the guards that return at once); contexts but for
  cancellation, and mutexes; HTTP, the hooks applications install, the depth of machines within machines;
  status lines, elapsed times, the log, and the interleaving of goroutines outside the scheduler's table and a
  round's charges; locations whose offset from UTC changes, on which \<open>NextCronOccurrence\<close> (the hour on the wall)
  and \<open>Next\<close> (minutes since midnight) part for a day; the scheduler's timer, channel and reconcilers; 64-bit
  rounding in prices; a map shared by what holds it. \<open>strings.ToLower\<close> folds ASCII
  letters only, so names are taken to be ASCII where case is ignored. The order \<open>sort.Slice\<close> gives equal
  times is not fixed by the code; the model's sort is stable. Go's order over a map is the list's order where
  the code does not sort, so a statement for every list is one for every order.
\<close>

end
